(* ===== verification/Prelude.thy ===== *)
theory Prelude
  imports Main "HOL-Library.Word" "HOL-Library.Multiset"
begin

text \<open>
  What every component of the development shares: the machine types of the C sources, the
  bounds-checked view of a block of memory (a list of cells, an access outside it being
  \<open>None\<close>), the bit-scan intrinsics the sources call, and generic lemmas on lists and words.
\<close>

unbundle bit_operations_syntax

type_synonym byte = "8 word"
type_synonym u16 = "16 word"
type_synonym u32 = "32 word"
type_synonym u64 = "64 word"

named_theorems mem_simps \<open>bounds-checked memory accesses\<close>
named_theorems word_facts \<open>bitwise operations as arithmetic\<close>

section \<open>Memory blocks\<close>

text \<open>
  A C buffer is a list of cells. Every access of the models goes through the four operations
  below; an access outside the block, which is undefined behaviour in C, is \<open>None\<close>.
\<close>

definition load :: "'a list \<Rightarrow> nat \<Rightarrow> 'a option" where
  "load m i = (if i < length m then Some (m ! i) else None)"

definition store :: "'a list \<Rightarrow> nat \<Rightarrow> 'a \<Rightarrow> 'a list option" where
  "store m i v = (if i < length m then Some (m[i := v]) else None)"

definition read_block :: "'a list \<Rightarrow> nat \<Rightarrow> nat \<Rightarrow> 'a list option" where
  "read_block m off n = (if off + n \<le> length m then Some (take n (drop off m)) else None)"

definition write_block :: "'a list \<Rightarrow> nat \<Rightarrow> 'a list \<Rightarrow> 'a list option" where
  "write_block m off xs =
     (if off + length xs \<le> length m
      then Some (take off m @ xs @ drop (off + length xs) m) else None)"

lemma load_Some [mem_simps]: "i < length m \<Longrightarrow> load m i = Some (m ! i)"
  by (simp add: load_def)

lemma load_None [mem_simps]: "length m \<le> i \<Longrightarrow> load m i = None"
  by (simp add: load_def)

lemma store_Some [mem_simps]: "i < length m \<Longrightarrow> store m i v = Some (m[i := v])"
  by (simp add: store_def)

lemma read_block_Some [mem_simps]:
  "off + n \<le> length m \<Longrightarrow> read_block m off n = Some (take n (drop off m))"
  by (simp add: read_block_def)

lemma write_block_Some [mem_simps]:
  "off + length xs \<le> length m \<Longrightarrow>
   write_block m off xs = Some (take off m @ xs @ drop (off + length xs) m)"
  by (simp add: write_block_def)

lemma load_eq_SomeD: "load m i = Some v \<Longrightarrow> i < length m \<and> v = m ! i"
  by (auto simp: load_def split: if_splits)

lemma length_write_block: "write_block m off xs = Some m' \<Longrightarrow> length m' = length m"
  by (auto simp: write_block_def split: if_splits)

lemma read_write_block:
  "write_block m off xs = Some m' \<Longrightarrow> read_block m' off (length xs) = Some xs"
  by (auto simp: write_block_def read_block_def split: if_splits)

lemma read_write_other:
  assumes "write_block m off xs = Some m'" "q + n \<le> off \<or> off + length xs \<le> q"
  shows "read_block m' q n = read_block m q n"
proof -
  from assms(1) have len: "off + length xs \<le> length m" and m': "m' = take off m @ xs @ drop (off + length xs) m"
    by (auto simp: write_block_def split: if_splits)
  have lm: "length m' = length m" using len m' by simp
  have "take n (drop q m') = take n (drop q m)" if "q + n \<le> length m"
  proof (rule nth_equalityI)
    fix i assume "i < length (take n (drop q m'))"
    then show "take n (drop q m') ! i = take n (drop q m) ! i"
      using assms(2) len m' that by (auto simp: nth_append)
  qed (use lm that in simp)
  then show ?thesis by (simp add: read_block_def lm)
qed

lemma take_drop_take: "off + n \<le> k \<Longrightarrow> take n (drop off (take k xs)) = take n (drop off xs)"
  by (simp add: drop_take min_absorb1)

section \<open>Exchanging cells\<close>

definition swap :: "'a list \<Rightarrow> nat \<Rightarrow> nat \<Rightarrow> 'a list" where
  "swap xs i j = xs[i := xs ! j, j := xs ! i]"

lemma length_swap [simp]: "length (swap xs i j) = length xs"
  by (simp add: swap_def)

lemma mset_swap_in [simp]:
  "i < length xs \<Longrightarrow> j < length xs \<Longrightarrow> mset (swap xs i j) = mset xs"
  by (simp add: swap_def mset_swap)

lemma swap_nth:
  "i < length xs \<Longrightarrow> j < length xs \<Longrightarrow> k < length xs \<Longrightarrow>
   swap xs i j ! k = (if k = i then xs ! j else if k = j then xs ! i else xs ! k)"
  by (auto simp: swap_def nth_list_update)

lemma swap_same [simp]: "swap xs i i = xs"
  by (simp add: swap_def)

section \<open>Bit scans\<close>

text \<open>
  The intrinsics \<open>_BitScanForward\<close> and \<open>_BitScanReverse\<close> (and their 64-bit forms):
  the index of the lowest or highest set bit, and no index for zero.
\<close>

definition bit_scan_forward :: "'a::len word \<Rightarrow> nat option" where
  "bit_scan_forward a =
     (if a = 0 then None
      else Some (length (takeWhile (\<lambda>i. \<not> bit a i) [0..<LENGTH('a)])))"

definition bit_scan_reverse :: "'a::len word \<Rightarrow> nat option" where
  "bit_scan_reverse a =
     (if a = 0 then None
      else Some (LENGTH('a) - 1 - length (takeWhile (\<lambda>i. \<not> bit a i) (rev [0..<LENGTH('a)]))))"

lemma word_nonzero_bit: "(a::'a::len word) \<noteq> 0 \<Longrightarrow> \<exists>i<LENGTH('a). bit a i"
  using bit_word_eqI [of a 0] by auto

lemma bit_scan_forward_props:
  assumes "bit_scan_forward (a::'a::len word) = Some k"
  shows "k < LENGTH('a)" "bit a k" "\<And>i. i < k \<Longrightarrow> \<not> bit a i"
proof -
  let ?P = "\<lambda>i. \<not> bit a i"
  let ?tw = "takeWhile ?P [0..<LENGTH('a)]"
  from assms have nz: "a \<noteq> 0" and k: "k = length ?tw"
    by (auto simp: bit_scan_forward_def split: if_splits)
  from nz obtain i where i: "i < LENGTH('a)" "bit a i"
    using word_nonzero_bit by blast
  have "\<not> (\<forall>x\<in>set [0..<LENGTH('a)]. ?P x)"
    using i by auto
  then have "?tw \<noteq> [0..<LENGTH('a)]"
    by (metis takeWhile_eq_all_conv)
  then have lt: "length ?tw < LENGTH('a)"
    by (metis length_takeWhile_le length_upt diff_zero nat_less_le takeWhile_eq_take take_all_iff)
  then show kl: "k < LENGTH('a)" using k by simp
  have "\<not> ?P ([0..<LENGTH('a)] ! length ?tw)"
    by (rule nth_length_takeWhile) (use lt in simp)
  then show "bit a k" using kl k by simp
  fix i assume "i < k"
  then have "?P (?tw ! i)"
    using k nth_mem set_takeWhileD by fastforce
  moreover have "?tw ! i = [0..<LENGTH('a)] ! i"
    using \<open>i < k\<close> k takeWhile_nth by blast
  ultimately show "\<not> bit a i"
    using \<open>i < k\<close> kl by simp
qed

lemma bit_scan_forward_None [simp]: "bit_scan_forward a = None \<longleftrightarrow> a = 0"
  by (simp add: bit_scan_forward_def)

lemma bit_scan_forward_zero [simp]: "bit_scan_forward 0 = None"
  by simp

section \<open>Bitwise operations as arithmetic\<close>

lemma unat_less_length: "unat (w::'a::len word) < 2 ^ LENGTH('a)"
  by (rule unsigned_less)

lemma or_eq_add [word_facts]: "a AND b = 0 \<Longrightarrow> a OR b = a + (b::'a::len word)"
  by (simp add: disjunctive_add_eq_or)

lemma unat_drop_bit [word_facts]: "unat (drop_bit n (w::'a::len word)) = unat w div 2 ^ n"
  unfolding unat_drop_bit_eq by (rule drop_bit_eq_div)

lemma unat_and_mask [word_facts]: "unat (w AND mask n :: 'a::len word) = unat w mod 2 ^ n"
  by (simp flip: take_bit_eq_mask take_bit_eq_mod add: unsigned_take_bit_eq)

end
