(* ===== verification/Cutils.thy ===== *)
theory Cutils
  imports Prelude "HOL-Library.Sublist"
begin

text \<open>
  The scalar part of \<open>BugChecker/QuickJS/cutils.h\<close> and \<open>cutils.c\<close>: the
  unaligned little-endian accessors, byte swaps, bit counts (the \<open>_MSC_VER\<close> branches, which
  are the ones the driver is built with) and the bounded C-string helpers. A C string is a memory
  block in which a zero cell follows the characters; reading past the block is \<open>None\<close>.
\<close>

section \<open>Scalars\<close>

definition max_int :: "int \<Rightarrow> int \<Rightarrow> int" where
  "max_int a b = (if a > b then a else b)"

definition min_int :: "int \<Rightarrow> int \<Rightarrow> int" where
  "min_int a b = (if a < b then a else b)"

definition max_uint32 :: "u32 \<Rightarrow> u32 \<Rightarrow> u32" where
  "max_uint32 a b = (if a > b then a else b)"

definition min_uint32 :: "u32 \<Rightarrow> u32 \<Rightarrow> u32" where
  "min_uint32 a b = (if a < b then a else b)"

definition max_int64 :: "int \<Rightarrow> int \<Rightarrow> int" where
  "max_int64 a b = (if a > b then a else b)"

definition min_int64 :: "int \<Rightarrow> int \<Rightarrow> int" where
  "min_int64 a b = (if a < b then a else b)"

text \<open>\<open>31 ^ idx\<close> on the index the intrinsic stores; no value where the intrinsic stores none.\<close>

definition clz32 :: "u32 \<Rightarrow> nat option" where
  "clz32 a = map_option (\<lambda>idx. 31 XOR idx) (bit_scan_reverse a)"

definition clz64 :: "u64 \<Rightarrow> nat" where
  "clz64 a = (case bit_scan_reverse a of Some w \<Rightarrow> 63 - w | None \<Rightarrow> 64)"

definition ctz32 :: "u32 \<Rightarrow> nat option" where
  "ctz32 a = map_option (\<lambda>idx. 31 XOR idx) (bit_scan_forward a)"

definition ctz64 :: "u64 \<Rightarrow> nat" where
  "ctz64 a = (case bit_scan_forward a of Some w \<Rightarrow> w | None \<Rightarrow> 64)"

definition bswap16 :: "u16 \<Rightarrow> u16" where
  "bswap16 x = drop_bit 8 x OR push_bit 8 x"

definition bswap32 :: "u32 \<Rightarrow> u32" where
  "bswap32 v =
     (drop_bit 24 (v AND 0xff000000) OR drop_bit 8 (v AND 0x00ff0000)) OR
     (push_bit 8 (v AND 0x0000ff00) OR push_bit 24 (v AND 0x000000ff))"

definition bswap64 :: "u64 \<Rightarrow> u64" where
  "bswap64 v =
     drop_bit (7 * 8) (v AND push_bit (7 * 8) 0xff) OR
     drop_bit (5 * 8) (v AND push_bit (6 * 8) 0xff) OR
     drop_bit (3 * 8) (v AND push_bit (5 * 8) 0xff) OR
     drop_bit (1 * 8) (v AND push_bit (4 * 8) 0xff) OR
     push_bit (1 * 8) (v AND push_bit (3 * 8) 0xff) OR
     push_bit (3 * 8) (v AND push_bit (2 * 8) 0xff) OR
     push_bit (5 * 8) (v AND push_bit (1 * 8) 0xff) OR
     push_bit (7 * 8) (v AND push_bit (0 * 8) 0xff)"

definition from_hex :: "int \<Rightarrow> int" where
  "from_hex c =
     (if c \<ge> 48 \<and> c \<le> 57 then c - 48
      else if c \<ge> 65 \<and> c \<le> 70 then c - 65 + 10
      else if c \<ge> 97 \<and> c \<le> 102 then c - 97 + 10
      else -1)"

section \<open>Little-endian accessors\<close>

fun le_value :: "byte list \<Rightarrow> nat" where
  "le_value [] = 0"
| "le_value (b # bs) = unat b + 256 * le_value bs"

fun le_bytes :: "nat \<Rightarrow> nat \<Rightarrow> byte list" where
  "le_bytes 0 v = []"
| "le_bytes (Suc n) v = word_of_nat v # le_bytes n (v div 256)"

definition get_u64 :: "byte list \<Rightarrow> nat \<Rightarrow> u64 option" where
  "get_u64 tab p = map_option (\<lambda>bs. word_of_nat (le_value bs)) (read_block tab p 8)"

definition get_i64 :: "byte list \<Rightarrow> nat \<Rightarrow> int option" where
  "get_i64 tab p = map_option sint (get_u64 tab p)"

definition put_u64 :: "byte list \<Rightarrow> nat \<Rightarrow> u64 \<Rightarrow> byte list option" where
  "put_u64 tab p v = write_block tab p (le_bytes 8 (unat v))"

definition get_u32 :: "byte list \<Rightarrow> nat \<Rightarrow> u32 option" where
  "get_u32 tab p = map_option (\<lambda>bs. word_of_nat (le_value bs)) (read_block tab p 4)"

definition get_i32 :: "byte list \<Rightarrow> nat \<Rightarrow> int option" where
  "get_i32 tab p = map_option sint (get_u32 tab p)"

definition put_u32 :: "byte list \<Rightarrow> nat \<Rightarrow> u32 \<Rightarrow> byte list option" where
  "put_u32 tab p v = write_block tab p (le_bytes 4 (unat v))"

definition get_u16 :: "byte list \<Rightarrow> nat \<Rightarrow> u32 option" where
  "get_u16 tab p = map_option (\<lambda>bs. word_of_nat (le_value bs)) (read_block tab p 2)"

definition get_i16 :: "byte list \<Rightarrow> nat \<Rightarrow> int option" where
  "get_i16 tab p = map_option (\<lambda>bs. sint (word_of_nat (le_value bs) :: u16)) (read_block tab p 2)"

definition put_u16 :: "byte list \<Rightarrow> nat \<Rightarrow> u16 \<Rightarrow> byte list option" where
  "put_u16 tab p v = write_block tab p (le_bytes 2 (unat v))"

definition get_u8 :: "byte list \<Rightarrow> nat \<Rightarrow> u32 option" where
  "get_u8 tab p = map_option ucast (load tab p)"

definition get_i8 :: "byte list \<Rightarrow> nat \<Rightarrow> int option" where
  "get_i8 tab p = map_option sint (load tab p)"

definition put_u8 :: "byte list \<Rightarrow> nat \<Rightarrow> byte \<Rightarrow> byte list option" where
  "put_u8 tab p v = store tab p v"

section \<open>C strings\<close>

text \<open>\<open>strlen\<close> of the string that starts at the head of a block.\<close>

fun strlen :: "byte list \<Rightarrow> nat option" where
  "strlen [] = None"
| "strlen (c # m) = (if c = 0 then Some 0 else map_option Suc (strlen m))"

text \<open>
  \<open>pstrcpy\<close> writes at \<open>q\<close> into the block \<open>buf\<close>; \<open>lim\<close> is
  \<open>buf + buf_size - 1\<close>, the last position it may write.
\<close>

fun pstrcpy_loop :: "byte list \<Rightarrow> nat \<Rightarrow> nat \<Rightarrow> byte list \<Rightarrow> byte list option" where
  "pstrcpy_loop buf q lim [] = None"
| "pstrcpy_loop buf q lim (c # str) =
     (if c = 0 \<or> q \<ge> lim then store buf q 0
      else case store buf q c of
             None \<Rightarrow> None
           | Some buf' \<Rightarrow> pstrcpy_loop buf' (Suc q) lim str)"

definition pstrcpy :: "byte list \<Rightarrow> nat \<Rightarrow> int \<Rightarrow> byte list \<Rightarrow> byte list option" where
  "pstrcpy buf off buf_size str =
     (if buf_size \<le> 0 then Some buf
      else pstrcpy_loop buf off (off + nat buf_size - 1) str)"

definition pstrcat :: "byte list \<Rightarrow> int \<Rightarrow> byte list \<Rightarrow> byte list option" where
  "pstrcat buf buf_size s =
     (case strlen buf of
        None \<Rightarrow> None
      | Some len \<Rightarrow>
          if int len < buf_size then pstrcpy buf len (buf_size - int len) s else Some buf)"

text \<open>
  \<open>strstart\<close> returns 0 (\<open>None\<close> inside), or 1 with \<open>*ptr\<close> set to the rest of
  \<open>str\<close>; the outer \<open>None\<close> is a read outside a block.
\<close>

fun strstart :: "byte list \<Rightarrow> byte list \<Rightarrow> byte list option option" where
  "strstart p [] = None"
| "strstart p (c # q) =
     (if c = 0 then Some (Some p)
      else case p of
             [] \<Rightarrow> None
           | a # p' \<Rightarrow> if a \<noteq> c then Some None else strstart p' q)"

definition has_suffix :: "byte list \<Rightarrow> byte list \<Rightarrow> bool option" where
  "has_suffix str suff =
     (case (strlen str, strlen suff) of
        (Some len, Some slen) \<Rightarrow>
          Some (len \<ge> slen \<and> take slen (drop (len - slen) str) = take slen suff)
      | _ \<Rightarrow> None)"

section \<open>Accessor lemmas\<close>

lemma length_le_bytes [simp]: "length (le_bytes n v) = n"
  by (induction n v rule: le_bytes.induct) auto

lemma le_value_bound: "le_value bs < 256 ^ length bs"
proof (induction bs)
  case Nil
  then show ?case by simp
next
  case (Cons b bs)
  have "unat b < 256" using unat_less_length [of b] by simp
  with Cons show ?case by simp
qed

lemma le_value_le_bytes: "le_value (le_bytes n v) = v mod 256 ^ n"
proof (induction n v rule: le_bytes.induct)
  case (1 v)
  then show ?case by simp
next
  case (2 n v)
  have "unat (word_of_nat v :: byte) = v mod 256"
    by (simp add: unat_of_nat)
  with 2 show ?case
    by (simp add: mod_mult2_eq)
qed

text \<open>Evaluation works on words: the natural numbers above would be evaluated in unary.\<close>

fun le_word :: "byte list \<Rightarrow> 'a::len word" where
  "le_word [] = 0"
| "le_word (b # bs) = ucast b + push_bit 8 (le_word bs)"

fun word_bytes :: "nat \<Rightarrow> 'a::len word \<Rightarrow> byte list" where
  "word_bytes 0 v = []"
| "word_bytes (Suc n) v = ucast v # word_bytes n (drop_bit 8 v)"

lemma le_word_value: "le_word bs = word_of_nat (le_value bs)"
  by (induction bs) (simp_all add: push_bit_eq_mult)

lemma word_bytes_le_bytes: "word_bytes n v = le_bytes n (unat v)"
  by (induction n v rule: word_bytes.induct) (simp_all add: unat_drop_bit)

lemmas accessors_code [code] =
  get_u64_def [folded le_word_value] put_u64_def [folded word_bytes_le_bytes]
  get_u32_def [folded le_word_value] put_u32_def [folded word_bytes_le_bytes]
  get_u16_def [folded le_word_value] put_u16_def [folded word_bytes_le_bytes]

lemma le_bytes_le_value: "le_bytes (length bs) (le_value bs) = bs"
proof (induction bs)
  case Nil
  then show ?case by simp
next
  case (Cons b bs)
  have b: "unat b < 256" using unat_less_length [of b] by simp
  have "(256 :: byte) = 0" by simp
  then have "256 * k = (0 :: byte)" for k
    by (metis mult_zero_left)
  then have "(word_of_nat (unat b + 256 * le_value bs) :: byte) = b"
    by simp
  moreover have "(unat b + 256 * le_value bs) div 256 = le_value bs"
    using b by simp
  ultimately show ?case using Cons by simp
qed

lemma le_value_inj: "length xs = length ys \<Longrightarrow> le_value xs = le_value ys \<Longrightarrow> xs = ys"
  by (metis le_bytes_le_value)

lemma get_put_u32: "put_u32 tab p v = Some tab' \<Longrightarrow> get_u32 tab' p = Some v"
proof -
  assume "put_u32 tab p v = Some tab'"
  then have "read_block tab' p 4 = Some (le_bytes 4 (unat v))"
    using read_write_block [of tab p "le_bytes 4 (unat v)" tab'] by (simp add: put_u32_def)
  moreover have "unat v mod 256 ^ 4 = unat v"
    using unat_less_length [of v] by simp
  ultimately show ?thesis
    by (simp add: get_u32_def le_value_le_bytes)
qed

lemma get_put_u64: "put_u64 tab p v = Some tab' \<Longrightarrow> get_u64 tab' p = Some v"
proof -
  assume "put_u64 tab p v = Some tab'"
  then have "read_block tab' p 8 = Some (le_bytes 8 (unat v))"
    using read_write_block [of tab p "le_bytes 8 (unat v)" tab'] by (simp add: put_u64_def)
  moreover have "unat v mod 256 ^ 8 = unat v"
    using unat_less_length [of v] by simp
  ultimately show ?thesis
    by (simp add: get_u64_def le_value_le_bytes)
qed

lemma get_put_u64_other:
  "put_u64 tab p v = Some tab' \<Longrightarrow> q + 8 \<le> p \<or> p + 8 \<le> q \<Longrightarrow> get_u64 tab' q = get_u64 tab q"
  using read_write_other [of tab p "le_bytes 8 (unat v)" tab' q 8] by (simp add: put_u64_def get_u64_def)

lemma get_put_u16:
  "put_u16 tab p v = Some tab' \<Longrightarrow> get_u16 tab' p = Some (ucast v)"
proof -
  assume "put_u16 tab p v = Some tab'"
  then have "read_block tab' p 2 = Some (le_bytes 2 (unat v))"
    using read_write_block [of tab p "le_bytes 2 (unat v)" tab'] by (simp add: put_u16_def)
  moreover have "unat v mod 256 ^ 2 = unat v"
    using unat_less_length [of v] by simp
  ultimately show ?thesis
    by (simp add: get_u16_def le_value_le_bytes)
qed

section \<open>C-string lemmas\<close>

definition cstr :: "byte list \<Rightarrow> byte list \<Rightarrow> bool" where
  "cstr m x \<longleftrightarrow> 0 \<notin> set x \<and> (\<exists>junk. m = x @ 0 # junk)"

lemma strlen_cstr: "cstr m x \<Longrightarrow> strlen m = Some (length x)"
proof -
  have "0 \<notin> set x \<Longrightarrow> strlen (x @ 0 # junk) = Some (length x)" for junk
    by (induction x) auto
  then show "cstr m x \<Longrightarrow> ?thesis" by (auto simp: cstr_def)
qed

lemma take_cstr: "cstr m x \<Longrightarrow> take (length x) m = x"
  by (auto simp: cstr_def)

lemma suffix_iff_drop: "suffix v x \<longleftrightarrow> length v \<le> length x \<and> drop (length x - length v) x = v"
proof
  assume "length v \<le> length x \<and> drop (length x - length v) x = v"
  then have "x = take (length x - length v) x @ v"
    by (metis append_take_drop_id)
  then show "suffix v x" by (auto simp: suffix_def)
qed (auto simp: suffix_def)

lemma pstrcpy_loop_spec:
  assumes "0 \<notin> set x" and "q \<le> lim" and "lim < length buf"
  shows "pstrcpy_loop buf q lim (x @ 0 # junk) =
    (let y = take (lim - q) x
     in Some (take q buf @ y @ [0] @ drop (q + length y + 1) buf))"
  using assms
proof (induction x arbitrary: q buf)
  case Nil
  then show ?case by (simp add: store_def upd_conv_take_nth_drop)
next
  case (Cons c x)
  show ?case
  proof (cases "q = lim")
    case True
    with Cons.prems show ?thesis by (simp add: store_def upd_conv_take_nth_drop)
  next
    case False
    with Cons.prems have q: "Suc q \<le> lim" "q < length buf" "c \<noteq> 0" by auto
    then have "lim - q = Suc (lim - Suc q)" by simp
    with q Cons show ?thesis
      by (simp add: store_def Let_def take_Suc_conv_app_nth nth_list_update)
  qed
qed

lemma strstart_spec:
  assumes "0 \<notin> set v" and "0 \<notin> set x"
  shows "strstart (x @ 0 # junk) (v @ 0 # junk') =
    Some (if prefix v x then Some (drop (length v) x @ 0 # junk) else None)"
  using assms
proof (induction v arbitrary: x)
  case Nil
  then show ?case by simp
next
  case (Cons c v)
  then show ?case by (cases x) auto
qed

section \<open>Byte swaps and bit counts\<close>

lemma byte_masks32:
  "(0xff000000 :: u32) = push_bit 24 (mask 8)" "(0x00ff0000 :: u32) = push_bit 16 (mask 8)"
  "(0x0000ff00 :: u32) = push_bit 8 (mask 8)" "(0x000000ff :: u32) = mask 8"
  by (simp_all add: mask_eq_exp_minus_1 push_bit_eq_mult)

lemma byte_mask64: "(0xff :: u64) = mask 8"
  by (simp add: mask_eq_exp_minus_1)

lemmas bit_byte_simps = bit_or_iff bit_and_iff bit_drop_bit_eq bit_push_bit_iff bit_mask_iff

lemma bit_bswap16: "r < 8 \<Longrightarrow> q < 2 \<Longrightarrow> bit (bswap16 v) (8 * q + r) = bit v (8 * (1 - q) + r)"
proof -
  assume "q < 2"
  then have "q = 0 \<or> q = 1" by auto
  moreover have "bit v n \<Longrightarrow> n < 16" for n
    using bit_imp_le_length [of v n] by simp
  ultimately show "r < 8 \<Longrightarrow> ?thesis"
    unfolding bswap16_def by (elim disjE) (auto simp: bit_byte_simps)
qed

lemma bit_bswap32: "r < 8 \<Longrightarrow> q < 4 \<Longrightarrow> bit (bswap32 v) (8 * q + r) = bit v (8 * (3 - q) + r)"
proof -
  assume "q < 4"
  then have "q = 0 \<or> q = 1 \<or> q = 2 \<or> q = 3" by auto
  then show "r < 8 \<Longrightarrow> ?thesis"
    unfolding bswap32_def byte_masks32 by (elim disjE) (simp_all add: bit_byte_simps)
qed

lemma bit_bswap64: "r < 8 \<Longrightarrow> q < 8 \<Longrightarrow> bit (bswap64 v) (8 * q + r) = bit v (8 * (7 - q) + r)"
proof -
  assume "q < 8"
  then have "q = 0 \<or> q = 1 \<or> q = 2 \<or> q = 3 \<or> q = 4 \<or> q = 5 \<or> q = 6 \<or> q = 7" by auto
  then show "r < 8 \<Longrightarrow> ?thesis"
    unfolding bswap64_def byte_mask64 by (elim disjE) (simp_all add: bit_byte_simps)
qed

lemma xor_31: "k < 32 \<Longrightarrow> (31::nat) XOR k = 31 - k"
proof -
  have "\<forall>k\<in>set [0..<32]. (31::nat) XOR k = 31 - k" by code_simp
  then show "k < 32 \<Longrightarrow> ?thesis" by simp
qed

section \<open>Properties\<close>

text \<open>
  The unaligned 32-bit store and load of \<open>cutils.h\<close> are inverse: in a block that has room
  for four cells at \<open>p\<close>, \<open>put_u32\<close> succeeds, \<open>get_u32\<close> then reads the value
  back, and every cell outside \<open>p..p+3\<close> keeps its value.
\<close>

theorem put_get_u32:
  assumes "p + 4 \<le> length tab"
  shows "\<exists>tab'. put_u32 tab p v = Some tab' \<and> get_u32 tab' p = Some v \<and>
    length tab' = length tab \<and>
    (\<forall>i. (i < p \<or> p + 4 \<le> i) \<longrightarrow> i < length tab \<longrightarrow> tab' ! i = tab ! i)"
proof -
  let ?t = "take p tab @ le_bytes 4 (unat v) @ drop (p + 4) tab"
  have w: "put_u32 tab p v = Some ?t"
    using assms by (simp add: put_u32_def write_block_def)
  moreover have "\<forall>i. (i < p \<or> p + 4 \<le> i) \<longrightarrow> i < length tab \<longrightarrow> ?t ! i = tab ! i"
    using assms by (auto simp: nth_append)
  ultimately show ?thesis
    using get_put_u32 [OF w] assms by auto
qed

theorem put_get_u32_witness:
  "\<exists>tab'. put_u32 [1, 2, 3, 4, 5, 6] 1 0xDEADBEEF = Some tab' \<and> get_u32 tab' 1 = Some 0xDEADBEEF"
  using put_get_u32 [of 1 "[1, 2, 3, 4, 5, 6]" "0xDEADBEEF"] by auto

text \<open>
  \<open>pstrcpy\<close> copies a C string into a buffer of \<open>buf_size\<close> cells at \<open>off\<close> without
  leaving it: the buffer then holds the longest prefix of the string that fits with its terminator,
  the cells before \<open>off\<close> and behind the terminator are untouched, and the call never
  accesses memory outside the block.
\<close>

theorem pstrcpy_truncates:
  assumes "cstr str x" and "0 < buf_size" and "off + nat buf_size \<le> length buf"
  shows "pstrcpy buf off buf_size str =
    (let y = take (nat buf_size - 1) x
     in Some (take off buf @ y @ [0] @ drop (off + length y + 1) buf))"
proof -
  from assms(1) obtain junk where "0 \<notin> set x" "str = x @ 0 # junk"
    by (auto simp: cstr_def)
  then show ?thesis
    using assms(2,3) pstrcpy_loop_spec [of x off "off + nat buf_size - 1" buf junk]
    by (simp add: pstrcpy_def)
qed

theorem pstrcpy_truncates_witness:
  "pstrcpy [9, 9, 9, 9, 9] 1 3 [65, 66, 67, 68, 0] = Some [9, 65, 66, 0, 9]"
  using pstrcpy_truncates [of "[65, 66, 67, 68, 0]" "[65, 66, 67, 68]" 3 1 "[9, 9, 9, 9, 9]"]
  by (simp add: cstr_def)

text \<open>
  On two C strings \<open>strstart\<close> decides the prefix relation and, when it holds, returns the
  position right behind the prefix; \<open>has_suffix\<close> decides the suffix relation.
\<close>

theorem strstart_has_suffix:
  assumes "cstr m x" and "cstr m' v"
  shows "strstart m m' =
      Some (if prefix v x then Some (drop (length v) m) else None) \<and>
    has_suffix m m' = Some (suffix v x)"
proof -
  from assms obtain junk junk' where
    m: "0 \<notin> set x" "m = x @ 0 # junk" and m': "0 \<notin> set v" "m' = v @ 0 # junk'"
    by (auto simp: cstr_def)
  have "prefix v x \<Longrightarrow> drop (length v) m = drop (length v) x @ 0 # junk"
    using m by (auto simp: prefix_def)
  moreover have "length v \<le> length x \<Longrightarrow>
      take (length v) (drop (length x - length v) m) = drop (length x - length v) x"
    using m by simp
  ultimately show ?thesis
    using m m' strstart_spec [OF m'(1) m(1)] strlen_cstr [OF assms(1)] strlen_cstr [OF assms(2)]
    by (auto simp: has_suffix_def suffix_iff_drop)
qed

theorem strstart_has_suffix_witness:
  "strstart [97, 98, 99, 0] [97, 98, 0] = Some (Some [99, 0]) \<and>
   has_suffix [97, 98, 99, 0] [97, 98, 0] = Some False"
  using strstart_has_suffix [of "[97, 98, 99, 0]" "[97, 98, 99]" "[97, 98, 0]" "[97, 98]"]
  by (simp add: cstr_def suffix_def)

text \<open>
  The three byte swaps reverse the bytes of a value: bit \<open>r\<close> of byte \<open>q\<close> of the
  result is bit \<open>r\<close> of the byte at the mirrored position.
\<close>

theorem bswap_reverses_bytes:
  assumes "r < 8"
  shows "(q < 2 \<longrightarrow> bit (bswap16 v) (8 * q + r) = bit v (8 * (1 - q) + r)) \<and>
    (q < 4 \<longrightarrow> bit (bswap32 w) (8 * q + r) = bit w (8 * (3 - q) + r)) \<and>
    (q < 8 \<longrightarrow> bit (bswap64 x) (8 * q + r) = bit x (8 * (7 - q) + r))"
  using assms by (simp add: bit_bswap16 bit_bswap32 bit_bswap64)

theorem bswap_reverses_bytes_witness:
  "bit (bswap16 1) 8 \<and> bit (bswap32 1) 8 = bit (1 :: u32) 16 \<and> bit (bswap64 1) 8 = bit (1 :: u64) 48"
  using bswap_reverses_bytes [of 0 1 1 1 1] by simp

text \<open>
  \<open>ctz32\<close>, as compiled by MSVC, does not count trailing zeros: it returns 31 minus
  their number, because the branch combines the index of \<open>_BitScanForward\<close> with \<open>31 ^\<close>
  as if it came from the reverse scan, while \<open>ctz64\<close> returns the index itself, and 64 for zero.
\<close>

theorem ctz32_is_mirrored:
  "ctz32 a = map_option (\<lambda>k. 31 - k) (bit_scan_forward a) \<and>
   ctz64 b = (if b = 0 then 64 else the (bit_scan_forward b))"
proof -
  have "k < 32" if "bit_scan_forward a = Some k" for k
    using bit_scan_forward_props(1) [OF that] by simp
  then show ?thesis
    by (cases "bit_scan_forward a"; cases "bit_scan_forward b")
      (auto simp: ctz32_def ctz64_def xor_31)
qed

end
