(* ===== verification/Dyn_Buf.thy ===== *)
theory Dyn_Buf
  imports Cutils
begin

text \<open>
  The dynamic buffer package of \<open>BugChecker/QuickJS/cutils.c\<close> (\<open>DynBuf\<close>). The buffer's
  block is a list of \<open>allocated_size\<close> cells (the empty list is the null pointer), and the
  allocator behind \<open>realloc_func\<close> is a parameter that threads the state \<open>opaque\<close> points
  to. An operation returns the C result code and the new buffer, or \<open>None\<close> where it would
  access memory outside the block or call a null \<open>realloc_func\<close>. \<open>size_t\<close> is the 64-bit
  type of the x64 build, with its wrap-around written out.
\<close>

section \<open>The model\<close>

type_synonym 'o realloc_fn = "'o \<Rightarrow> byte list \<Rightarrow> nat \<Rightarrow> byte list option \<times> 'o"

record 'o DynBuf =
  db_buf :: "byte list"
  db_size :: nat
  db_allocated_size :: nat
  db_error :: bool
  db_realloc_func :: "'o realloc_fn option"
  db_opaque :: 'o

definition size_t_add :: "nat \<Rightarrow> nat \<Rightarrow> nat" where
  "size_t_add a b = (a + b) mod 2 ^ 64"

text \<open>\<open>dflt\<close> is \<open>dbuf_default_realloc\<close>, the C library's \<open>realloc\<close>.\<close>

definition dbuf_init2 :: "'o realloc_fn \<Rightarrow> 'o \<Rightarrow> 'o realloc_fn option \<Rightarrow> 'o DynBuf" where
  "dbuf_init2 dflt opq rf =
     \<lparr>db_buf = [], db_size = 0, db_allocated_size = 0, db_error = False,
      db_realloc_func = Some (case rf of None \<Rightarrow> dflt | Some f \<Rightarrow> f), db_opaque = opq\<rparr>"

definition dbuf_init :: "'o realloc_fn \<Rightarrow> 'o \<Rightarrow> 'o DynBuf" where
  "dbuf_init dflt opq = dbuf_init2 dflt opq None"

text \<open>The size a growing block is given: three halves of the old one, or what is asked for.\<close>

definition grown_size :: "nat \<Rightarrow> nat \<Rightarrow> nat" where
  "grown_size allocated new_size =
     (let size = (allocated * 3) mod 2 ^ 64 div 2 in if size > new_size then size else new_size)"

definition dbuf_realloc :: "'o DynBuf \<Rightarrow> nat \<Rightarrow> (int \<times> 'o DynBuf) option" where
  "dbuf_realloc s new_size =
     (if new_size > db_allocated_size s then
        if db_error s then Some (-1, s)
        else
          let new_size = grown_size (db_allocated_size s) new_size
          in case db_realloc_func s of
               None \<Rightarrow> None
             | Some f \<Rightarrow>
                 (case f (db_opaque s) (db_buf s) new_size of
                    (None, opq) \<Rightarrow> Some (-1, s\<lparr>db_error := True, db_opaque := opq\<rparr>)
                  | (Some new_buf, opq) \<Rightarrow>
                      Some (0, s\<lparr>db_buf := new_buf, db_allocated_size := new_size,
                                db_opaque := opq\<rparr>))
      else Some (0, s))"

definition dbuf_write :: "'o DynBuf \<Rightarrow> nat \<Rightarrow> byte list \<Rightarrow> (int \<times> 'o DynBuf) option" where
  "dbuf_write s offset data =
     (let end = size_t_add offset (length data) in
      case dbuf_realloc s end of
        None \<Rightarrow> None
      | Some (r, s) \<Rightarrow>
          if r \<noteq> 0 then Some (-1, s)
          else case write_block (db_buf s) offset data of
                 None \<Rightarrow> None
               | Some b \<Rightarrow>
                   Some (0, s\<lparr>db_buf := b,
                             db_size := (if end > db_size s then end else db_size s)\<rparr>))"

text \<open>The growth that \<open>dbuf_put\<close> and \<open>dbuf_put_self\<close> make before they copy.\<close>

definition dbuf_reserve :: "'o DynBuf \<Rightarrow> nat \<Rightarrow> (int \<times> 'o DynBuf) option" where
  "dbuf_reserve s len =
     (if size_t_add (db_size s) len > db_allocated_size s
      then dbuf_realloc s (size_t_add (db_size s) len) else Some (0, s))"

definition dbuf_put :: "'o DynBuf \<Rightarrow> byte list \<Rightarrow> (int \<times> 'o DynBuf) option" where
  "dbuf_put s data =
     (case dbuf_reserve s (length data) of
        None \<Rightarrow> None
      | Some (r, s) \<Rightarrow>
          if r \<noteq> 0 then Some (-1, s)
          else case write_block (db_buf s) (db_size s) data of
                 None \<Rightarrow> None
               | Some b \<Rightarrow> Some (0, s\<lparr>db_buf := b, db_size := db_size s + length data\<rparr>))"

definition dbuf_put_self :: "'o DynBuf \<Rightarrow> nat \<Rightarrow> nat \<Rightarrow> (int \<times> 'o DynBuf) option" where
  "dbuf_put_self s offset len =
     (case dbuf_reserve s len of
        None \<Rightarrow> None
      | Some (r, s) \<Rightarrow>
          if r \<noteq> 0 then Some (-1, s)
          else case read_block (db_buf s) offset len of
                 None \<Rightarrow> None
               | Some data \<Rightarrow>
                   (case write_block (db_buf s) (db_size s) data of
                      None \<Rightarrow> None
                    | Some b \<Rightarrow> Some (0, s\<lparr>db_buf := b, db_size := db_size s + len\<rparr>)))"

definition dbuf_putc :: "'o DynBuf \<Rightarrow> byte \<Rightarrow> (int \<times> 'o DynBuf) option" where
  "dbuf_putc s c = dbuf_put s [c]"

definition dbuf_putstr :: "'o DynBuf \<Rightarrow> byte list \<Rightarrow> (int \<times> 'o DynBuf) option" where
  "dbuf_putstr s str =
     (case strlen str of None \<Rightarrow> None | Some n \<Rightarrow> dbuf_put s (take n str))"

definition dbuf_put_u16 :: "'o DynBuf \<Rightarrow> u16 \<Rightarrow> (int \<times> 'o DynBuf) option" where
  "dbuf_put_u16 s v = dbuf_put s (le_bytes 2 (unat v))"

definition dbuf_put_u32 :: "'o DynBuf \<Rightarrow> u32 \<Rightarrow> (int \<times> 'o DynBuf) option" where
  "dbuf_put_u32 s v = dbuf_put s (le_bytes 4 (unat v))"

definition dbuf_put_u64 :: "'o DynBuf \<Rightarrow> u64 \<Rightarrow> (int \<times> 'o DynBuf) option" where
  "dbuf_put_u64 s v = dbuf_put s (le_bytes 8 (unat v))"

text \<open>
  \<open>out\<close> is the text the format and its arguments expand to. \<open>vsnprintf\<close> on a buffer of
  \<open>n\<close> cells writes at most \<open>n - 1\<close> of its characters and a zero, and returns its full length.
\<close>

definition vsnprintf :: "byte list \<Rightarrow> nat \<Rightarrow> nat \<Rightarrow> byte list \<Rightarrow> byte list option" where
  "vsnprintf m p n out =
     (if n = 0 then Some m else write_block m p (take (n - 1) out @ [0]))"

definition dbuf_printf :: "'o DynBuf \<Rightarrow> byte list \<Rightarrow> (int \<times> 'o DynBuf) option" where
  "dbuf_printf s out =
     (if length out < 128
      then (case vsnprintf (replicate 128 0) 0 128 out of
              None \<Rightarrow> None
            | Some buf \<Rightarrow> dbuf_put s (take (length out) buf))
      else case dbuf_realloc s (size_t_add (size_t_add (db_size s) (length out)) 1) of
             None \<Rightarrow> None
           | Some (r, s) \<Rightarrow>
               if r \<noteq> 0 then Some (-1, s)
               else case vsnprintf (db_buf s) (db_size s) (db_allocated_size s - db_size s) out of
                      None \<Rightarrow> None
                    | Some b \<Rightarrow> Some (0, s\<lparr>db_buf := b, db_size := db_size s + length out\<rparr>))"

text \<open>
  \<open>memset\<close> of the whole structure: the null \<open>realloc_func\<close> is \<open>None\<close>; the allocator's
  own state, to which \<open>opaque\<close> only points, lives on.
\<close>

definition dbuf_free :: "'o DynBuf \<Rightarrow> 'o DynBuf option" where
  "dbuf_free s =
     (if db_buf s \<noteq> [] then
        case db_realloc_func s of
          None \<Rightarrow> None
        | Some f \<Rightarrow>
            Some \<lparr>db_buf = [], db_size = 0, db_allocated_size = 0, db_error = False,
                  db_realloc_func = None, db_opaque = snd (f (db_opaque s) (db_buf s) 0)\<rparr>
      else
        Some \<lparr>db_buf = [], db_size = 0, db_allocated_size = 0, db_error = False,
              db_realloc_func = None, db_opaque = db_opaque s\<rparr>)"

definition dbuf_error :: "'o DynBuf \<Rightarrow> bool" where
  "dbuf_error s = db_error s"

definition dbuf_set_error :: "'o DynBuf \<Rightarrow> 'o DynBuf" where
  "dbuf_set_error s = s\<lparr>db_error := True\<rparr>"

section \<open>Invariant and functional behaviour\<close>

text \<open>What the C standard documents of \<open>realloc\<close>: a block of the new size, old contents kept.\<close>

definition realloc_ok :: "'o realloc_fn \<Rightarrow> bool" where
  "realloc_ok f \<longleftrightarrow>
     (\<forall>opq ptr n b opq'. f opq ptr n = (Some b, opq') \<longrightarrow>
        length b = n \<and> take (min n (length ptr)) b = take (min n (length ptr)) ptr)"

definition dbuf_inv :: "'o DynBuf \<Rightarrow> bool" where
  "dbuf_inv s \<longleftrightarrow> db_size s \<le> db_allocated_size s \<and> length (db_buf s) = db_allocated_size s \<and>
     (\<exists>f. db_realloc_func s = Some f \<and> realloc_ok f)"

definition dbuf_contents :: "'o DynBuf \<Rightarrow> byte list" where
  "dbuf_contents s = take (db_size s) (db_buf s)"

lemma realloc_okD:
  assumes "realloc_ok f" and "f opq ptr n = (Some b, opq')" and "length ptr \<le> n"
  shows "length b = n" and "take (length ptr) b = ptr"
  using assms unfolding realloc_ok_def by (metis min.absorb2 take_all_iff order_refl)+

lemma grown_size_ge: "n \<le> grown_size a n"
  by (simp add: grown_size_def Let_def)

lemma dbuf_init2_inv: "realloc_ok (case rf of None \<Rightarrow> dflt | Some f \<Rightarrow> f) \<Longrightarrow> dbuf_inv (dbuf_init2 dflt opq rf)"
  by (simp add: dbuf_inv_def dbuf_init2_def)

lemma length_dbuf_contents: "dbuf_inv s \<Longrightarrow> length (dbuf_contents s) = db_size s"
  by (simp add: dbuf_inv_def dbuf_contents_def)

text \<open>
  \<open>dbuf_realloc\<close> under the invariant: it succeeds and the block has room, or it fails with the
  sticky error set; either way the contents and their length are kept.
\<close>

lemma dbuf_realloc_cases:
  assumes inv: "dbuf_inv s"
  obtains (ok) s' where "dbuf_realloc s n = Some (0, s')" "dbuf_inv s'"
      "db_size s' = db_size s" "dbuf_contents s' = dbuf_contents s"
      "n \<le> db_allocated_size s'" "db_error s' = db_error s"
      "db_allocated_size s \<le> db_allocated_size s'"
      "take (db_allocated_size s) (db_buf s') = db_buf s"
    | (failed) s' where "dbuf_realloc s n = Some (-1, s')" "dbuf_inv s'"
      "db_size s' = db_size s" "dbuf_contents s' = dbuf_contents s"
      "db_error s'" "db_buf s' = db_buf s" "db_allocated_size s < n"
proof -
  from inv obtain f where f: "db_realloc_func s = Some f" "realloc_ok f"
    and sz: "db_size s \<le> db_allocated_size s" "length (db_buf s) = db_allocated_size s"
    by (auto simp: dbuf_inv_def)
  let ?m = "grown_size (db_allocated_size s) n"
  obtain res opq where r: "f (db_opaque s) (db_buf s) ?m = (res, opq)"
    by (cases "f (db_opaque s) (db_buf s) ?m")
  show thesis
  proof (cases "n > db_allocated_size s \<and> \<not> db_error s")
    case False
    then show thesis
    proof (cases "n > db_allocated_size s")
      case True
      with False inv show thesis
        by (intro failed [of s]) (simp_all add: dbuf_realloc_def)
    next
      case nf: False
      with inv sz show thesis
        by (intro ok [of s]) (simp_all add: dbuf_realloc_def)
    qed
  next
    case True
    show thesis
    proof (cases res)
      case None
      let ?s = "s\<lparr>db_error := True, db_opaque := opq\<rparr>"
      have "dbuf_realloc s n = Some (-1, ?s)"
        using True f r None by (simp add: dbuf_realloc_def Let_def)
      moreover have "dbuf_inv ?s" using inv by (simp add: dbuf_inv_def)
      ultimately show thesis using True
        by (intro failed [of ?s]) (simp_all add: dbuf_contents_def)
    next
      case (Some b)
      let ?s = "s\<lparr>db_buf := b, db_allocated_size := ?m, db_opaque := opq\<rparr>"
      have m: "length (db_buf s) \<le> ?m" "n \<le> ?m"
        using True sz grown_size_ge [of n "db_allocated_size s"] by auto
      note b = realloc_okD [OF f(2) r [unfolded Some] m(1)]
      have "dbuf_realloc s n = Some (0, ?s)"
        using True f r Some by (simp add: dbuf_realloc_def Let_def)
      moreover have "dbuf_inv ?s" using inv b m sz by (auto simp: dbuf_inv_def)
      moreover have "dbuf_contents ?s = dbuf_contents s"
      proof -
        have "take (db_size s) b = take (db_size s) (take (length (db_buf s)) b)"
          using sz by (simp add: min_absorb1)
        with b(2) show ?thesis by (simp add: dbuf_contents_def)
      qed
      ultimately show thesis using m b sz
        by (intro ok [of ?s]) simp_all
    qed
  qed
qed

text \<open>Room for a write behind the contents, after a successful growth.\<close>

lemma dbuf_append_block:
  assumes "dbuf_inv s" and "db_size s + length data \<le> db_allocated_size s"
  shows "\<exists>b. write_block (db_buf s) (db_size s) data = Some b \<and>
    (let s' = s\<lparr>db_buf := b, db_size := db_size s + length data\<rparr> in
     dbuf_inv s' \<and> dbuf_contents s' = dbuf_contents s @ data \<and> db_error s' = db_error s)"
  using assms by (auto simp: dbuf_inv_def dbuf_contents_def write_block_def)

lemma dbuf_reserve_cases:
  assumes inv: "dbuf_inv s" and small: "db_size s + len < 2 ^ 64"
  obtains (ok) s' where "dbuf_reserve s len = Some (0, s')" "dbuf_inv s'"
      "db_size s' = db_size s" "dbuf_contents s' = dbuf_contents s"
      "db_size s + len \<le> db_allocated_size s'" "db_error s' = db_error s"
    | (failed) s' where "dbuf_reserve s len = Some (-1, s')" "dbuf_inv s'"
      "dbuf_contents s' = dbuf_contents s" "db_error s'"
proof -
  have add: "size_t_add (db_size s) len = db_size s + len"
    using small by (simp add: size_t_add_def)
  show thesis
  proof (cases "db_size s + len > db_allocated_size s")
    case False
    with inv show thesis by (intro ok [of s]) (simp_all add: dbuf_reserve_def add)
  next
    case True
    then have eq: "dbuf_reserve s len = dbuf_realloc s (db_size s + len)"
      by (simp add: dbuf_reserve_def add)
    from inv show thesis
    proof (cases rule: dbuf_realloc_cases [where n = "db_size s + len"])
      case (ok s')
      then show thesis by (intro that(1) [of s']) (simp_all add: eq)
    next
      case (failed s')
      then show thesis by (intro that(2) [of s']) (simp_all add: eq)
    qed
  qed
qed

definition append_outcome :: "'o DynBuf \<Rightarrow> byte list \<Rightarrow> (int \<times> 'o DynBuf) option \<Rightarrow> bool" where
  "append_outcome s data res \<longleftrightarrow>
     (\<exists>r s'. res = Some (r, s') \<and> dbuf_inv s' \<and>
        (r = 0 \<and> dbuf_contents s' = dbuf_contents s @ data \<and> db_error s' = db_error s \<or>
         r = -1 \<and> dbuf_contents s' = dbuf_contents s \<and> db_error s'))"

lemma dbuf_put_outcome:
  assumes inv: "dbuf_inv s" and small: "db_size s + length data < 2 ^ 64"
  shows "append_outcome s data (dbuf_put s data)"
  using assms
proof (cases rule: dbuf_reserve_cases)
  case (ok s')
  with dbuf_append_block [of s' data] show ?thesis
    by (auto simp: dbuf_put_def append_outcome_def Let_def)
next
  case (failed s')
  then show ?thesis by (auto simp: dbuf_put_def append_outcome_def)
qed

lemma dbuf_put_self_outcome:
  assumes inv: "dbuf_inv s" and small: "db_size s + len < 2 ^ 64" and src: "offset + len \<le> db_size s"
  shows "append_outcome s (take len (drop offset (dbuf_contents s))) (dbuf_put_self s offset len)"
  using inv small
proof (cases rule: dbuf_reserve_cases)
  case (ok s')
  let ?d = "take len (drop offset (dbuf_contents s))"
  have len: "length (db_buf s') = db_allocated_size s'" "db_size s \<le> db_allocated_size s'"
    using ok by (auto simp: dbuf_inv_def)
  have "read_block (db_buf s') offset len = Some (take len (drop offset (db_buf s')))"
    using src len by (simp add: read_block_def)
  moreover have "take len (drop offset (db_buf s')) = ?d"
  proof -
    have "take len (drop offset (dbuf_contents s')) = take len (drop offset (db_buf s'))"
      unfolding dbuf_contents_def by (rule take_drop_take) (use src ok(3) in simp)
    then show ?thesis by (simp only: ok(4))
  qed
  moreover have "length ?d = len"
    using src length_dbuf_contents [OF inv] by simp
  ultimately show ?thesis
    using ok dbuf_append_block [of s' ?d]
    by (auto simp: dbuf_put_self_def append_outcome_def Let_def)
next
  case (failed s')
  then show ?thesis by (auto simp: dbuf_put_self_def append_outcome_def)
qed

lemma dbuf_printf_outcome:
  assumes inv: "dbuf_inv s" and small: "db_size s + length out + 1 < 2 ^ 64"
  shows "append_outcome s out (dbuf_printf s out)"
proof (cases "length out < 128")
  case True
  then show ?thesis
    using dbuf_put_outcome [OF inv, of out] small
    by (simp add: dbuf_printf_def vsnprintf_def write_block_def)
next
  case False
  have n: "size_t_add (size_t_add (db_size s) (length out)) 1 = db_size s + length out + 1"
    using small by (simp add: size_t_add_def)
  from inv show ?thesis
  proof (cases rule: dbuf_realloc_cases [where n = "db_size s + length out + 1"])
    case (ok s')
    let ?b = "take (db_size s') (db_buf s') @ (out @ [0]) @ drop (db_size s' + Suc (length out)) (db_buf s')"
    have room: "length (db_buf s') = db_allocated_size s'" "db_size s' + Suc (length out) \<le> length (db_buf s')"
      using ok by (auto simp: dbuf_inv_def)
    have "take (db_allocated_size s' - db_size s' - 1) out = out"
      using room by simp
    then have "vsnprintf (db_buf s') (db_size s') (db_allocated_size s' - db_size s') out = Some ?b"
      using room by (auto simp: vsnprintf_def write_block_def)
    moreover have "dbuf_inv (s'\<lparr>db_buf := ?b, db_size := db_size s' + length out\<rparr>)"
      using ok(2) room by (auto simp: dbuf_inv_def)
    moreover have "take (db_size s' + length out) ?b = dbuf_contents s' @ out"
      using room by (simp add: dbuf_contents_def)
    ultimately show ?thesis
      using False ok inv by (auto simp: dbuf_inv_def [of s] dbuf_printf_def n [simplified] append_outcome_def dbuf_contents_def)
  next
    case (failed s')
    with False show ?thesis by (auto simp: dbuf_printf_def n [simplified] append_outcome_def)
  qed
qed

section \<open>The interface its clients rely on\<close>

text \<open>
  The compiler of regular expressions and the Unicode normaliser emit data piece by piece, ignore
  the result codes and test the error flag once at the end. What makes that sound is the contract
  below; \<open>put_all\<close> is the idiom.
\<close>

fun put_all :: "('s \<Rightarrow> byte list \<Rightarrow> (int \<times> 's) option) \<Rightarrow> 's \<Rightarrow> byte list list \<Rightarrow> 's option" where
  "put_all put s [] = Some s"
| "put_all put s (d # ds) =
     (case put s d of None \<Rightarrow> None | Some (r, s') \<Rightarrow> put_all put s' ds)"

locale byte_sink =
  fixes put :: "'s \<Rightarrow> byte list \<Rightarrow> (int \<times> 's) option"
    and contents :: "'s \<Rightarrow> byte list"
    and failed :: "'s \<Rightarrow> bool"
    and invar :: "'s \<Rightarrow> bool"
    and capacity :: nat
  assumes put_appends: "invar s \<Longrightarrow> length (contents s) + length d < capacity \<Longrightarrow>
      \<exists>r s'. put s d = Some (r, s') \<and> invar s' \<and>
        (contents s' = contents s @ d \<and> failed s' = failed s \<or> contents s' = contents s \<and> failed s')"
begin

lemma put_all_appends:
  "invar s \<Longrightarrow> length (contents s) + length (concat ds) < capacity \<Longrightarrow>
   \<exists>s'. put_all put s ds = Some s' \<and> invar s' \<and> (failed s \<longrightarrow> failed s') \<and>
     (\<not> failed s' \<longrightarrow> contents s' = contents s @ concat ds)"
proof (induction ds arbitrary: s)
  case Nil
  then show ?case by simp
next
  case (Cons d ds)
  then obtain r s1 where s1: "put s d = Some (r, s1)" "invar s1"
      "contents s1 = contents s @ d \<and> failed s1 = failed s \<or> contents s1 = contents s \<and> failed s1"
    using put_appends [of s d] by auto
  with Cons.prems have "length (contents s1) + length (concat ds) < capacity" by auto
  with Cons.IH [OF s1(2)] obtain s' where
    "put_all put s1 ds = Some s'" "invar s'" "failed s1 \<longrightarrow> failed s'"
    "\<not> failed s' \<longrightarrow> contents s' = contents s1 @ concat ds"
    by blast
  with s1 show ?case by (auto split: prod.splits)
qed

end

interpretation dbuf: byte_sink dbuf_put dbuf_contents db_error dbuf_inv "2 ^ 64"
proof unfold_locales
  fix s :: "'a DynBuf" and d :: "byte list"
  assume inv: "dbuf_inv s" and small: "length (dbuf_contents s) + length d < 2 ^ 64"
  then have "append_outcome s d (dbuf_put s d)"
    by (intro dbuf_put_outcome) (simp_all add: length_dbuf_contents)
  then show "\<exists>r s'. dbuf_put s d = Some (r, s') \<and> dbuf_inv s' \<and>
      (dbuf_contents s' = dbuf_contents s @ d \<and> db_error s' = db_error s \<or>
       dbuf_contents s' = dbuf_contents s \<and> db_error s')"
    by (auto simp: append_outcome_def)
qed

text \<open>A concrete allocator for closed examples: it serves blocks up to a limit.\<close>

definition limited_realloc :: "nat realloc_fn" where
  "limited_realloc limit ptr n =
     (if n \<le> limit then (Some (take n ptr @ replicate (n - length ptr) 0xCD), limit)
      else (None, limit))"

lemma limited_realloc_ok: "realloc_ok limited_realloc"
  by (auto simp: realloc_ok_def limited_realloc_def split: if_splits)

lemma limited_dbuf_inv: "dbuf_inv (dbuf_init limited_realloc k)"
  using dbuf_init2_inv [of limited_realloc None k]
  by (simp add: dbuf_init_def limited_realloc_ok)

section \<open>Properties\<close>

text \<open>
  C27: a sequence of \<open>dbuf_put\<close> calls whose result codes the caller ignores, as the regular
  expression compiler does, never leaves the block and keeps the buffer's invariant; if the error
  flag is clear at the end, the buffer holds the old contents followed by every piece in order, and
  a flag once set stays set.
\<close>

theorem dbuf_put_sequence:
  assumes "dbuf_inv s" and "db_size s + length (concat ds) < 2 ^ 64"
  shows "\<exists>s'. put_all dbuf_put s ds = Some s' \<and> dbuf_inv s' \<and> (db_error s \<longrightarrow> db_error s') \<and>
    (\<not> db_error s' \<longrightarrow> dbuf_contents s' = dbuf_contents s @ concat ds)"
  by (rule dbuf.put_all_appends) (use assms in \<open>simp_all add: length_dbuf_contents\<close>)

theorem dbuf_put_sequence_witness:
  "\<exists>s'. put_all dbuf_put (dbuf_init limited_realloc 100) [[1, 2], [3]] = Some s' \<and> dbuf_inv s' \<and>
    (\<not> db_error s' \<longrightarrow> dbuf_contents s' = [1, 2, 3])"
  using dbuf_put_sequence [OF limited_dbuf_inv, of 100 "[[1, 2], [3]]"]
  by (simp add: dbuf_init_def dbuf_init2_def dbuf_contents_def)

text \<open>
  \<open>dbuf_put_self\<close> appends a copy of a stretch of the buffer to itself, also when the block
  moves in between, and \<open>dbuf_printf\<close> appends the whole formatted text, whether it fits the
  128-byte stack buffer or not; both fail only by setting the error flag, with the contents kept.
\<close>

theorem dbuf_put_self_printf:
  assumes "dbuf_inv s" and "offset + len \<le> db_size s"
    and "db_size s + len < 2 ^ 64" and "db_size s + length out + 1 < 2 ^ 64"
  shows "append_outcome s (take len (drop offset (dbuf_contents s))) (dbuf_put_self s offset len) \<and>
    append_outcome s out (dbuf_printf s out)"
  using assms dbuf_put_self_outcome dbuf_printf_outcome by blast

theorem dbuf_put_self_printf_witness:
  "append_outcome (dbuf_init limited_realloc 100) [] (dbuf_put_self (dbuf_init limited_realloc 100) 0 0) \<and>
   append_outcome (dbuf_init limited_realloc 100) [65] (dbuf_printf (dbuf_init limited_realloc 100) [65])"
  using dbuf_put_self_printf [OF limited_dbuf_inv, of 0 0 100 "[65]"]
  by (simp add: dbuf_init_def dbuf_init2_def dbuf_contents_def)

text \<open>
  \<open>dbuf_write\<close> at a position inside the contents (or right behind them) replaces exactly the
  cells it names and extends the contents when it reaches past their end.
\<close>

theorem dbuf_write_replaces:
  assumes inv: "dbuf_inv s" and off: "offset \<le> db_size s" and small: "offset + length data < 2 ^ 64"
  shows "\<exists>r s'. dbuf_write s offset data = Some (r, s') \<and> dbuf_inv s' \<and>
    (r = 0 \<and> dbuf_contents s' =
       take offset (dbuf_contents s) @ data @ drop (offset + length data) (dbuf_contents s) \<or>
     r = -1 \<and> dbuf_contents s' = dbuf_contents s \<and> db_error s')"
proof -
  have e: "size_t_add offset (length data) = offset + length data"
    using small by (simp add: size_t_add_def)
  from inv show ?thesis
  proof (cases rule: dbuf_realloc_cases [where n = "offset + length data"])
    case (ok s')
    let ?b = "take offset (db_buf s') @ data @ drop (offset + length data) (db_buf s')"
    let ?n = "max (offset + length data) (db_size s)"
    have len: "length (db_buf s') = db_allocated_size s'" "db_size s' \<le> db_allocated_size s'"
      using ok by (auto simp: dbuf_inv_def)
    have w: "dbuf_write s offset data = Some (0, s'\<lparr>db_buf := ?b, db_size := ?n\<rparr>)"
      using ok len by (simp add: dbuf_write_def e write_block_def max_def Let_def)
    have "take ?n ?b = take offset (dbuf_contents s') @ data @ drop (offset + length data) (dbuf_contents s')"
      using off ok(3,5) len
      by (simp add: dbuf_contents_def drop_take min_absorb1 min_absorb2 max_def) arith
    then show ?thesis
      using w ok len by (auto simp: dbuf_inv_def dbuf_contents_def [of "s'\<lparr>db_buf := _, db_size := _\<rparr>"])
  next
    case (failed s')
    then show ?thesis by (simp add: dbuf_write_def e)
  qed
qed

theorem dbuf_write_replaces_witness:
  "\<exists>r s'. dbuf_write (dbuf_init limited_realloc 2) 0 [1, 2, 3] = Some (r, s') \<and> dbuf_inv s' \<and>
    (r = 0 \<and> dbuf_contents s' = [1, 2, 3] \<or> r = -1 \<and> dbuf_contents s' = [] \<and> db_error s')"
  using dbuf_write_replaces [OF limited_dbuf_inv, of 0 2 "[1, 2, 3]"]
  by (simp add: dbuf_init_def dbuf_init2_def dbuf_contents_def)

end
