(* ===== verification/Utf8.thy ===== *)
theory Utf8
  imports Cutils
begin

text \<open>
  The UTF-8 coder of \<open>BugChecker/QuickJS/cutils.c\<close>, for the 31-bit code space and sequences of
  up to six bytes. The encoder returns the bytes it stores (none for a code it rejects), the
  decoder the code or -1 and the advanced input pointer, or \<open>None\<close> where it reads past the
  block it was given.
\<close>

section \<open>The model\<close>

definition utf8_cont :: "u32 \<Rightarrow> nat \<Rightarrow> byte" where
  "utf8_cont c k = ucast ((drop_bit k c AND 0x3f) OR 0x80)"

definition unicode_to_utf8 :: "u32 \<Rightarrow> byte list" where
  "unicode_to_utf8 c =
     (if c < 0x80 then [ucast c]
      else if c < 0x800 then [ucast (drop_bit 6 c OR 0xc0), utf8_cont c 0]
      else if c < 0x10000 then [ucast (drop_bit 12 c OR 0xe0), utf8_cont c 6, utf8_cont c 0]
      else if c < 0x200000 then
        [ucast (drop_bit 18 c OR 0xf0), utf8_cont c 12, utf8_cont c 6, utf8_cont c 0]
      else if c < 0x4000000 then
        [ucast (drop_bit 24 c OR 0xf8), utf8_cont c 18, utf8_cont c 12, utf8_cont c 6, utf8_cont c 0]
      else if c < 0x80000000 then
        [ucast (drop_bit 30 c OR 0xfc), utf8_cont c 24, utf8_cont c 18, utf8_cont c 12,
         utf8_cont c 6, utf8_cont c 0]
      else [])"

definition utf8_min_code :: "u32 list" where
  "utf8_min_code = [0x80, 0x800, 0x10000, 0x00200000, 0x04000000]"

definition utf8_first_code_mask :: "u32 list" where
  "utf8_first_code_mask = [0x1f, 0xf, 0x7, 0x3, 0x1]"

text \<open>The \<open>switch\<close> on the first byte: how many continuation bytes follow.\<close>

definition utf8_more :: "byte \<Rightarrow> nat option" where
  "utf8_more c =
     (if 0xc0 \<le> c \<and> c \<le> 0xdf then Some 1
      else if 0xe0 \<le> c \<and> c \<le> 0xef then Some 2
      else if 0xf0 \<le> c \<and> c \<le> 0xf7 then Some 3
      else if 0xf8 \<le> c \<and> c \<le> 0xfb then Some 4
      else if 0xfc \<le> c \<and> c \<le> 0xfd then Some 5
      else None)"

text \<open>
  The loop over the continuation bytes: outer \<open>None\<close> for a read outside the block, inner
  \<open>None\<close> for the early \<open>return -1\<close>.
\<close>

fun from_utf8_loop :: "nat \<Rightarrow> u32 \<Rightarrow> byte list \<Rightarrow> (u32 \<times> byte list) option option" where
  "from_utf8_loop 0 c p = Some (Some (c, p))"
| "from_utf8_loop (Suc l) c [] = None"
| "from_utf8_loop (Suc l) c (b # p) =
     (if b < 0x80 \<or> b \<ge> 0xc0 then Some None
      else from_utf8_loop l (push_bit 6 c OR (ucast b AND 0x3f)) p)"

definition unicode_from_utf8 :: "byte list \<Rightarrow> int \<Rightarrow> (int \<times> byte list) option" where
  "unicode_from_utf8 p max_len =
     (case p of
        [] \<Rightarrow> None
      | c # p' \<Rightarrow>
          if c < 0x80 then Some (uint c, p')
          else case utf8_more c of
                 None \<Rightarrow> Some (-1, p)
               | Some l \<Rightarrow>
                   if int l > max_len - 1 then Some (-1, p)
                   else case from_utf8_loop l (ucast c AND utf8_first_code_mask ! (l - 1)) p' of
                          None \<Rightarrow> None
                        | Some None \<Rightarrow> Some (-1, p)
                        | Some (Some (v, rest)) \<Rightarrow>
                            if v < utf8_min_code ! (l - 1) then Some (-1, p)
                            else Some (sint v, rest))"

section \<open>Continuation bytes as base-64 digits\<close>

lemma and_low_zero: "unat (x::'a::len word) < 2 ^ n \<Longrightarrow> x AND push_bit n y = 0"
proof -
  assume "unat x < 2 ^ n"
  then have "take_bit n x = x"
    by (simp add: unsigned_take_bit_eq take_bit_nat_eq_self word_unat_eq_iff)
  then have low: "bit x i \<Longrightarrow> i < n" for i
    by (metis bit_take_bit_iff)
  show ?thesis
    by (intro bit_word_eqI) (auto simp: bit_and_iff bit_push_bit_iff dest: low)
qed

lemma or_high: "unat (x::'a::len word) < 2 ^ n \<Longrightarrow> x OR push_bit n y = x + push_bit n y"
  by (rule or_eq_add) (rule and_low_zero)

lemma unat_ucast_mod: "unat (ucast (x::'a::len word) :: 'b::len word) = unat x mod 2 ^ LENGTH('b)"
  by (simp add: unsigned_ucast_eq take_bit_eq_mod)

lemma unat_or_high:
  assumes "unat (x::u32) < 2 ^ n" and "unat x + unat (push_bit n y) < 256"
  shows "unat (ucast (x OR push_bit n y) :: byte) = unat x + unat (push_bit n y)"
proof -
  have "unat (x + push_bit n y) = unat x + unat (push_bit n y)"
    using assms(2) by (subst unat_add_lem [symmetric]) simp
  then show ?thesis
    using assms by (simp add: or_high unat_ucast_mod)
qed

lemma unat_utf8_cont: "unat (utf8_cont c k) = 128 + unat c div 2 ^ k mod 64"
proof -
  have m: "(0x3f :: u32) = mask 6" "(0x80 :: u32) = push_bit 7 1"
    by (simp_all add: mask_eq_exp_minus_1 push_bit_eq_mult)
  have x: "unat (drop_bit k c AND mask 6) = unat c div 2 ^ k mod 64"
    by (simp only: unat_and_mask unat_drop_bit) simp
  have "unat c div 2 ^ k mod 64 < 64" by simp
  then have "unat (ucast ((drop_bit k c AND mask 6) OR push_bit 7 1) :: byte) =
      unat (drop_bit k c AND mask 6) + unat (push_bit 7 (1 :: u32))"
    by (intro unat_or_high) (simp_all only: x, simp_all)
  then show ?thesis
    by (simp add: utf8_cont_def m x del: push_bit_of_1) simp
qed

text \<open>The last \<open>l\<close> continuation bytes of the code \<open>v\<close>.\<close>

fun utf8_digits :: "nat \<Rightarrow> nat \<Rightarrow> byte list" where
  "utf8_digits 0 v = []"
| "utf8_digits (Suc l) v = word_of_nat (128 + v div 64 ^ l mod 64) # utf8_digits l v"

lemma utf8_cont_digit: "utf8_cont c (6 * l) = word_of_nat (128 + unat c div 64 ^ l mod 64)"
proof -
  have "(2::nat) ^ (6 * l) = 64 ^ l" by (simp add: power_mult)
  moreover have "128 + n mod 64 < (256::nat)" for n by (simp add: less_le_trans [OF add_strict_left_mono])
  ultimately show ?thesis
    by (intro word_unat_eq_iff [THEN iffD2]) (simp only: unat_utf8_cont unat_of_nat, simp)
qed

lemma from_utf8_step:
  assumes "unat (c::u32) < 2 ^ 26"
  shows "push_bit 6 c OR (ucast (b::byte) AND 0x3f) = word_of_nat (64 * unat c + unat b mod 64)"
proof -
  have m: "(0x3f :: u32) = mask 6" by (simp add: mask_eq_exp_minus_1)
  have x: "unat (ucast b AND mask 6 :: u32) = unat b mod 64"
    using unat_less_length [of b] by (simp only: unat_and_mask unat_ucast_mod) simp
  then have "(ucast b AND mask 6 :: u32) OR push_bit 6 c = (ucast b AND mask 6) + push_bit 6 c"
    by (intro or_high) simp
  also have "\<dots> = word_of_nat (unat b mod 64) + word_of_nat (64 * unat c)"
    by (simp add: x [symmetric] push_bit_eq_mult)
  finally show ?thesis
    by (simp add: m or.commute add.commute del: word_of_nat_eq_iff)
qed

lemma word_of_nat_unat_small: "n < 2 ^ 32 \<Longrightarrow> unat (word_of_nat n :: u32) = n"
  by (simp only: unat_of_nat) simp

lemma unat_digit: "unat (word_of_nat (128 + n mod 64) :: byte) = 128 + n mod 64"
proof -
  have "128 + n mod 64 < 256" by (simp add: less_le_trans [OF add_strict_left_mono])
  then show ?thesis by (simp only: unat_of_nat) simp
qed

lemma digit_in_range:
  "\<not> (word_of_nat (128 + n mod 64) :: byte) < 0x80" "\<not> (0xc0 :: byte) \<le> word_of_nat (128 + n mod 64)"
proof -
  have "n mod 64 < 64" by simp
  then show "\<not> (word_of_nat (128 + n mod 64) :: byte) < 0x80" "\<not> (0xc0 :: byte) \<le> word_of_nat (128 + n mod 64)"
    by (simp_all only: word_less_nat_alt word_le_nat_alt unat_digit) simp_all
qed

lemma digit_arith:
  fixes x :: nat
  shows "64 * (x div 64) + (128 + x mod 64) mod 64 = x"
    and "128 \<le> x \<Longrightarrow> x < 192 \<Longrightarrow> 128 + x mod 64 = x"
proof -
  have "(128 + x mod 64) mod 64 = x mod 64"
    using mod_mult_self3 [of 2 64 "x mod 64"] by simp
  then show "64 * (x div 64) + (128 + x mod 64) mod 64 = x"
    by simp
  assume "128 \<le> x" "x < 192"
  then show "128 + x mod 64 = x"
    by (simp add: le_mod_geq)
qed

lemma from_utf8_loop_digits:
  assumes "v < 2 ^ 32"
  shows "from_utf8_loop l (word_of_nat (v div 64 ^ l)) (utf8_digits l v @ rest) =
    Some (Some (word_of_nat v, rest))"
proof (induction l)
  case 0
  then show ?case by simp
next
  case (Suc l)
  let ?c = "word_of_nat (v div 64 ^ Suc l) :: u32"
  have d: "v div 64 ^ Suc l = v div 64 ^ l div 64"
    by (simp add: power_Suc2 div_mult2_eq del: power_Suc)
  have small: "v div 64 ^ Suc l < 2 ^ 26"
  proof -
    have "v div 64 ^ l \<le> v" by simp
    with assms have "v div 64 ^ l < 2 ^ 32" by linarith
    then show ?thesis unfolding d by simp
  qed
  then have c: "unat ?c = v div 64 ^ Suc l"
    by (intro word_of_nat_unat_small) simp
  have "64 * unat ?c + unat (word_of_nat (128 + v div 64 ^ l mod 64) :: byte) mod 64 = v div 64 ^ l"
    unfolding c unat_digit unfolding d by (rule digit_arith)
  then have "push_bit 6 ?c OR (ucast (word_of_nat (128 + v div 64 ^ l mod 64) :: byte) AND 0x3f) =
      word_of_nat (v div 64 ^ l)"
    using from_utf8_step [of ?c "word_of_nat (128 + v div 64 ^ l mod 64)"] small c by simp
  then show ?case
    using Suc.IH digit_in_range [of "v div 64 ^ l"]
    by (simp del: of_nat_add)
qed

lemma from_utf8_loop_canonical:
  assumes "from_utf8_loop l c p = Some (Some (v, rest))" and "unat c < 2 ^ (32 - 6 * l)" and "l \<le> 5"
  shows "p = utf8_digits l (unat v) @ rest \<and> unat v div 64 ^ l = unat c"
  using assms
proof (induction l arbitrary: c p)
  case 0
  then show ?case by simp
next
  case (Suc l)
  from Suc.prems(1) obtain b p' where p: "p = b # p'"
    and b: "\<not> b < 0x80" "\<not> 0xc0 \<le> b"
    and rec: "from_utf8_loop l (push_bit 6 c OR (ucast b AND 0x3f)) p' = Some (Some (v, rest))"
    by (cases p) (auto split: if_splits)
  have pw: "(2::nat) ^ (32 - 6 * l) = 64 * 2 ^ (32 - 6 * Suc l)"
  proof -
    have "32 - 6 * l = 6 + (32 - 6 * Suc l)" using Suc.prems(3) by simp
    then show ?thesis by (simp only: power_add) simp
  qed
  have "(2::nat) ^ (32 - 6 * Suc l) \<le> 2 ^ 26"
    by (rule power_increasing) simp_all
  then have small: "unat c < 2 ^ 26" using Suc.prems(2) by linarith
  let ?n = "64 * unat c + unat b mod 64"
  have "?n < 2 ^ (32 - 6 * l)"
    using Suc.prems(2) pw mod_less_divisor [of 64 "unat b"] by linarith
  moreover have "(2::nat) ^ (32 - 6 * l) \<le> 2 ^ 32"
    by (rule power_increasing) simp_all
  ultimately have n: "unat (word_of_nat ?n :: u32) = ?n" "?n < 2 ^ (32 - 6 * l)"
    using word_of_nat_unat_small [of ?n] by linarith+
  have IH: "p' = utf8_digits l (unat v) @ rest \<and> unat v div 64 ^ l = ?n"
    using Suc.IH [OF rec [unfolded from_utf8_step [OF small]]] n Suc.prems(3)
    by (simp only: n(1))
  have "unat v div 64 ^ Suc l = unat v div 64 ^ l div 64"
    by (simp add: power_Suc2 div_mult2_eq del: power_Suc)
  also have "\<dots> = unat c" using IH by simp
  finally have div: "unat v div 64 ^ Suc l = unat c" .
  have "128 \<le> unat b" "unat b < 192"
    using b by (simp_all add: word_less_nat_alt word_le_nat_alt)
  then have "128 + unat b mod 64 = unat b" by (rule digit_arith)
  moreover have "unat v div 64 ^ l mod 64 = unat b mod 64" using IH by simp
  ultimately have "b = word_of_nat (128 + unat v div 64 ^ l mod 64)"
    by (simp only: word_unat_eq_iff unat_digit) simp
  with div IH p show ?case by simp
qed

section \<open>Lead bytes\<close>

lemma lead_or:
  assumes "unat (c::u32) div 2 ^ k < 2 ^ m" and "2 ^ m + unat (push_bit m y) \<le> 256"
  shows "(ucast (drop_bit k c OR push_bit m y) :: byte) =
    word_of_nat (unat (push_bit m y) + unat c div 2 ^ k)"
proof -
  have d: "unat (drop_bit k c) = unat c div 2 ^ k" by (rule unat_drop_bit)
  have "unat (ucast (drop_bit k c OR push_bit m y) :: byte) = unat c div 2 ^ k + unat (push_bit m y)"
    using unat_or_high [of "drop_bit k c" m y] assms by (simp add: d)
  moreover have "unat (word_of_nat (unat (push_bit m y) + unat c div 2 ^ k) :: byte) =
      unat (push_bit m y) + unat c div 2 ^ k"
    using assms by (simp only: unat_of_nat) simp
  ultimately show ?thesis
    by (simp only: word_unat_eq_iff add.commute)
qed

lemma lead_bytes:
  "unat (c::u32) div 2 ^ 6 < 2 ^ 5 \<Longrightarrow> (ucast (drop_bit 6 c OR 0xc0) :: byte) = word_of_nat (192 + unat c div 2 ^ 6)"
  "unat c div 2 ^ 12 < 2 ^ 4 \<Longrightarrow> (ucast (drop_bit 12 c OR 0xe0) :: byte) = word_of_nat (224 + unat c div 2 ^ 12)"
  "unat c div 2 ^ 18 < 2 ^ 3 \<Longrightarrow> (ucast (drop_bit 18 c OR 0xf0) :: byte) = word_of_nat (240 + unat c div 2 ^ 18)"
  "unat c div 2 ^ 24 < 2 ^ 2 \<Longrightarrow> (ucast (drop_bit 24 c OR 0xf8) :: byte) = word_of_nat (248 + unat c div 2 ^ 24)"
  "unat c div 2 ^ 30 < 2 ^ 1 \<Longrightarrow> (ucast (drop_bit 30 c OR 0xfc) :: byte) = word_of_nat (252 + unat c div 2 ^ 30)"
  using lead_or [of c 6 6 3] lead_or [of c 12 5 7] lead_or [of c 18 4 15]
    lead_or [of c 24 3 31] lead_or [of c 30 2 63]
  by (simp_all add: push_bit_eq_mult)

text \<open>The shape of every encoding of \<open>l\<close> continuation bytes.\<close>

definition lead_base :: "nat \<Rightarrow> nat" where
  "lead_base l = 256 - 2 ^ (7 - l)"

definition encodable :: "nat \<Rightarrow> nat \<Rightarrow> bool" where
  "encodable l v \<longleftrightarrow> 1 \<le> l \<and> l \<le> 5 \<and> unat (utf8_min_code ! (l - 1)) \<le> v \<and> v div 64 ^ l < 2 ^ (6 - l)"

lemma encodable_cases:
  assumes "encodable l v"
  obtains "l = 1" "0x80 \<le> v" "v < 0x800" | "l = 2" "0x800 \<le> v" "v < 0x10000"
    | "l = 3" "0x10000 \<le> v" "v < 0x200000" | "l = 4" "0x200000 \<le> v" "v < 0x4000000"
    | "l = 5" "0x4000000 \<le> v" "v < 0x80000000"
proof -
  have "l = 1 \<or> l = 2 \<or> l = 3 \<or> l = 4 \<or> l = 5"
    using assms by (auto simp: encodable_def)
  then show thesis
    using assms that by (elim disjE) (simp_all add: encodable_def utf8_min_code_def div_less_iff_less_mult)
qed

lemma encodable_exists: "0x80 \<le> v \<Longrightarrow> v < 2 ^ 31 \<Longrightarrow> \<exists>l. encodable l v"
proof -
  assume v: "0x80 \<le> v" "v < 2 ^ 31"
  then consider "v < 0x800" | "0x800 \<le> v" "v < 0x10000" | "0x10000 \<le> v" "v < 0x200000"
    | "0x200000 \<le> v" "v < 0x4000000" | "0x4000000 \<le> v" by linarith
  then have "encodable 1 v \<or> encodable 2 v \<or> encodable 3 v \<or> encodable 4 v \<or> encodable 5 v"
    using v by cases (simp_all add: encodable_def utf8_min_code_def div_less_iff_less_mult)
  then show ?thesis by blast
qed

lemma utf8_digits_rec:
  "0 < l \<Longrightarrow> utf8_digits l v = word_of_nat (128 + v div 64 ^ (l - 1) mod 64) # utf8_digits (l - 1) v"
  by (cases l) auto

lemma utf8_encoding:
  assumes "encodable l (unat c)"
  shows "unicode_to_utf8 c = word_of_nat (lead_base l + unat c div 64 ^ l) # utf8_digits l (unat c)"
proof -
  note digits = utf8_cont_digit [of c 0] utf8_cont_digit [of c 1] utf8_cont_digit [of c 2]
    utf8_cont_digit [of c 3] utf8_cont_digit [of c 4]
  from assms show ?thesis
    by (cases rule: encodable_cases)
      (simp_all add: unicode_to_utf8_def word_less_nat_alt lead_bytes lead_base_def utf8_digits_rec
        digits [simplified])
qed

lemma first_code_masks:
  "utf8_first_code_mask ! 0 = mask 5" "utf8_first_code_mask ! Suc 0 = mask 4"
  "utf8_first_code_mask ! 2 = mask 3" "utf8_first_code_mask ! 3 = mask 2"
  "utf8_first_code_mask ! 4 = mask 1"
  by (simp_all add: utf8_first_code_mask_def mask_eq_exp_minus_1)

lemma unat_ucast_and_mask: "unat (ucast (b::byte) AND mask n :: u32) = unat b mod 2 ^ n"
  using unat_less_length [of b] by (simp only: unat_and_mask unat_ucast_mod) simp

lemma unat_ucast_and_1: "unat (ucast (b::byte) AND 1 :: u32) = unat b mod 2"
  using unat_ucast_and_mask [of b 1] by simp

lemma sint_word_of_nat: "v < 2 ^ 31 \<Longrightarrow> sint (word_of_nat v :: u32) = int v"
  by (simp add: signed_of_nat signed_take_bit_int_eq_self)

lemma mod_eq_offset: "m * q \<le> x \<Longrightarrow> x < m * q + m \<Longrightarrow> x mod m = x - m * (q::nat)"
  by (metis add_diff_inverse_nat less_diff_conv2 linorder_not_less mod_less mod_mult_self4 add.commute)

lemma lead_mod:
  fixes x :: nat
  shows "192 \<le> x \<Longrightarrow> x \<le> 223 \<Longrightarrow> x mod 32 = x - 192"
    and "224 \<le> x \<Longrightarrow> x \<le> 239 \<Longrightarrow> x mod 16 = x - 224"
    and "240 \<le> x \<Longrightarrow> x \<le> 247 \<Longrightarrow> x mod 8 = x - 240"
    and "248 \<le> x \<Longrightarrow> x \<le> 251 \<Longrightarrow> x mod 4 = x - 248"
    and "252 \<le> x \<Longrightarrow> x \<le> 253 \<Longrightarrow> x mod 2 = x - 252"
  using mod_eq_offset [of 32 6 x] mod_eq_offset [of 16 14 x] mod_eq_offset [of 8 30 x]
    mod_eq_offset [of 4 62 x] mod_eq_offset [of 2 126 x] by simp_all

lemma utf8_more_lead:
  assumes "utf8_more b = Some l"
  shows "1 \<le> l \<and> l \<le> 5 \<and> lead_base l \<le> unat b \<and> unat b < lead_base l + 2 ^ (6 - l) \<and>
    unat (ucast b AND utf8_first_code_mask ! (l - 1) :: u32) = unat b - lead_base l"
  using assms
  by (auto simp: utf8_more_def word_le_nat_alt lead_base_def first_code_masks unat_ucast_and_mask
      unat_ucast_and_1 lead_mod split: if_splits)

lemma utf8_more_base:
  assumes "1 \<le> l" "l \<le> 5" "n < 2 ^ (6 - l)"
  shows "utf8_more (word_of_nat (lead_base l + n)) = Some l"
    and "unat (word_of_nat (lead_base l + n) :: byte) = lead_base l + n"
proof -
  have l: "l = 1 \<or> l = 2 \<or> l = 3 \<or> l = 4 \<or> l = 5" using assms by auto
  then have "lead_base l + n < 256"
    using assms(3) by (elim disjE) (simp_all add: lead_base_def)
  then show u: "unat (word_of_nat (lead_base l + n) :: byte) = lead_base l + n"
    by (simp only: unat_of_nat) simp
  show "utf8_more (word_of_nat (lead_base l + n)) = Some l"
    unfolding utf8_more_def word_le_nat_alt u using l assms(3)
    by (elim disjE) (simp_all add: lead_base_def)
qed

lemma unicode_from_utf8_encodable:
  assumes "encodable l v" and "int l \<le> max_len - 1"
  shows "unicode_from_utf8 (word_of_nat (lead_base l + v div 64 ^ l) # utf8_digits l v @ rest) max_len =
    Some (int v, rest)"
proof -
  let ?b = "word_of_nat (lead_base l + v div 64 ^ l) :: byte"
  have l: "1 \<le> l" "l \<le> 5" "v div 64 ^ l < 2 ^ (6 - l)"
    and min: "unat (utf8_min_code ! (l - 1)) \<le> v"
    using assms(1) by (auto simp: encodable_def)
  note more = utf8_more_base [OF l]
  have v: "v < 2 ^ 31"
    using assms(1) by (cases rule: encodable_cases) simp_all
  then have uv: "unat (word_of_nat v :: u32) = v"
    by (intro word_of_nat_unat_small) simp
  have "unat (ucast ?b AND utf8_first_code_mask ! (l - 1) :: u32) = v div 64 ^ l"
    using utf8_more_lead [OF more(1)] more(2) by simp
  then have first: "ucast ?b AND utf8_first_code_mask ! (l - 1) = (word_of_nat (v div 64 ^ l) :: u32)"
    by (metis of_nat_unat ucast_id)
  have "\<not> ?b < 0x80"
  proof -
    have "(2::nat) ^ (7 - l) \<le> 2 ^ 6" using l(1) by (intro power_increasing) auto
    then show ?thesis unfolding word_less_nat_alt more(2) by (simp add: lead_base_def)
  qed
  moreover have "\<not> (word_of_nat v :: u32) < utf8_min_code ! (l - 1)"
    unfolding word_less_nat_alt uv using min by simp
  moreover have "sint (word_of_nat v :: u32) = int v"
    using v by (rule sint_word_of_nat)
  ultimately show ?thesis
    using assms(2) more(1) first from_utf8_loop_digits [of v l rest] v
    by (simp add: unicode_from_utf8_def del: of_nat_add)
qed

lemma unicode_from_utf8_cases:
  assumes "unicode_from_utf8 p max_len = Some (r, rest)" and "\<not> hd p < 0x80"
  shows "r = -1 \<and> rest = p \<or>
    (\<exists>l v. encodable l v \<and> int l \<le> max_len - 1 \<and> r = int v \<and>
      p = word_of_nat (lead_base l + v div 64 ^ l) # utf8_digits l v @ rest)"
proof (rule ccontr)
  assume neg: "\<not> ?thesis"
  from assms neg obtain b p' l v where p: "p = b # p'" and l: "utf8_more b = Some l"
    and len: "int l \<le> max_len - 1"
    and loop: "from_utf8_loop l (ucast b AND utf8_first_code_mask ! (l - 1)) p' = Some (Some (v, rest))"
    and min: "\<not> v < utf8_min_code ! (l - 1)" and r: "r = sint v"
    by (cases p) (auto simp: unicode_from_utf8_def split: if_splits option.splits)
  note lead = utf8_more_lead [OF l]
  have "(2::nat) ^ (6 - l) \<le> 2 ^ (32 - 6 * l)"
    using lead by (intro power_increasing) auto
  then have "unat (ucast b AND utf8_first_code_mask ! (l - 1) :: u32) < 2 ^ (32 - 6 * l)"
    using lead by linarith
  from from_utf8_loop_canonical [OF loop this] lead
  have d: "p' = utf8_digits l (unat v) @ rest" "unat v div 64 ^ l = unat b - lead_base l"
    by auto
  have enc: "encodable l (unat v)"
    using lead d(2) min by (auto simp: encodable_def word_less_nat_alt)
  then have small: "unat v < 2 ^ 31"
    by (cases rule: encodable_cases) simp_all
  have "r = int (unat v)"
    using r sint_word_of_nat [OF small] by simp
  moreover have "b = word_of_nat (lead_base l + unat v div 64 ^ l)"
    using lead unfolding d(2) by simp
  ultimately show False
    using neg enc len p d(1) by blast
qed

section \<open>Properties\<close>

text \<open>
  C28: every code the encoder accepts is read back: the decoder, given the encoded bytes followed by
  anything and a length limit that admits them, returns that code and stops just after them.
\<close>

theorem utf8_round_trip:
  assumes "c < 0x80000000" and "int (length (unicode_to_utf8 c)) \<le> max_len"
  shows "unicode_from_utf8 (unicode_to_utf8 c @ rest) max_len = Some (uint c, rest)"
proof (cases "c < 0x80")
  case True
  then have "uint c < 0x80" by (simp add: word_less_def)
  then have "uint (ucast c :: byte) = uint c"
    by (simp add: unsigned_ucast_eq take_bit_int_eq_self)
  moreover have "(ucast c :: byte) < 0x80"
    using True calculation by (simp add: word_less_def)
  ultimately show ?thesis
    using True by (simp add: unicode_to_utf8_def unicode_from_utf8_def)
next
  case False
  then obtain l where l: "encodable l (unat c)"
    using encodable_exists [of "unat c"] assms(1) by (auto simp: word_less_nat_alt)
  have len: "length (utf8_digits n v) = n" for n v by (induction n) auto
  show ?thesis
    using unicode_from_utf8_encodable [OF l] assms(2)
    by (simp add: utf8_encoding [OF l] len del: of_nat_add)
qed

theorem utf8_round_trip_witness:
  "unicode_from_utf8 (unicode_to_utf8 0x20AC @ [0x41]) 6 = Some (0x20AC, [0x41])"
  using utf8_round_trip [where c = "0x20AC" and max_len = "6" and rest = "[0x41]"] by (simp add: unicode_to_utf8_def)

text \<open>
  C29: the decoder accepts canonical encodings only: when it returns a code, the bytes it consumed
  are exactly the encoder's bytes for that code (so overlong forms, stray continuation bytes and
  codes above 31 bits are refused) and they fit the length limit; when it returns -1 the input
  pointer has not moved.
\<close>

theorem utf8_decoder_canonical:
  assumes "unicode_from_utf8 p max_len = Some (r, rest)"
  shows "(r = -1 \<longrightarrow> rest = p) \<and>
    (r \<noteq> -1 \<longrightarrow> 0 \<le> r \<and> r < 2 ^ 31 \<and> p = unicode_to_utf8 (word_of_int r) @ rest \<and>
       int (length p - length rest) \<le> max 1 max_len)"
proof (cases "hd p < 0x80 \<and> p \<noteq> []")
  case True
  then obtain b p' where p: "p = b # p'" "b < 0x80" by (cases p) auto
  then have "uint b < 0x80" by (simp add: word_less_def)
  then have "(word_of_int (uint b) :: u32) < 0x80" "ucast (word_of_int (uint b) :: u32) = b"
    by (simp_all add: word_less_def unsigned_ucast_eq take_bit_int_eq_self word_uint_eq_iff
        unsigned_take_bit_eq)
  then show ?thesis
    using assms p \<open>uint b < 0x80\<close> by (auto simp: unicode_from_utf8_def unicode_to_utf8_def)
next
  case False
  then have hd: "\<not> hd p < 0x80" using assms by (cases p) (auto simp: unicode_from_utf8_def)
  have len: "length (utf8_digits n v) = n" for n v by (induction n) auto
  from unicode_from_utf8_cases [OF assms hd] show ?thesis
  proof (elim disjE exE conjE)
    fix l v
    assume l: "encodable l v" "int l \<le> max_len - 1" "r = int v"
      and p: "p = word_of_nat (lead_base l + v div 64 ^ l) # utf8_digits l v @ rest"
    then have v: "v < 2 ^ 31" by (cases rule: encodable_cases) simp_all
    then have u: "unat (word_of_nat v :: u32) = v" by (intro word_of_nat_unat_small) simp
    have "unicode_to_utf8 (word_of_nat v) = word_of_nat (lead_base l + v div 64 ^ l) # utf8_digits l v"
      using utf8_encoding [of l "word_of_nat v"] l(1) unfolding u by simp
    then show ?thesis using l v p by (simp add: len del: of_nat_add)
  qed simp
qed

theorem utf8_decoder_canonical_witness:
  "unicode_from_utf8 [0xe2, 0x82, 0xac, 0x41] 4 = Some (0x20AC, [0x41]) \<and>
   [0xe2, 0x82, 0xac, 0x41] = unicode_to_utf8 0x20AC @ [0x41]"
proof -
  have dec: "unicode_from_utf8 [0xe2, 0x82, 0xac, 0x41] 4 = Some (0x20AC, [0x41])"
    by code_simp
  show ?thesis using utf8_decoder_canonical [OF dec] dec by simp
qed

end
