(* ===== verification/Exchange.thy ===== *)
theory Exchange
  imports Prelude
begin

text \<open>
  The exchange routines of \<open>BugChecker/QuickJS/cutils.c\<close> that the sorting code calls through a
  function pointer: one loop per machine type, a straight-line version per type for elements of
  exactly that size, and \<open>exchange_func\<close>, which selects one by the alignment of the array and
  the size of its elements. They work on the bytes of memory; the last section lifts them to the
  array of elements the sorting code sees.
\<close>

section \<open>The model\<close>

text \<open>One step of a loop over units of \<open>u\<close> bytes: \<open>t = *ap; *ap = *bp; *bp = t\<close>.\<close>

definition exchange_unit :: "nat \<Rightarrow> byte list \<Rightarrow> nat \<Rightarrow> nat \<Rightarrow> byte list option" where
  "exchange_unit u m ap bp =
     (case read_block m ap u of
        None \<Rightarrow> None
      | Some t \<Rightarrow>
          (case read_block m bp u of
             None \<Rightarrow> None
           | Some v \<Rightarrow>
               (case write_block m ap v of
                  None \<Rightarrow> None
                | Some m1 \<Rightarrow> write_block m1 bp t)))"

fun exchange_units :: "nat \<Rightarrow> nat \<Rightarrow> byte list \<Rightarrow> nat \<Rightarrow> nat \<Rightarrow> byte list option" where
  "exchange_units u 0 m ap bp = Some m"
| "exchange_units u (Suc n) m ap bp =
     (case exchange_unit u m ap bp of
        None \<Rightarrow> None
      | Some m' \<Rightarrow> exchange_units u n m' (ap + u) (bp + u))"

type_synonym exchange_f = "byte list \<Rightarrow> nat \<Rightarrow> nat \<Rightarrow> nat \<Rightarrow> byte list option"

definition exchange_bytes :: exchange_f where
  "exchange_bytes m a b sz = exchange_units 1 sz m a b"

definition exchange_one_byte :: exchange_f where
  "exchange_one_byte m a b sz = exchange_unit 1 m a b"

definition exchange_int16s :: exchange_f where
  "exchange_int16s m a b sz = exchange_units 2 (sz div 2) m a b"

definition exchange_one_int16 :: exchange_f where
  "exchange_one_int16 m a b sz = exchange_unit 2 m a b"

definition exchange_int32s :: exchange_f where
  "exchange_int32s m a b sz = exchange_units 4 (sz div 4) m a b"

definition exchange_one_int32 :: exchange_f where
  "exchange_one_int32 m a b sz = exchange_unit 4 m a b"

definition exchange_int64s :: exchange_f where
  "exchange_int64s m a b sz = exchange_units 8 (sz div 8) m a b"

definition exchange_one_int64 :: exchange_f where
  "exchange_one_int64 m a b sz = exchange_unit 8 m a b"

text \<open>
  The 128-bit variants move two 64-bit words: both words of \<open>ap\<close> are read, then
  \<open>ap[0]\<close>, \<open>ap[1]\<close>, \<open>bp[0]\<close> and \<open>bp[1]\<close> are stored in this order.
\<close>

definition move64 :: "byte list \<Rightarrow> nat \<Rightarrow> nat \<Rightarrow> byte list option" where
  "move64 m dst src =
     (case read_block m src 8 of None \<Rightarrow> None | Some w \<Rightarrow> write_block m dst w)"

definition exchange_one_int128 :: exchange_f where
  "exchange_one_int128 m a b sz =
     (case read_block m a 8 of
        None \<Rightarrow> None
      | Some t \<Rightarrow>
          (case read_block m (a + 8) 8 of
             None \<Rightarrow> None
           | Some u \<Rightarrow>
               (case move64 m a b of
                  None \<Rightarrow> None
                | Some m1 \<Rightarrow>
                    (case move64 m1 (a + 8) (b + 8) of
                       None \<Rightarrow> None
                     | Some m2 \<Rightarrow>
                         (case write_block m2 b t of
                            None \<Rightarrow> None
                          | Some m3 \<Rightarrow> write_block m3 (b + 8) u)))))"

fun exchange_pairs :: "nat \<Rightarrow> byte list \<Rightarrow> nat \<Rightarrow> nat \<Rightarrow> byte list option" where
  "exchange_pairs 0 m ap bp = Some m"
| "exchange_pairs (Suc n) m ap bp =
     (case exchange_one_int128 m ap bp 16 of
        None \<Rightarrow> None
      | Some m' \<Rightarrow> exchange_pairs n m' (ap + 16) (bp + 16))"

definition exchange_int128s :: exchange_f where
  "exchange_int128s m a b sz = exchange_pairs (sz div 16) m a b"

definition exchange_func :: "nat \<Rightarrow> nat \<Rightarrow> exchange_f" where
  "exchange_func base sz =
     (let k = (base OR sz) AND 15 in
      if k = 0 then (if sz = 16 then exchange_one_int128 else exchange_int128s)
      else if k = 8 then (if sz = 8 then exchange_one_int64 else exchange_int64s)
      else if k = 4 \<or> k = 12 then (if sz = 4 then exchange_one_int32 else exchange_int32s)
      else if k = 2 \<or> k = 6 \<or> k = 10 \<or> k = 14 then
        (if sz = 2 then exchange_one_int16 else exchange_int16s)
      else (if sz = 1 then exchange_one_byte else exchange_bytes))"

section \<open>Swapping two blocks of memory\<close>

definition swap_blocks :: "'a list \<Rightarrow> nat \<Rightarrow> nat \<Rightarrow> nat \<Rightarrow> 'a list" where
  "swap_blocks m a b n =
     map (\<lambda>k. if a \<le> k \<and> k < a + n then m ! (b + (k - a))
              else if b \<le> k \<and> k < b + n then m ! (a + (k - b)) else m ! k) [0..<length m]"

text \<open>Two stretches an exchange may be called on: the same one, or disjoint ones.\<close>

definition apart :: "nat \<Rightarrow> nat \<Rightarrow> nat \<Rightarrow> bool" where
  "apart a b n \<longleftrightarrow> a = b \<or> a + n \<le> b \<or> b + n \<le> a"

lemma length_swap_blocks [simp]: "length (swap_blocks m a b n) = length m"
  by (simp add: swap_blocks_def)

lemma swap_blocks_nth:
  "k < length m \<Longrightarrow> swap_blocks m a b n ! k =
    (if a \<le> k \<and> k < a + n then m ! (b + (k - a))
     else if b \<le> k \<and> k < b + n then m ! (a + (k - b)) else m ! k)"
  by (simp add: swap_blocks_def)

lemma swap_blocks_0 [simp]: "swap_blocks m a b 0 = m"
  by (intro nth_equalityI) (auto simp: swap_blocks_nth)

lemma swap_blocks_same [simp]: "swap_blocks m a a n = m"
  by (intro nth_equalityI) (auto simp: swap_blocks_nth)

lemma swap_blocks_commute:
  "apart a b n \<Longrightarrow> swap_blocks m a b n = swap_blocks m b a n"
  by (intro nth_equalityI) (auto simp: swap_blocks_nth apart_def)

lemma write_block_nth:
  "write_block m off xs = Some m' \<Longrightarrow> k < length m \<Longrightarrow>
    m' ! k = (if off \<le> k \<and> k < off + length xs then xs ! (k - off) else m ! k)"
  by (auto simp: write_block_def nth_append min_def split: if_splits)

lemma read_block_nth:
  "read_block m off n = Some xs \<Longrightarrow> k < n \<Longrightarrow> xs ! k = m ! (off + k)"
  by (auto simp: read_block_def split: if_splits)

lemma length_read_block: "read_block m off n = Some xs \<Longrightarrow> length xs = n"
  by (auto simp: read_block_def split: if_splits)

lemma exchange_unit_swaps:
  assumes "a + u \<le> length m" "b + u \<le> length m" "apart a b u"
  shows "exchange_unit u m a b = Some (swap_blocks m a b u)"
proof -
  let ?t = "take u (drop a m)" and ?v = "take u (drop b m)"
  obtain m1 where m1: "write_block m a ?v = Some m1"
    using assms by (simp add: write_block_def)
  then have len1: "length m1 = length m" by (rule length_write_block)
  then obtain m2 where m2: "write_block m1 b ?t = Some m2"
    using assms by (simp add: write_block_def)
  have "length m2 = length m" using len1 length_write_block [OF m2] by simp
  moreover have "m2 ! k = swap_blocks m a b u ! k" if "k < length m" for k
    using that assms len1 unfolding apart_def
    by (auto simp: write_block_nth [OF m2] write_block_nth [OF m1] swap_blocks_nth)
  ultimately have "m2 = swap_blocks m a b u" by (auto intro: nth_equalityI)
  then show ?thesis
    using assms m1 m2 by (simp add: exchange_unit_def mem_simps)
qed

lemma exchange_one_int128_swaps:
  assumes "a + 16 \<le> length m" "b + 16 \<le> length m" "apart a b 16"
  shows "exchange_one_int128 m a b n = Some (swap_blocks m a b 16)"
proof -
  let ?t = "take 8 (drop a m)" and ?u = "take 8 (drop (a + 8) m)"
  let ?v = "take 8 (drop b m)"
  obtain m1 where m1: "write_block m a ?v = Some m1"
    using assms by (simp add: write_block_def)
  then have l1: "length m1 = length m" by (rule length_write_block)
  obtain m2 where m2: "write_block m1 (a + 8) (take 8 (drop (b + 8) m1)) = Some m2"
    using assms l1 by (simp add: write_block_def)
  then have l2: "length m2 = length m" using l1 length_write_block by fastforce
  obtain m3 where m3: "write_block m2 b ?t = Some m3"
    using assms l2 by (simp add: write_block_def)
  then have l3: "length m3 = length m" using l2 length_write_block by fastforce
  obtain m4 where m4: "write_block m3 (b + 8) ?u = Some m4"
    using assms l3 by (simp add: write_block_def)
  then have l4: "length m4 = length m" using l3 length_write_block by fastforce
  have "m4 ! k = swap_blocks m a b 16 ! k" if "k < length m" for k
    using that assms l1 l2 l3 unfolding apart_def
    by (auto simp: write_block_nth [OF m4] write_block_nth [OF m3] write_block_nth [OF m2]
        write_block_nth [OF m1] swap_blocks_nth)
  then have "m4 = swap_blocks m a b 16" using l4 by (auto intro: nth_equalityI)
  then show ?thesis
    using assms m1 m2 m3 m4 l1 by (simp add: exchange_one_int128_def move64_def mem_simps)
qed

lemma swap_blocks_compose_ordered:
  assumes "b + (u + n) \<le> length m" "a + (u + n) \<le> b"
  shows "swap_blocks (swap_blocks m a b u) (a + u) (b + u) n = swap_blocks m a b (u + n)"
proof (intro nth_equalityI)
  fix k assume "k < length (swap_blocks (swap_blocks m a b u) (a + u) (b + u) n)"
  then have k: "k < length m" by simp
  consider "k < a + u" | "a + u \<le> k" "k < a + (u + n)" | "a + (u + n) \<le> k" "k < b + u"
    | "b + u \<le> k" by linarith
  then show "swap_blocks (swap_blocks m a b u) (a + u) (b + u) n ! k = swap_blocks m a b (u + n) ! k"
    using assms k by cases (simp_all add: swap_blocks_nth, auto)
qed simp

lemma apart_le: "apart a b n \<Longrightarrow> u \<le> n \<Longrightarrow> apart a b u"
  by (auto simp: apart_def)

lemma apart_shift: "apart a b (u + n) \<Longrightarrow> apart (a + u) (b + u) n"
  by (auto simp: apart_def)

lemma swap_blocks_compose:
  assumes "a + (u + n) \<le> length m" "b + (u + n) \<le> length m" "apart a b (u + n)"
  shows "swap_blocks (swap_blocks m a b u) (a + u) (b + u) n = swap_blocks m a b (u + n)"
proof -
  consider "a = b" | "a + (u + n) \<le> b" | "b + (u + n) \<le> a"
    using assms(3) by (auto simp: apart_def)
  then show ?thesis
  proof cases
    case 3
    have "apart a b u" "apart (a + u) (b + u) n"
      using assms(3) by (auto intro: apart_le apart_shift)
    then show ?thesis
      using swap_blocks_compose_ordered [of a u n m b] assms 3
      by (simp add: swap_blocks_commute [of a b] swap_blocks_commute [of "a + u" "b + u"])
  qed (use assms swap_blocks_compose_ordered in simp_all)
qed

lemma exchange_units_swaps:
  "a + n * u \<le> length m \<Longrightarrow> b + n * u \<le> length m \<Longrightarrow> apart a b (n * u) \<Longrightarrow>
   exchange_units u n m a b = Some (swap_blocks m a b (n * u))"
proof (induction n arbitrary: m a b)
  case (Suc n)
  then have "exchange_unit u m a b = Some (swap_blocks m a b u)"
    by (intro exchange_unit_swaps) (auto intro: apart_le)
  then show ?case
    using Suc.prems Suc.IH [of "a + u" "swap_blocks m a b u" "b + u"]
    by (simp add: apart_shift swap_blocks_compose)
qed simp

lemma exchange_pairs_swaps:
  "a + n * 16 \<le> length m \<Longrightarrow> b + n * 16 \<le> length m \<Longrightarrow> apart a b (n * 16) \<Longrightarrow>
   exchange_pairs n m a b = Some (swap_blocks m a b (n * 16))"
proof (induction n arbitrary: m a b)
  case (Suc n)
  then have "exchange_one_int128 m a b 16 = Some (swap_blocks m a b 16)"
    by (intro exchange_one_int128_swaps) (auto intro: apart_le)
  then show ?case
    using Suc.prems Suc.IH [of "a + 16" "swap_blocks m a b 16" "b + 16"]
    by (simp add: apart_shift swap_blocks_compose)
qed simp

section \<open>The selected routine\<close>

lemma low_bits_zero:
  assumes "take_bit t ((base OR sz) AND 15) = (0::nat)" and "t \<le> 4"
  shows "2 ^ t dvd sz"
proof -
  have "n AND 15 = take_bit 4 n" for n :: nat
    by (simp add: take_bit_eq_mask mask_eq_exp_minus_1)
  then have "take_bit t ((base OR sz) AND 15) = take_bit t base OR take_bit t sz"
    using assms(2) by (simp only: take_bit_take_bit) (simp add: min_absorb1 take_bit_or)
  then show ?thesis
    using assms(1) by (simp add: or_eq_0_iff take_bit_eq_0_iff)
qed

lemma low_bits_cases:
  "n AND 15 = (0::nat) \<or> n AND 15 = 8 \<or> n AND 15 \<in> {4, 12} \<or> n AND 15 \<in> {2, 6, 10, 14} \<or>
   n AND 15 \<in> {1, 3, 5, 7, 9, 11, 13, 15}"
proof -
  have "n AND 15 = n mod 16"
    using take_bit_eq_mask [of 4 n] by (simp add: take_bit_eq_mod mask_eq_exp_minus_1)
  moreover have "x < 16 \<Longrightarrow> x \<in> {0, 8, 4, 12, 2, 6, 10, 14, 1, 3, 5, 7, 9, 11, 13, 15}" for x :: nat
    by (simp only: insert_iff empty_iff) arith
  ultimately show ?thesis by auto
qed

text \<open>
  Whatever routine is selected for elements of \<open>sel\<close> bytes exchanges \<open>n\<close> bytes, provided
  \<open>n\<close> is a multiple of every power of two up to 16 that divides \<open>sel\<close>, and \<open>sel\<close> is the
  number of bytes itself or one of the sizes with no straight-line routine.
\<close>

lemma exchange_func_swaps:
  assumes "a + n \<le> length m" "b + n \<le> length m" "apart a b n"
    and dv: "\<And>t. t \<le> 4 \<Longrightarrow> 2 ^ t dvd sel \<Longrightarrow> 2 ^ t dvd n"
    and sel: "n = sel \<or> sel \<notin> {1, 2, 4, 8, 16}"
  shows "exchange_func base sel m a b n = Some (swap_blocks m a b n)"
proof -
  let ?k = "(base OR sel) AND 15"
  have low: "take_bit t ?k = 0 \<Longrightarrow> t \<le> 4 \<Longrightarrow> n div 2 ^ t * 2 ^ t = n" for t
    using low_bits_zero dv by simp
  have u: "n div u * u = n \<Longrightarrow> exchange_units u (n div u) m a b = Some (swap_blocks m a b n)" for u
    using exchange_units_swaps [of a "n div u" u m b] assms by simp
  have p: "n div 16 * 16 = n \<Longrightarrow> exchange_pairs (n div 16) m a b = Some (swap_blocks m a b n)"
    using exchange_pairs_swaps [of a "n div 16" m b] assms by simp
  note defs = exchange_func_def exchange_int128s_def exchange_one_int64_def exchange_int64s_def
    exchange_one_int32_def exchange_int32s_def exchange_one_int16_def exchange_int16s_def
    exchange_one_byte_def exchange_bytes_def Let_def
  note one = exchange_unit_swaps [of a _ m b]
  have n: "n = sel" if "sel \<in> {1, 2, 4, 8, 16}" using that sel by blast
  from low_bits_cases [of "base OR sel"] show ?thesis
  proof (elim disjE)
    assume k: "?k = 0"
    then have "n div 16 * 16 = n" using low [of 4] by simp
    then show ?thesis
      using p n exchange_one_int128_swaps [of a m b n] assms(1-3) k by (cases "sel = 16") (simp_all add: defs)
  next
    assume k: "?k = 8"
    then have "n div 8 * 8 = n" using low [of 3] by (simp add: take_bit_eq_mod)
    then show ?thesis
      using u [of 8] n one [of 8] assms(1-3) k by (cases "sel = 8") (simp_all add: defs)
  next
    assume k: "?k \<in> {4, 12}"
    then have "n div 4 * 4 = n" using low [of 2] by (auto simp: take_bit_eq_mod)
    then show ?thesis
      using u [of 4] n one [of 4] assms(1-3) k by (cases "sel = 4"; elim insertE) (simp_all add: defs)
  next
    assume k: "?k \<in> {2, 6, 10, 14}"
    then have "n div 2 * 2 = n" using low [of 1] by (auto simp: take_bit_eq_mod)
    then show ?thesis
      using u [of 2] n one [of 2] assms(1-3) k by (cases "sel = 2"; elim insertE) (simp_all add: defs)
  next
    assume k: "?k \<in> {1, 3, 5, 7, 9, 11, 13, 15}"
    then show ?thesis
      using u [of 1] n one [of 1] assms(1-3) by (cases "sel = 1"; elim insertE) (simp_all add: defs)
  qed
qed

section \<open>The array of elements\<close>

definition elems :: "nat \<Rightarrow> 'a list \<Rightarrow> 'a list list" where
  "elems sz m = map (\<lambda>k. take sz (drop (k * sz) m)) [0..<length m div sz]"

lemma length_elems [simp]: "length (elems sz m) = length m div sz"
  by (simp add: elems_def)

lemma elem_in_bounds: "0 < sz \<Longrightarrow> i + n \<le> length m div sz \<Longrightarrow> i * sz + n * sz \<le> length m"
  by (metis add_mult_distrib div_times_less_eq_dividend dual_order.trans mult_le_mono1)

lemma byte_in_block:
  assumes "q < (sz::nat)"
  shows "i * sz \<le> k * sz + q \<and> k * sz + q < i * sz + n * sz \<longleftrightarrow> i \<le> k \<and> k < i + n"
proof -
  have "(k * sz + q) div sz = k" using assms by simp
  then have "i * sz \<le> k * sz + q \<longleftrightarrow> i \<le> k" "k * sz + q < (i + n) * sz \<longleftrightarrow> k < i + n"
    using assms
    by (metis less_eq_div_iff_mult_less_eq gr_implies_not0 neq0_conv, metis div_less_iff_less_mult gr_implies_not0 neq0_conv)
  then show ?thesis by (simp add: add_mult_distrib)
qed

lemma byte_offset:
  "i \<le> k \<Longrightarrow> j * sz + (k * sz + q - i * sz) = (j + (k - i)) * sz + (q::nat)"
  by (auto simp: le_iff_add add_mult_distrib)

lemma elems_swap_blocks:
  assumes sz: "0 < sz" and "i + n \<le> length m div sz" and "j + n \<le> length m div sz"
  shows "elems sz (swap_blocks m (i * sz) (j * sz) (n * sz)) = swap_blocks (elems sz m) i j n"
proof (rule nth_equalityI)
  fix k assume "k < length (elems sz (swap_blocks m (i * sz) (j * sz) (n * sz)))"
  then have k: "k < length m div sz" by simp
  then have in_k: "k * sz + sz \<le> length m"
    using elem_in_bounds [of sz k 1 m] sz by simp
  let ?src = "\<lambda>k. if i \<le> k \<and> k < i + n then j + (k - i) else if j \<le> k \<and> k < j + n then i + (k - j) else k"
  have src: "?src k < length m div sz" using assms k by auto
  then have in_src: "?src k * sz + sz \<le> length m"
    using elem_in_bounds [of sz "?src k" 1 m] sz by simp
  have "take sz (drop (k * sz) (swap_blocks m (i * sz) (j * sz) (n * sz))) = take sz (drop (?src k * sz) m)"
  proof (rule nth_equalityI)
    fix q assume "q < length (take sz (drop (k * sz) (swap_blocks m (i * sz) (j * sz) (n * sz))))"
    then have q: "q < sz" by simp
    have "swap_blocks m (i * sz) (j * sz) (n * sz) ! (k * sz + q) = m ! (?src k * sz + q)"
    proof -
      have K: "k * sz + q < length m" using in_k q by linarith
      show ?thesis
        unfolding swap_blocks_nth [OF K] byte_in_block [OF q]
        by (cases "i \<le> k \<and> k < i + n"; cases "j \<le> k \<and> k < j + n")
          (simp_all only: byte_offset if_True if_False simp_thms)
    qed
    then show "take sz (drop (k * sz) (swap_blocks m (i * sz) (j * sz) (n * sz))) ! q =
        take sz (drop (?src k * sz) m) ! q"
      using q in_k in_src by simp
  qed (use in_k in_src in simp)
  then show "elems sz (swap_blocks m (i * sz) (j * sz) (n * sz)) ! k = swap_blocks (elems sz m) i j n ! k"
    using k src assms by (auto simp: elems_def swap_blocks_nth)
qed simp

lemma swap_blocks_1: "i < length xs \<Longrightarrow> j < length xs \<Longrightarrow> swap_blocks xs i j (Suc 0) = swap xs i j"
  by (intro nth_equalityI) (auto simp: swap_blocks_nth swap_nth)


section \<open>Properties\<close>

text \<open>
  C26: the exchange routine selected for an array exchanges its elements: on an array at address
  \<open>base\<close> with elements of \<open>sz\<close> bytes, the routine chosen for \<open>sz\<close> exchanges two
  elements and nothing else, whatever the alignment, and the one chosen for \<open>size | 128\<close>, as
  \<open>rqsort\<close> does for its block moves, exchanges two disjoint runs of \<open>n\<close> elements; neither
  leaves the block.
\<close>

theorem exchange_func_elements:
  assumes "0 < sz"
    and "i < length m div sz" "j < length m div sz"
    and "a + n \<le> length m div sz" "b + n \<le> length m div sz" "apart a b n"
  shows "\<exists>m1 m2. exchange_func base sz m (i * sz) (j * sz) sz = Some m1 \<and>
      elems sz m1 = swap (elems sz m) i j \<and>
    exchange_func base (sz OR 128) m (a * sz) (b * sz) (n * sz) = Some m2 \<and>
      elems sz m2 = swap_blocks (elems sz m) a b n"
proof -
  have ij: "apart (i * sz) (j * sz) sz"
    by (cases i j rule: linorder_cases) (auto simp: apart_def less_iff_Suc_add)
  have 1: "exchange_func base sz m (i * sz) (j * sz) sz = Some (swap_blocks m (i * sz) (j * sz) sz)"
    using assms elem_in_bounds [of sz i 1 m] elem_in_bounds [of sz j 1 m] ij
    by (intro exchange_func_swaps) auto
  have ab: "apart (a * sz) (b * sz) (n * sz)"
    using assms(6) by (auto simp: apart_def mult_le_mono1 simp flip: add_mult_distrib)
  have bit7: "bit (sz OR 128) 7" by (simp add: bit_or_iff bit_numeral_rec bit_0)
  have sel: "sz OR 128 \<notin> {1, 2, 4, 8, 16}"
    using bit7 by (auto simp: bit_numeral_rec)
  have dv: "2 ^ t dvd n * sz" if "2 ^ t dvd sz OR 128" for t
  proof -
    have "take_bit t (sz OR 128) = 0" using that by (simp only: take_bit_eq_0_iff)
    then have "2 ^ t dvd sz" by (simp add: take_bit_or or_eq_0_iff take_bit_eq_0_iff)
    then show ?thesis by simp
  qed
  have 2: "exchange_func base (sz OR 128) m (a * sz) (b * sz) (n * sz) =
      Some (swap_blocks m (a * sz) (b * sz) (n * sz))"
    using assms elem_in_bounds [of sz a n m] elem_in_bounds [of sz b n m] ab sel dv
    by (intro exchange_func_swaps) auto
  show ?thesis
    using 1 2 elems_swap_blocks [of sz i 1 m j] elems_swap_blocks [of sz a n m b] assms
    by (simp add: swap_blocks_1)
qed

theorem exchange_func_elements_witness:
  "exchange_func 8 3 [1, 2, 3, 4, 5, 6] 0 3 3 = Some [4, 5, 6, 1, 2, 3] \<and>
   (\<exists>m2. exchange_func 8 131 [1, 2, 3, 4, 5, 6] 0 3 3 = Some m2 \<and> elems 3 m2 = [[4, 5, 6], [1, 2, 3]])"
proof -
  have "exchange_func 8 3 [1, 2, 3, 4, 5, 6] 0 3 3 = Some [4, 5, 6, 1, 2, 3]" by code_simp
  moreover have "elems 3 [1, 2, 3, 4, 5, 6 :: byte] = [[1, 2, 3], [4, 5, 6]]" by code_simp
  moreover have "swap_blocks [[1, 2, 3], [4, 5, 6 :: byte]] 0 1 1 = [[4, 5, 6], [1, 2, 3]]" by code_simp
  moreover have "(3::nat) OR 128 = 131" by code_simp
  ultimately show ?thesis
    using exchange_func_elements [of 3 0 "[1, 2, 3, 4, 5, 6]" 1 0 1 1 8] by (auto simp: apart_def)
qed

end
