(* ===== verification/Rqsort.thy ===== *)
theory Rqsort
  imports Exchange
begin

text \<open>
  The sorting routine of \<open>BugChecker/QuickJS/cutils.c\<close>: \<open>rqsort\<close> (three-way quicksort
  with an explicit stack of 50 segments), \<open>heapsortx\<close> (its fallback below depth 50) and the
  insertion sort it uses for short segments. The array is the list of its elements and a pointer
  into it is an element index; \<open>Exchange\<close> shows that the exchange routines act on the elements as
  \<open>swap\<close> and \<open>swap_blocks\<close> do. The counters \<open>i\<close>, \<open>lt\<close> and \<open>gt\<close> of the
  source always equal the distances of the pointers \<open>pi\<close>, \<open>plt\<close> and \<open>pgt\<close> from
  \<open>ptr\<close>, and are written as such.
\<close>

section \<open>The model\<close>

type_synonym 'a cmp_f = "'a \<Rightarrow> 'a \<Rightarrow> int"

definition sift_child :: "'a cmp_f \<Rightarrow> 'a list \<Rightarrow> nat \<Rightarrow> nat \<Rightarrow> nat \<Rightarrow> nat" where
  "sift_child cmp xs base r n =
     (let c = r * 2 + 1 in
      if c < n - 1 \<and> cmp (xs ! (base + c)) (xs ! (base + c + 1)) \<le> 0 then c + 1 else c)"

lemma sift_child_bounds: "r * 2 + 1 < n \<Longrightarrow> r < sift_child cmp xs base r n \<and> sift_child cmp xs base r n < n"
  by (auto simp: sift_child_def Let_def)

function sift_down :: "'a cmp_f \<Rightarrow> 'a list \<Rightarrow> nat \<Rightarrow> nat \<Rightarrow> nat \<Rightarrow> 'a list" where
  "sift_down cmp xs base r n =
     (if r * 2 + 1 < n then
        (let c = sift_child cmp xs base r n in
         if cmp (xs ! (base + r)) (xs ! (base + c)) > 0 then xs
         else sift_down cmp (swap xs (base + r) (base + c)) base c n)
      else xs)"
  by pat_completeness auto
termination
  by (relation "measure (\<lambda>(cmp, xs, base, r, n). n - r)")
    (auto intro!: diff_less_mono2 sift_child_bounds [THEN conjunct1])

fun heapify :: "'a cmp_f \<Rightarrow> 'a list \<Rightarrow> nat \<Rightarrow> nat \<Rightarrow> nat \<Rightarrow> 'a list" where
  "heapify cmp xs base 0 n = xs"
| "heapify cmp xs base (Suc i) n = heapify cmp (sift_down cmp xs base i n) base i n"

fun heap_extract :: "'a cmp_f \<Rightarrow> 'a list \<Rightarrow> nat \<Rightarrow> nat \<Rightarrow> 'a list" where
  "heap_extract cmp xs base 0 = xs"
| "heap_extract cmp xs base (Suc i) =
     heap_extract cmp (sift_down cmp (swap xs base (base + Suc i)) base 0 (Suc i)) base i"

definition heapsortx :: "'a cmp_f \<Rightarrow> 'a list \<Rightarrow> nat \<Rightarrow> nat \<Rightarrow> 'a list" where
  "heapsortx cmp xs base nmemb =
     (if nmemb > 1 then
        heap_extract cmp (heapify cmp xs base (nmemb div 2) nmemb) base (nmemb - 1)
      else xs)"

definition med3 :: "'a cmp_f \<Rightarrow> 'a list \<Rightarrow> nat \<Rightarrow> nat \<Rightarrow> nat \<Rightarrow> nat" where
  "med3 cmp xs a b c =
     (if cmp (xs ! a) (xs ! b) < 0
      then (if cmp (xs ! b) (xs ! c) < 0 then b else if cmp (xs ! a) (xs ! c) < 0 then c else a)
      else (if cmp (xs ! b) (xs ! c) > 0 then b else if cmp (xs ! a) (xs ! c) < 0 then a else c))"

text \<open>The two scanning loops of the partition and the loop around them.\<close>

function scan_up :: "'a cmp_f \<Rightarrow> 'a list \<Rightarrow> nat \<Rightarrow> nat \<Rightarrow> nat \<Rightarrow> nat \<Rightarrow> 'a list \<times> nat \<times> nat" where
  "scan_up cmp xs ptr plt pi pj =
     (if pi < pj then
        (let c = cmp (xs ! ptr) (xs ! pi) in
         if c \<ge> 0 then
           (if c = 0 then scan_up cmp (swap xs plt pi) ptr (plt + 1) (pi + 1) pj
            else scan_up cmp xs ptr plt (pi + 1) pj)
         else (xs, plt, pi))
      else (xs, plt, pi))"
  by pat_completeness auto
termination by (relation "measure (\<lambda>(cmp, xs, ptr, plt, pi, pj). pj - pi)") auto

fun scan_down :: "'a cmp_f \<Rightarrow> 'a list \<Rightarrow> nat \<Rightarrow> nat \<Rightarrow> nat \<Rightarrow> nat \<Rightarrow> 'a list \<times> nat \<times> nat" where
  "scan_down cmp xs ptr pi pgt 0 = (xs, pgt, 0)"
| "scan_down cmp xs ptr pi pgt (Suc pj) =
     (if pi < pj then
        (let c = cmp (xs ! ptr) (xs ! pj) in
         if c \<le> 0 then
           (if c = 0 then scan_down cmp (swap xs (pgt - 1) pj) ptr pi (pgt - 1) pj
            else scan_down cmp xs ptr pi pgt pj)
         else (xs, pgt, pj))
      else (xs, pgt, pj))"

declare scan_up.simps [simp del] sift_down.simps [simp del]

lemma scan_up_stop: "pi < pj \<longrightarrow> cmp (xs ! ptr) (xs ! pi) < 0 \<Longrightarrow> scan_up cmp xs ptr plt pi pj = (xs, plt, pi)"
  by (subst scan_up.simps) auto

lemma scan_up_same:
  "pi < pj \<Longrightarrow> cmp (xs ! ptr) (xs ! pi) = 0 \<Longrightarrow>
   scan_up cmp xs ptr plt pi pj = scan_up cmp (swap xs plt pi) ptr (plt + 1) (pi + 1) pj"
  by (subst scan_up.simps) auto

lemma scan_up_small:
  "pi < pj \<Longrightarrow> cmp (xs ! ptr) (xs ! pi) > 0 \<Longrightarrow>
   scan_up cmp xs ptr plt pi pj = scan_up cmp xs ptr plt (pi + 1) pj"
  by (subst scan_up.simps) auto

lemma scan_up_cases:
  fixes cmp :: "'a cmp_f"
  obtains (stop) "pi < pj \<longrightarrow> cmp (xs ! ptr) (xs ! pi) < 0"
  | (same) "pi < pj" "cmp (xs ! ptr) (xs ! pi) = 0"
  | (small) "pi < pj" "cmp (xs ! ptr) (xs ! pi) > 0"
  by linarith

lemma scan_up_bounds:
  "scan_up cmp xs ptr plt pi pj = (xs', plt', pi') \<Longrightarrow>
   pi \<le> pi' \<and> (pi \<le> pj \<longrightarrow> pi' \<le> pj) \<and> (plt \<le> pi \<longrightarrow> plt \<le> plt' \<and> plt' \<le> pi')"
proof (induction "pj - pi" arbitrary: xs plt pi rule: less_induct)
  case less
  show ?case
  proof (cases rule: scan_up_cases [of pi pj cmp xs ptr])
    case stop
    then show ?thesis using less.prems by (simp add: scan_up_stop)
  next
    case same
    then have "pj - (pi + 1) < pj - pi" by simp
    from less.hyps [OF this, of "swap xs plt pi" "plt + 1"] show ?thesis
      using less.prems same by (auto simp: scan_up_same)
  next
    case small
    then have "pj - (pi + 1) < pj - pi" by simp
    from less.hyps [OF this, of xs plt] show ?thesis
      using less.prems small by (auto simp: scan_up_small)
  qed
qed

lemma scan_down_bounds:
  "scan_down cmp xs ptr pi pgt pj = (xs', pgt', pj') \<Longrightarrow>
   pj' \<le> pj - 1 \<and> (0 < pj \<longrightarrow> pi \<le> pj \<longrightarrow> pj \<le> pgt \<longrightarrow> pi \<le> pj' + 1 \<and> pj' < pgt' \<and> pgt' \<le> pgt)"
proof (induction pj arbitrary: xs pgt)
  case (Suc pj)
  show ?case
    using Suc.prems Suc.IH [of "swap xs (pgt - 1) pj" "pgt - 1"] Suc.IH [of xs pgt]
    by (auto simp: Let_def split: if_splits)
qed simp

function partition_loop :: "'a cmp_f \<Rightarrow> 'a list \<Rightarrow> nat \<Rightarrow> nat \<Rightarrow> nat \<Rightarrow> nat \<Rightarrow> nat \<Rightarrow> 'a list \<times> nat \<times> nat \<times> nat" where
  "partition_loop cmp xs ptr plt pi pj pgt =
     (case scan_up cmp xs ptr plt pi pj of
        (xs, plt, pi) \<Rightarrow>
          (case scan_down cmp xs ptr pi pgt pj of
             (xs, pgt, pj) \<Rightarrow>
               if pi \<ge> pj then (xs, plt, pi, pgt)
               else partition_loop cmp (swap xs pi pj) ptr plt (pi + 1) pj pgt))"
  by pat_completeness auto
termination
  by (relation "measure (\<lambda>(cmp, xs, ptr, plt, pi, pj, pgt). pj - pi)")
    (auto dest!: scan_up_bounds [OF sym] scan_down_bounds [OF sym])

declare partition_loop.simps [simp del]

lemma partition_loop_bounds:
  "partition_loop cmp xs ptr plt pi pj pgt = (xs', plt', pi', pgt') \<Longrightarrow>
   plt \<le> pi \<Longrightarrow> pi \<le> pj \<Longrightarrow> pj \<le> pgt \<Longrightarrow> 0 < pj \<Longrightarrow>
   plt \<le> plt' \<and> plt' \<le> pi' \<and> pi' \<le> pgt' \<and> pgt' \<le> pgt"
proof (induction "pj - pi" arbitrary: xs plt pi pj pgt rule: less_induct)
  case less
  obtain xs1 plt1 pi1 where up: "scan_up cmp xs ptr plt pi pj = (xs1, plt1, pi1)" by (rule prod_cases3)
  obtain xs2 pgt1 pj1 where dn: "scan_down cmp xs1 ptr pi1 pgt pj = (xs2, pgt1, pj1)" by (rule prod_cases3)
  note b = scan_up_bounds [OF up] scan_down_bounds [OF dn] less.prems(2-5)
  show ?case
  proof (cases "pi1 \<ge> pj1")
    case True
    then show ?thesis
      using b less.prems(1) by (subst (asm) partition_loop.simps) (auto simp: up dn)
  next
    case False
    then have "pj1 - (pi1 + 1) < pj - pi" using b by auto
    from less.hyps [OF this, of "swap xs2 pi1 pj1" plt1 pgt1] show ?thesis
      using b less.prems(1) False by (subst (asm) (2) partition_loop.simps) (auto simp: up dn)
  qed
qed

text \<open>
  One round of the quicksort loop: choose the pivot, partition, move the elements equal to the
  pivot into the middle. The result is the array, the number \<open>lt\<close> of smaller elements, the
  pointer \<open>pgt\<close> to the greater ones and the count \<open>gt\<close> of all others.
\<close>

definition rq_split :: "'a cmp_f \<Rightarrow> 'a list \<Rightarrow> nat \<Rightarrow> nat \<Rightarrow> 'a list \<times> nat \<times> nat \<times> nat" where
  "rq_split cmp xs ptr nmemb =
     (let m4 = nmemb div 4;
          m = med3 cmp xs (ptr + m4) (ptr + 2 * m4) (ptr + 3 * m4);
          xs = swap xs ptr m;
          ptop = ptr + nmemb
      in case partition_loop cmp xs ptr (ptr + 1) (ptr + 1) ptop ptop of
           (xs, plt, pi, pgt) \<Rightarrow>
             let span = plt - ptr;
                 span2 = pi - plt;
                 lt = pi - plt;
                 span = (if span > span2 then span2 else span);
                 xs = swap_blocks xs ptr (pi - span) span;
                 span = ptop - pgt;
                 span2 = pgt - pi;
                 gt = nmemb - (pgt - pi);
                 pgt = ptop - span2;
                 span = (if span > span2 then span2 else span);
                 xs = swap_blocks xs pi (ptop - span) span
             in (xs, lt, pgt, gt))"

lemma rq_split_bounds:
  assumes "rq_split cmp xs ptr nmemb = (xs', lt, pgt, gt)" and "0 < nmemb"
  shows "lt + (nmemb - gt) < nmemb \<and> lt < gt \<and> gt \<le> nmemb \<and> pgt = ptr + gt"
proof -
  let ?xs = "swap xs ptr (med3 cmp xs (ptr + nmemb div 4) (ptr + 2 * (nmemb div 4)) (ptr + 3 * (nmemb div 4)))"
  obtain ys plt pi g where p: "partition_loop cmp ?xs ptr (ptr + 1) (ptr + 1) (ptr + nmemb) (ptr + nmemb) = (ys, plt, pi, g)"
    by (rule prod_cases4)
  show ?thesis
    using assms partition_loop_bounds [OF p] p by (auto simp: rq_split_def Let_def)
qed

fun insert_back :: "'a cmp_f \<Rightarrow> 'a list \<Rightarrow> nat \<Rightarrow> nat \<Rightarrow> 'a list" where
  "insert_back cmp xs ptr 0 = xs"
| "insert_back cmp xs ptr (Suc pj) =
     (if Suc pj > ptr \<and> cmp (xs ! pj) (xs ! Suc pj) > 0
      then insert_back cmp (swap xs (Suc pj) pj) ptr pj else xs)"

function insertion_sort :: "'a cmp_f \<Rightarrow> 'a list \<Rightarrow> nat \<Rightarrow> nat \<Rightarrow> nat \<Rightarrow> 'a list" where
  "insertion_sort cmp xs ptr pi ptop =
     (if pi < ptop then insertion_sort cmp (insert_back cmp xs ptr pi) ptr (pi + 1) ptop else xs)"
  by pat_completeness auto
termination by (relation "measure (\<lambda>(cmp, xs, ptr, pi, ptop). ptop - pi)") auto

declare insertion_sort.simps [simp del]

text \<open>
  The end of a segment: heap sort and no elements left when the depth limit was hit with more than
  six elements, then the insertion sort of what is left.
\<close>

definition rq_leaf :: "'a cmp_f \<Rightarrow> 'a list \<Rightarrow> nat \<Rightarrow> nat \<Rightarrow> 'a list" where
  "rq_leaf cmp xs ptr nmemb =
     (let (xs', n) = (if nmemb > 6 then (heapsortx cmp xs ptr nmemb, 0) else (xs, nmemb))
      in insertion_sort cmp xs' ptr (ptr + 1) (ptr + n))"

text \<open>
  The loops of \<open>rqsort\<close> around one another as one recursion: a state is the array, the stack of
  pending segments (base, count, depth) with its top first, and the segment at hand. A push onto a
  full stack, which would overrun \<open>stack[50]\<close>, is \<open>None\<close>.
\<close>

definition rq_stack_size :: nat where "rq_stack_size = 50"

definition rq_push :: "(nat \<times> nat \<times> nat) \<Rightarrow> (nat \<times> nat \<times> nat) list \<Rightarrow> (nat \<times> nat \<times> nat) list option" where
  "rq_push e stk = (if length stk < rq_stack_size then Some (e # stk) else None)"

definition stack_work :: "(nat \<times> nat \<times> nat) list \<Rightarrow> nat" where
  "stack_work stk = sum_list (map (\<lambda>(b, n, d). 2 * n + 1) stk)"

function rq_loop :: "'a cmp_f \<Rightarrow> 'a list \<Rightarrow> (nat \<times> nat \<times> nat) list \<Rightarrow> nat \<Rightarrow> nat \<Rightarrow> nat \<Rightarrow> 'a list option" where
  "rq_loop cmp xs stk ptr nmemb depth =
     (if nmemb > 6 \<and> \<not> depth + 1 > 50 then
        (case rq_split cmp xs ptr nmemb of
           (xs', lt, pgt, gt) \<Rightarrow>
             if lt > nmemb - gt then
               (case rq_push (ptr, lt, depth + 1) stk of
                  None \<Rightarrow> None
                | Some stk' \<Rightarrow> rq_loop cmp xs' stk' pgt (nmemb - gt) (depth + 1))
             else
               (case rq_push (pgt, nmemb - gt, depth + 1) stk of
                  None \<Rightarrow> None
                | Some stk' \<Rightarrow> rq_loop cmp xs' stk' ptr lt (depth + 1)))
      else
        (case stk of
           [] \<Rightarrow> Some (rq_leaf cmp xs ptr nmemb)
         | (b, c, d) # stk' \<Rightarrow> rq_loop cmp (rq_leaf cmp xs ptr nmemb) stk' b c d))"
  by pat_completeness auto
termination
  by (relation "measure (\<lambda>(cmp, xs, stk, ptr, nmemb, depth). stack_work stk + 2 * nmemb + 1)")
    (auto simp: stack_work_def rq_push_def split: if_splits dest!: rq_split_bounds [OF sym])

declare rq_loop.simps [simp del]

definition rqsort :: "'a cmp_f \<Rightarrow> nat \<Rightarrow> nat \<Rightarrow> 'a list \<Rightarrow> 'a list option" where
  "rqsort cmp nmemb sz xs =
     (if nmemb < 2 \<or> sz \<le> 0 then Some xs else rq_loop cmp xs [] 0 nmemb 0)"

end
