(* ===== verification/Rqsort_Correct.thy ===== *)
theory Rqsort_Correct
  imports Rqsort
begin

text \<open>
  Correctness of the sorting routine. For any comparison function, also an inconsistent one,
  \<open>rqsort\<close> terminates, permutes the elements of the segment it was given, touches nothing else
  and never overruns its 50-entry stack; for a comparison function that is a total preorder the
  segment comes out sorted.
\<close>

section \<open>Rearranging a segment\<close>

inductive rearr :: "nat \<Rightarrow> nat \<Rightarrow> 'a list \<Rightarrow> 'a list \<Rightarrow> bool" for lo hi where
  rearr_refl [simp, intro]: "rearr lo hi xs xs"
| rearr_swap: "rearr lo hi xs ys \<Longrightarrow> lo \<le> i \<Longrightarrow> i < hi \<Longrightarrow> lo \<le> j \<Longrightarrow> j < hi \<Longrightarrow>
    rearr lo hi xs (swap ys i j)"

lemma rearr_trans: "rearr lo hi ys zs \<Longrightarrow> rearr lo hi xs ys \<Longrightarrow> rearr lo hi xs zs"
  by (induction rule: rearr.induct) (auto intro: rearr_swap)

lemma rearr_mono: "rearr lo hi xs ys \<Longrightarrow> lo' \<le> lo \<Longrightarrow> hi \<le> hi' \<Longrightarrow> rearr lo' hi' xs ys"
  by (induction rule: rearr.induct) (auto intro: rearr_swap)

lemma swap_rearr:
  "rearr lo hi (swap xs i j) ys \<Longrightarrow> lo \<le> i \<Longrightarrow> i < hi \<Longrightarrow> lo \<le> j \<Longrightarrow> j < hi \<Longrightarrow> rearr lo hi xs ys"
  by (rule rearr_trans) (auto intro: rearr_swap)

lemma rearr_length: "rearr lo hi xs ys \<Longrightarrow> length ys = length xs"
  by (induction rule: rearr.induct) auto

lemma rearr_mset: "rearr lo hi xs ys \<Longrightarrow> hi \<le> length xs \<Longrightarrow> mset ys = mset xs"
  by (induction rule: rearr.induct) (auto simp: rearr_length)

lemma rearr_outside:
  "rearr lo hi xs ys \<Longrightarrow> hi \<le> length xs \<Longrightarrow> k < length xs \<Longrightarrow> k < lo \<or> hi \<le> k \<Longrightarrow> ys ! k = xs ! k"
  by (induction rule: rearr.induct) (auto simp: rearr_length swap_nth)

lemma rearr_inside:
  "rearr lo hi xs ys \<Longrightarrow> hi \<le> length xs \<Longrightarrow> lo \<le> k \<Longrightarrow> k < hi \<Longrightarrow> \<exists>l. lo \<le> l \<and> l < hi \<and> ys ! k = xs ! l"
proof (induction arbitrary: k rule: rearr.induct)
  case (rearr_swap xs ys i j)
  then have "swap ys i j ! k = ys ! (if k = i then j else if k = j then i else k)"
    by (auto simp: swap_nth rearr_length)
  then show ?case
    using rearr_swap.IH [of "if k = i then j else if k = j then i else k"] rearr_swap.hyps rearr_swap.prems
    by auto
qed auto

lemma rearr_swap_blocks:
  "lo \<le> a \<Longrightarrow> a + n \<le> b \<Longrightarrow> b + n \<le> hi \<Longrightarrow> hi \<le> length xs \<Longrightarrow> rearr lo hi xs (swap_blocks xs a b n)"
proof (induction n)
  case (Suc n)
  then have "swap_blocks xs a b (Suc n) = swap (swap_blocks xs a b n) (a + n) (b + n)"
    using swap_blocks_compose [of a n 1 xs b] swap_blocks_1 [of "a + n" "swap_blocks xs a b n" "b + n"]
    by (simp add: apart_def)
  then show ?case using Suc by (auto intro: rearr_swap)
qed simp

section \<open>Every routine only rearranges its segment\<close>

lemma sift_down_stop:
  "r * 2 + 1 < n \<longrightarrow> cmp (xs ! (base + r)) (xs ! (base + sift_child cmp xs base r n)) > 0 \<Longrightarrow>
   sift_down cmp xs base r n = xs"
  by (subst sift_down.simps) (auto simp: Let_def)

lemma sift_down_step:
  "r * 2 + 1 < n \<Longrightarrow> cmp (xs ! (base + r)) (xs ! (base + sift_child cmp xs base r n)) \<le> 0 \<Longrightarrow>
   sift_down cmp xs base r n =
     sift_down cmp (swap xs (base + r) (base + sift_child cmp xs base r n)) base (sift_child cmp xs base r n) n"
  by (subst sift_down.simps) (auto simp: Let_def)

lemma sift_down_cases:
  fixes cmp :: "'a cmp_f"
  obtains (stop) "r * 2 + 1 < n \<longrightarrow> cmp (xs ! (base + r)) (xs ! (base + sift_child cmp xs base r n)) > 0"
  | (step) "r * 2 + 1 < n" "cmp (xs ! (base + r)) (xs ! (base + sift_child cmp xs base r n)) \<le> 0"
      "r < sift_child cmp xs base r n" "sift_child cmp xs base r n < n"
  using sift_child_bounds [of r n cmp xs base] by linarith

lemma sift_down_rearr: "r < n \<Longrightarrow> rearr base (base + n) xs (sift_down cmp xs base r n)"
proof (induction "n - r" arbitrary: xs r rule: less_induct)
  case less
  show ?case
  proof (cases rule: sift_down_cases [of r n cmp xs base])
    case stop
    then show ?thesis by (simp add: sift_down_stop)
  next
    case step
    then have "n - sift_child cmp xs base r n < n - r" by simp
    from swap_rearr [OF less.hyps [OF this step(4)]] show ?thesis
      using step less.prems by (simp add: sift_down_step)
  qed
qed

lemma heapify_rearr: "i \<le> n \<Longrightarrow> rearr base (base + n) xs (heapify cmp xs base i n)"
proof (induction i arbitrary: xs)
  case (Suc i)
  then show ?case
    using rearr_trans [OF Suc.IH sift_down_rearr] by simp
qed simp

lemma heap_extract_rearr: "rearr base (base + Suc i) xs (heap_extract cmp xs base i)"
proof (induction i arbitrary: xs)
  case (Suc i)
  let ?s = "swap xs base (base + Suc i)"
  have "rearr base (base + Suc (Suc i)) ?s (sift_down cmp ?s base 0 (Suc i))"
    by (rule rearr_mono [OF sift_down_rearr [of 0 "Suc i"]]) auto
  then have "rearr base (base + Suc (Suc i)) xs (sift_down cmp ?s base 0 (Suc i))"
    by (rule swap_rearr) auto
  moreover have "rearr base (base + Suc (Suc i)) (sift_down cmp ?s base 0 (Suc i))
      (heap_extract cmp (sift_down cmp ?s base 0 (Suc i)) base i)"
    by (rule rearr_mono [OF Suc.IH]) auto
  ultimately show ?case by (auto intro: rearr_trans)
qed simp

lemma heapsortx_rearr: "rearr base (base + n) xs (heapsortx cmp xs base n)"
  using heap_extract_rearr [of base "n - 1" "heapify cmp xs base (n div 2) n" cmp]
    heapify_rearr [of "n div 2" n base xs cmp]
  by (auto simp: heapsortx_def intro: rearr_trans)

lemma insert_back_rearr: "pj < hi \<Longrightarrow> rearr ptr hi xs (insert_back cmp xs ptr pj)"
proof (induction pj arbitrary: xs)
  case (Suc pj)
  show ?case
    using Suc.prems swap_rearr [OF Suc.IH, of "Suc pj" pj xs] by auto
qed simp

lemma insertion_sort_rearr: "rearr ptr hi xs (insertion_sort cmp xs ptr pi hi)"
proof (induction cmp xs ptr pi hi rule: insertion_sort.induct)
  case (1 cmp xs ptr pi ptop)
  then show ?case
    by (subst insertion_sort.simps) (auto intro: rearr_trans insert_back_rearr)
qed

section \<open>The three-way partition\<close>

text \<open>
  The picture of the array while the partition runs, for the pivot \<open>p\<close> at \<open>ptr\<close>: equal
  elements up to \<open>plt\<close>, smaller ones up to \<open>pi\<close>, unseen ones up to \<open>pj\<close>,
  greater ones up to \<open>pgt\<close>, equal ones again up to the end \<open>hi\<close>.
\<close>

definition class_on :: "(int \<Rightarrow> bool) \<Rightarrow> 'a cmp_f \<Rightarrow> 'a \<Rightarrow> 'a list \<Rightarrow> nat \<Rightarrow> nat \<Rightarrow> bool" where
  "class_on P cmp p xs lo hi \<longleftrightarrow> (\<forall>k. lo \<le> k \<and> k < hi \<longrightarrow> P (cmp p (xs ! k)))"

definition part_inv :: "'a cmp_f \<Rightarrow> 'a \<Rightarrow> nat \<Rightarrow> nat \<Rightarrow> 'a list \<Rightarrow> nat \<Rightarrow> nat \<Rightarrow> nat \<Rightarrow> nat \<Rightarrow> bool" where
  "part_inv cmp p ptr hi xs plt pi pj pgt \<longleftrightarrow>
     ptr < plt \<and> plt \<le> pi \<and> pi \<le> pj \<and> pj \<le> pgt \<and> pgt \<le> hi \<and> hi \<le> length xs \<and> xs ! ptr = p \<and>
     class_on (\<lambda>c. c = 0) cmp p xs (ptr + 1) plt \<and> class_on (\<lambda>c. c > 0) cmp p xs plt pi \<and>
     class_on (\<lambda>c. c < 0) cmp p xs pj pgt \<and> class_on (\<lambda>c. c = 0) cmp p xs pgt hi"

lemma part_inv_same:
  assumes "part_inv cmp p ptr hi xs plt pi pj pgt" "pi < pj" "cmp p (xs ! pi) = 0"
  shows "part_inv cmp p ptr hi (swap xs plt pi) (plt + 1) (pi + 1) pj pgt"
  using assms by (auto simp: part_inv_def class_on_def swap_nth less_Suc_eq)

lemma part_inv_small:
  assumes "part_inv cmp p ptr hi xs plt pi pj pgt" "pi < pj" "cmp p (xs ! pi) > 0"
  shows "part_inv cmp p ptr hi xs plt (pi + 1) pj pgt"
  using assms by (auto simp: part_inv_def class_on_def less_Suc_eq)

lemma class_on_extend_low: "class_on P cmp p xs (Suc k) hi \<Longrightarrow> P (cmp p (xs ! k)) \<Longrightarrow> class_on P cmp p xs k hi"
  unfolding class_on_def by (metis Suc_leI le_neq_implies_less)

lemma part_inv_great:
  assumes "part_inv cmp p ptr hi xs plt pi (Suc pj) pgt" "pi \<le> pj" "cmp p (xs ! pj) < 0"
  shows "part_inv cmp p ptr hi xs plt pi pj pgt"
  using assms by (simp add: part_inv_def class_on_extend_low)

lemma part_inv_same_high:
  assumes "part_inv cmp p ptr hi xs plt pi (Suc pj) pgt" "pi < pj" "cmp p (xs ! pj) = 0"
  shows "part_inv cmp p ptr hi (swap xs (pgt - 1) pj) plt pi pj (pgt - 1)"
  using assms
  by (auto simp: part_inv_def class_on_def swap_nth)

lemma part_inv_swap:
  assumes "part_inv cmp p ptr hi xs plt pi (Suc pj) pgt" "pi < pj"
    "cmp p (xs ! pi) < 0" "cmp p (xs ! pj) > 0"
  shows "part_inv cmp p ptr hi (swap xs pi pj) plt (pi + 1) pj pgt"
  using assms by (auto simp: part_inv_def class_on_def swap_nth less_Suc_eq)

lemma scan_up_spec:
  assumes "part_inv cmp p ptr hi xs plt pi pj pgt" "scan_up cmp xs ptr plt pi pj = (xs', plt', pi')"
  shows "part_inv cmp p ptr hi xs' plt' pi' pj pgt \<and> rearr ptr hi xs xs' \<and>
    (pi' < pj \<longrightarrow> cmp p (xs' ! pi') < 0)"
  using assms
proof (induction "pj - pi" arbitrary: xs plt pi rule: less_induct)
  case less
  have p: "xs ! ptr = p" and b: "ptr < plt" "plt \<le> pi" "pj \<le> hi"
    using less.prems(1) by (auto simp: part_inv_def)
  show ?case
  proof (cases rule: scan_up_cases [of pi pj cmp xs ptr])
    case stop
    then show ?thesis using less.prems p by (auto simp: scan_up_stop)
  next
    case same
    then have "pj - (pi + 1) < pj - pi" by simp
    from less.hyps [OF this part_inv_same [OF less.prems(1)]] show ?thesis
      using less.prems(2) same p b by (auto simp: scan_up_same intro: swap_rearr)
  next
    case small
    then have "pj - (pi + 1) < pj - pi" by simp
    from less.hyps [OF this part_inv_small [OF less.prems(1)]] show ?thesis
      using less.prems(2) small p by (auto simp: scan_up_small)
  qed
qed

lemma scan_down_spec:
  assumes "part_inv cmp p ptr hi xs plt pi pj pgt" "pi < pj \<longrightarrow> cmp p (xs ! pi) < 0"
    "scan_down cmp xs ptr pi pgt pj = (xs', pgt', pj')"
  shows "part_inv cmp p ptr hi xs' plt pi (Suc pj') pgt' \<and> rearr ptr hi xs xs' \<and>
    (pi < pj \<longrightarrow> cmp p (xs' ! pi) < 0) \<and> (pi < pj' \<longrightarrow> cmp p (xs' ! pj') > 0)"
  using assms
proof (induction pj arbitrary: xs pgt)
  case 0
  then show ?case by (auto simp: part_inv_def)
next
  case (Suc pj)
  have p: "xs ! ptr = p" and b: "ptr < plt" "plt \<le> pi" "Suc pj \<le> pgt" "pgt \<le> hi" "hi \<le> length xs"
    using Suc.prems(1) by (auto simp: part_inv_def)
  consider (stop) "pi < pj \<longrightarrow> cmp p (xs ! pj) > 0" | (same) "pi < pj" "cmp p (xs ! pj) = 0"
    | (great) "pi < pj" "cmp p (xs ! pj) < 0" by linarith
  then show ?case
  proof cases
    case stop
    then have "scan_down cmp xs ptr pi pgt (Suc pj) = (xs, pgt, pj)" using p by (auto simp: Let_def)
    then show ?thesis using Suc.prems stop by auto
  next
    case same
    have "swap xs (pgt - 1) pj ! pi = xs ! pi"
      using same b by (subst swap_nth) auto
    with Suc.IH [OF part_inv_same_high [OF Suc.prems(1) same]] show ?thesis
      using Suc.prems same p b by (auto intro: swap_rearr)
  next
    case great
    with Suc.IH [OF part_inv_great [OF Suc.prems(1)]] show ?thesis
      using Suc.prems p by auto
  qed
qed

lemma partition_loop_spec:
  assumes "part_inv cmp p ptr hi xs plt pi pj pgt"
    "partition_loop cmp xs ptr plt pi pj pgt = (xs', plt', pi', pgt')"
  shows "part_inv cmp p ptr hi xs' plt' pi' pi' pgt' \<and> rearr ptr hi xs xs'"
  using assms
proof (induction "pj - pi" arbitrary: xs plt pi pj pgt rule: less_induct)
  case less
  obtain xs1 plt1 pi1 where up: "scan_up cmp xs ptr plt pi pj = (xs1, plt1, pi1)" by (rule prod_cases3)
  obtain xs2 pgt1 pj1 where dn: "scan_down cmp xs1 ptr pi1 pgt pj = (xs2, pgt1, pj1)" by (rule prod_cases3)
  note u = scan_up_spec [OF less.prems(1) up]
  note d = scan_down_spec [OF u [THEN conjunct1] u [THEN conjunct2, THEN conjunct2] dn]
  have bounds: "pi \<le> pi1" "pj1 < pj"
    using scan_up_bounds [OF up] scan_down_bounds [OF dn] less.prems(1) by (auto simp: part_inv_def)
  have r: "rearr ptr hi xs xs2" using u d by (auto intro: rearr_trans)
  show ?case
  proof (cases "pi1 \<ge> pj1")
    case True
    then have res: "xs' = xs2" "plt' = plt1" "pi' = pi1" "pgt' = pgt1"
      using less.prems(2) by (subst (asm) partition_loop.simps, simp add: up dn)+
    have "part_inv cmp p ptr hi xs2 plt1 pi1 pi1 pgt1"
    proof (cases "pi1 = pj1")
      case True
      then show ?thesis using d bounds part_inv_great [of cmp p ptr hi xs2 plt1 pi1 pj1 pgt1] by auto
    next
      case False
      then have "Suc pj1 = pi1" using d \<open>pi1 \<ge> pj1\<close> by (auto simp: part_inv_def)
      then show ?thesis using d by simp
    qed
    then show ?thesis using res r by simp
  next
    case False
    then have "pj1 - (pi1 + 1) < pj - pi" using bounds by auto
    moreover have inv: "part_inv cmp p ptr hi (swap xs2 pi1 pj1) plt1 (pi1 + 1) pj1 pgt1"
      using d False bounds by (intro part_inv_swap) auto
    moreover have "partition_loop cmp (swap xs2 pi1 pj1) ptr plt1 (pi1 + 1) pj1 pgt1 = (xs', plt', pi', pgt')"
      using less.prems(2) False by (subst (asm) partition_loop.simps) (simp add: up dn)
    ultimately have "part_inv cmp p ptr hi xs' plt' pi' pi' pgt' \<and> rearr ptr hi (swap xs2 pi1 pj1) xs'"
      by (rule less.hyps)
    moreover have "rearr ptr hi xs (swap xs2 pi1 pj1)"
      using r d False by (intro rearr_swap) (auto simp: part_inv_def)
    ultimately show ?thesis by (auto intro: rearr_trans)
  qed
qed

definition on_range :: "('a \<Rightarrow> bool) \<Rightarrow> 'a list \<Rightarrow> nat \<Rightarrow> nat \<Rightarrow> bool" where
  "on_range P xs lo hi \<longleftrightarrow> (\<forall>k. lo \<le> k \<and> k < hi \<longrightarrow> P (xs ! k))"

lemma block_move:
  assumes "on_range A xs a b" "on_range B xs b c" "a \<le> b" "b \<le> c" "c \<le> length xs"
    and n: "n = (if b - a > c - b then c - b else b - a)"
  shows "on_range B (swap_blocks xs a (c - n) n) a (a + (c - b))"
    "on_range A (swap_blocks xs a (c - n) n) (a + (c - b)) c"
    "lo \<le> a \<Longrightarrow> c \<le> hi \<Longrightarrow> hi \<le> length xs \<Longrightarrow> rearr lo hi xs (swap_blocks xs a (c - n) n)"
    "k < length xs \<Longrightarrow> k < a \<or> c \<le> k \<Longrightarrow> swap_blocks xs a (c - n) n ! k = xs ! k"
proof -
  have n': "n \<le> b - a" "n \<le> c - b" "n = b - a \<or> n = c - b" using n by auto
  show "on_range B (swap_blocks xs a (c - n) n) a (a + (c - b))"
    unfolding on_range_def
  proof (intro allI impI)
    fix k assume k: "a \<le> k \<and> k < a + (c - b)"
    show "B (swap_blocks xs a (c - n) n ! k)"
    proof (cases "k < a + n")
      case True
      then have "b \<le> c - n + (k - a)" "c - n + (k - a) < c" using k n' assms(3,4) by auto
      then have "B (xs ! (c - n + (k - a)))" using assms(2) by (auto simp: on_range_def)
      moreover have "k < length xs" "a \<le> k \<and> k < a + n" using k True assms(3-5) by auto
      ultimately show ?thesis by (simp only: swap_blocks_nth if_True simp_thms)
    next
      case False
      then have "n = b - a" using k n' by auto
      then have "k < c - n" "b \<le> k" using k False assms(3,4) by auto
      then show ?thesis using k False assms(2-5) by (simp add: swap_blocks_nth on_range_def)
    qed
  qed
  show "on_range A (swap_blocks xs a (c - n) n) (a + (c - b)) c"
    unfolding on_range_def
  proof (intro allI impI)
    fix k assume k: "a + (c - b) \<le> k \<and> k < c"
    show "A (swap_blocks xs a (c - n) n ! k)"
    proof (cases "k < c - n")
      case True
      then have "n = c - b" using k n' assms(3,4) by auto
      then have "k < b" "\<not> k < a + n" using k True assms(3,4) by auto
      then show ?thesis using k True assms(1,3-5) by (simp add: swap_blocks_nth on_range_def)
    next
      case False
      then have "a + (k - (c - n)) < b" "\<not> k < a + n" using k n' assms(3,4) by auto
      moreover from this have "A (xs ! (a + (k - (c - n))))" using assms(1) by (auto simp: on_range_def)
      moreover have "k < length xs" "c - n \<le> k \<and> k < c - n + n" using k False assms(3-5) n' by auto
      ultimately show ?thesis by (simp only: swap_blocks_nth if_True if_False simp_thms)
    qed
  qed
  show "lo \<le> a \<Longrightarrow> c \<le> hi \<Longrightarrow> hi \<le> length xs \<Longrightarrow> rearr lo hi xs (swap_blocks xs a (c - n) n)"
    using n' assms(3,4) by (intro rearr_swap_blocks) auto
  show "k < length xs \<Longrightarrow> k < a \<or> c \<le> k \<Longrightarrow> swap_blocks xs a (c - n) n ! k = xs ! k"
    using n' assms(3,4) by (auto simp: swap_blocks_nth)
qed

lemma on_range_cong:
  "(\<And>k. lo \<le> k \<Longrightarrow> k < hi \<Longrightarrow> ys ! k = xs ! k) \<Longrightarrow> on_range P ys lo hi = on_range P xs lo hi"
  by (auto simp: on_range_def)

lemma med3_bounds: "0 < n \<Longrightarrow> med3 cmp xs (ptr + n div 4) (ptr + 2 * (n div 4)) (ptr + 3 * (n div 4)) < ptr + n \<and>
    ptr \<le> med3 cmp xs (ptr + n div 4) (ptr + 2 * (n div 4)) (ptr + 3 * (n div 4))"
  by (auto simp: med3_def)

lemma rq_split_spec:
  assumes "rq_split cmp xs ptr n = (xs', lt, pgt, gt)" and "0 < n" "ptr + n \<le> length xs"
  shows "rearr ptr (ptr + n) xs xs' \<and>
    (\<exists>p. on_range (\<lambda>x. cmp p x > 0) xs' ptr (ptr + lt) \<and>
      on_range (\<lambda>x. x = p \<or> cmp p x = 0) xs' (ptr + lt) pgt \<and>
      on_range (\<lambda>x. cmp p x < 0) xs' pgt (ptr + n))"
proof -
  let ?m = "med3 cmp xs (ptr + n div 4) (ptr + 2 * (n div 4)) (ptr + 3 * (n div 4))"
  let ?hi = "ptr + n"
  define x0 where "x0 = swap xs ptr ?m"
  define p where "p = x0 ! ptr"
  have r0: "rearr ptr ?hi xs x0"
    unfolding x0_def using med3_bounds [OF assms(2), of cmp xs ptr] assms(2) by (intro rearr_swap) auto
  have inv0: "part_inv cmp p ptr ?hi x0 (ptr + 1) (ptr + 1) ?hi ?hi"
    using assms(2,3) by (auto simp: part_inv_def class_on_def p_def x0_def)
  obtain x1 plt pi g where part: "partition_loop cmp x0 ptr (ptr + 1) (ptr + 1) ?hi ?hi = (x1, plt, pi, g)"
    by (rule prod_cases4)
  from partition_loop_spec [OF inv0 part]
  have inv1: "part_inv cmp p ptr ?hi x1 plt pi pi g" and r1: "rearr ptr ?hi x0 x1" by auto
  let ?E = "\<lambda>x. x = p \<or> cmp p x = 0" and ?S = "\<lambda>x. cmp p x > 0" and ?G = "\<lambda>x. cmp p x < 0"
  have b: "ptr < plt" "plt \<le> pi" "pi \<le> g" "g \<le> ?hi" "?hi \<le> length x1"
    and c: "on_range ?E x1 ptr plt" "on_range ?S x1 plt pi" "on_range ?G x1 pi g" "on_range ?E x1 g ?hi"
    using inv1 by (auto simp: part_inv_def class_on_def on_range_def) (metis Suc_leI le_neq_implies_less)
  define n1 where "n1 = (if plt - ptr > pi - plt then pi - plt else plt - ptr)"
  define x2 where "x2 = swap_blocks x1 ptr (pi - n1) n1"
  note m1 = block_move [OF c(1,2) less_imp_le [OF b(1)] b(2) le_trans [OF b(3) le_trans [OF b(4,5)]] n1_def, folded x2_def]
  have l2: "length x2 = length x1" by (simp add: x2_def)
  have c2: "on_range ?G x2 pi g" "on_range ?E x2 g ?hi"
    using c(3,4) m1(4) b by (auto simp: on_range_def)
  define n2 where "n2 = (if g - pi > ?hi - g then ?hi - g else g - pi)"
  define x3 where "x3 = swap_blocks x2 pi (?hi - n2) n2"
  note m2 = block_move [OF c2 b(3,4) b(5) [folded l2] n2_def, folded x3_def]
  have c3: "on_range ?S x3 ptr (ptr + (pi - plt))" "on_range ?E x3 (ptr + (pi - plt)) pi"
  proof -
    have "x3 ! k = x2 ! k" if "k < pi" for k using m2(4) [of k] that b l2 by simp
    then show "on_range ?S x3 ptr (ptr + (pi - plt))" "on_range ?E x3 (ptr + (pi - plt)) pi"
      using on_range_cong [of ptr "ptr + (pi - plt)" x3 x2 ?S] m1(1)
        on_range_cong [of "ptr + (pi - plt)" pi x3 x2 ?E] m1(2) b by simp_all
  qed
  have gt: "pi + (?hi - g) = ?hi - (g - pi)" using b by auto
  have "rearr ptr ?hi x1 x2" using m1(3) [of ptr ?hi] b by auto
  moreover have "rearr ptr ?hi x2 x3" using m2(3) [of ptr ?hi] b l2 by auto
  ultimately have "rearr ptr ?hi xs x3" using r0 r1 by (blast intro: rearr_trans)
  moreover have "on_range ?E x3 (ptr + (pi - plt)) (pi + (?hi - g))"
    using c3(2) m2(1) by (auto simp: on_range_def) (metis not_le)
  moreover have "(if ?hi - g > g - pi then g - pi else ?hi - g) = n2" by (auto simp: n2_def)
  then have "xs' = x3" "lt = pi - plt" "pgt = ?hi - (g - pi)"
    using assms(1) part by (auto simp: rq_split_def Let_def x3_def x2_def n1_def x0_def)
  ultimately show ?thesis using c3(1) m2(2) gt by auto
qed


section \<open>A comparison function that orders\<close>

definition sorted_on :: "'a cmp_f \<Rightarrow> 'a list \<Rightarrow> nat \<Rightarrow> nat \<Rightarrow> bool" where
  "sorted_on cmp xs lo hi \<longleftrightarrow> (\<forall>i j. lo \<le> i \<longrightarrow> i < j \<longrightarrow> j < hi \<longrightarrow> cmp (xs ! i) (xs ! j) \<le> 0)"

text \<open>The heap order on the segment at \<open>base\<close>, from the node \<open>r0\<close> on, except below \<open>r\<close>.\<close>

definition heap_but :: "'a cmp_f \<Rightarrow> 'a list \<Rightarrow> nat \<Rightarrow> nat \<Rightarrow> nat \<Rightarrow> nat \<Rightarrow> bool" where
  "heap_but cmp xs base r0 n r \<longleftrightarrow>
     (\<forall>p c. r0 \<le> p \<longrightarrow> p \<noteq> r \<longrightarrow> c < n \<longrightarrow> c = 2 * p + 1 \<or> c = 2 * p + 2 \<longrightarrow> cmp (xs ! (base + c)) (xs ! (base + p)) \<le> 0) \<and>
     (\<forall>g c. r0 \<le> g \<longrightarrow> r = 2 * g + 1 \<or> r = 2 * g + 2 \<longrightarrow> c < n \<longrightarrow> c = 2 * r + 1 \<or> c = 2 * r + 2 \<longrightarrow>
        cmp (xs ! (base + c)) (xs ! (base + g)) \<le> 0)"

definition heap_from :: "'a cmp_f \<Rightarrow> 'a list \<Rightarrow> nat \<Rightarrow> nat \<Rightarrow> nat \<Rightarrow> bool" where
  "heap_from cmp xs base r0 n \<longleftrightarrow>
     (\<forall>p c. r0 \<le> p \<longrightarrow> c < n \<longrightarrow> c = 2 * p + 1 \<or> c = 2 * p + 2 \<longrightarrow> cmp (xs ! (base + c)) (xs ! (base + p)) \<le> 0)"

locale comparator =
  fixes cmp :: "'a \<Rightarrow> 'a \<Rightarrow> int"
  assumes cmp_antisym: "cmp a b > 0 \<longleftrightarrow> cmp b a < 0"
    and cmp_trans: "cmp a b \<le> 0 \<Longrightarrow> cmp b c \<le> 0 \<Longrightarrow> cmp a c \<le> 0"
begin

lemma cmp_refl [simp]: "cmp a a = 0"
  using cmp_antisym [of a a] by linarith

lemma cmp_total: "cmp a b > 0 \<Longrightarrow> cmp b a \<le> 0"
  using cmp_antisym [of a b] by linarith

lemma insert_back_sorts:
  assumes "\<And>i j. ptr \<le> i \<Longrightarrow> i < j \<Longrightarrow> j < hi \<Longrightarrow> j \<noteq> pj \<Longrightarrow> cmp (xs ! i) (xs ! j) \<le> 0"
    and "pj < hi" "hi \<le> length xs" "ptr \<le> pj"
  shows "sorted_on cmp (insert_back cmp xs ptr pj) ptr hi"
  using assms
proof (induction pj arbitrary: xs)
  case 0
  then show ?case by (simp add: sorted_on_def)
next
  case (Suc pj)
  show ?case
  proof (cases "Suc pj > ptr \<and> cmp (xs ! pj) (xs ! Suc pj) > 0")
    case True
    have "sorted_on cmp (insert_back cmp (swap xs (Suc pj) pj) ptr pj) ptr hi"
    proof (rule Suc.IH)
      fix i j assume ij: "ptr \<le> i" "i < j" "j < hi" "j \<noteq> pj"
      show "cmp (swap xs (Suc pj) pj ! i) (swap xs (Suc pj) pj ! j) \<le> 0"
        using ij Suc.prems True cmp_total by (auto simp: swap_nth)
    qed (use Suc.prems True in auto)
    then show ?thesis using True by simp
  next
    case False
    have "cmp (xs ! i) (xs ! j) \<le> 0" if "ptr \<le> i" "i < j" "j < hi" for i j
    proof (cases "j = Suc pj")
      case True
      then have "cmp (xs ! pj) (xs ! j) \<le> 0" using that False by auto
      moreover have "cmp (xs ! i) (xs ! pj) \<le> 0"
        using that True Suc.prems(1) [of i pj] by (cases "i = pj") auto
      ultimately show ?thesis using cmp_trans by blast
    qed (use that Suc.prems in auto)
    then have "sorted_on cmp xs ptr hi" by (simp add: sorted_on_def)
    moreover have "insert_back cmp xs ptr (Suc pj) = xs" using False by auto
    ultimately show ?thesis by (simp only:)
  qed
qed

lemma insertion_sort_sorts:
  "sorted_on cmp xs ptr pi \<Longrightarrow> ptr \<le> pi \<Longrightarrow> pi \<le> hi \<Longrightarrow> hi \<le> length xs \<Longrightarrow> sorted_on cmp (insertion_sort cmp xs ptr pi hi) ptr hi"
proof (induction "hi - pi" arbitrary: xs pi rule: less_induct)
  case less
  show ?case
  proof (cases "pi < hi")
    case True
    have "sorted_on cmp (insert_back cmp xs ptr pi) ptr (pi + 1)"
      by (rule insert_back_sorts) (use less.prems True in \<open>auto simp: sorted_on_def\<close>)
    moreover have "length (insert_back cmp xs ptr pi) = length xs"
      by (rule rearr_length [OF insert_back_rearr]) (rule True)
    ultimately show ?thesis
      using less.hyps [of "pi + 1" "insert_back cmp xs ptr pi"] less.prems True
      by (subst insertion_sort.simps) auto
  next
    case False
    then show ?thesis using less.prems by (subst insertion_sort.simps) auto
  qed
qed

lemma sift_child_max:
  assumes "r * 2 + 1 < n" "s < n" "s = 2 * r + 1 \<or> s = 2 * r + 2"
  shows "cmp (xs ! (base + s)) (xs ! (base + sift_child cmp xs base r n)) \<le> 0"
proof -
  have "cmp (xs ! (base + r * 2 + 1)) (xs ! (base + r * 2 + 2)) \<le> 0 \<or> cmp (xs ! (base + r * 2 + 2)) (xs ! (base + r * 2 + 1)) \<le> 0"
    using cmp_total by (metis linorder_not_less)
  then show ?thesis using assms by (auto simp: sift_child_def Let_def algebra_simps)
qed

lemma sift_child_cases: "sift_child cmp xs base r n = 2 * r + 1 \<or> sift_child cmp xs base r n = 2 * r + 2"
  by (auto simp: sift_child_def Let_def)

lemma sift_down_heap:
  "heap_but cmp xs base r0 n r \<Longrightarrow> r0 \<le> r \<Longrightarrow> r < n \<Longrightarrow> base + n \<le> length xs \<Longrightarrow> heap_from cmp (sift_down cmp xs base r n) base r0 n"
proof (induction "n - r" arbitrary: xs r rule: less_induct)
  case less
  let ?c = "sift_child cmp xs base r n"
  show ?case
  proof (cases rule: sift_down_cases [of r n cmp xs base])
    case stop
    have "cmp (xs ! (base + c)) (xs ! (base + r)) \<le> 0" if "c < n" "c = 2 * r + 1 \<or> c = 2 * r + 2" for c
    proof -
      have "r * 2 + 1 < n" using that by auto
      then have "cmp (xs ! (base + ?c)) (xs ! (base + r)) \<le> 0"
        using stop cmp_total by blast
      then show ?thesis using sift_child_max [OF \<open>r * 2 + 1 < n\<close> that, of xs base] cmp_trans by blast
    qed
    then have "heap_from cmp xs base r0 n"
      using less.prems(1) unfolding heap_but_def heap_from_def by blast
    then show ?thesis using stop by (simp add: sift_down_stop)
  next
    case step
    have len: "base + r < length xs" "base + ?c < length xs" using step less.prems by auto
    let ?ys = "swap xs (base + r) (base + ?c)"
    note H1 = less.prems(1) [unfolded heap_but_def, THEN conjunct1, rule_format]
    note H2 = less.prems(1) [unfolded heap_but_def, THEN conjunct2, rule_format]
    have nth: "k < n \<Longrightarrow> ?ys ! (base + k) = (if k = r then xs ! (base + ?c) else if k = ?c then xs ! (base + r) else xs ! (base + k))" for k
      using less.prems(4) len by (simp add: swap_nth)
    have "heap_but cmp ?ys base r0 n ?c"
      unfolding heap_but_def
    proof (intro conjI allI impI)
      fix p k assume a: "r0 \<le> p" "p \<noteq> ?c" "k < n" "k = 2 * p + 1 \<or> k = 2 * p + 2"
      show "cmp (?ys ! (base + k)) (?ys ! (base + p)) \<le> 0"
      proof (cases "p = r")
        case True
        then show ?thesis
          using a step sift_child_max [of r n k xs base] less.prems(3) by (simp add: nth)
      next
        case False
        moreover have "k \<noteq> ?c" "p < n" using False a sift_child_cases [of xs base r n] by auto
        ultimately show ?thesis
          using a H1 [of p k] H2 [of p ?c] sift_child_cases [of xs base r n] step
          by (cases "k = r") (auto simp: nth)
      qed
    next
      fix g k assume a: "r0 \<le> g" "?c = 2 * g + 1 \<or> ?c = 2 * g + 2" "k < n" "k = 2 * ?c + 1 \<or> k = 2 * ?c + 2"
      have "g = r" using a sift_child_cases [of xs base r n] by auto
      moreover have "k \<noteq> ?c" "k \<noteq> r" using a step by auto
      ultimately show "cmp (?ys ! (base + k)) (?ys ! (base + g)) \<le> 0"
        using a H1 [of ?c k] step less.prems(2,3) by (simp add: nth)
    qed
    moreover have "n - ?c < n - r" using step by simp
    ultimately have "heap_from cmp (sift_down cmp ?ys base ?c n) base r0 n"
      using less.hyps [of ?c ?ys] step less.prems by auto
    then show ?thesis using step by (simp add: sift_down_step)
  qed
qed

lemma heapify_heap:
  "heap_from cmp xs base i n \<Longrightarrow> i \<le> n \<Longrightarrow> base + n \<le> length xs \<Longrightarrow> heap_from cmp (heapify cmp xs base i n) base 0 n"
proof (induction i arbitrary: xs)
  case (Suc i)
  have "heap_but cmp xs base i n i"
    using Suc.prems(1) unfolding heap_but_def heap_from_def by auto
  then have "heap_from cmp (sift_down cmp xs base i n) base i n"
    using Suc.prems by (intro sift_down_heap) auto
  moreover have "length (sift_down cmp xs base i n) = length xs"
    by (rule rearr_length [OF sift_down_rearr]) (use Suc.prems in simp)
  ultimately show ?case using Suc.IH Suc.prems by simp
qed simp

lemma heap_root_max: "heap_from cmp xs base 0 n \<Longrightarrow> k < n \<Longrightarrow> cmp (xs ! (base + k)) (xs ! base) \<le> 0"
proof (induction k rule: less_induct)
  case (less k)
  show ?case
  proof (cases "k = 0")
    case False
    let ?p = "(k - 1) div 2"
    have p: "?p < k" "k = 2 * ?p + 1 \<or> k = 2 * ?p + 2" using False by presburger+
    then have "cmp (xs ! (base + k)) (xs ! (base + ?p)) \<le> 0"
      using less.prems unfolding heap_from_def by blast
    moreover have "cmp (xs ! (base + ?p)) (xs ! base) \<le> 0" using less p by auto
    ultimately show ?thesis using cmp_trans by blast
  qed simp
qed

lemma heap_extract_sorts:
  assumes "heap_from cmp xs base 0 (Suc i)" "Suc i \<le> n" "base + n \<le> length xs"
    and "sorted_on cmp xs (base + Suc i) (base + n)"
    and "\<And>k j. k \<le> i \<Longrightarrow> i < j \<Longrightarrow> j < n \<Longrightarrow> cmp (xs ! (base + k)) (xs ! (base + j)) \<le> 0"
  shows "sorted_on cmp (heap_extract cmp xs base i) base (base + n)"
  using assms
proof (induction i arbitrary: xs)
  case 0
  have "cmp (xs ! i) (xs ! j) \<le> 0" if ij: "base \<le> i" "i < j" "j < base + n" for i j
  proof (cases "i = base")
    case True
    then show ?thesis using 0(5) [of 0 "j - base"] ij by auto
  qed (use 0(4) ij in \<open>auto simp: sorted_on_def\<close>)
  then show ?case by (auto simp: sorted_on_def)
next
  case (Suc i)
  let ?ys = "swap xs base (base + Suc i)"
  let ?zs = "sift_down cmp ?ys base 0 (Suc i)"
  have nth: "k < n \<Longrightarrow> ?ys ! (base + k) = (if k = 0 then xs ! (base + Suc i) else if k = Suc i then xs ! base else xs ! (base + k))" for k
    using Suc.prems(2,3) by (auto simp: swap_nth)
  have max: "k \<le> Suc i \<Longrightarrow> cmp (?ys ! (base + k)) (xs ! base) \<le> 0" for k
    using heap_root_max [OF Suc.prems(1), of k] heap_root_max [OF Suc.prems(1), of "Suc i"] Suc.prems(2)
      nth [of k] by auto
  have r: "rearr base (base + Suc i) ?ys ?zs" by (rule sift_down_rearr) simp
  have len: "length ?zs = length xs" using rearr_length [OF r] by simp
  have out: "?zs ! (base + k) = ?ys ! (base + k)" if "i < k" "k < n" for k
    using rearr_outside [OF r] Suc.prems(2,3) that by simp
  have out': "?zs ! (base + k) = (if k = Suc i then xs ! base else xs ! (base + k))" if "i < k" "k < n" for k
    using out [OF that] nth [OF that(2)] that by simp
  have ins: "\<exists>l\<le>i. ?zs ! (base + k) = ?ys ! (base + l)" if "k \<le> i" for k
  proof -
    from rearr_inside [OF r, of "base + k"] that Suc.prems(2,3) obtain l where
      "base \<le> l" "l < base + Suc i" "?zs ! (base + k) = ?ys ! l" by auto
    then show ?thesis by (intro exI [of _ "l - base"]) auto
  qed
  have tail: "cmp (?zs ! (base + k)) (?zs ! (base + j)) \<le> 0" if "i < k" "k < j" "j < n" for k j
  proof (cases "k = Suc i")
    case True
    then have "?zs ! (base + k) = xs ! base" "?zs ! (base + j) = xs ! (base + j)"
      using that out' [of k] out' [of j] by auto
    then show ?thesis using that Suc.prems(5) [of 0 j] True by auto
  next
    case False
    then have "?zs ! (base + k) = xs ! (base + k)" "?zs ! (base + j) = xs ! (base + j)"
      using that out' [of k] out' [of j] by auto
    then show ?thesis using that False Suc.prems(4) by (auto simp: sorted_on_def)
  qed
  have "sorted_on cmp (heap_extract cmp ?zs base i) base (base + n)"
  proof (rule Suc.IH)
    have "heap_but cmp ?ys base 0 (Suc i) 0"
      unfolding heap_but_def
    proof (intro conjI allI impI)
      fix p c assume a: "0 \<le> p" "p \<noteq> 0" "c < Suc i" "c = 2 * p + 1 \<or> c = 2 * p + 2"
      then have "?ys ! (base + c) = xs ! (base + c)" "?ys ! (base + p) = xs ! (base + p)"
        using nth [of c] nth [of p] Suc.prems(2) by auto
      then show "cmp (?ys ! (base + c)) (?ys ! (base + p)) \<le> 0"
        using a Suc.prems(1) [unfolded heap_from_def, rule_format, of p c] by simp
    qed auto
    then show "heap_from cmp ?zs base 0 (Suc i)"
      using Suc.prems(2,3) by (intro sift_down_heap) auto
    show "sorted_on cmp ?zs (base + Suc i) (base + n)"
      unfolding sorted_on_def
    proof (intro allI impI)
      fix k j assume "base + Suc i \<le> k" "k < j" "j < base + n"
      then show "cmp (?zs ! k) (?zs ! j) \<le> 0"
        using tail [of "k - base" "j - base"] by simp
    qed
    fix k j assume kj: "k \<le> i" "i < j" "j < n"
    from ins [OF kj(1)] obtain l where l: "l \<le> i" "?zs ! (base + k) = ?ys ! (base + l)" by blast
    show "cmp (?zs ! (base + k)) (?zs ! (base + j)) \<le> 0"
    proof (cases "j = Suc i")
      case True
      then have "?zs ! (base + j) = xs ! base" using kj out' [of j] by auto
      then show ?thesis using l max [of l] by auto
    next
      case False
      then have "?zs ! (base + j) = xs ! (base + j)" using kj out' [of j] by auto
      moreover have "?ys ! (base + l) = xs ! (base + (if l = 0 then Suc i else l))"
        using l kj nth [of l] by auto
      ultimately show ?thesis
        using l kj False Suc.prems(5) [of "if l = 0 then Suc i else l" j] by auto
    qed
  qed (use Suc.prems len in auto)
  then show ?case by simp
qed

lemma heapsortx_sorts:
  assumes "base + n \<le> length xs"
  shows "sorted_on cmp (heapsortx cmp xs base n) base (base + n)"
proof (cases "n > 1")
  case True
  let ?h = "heapify cmp xs base (n div 2) n"
  have "heap_from cmp xs base (n div 2) n" by (auto simp: heap_from_def)
  then have "heap_from cmp ?h base 0 n" using assms by (intro heapify_heap) auto
  moreover have "length ?h = length xs" by (rule rearr_length [OF heapify_rearr]) simp
  ultimately have "sorted_on cmp (heap_extract cmp ?h base (n - 1)) base (base + n)"
    using assms True by (intro heap_extract_sorts) (auto simp: sorted_on_def)
  then show ?thesis using True by (simp add: heapsortx_def)
next
  case False
  then show ?thesis by (auto simp: heapsortx_def sorted_on_def)
qed

end


section \<open>The loop over the pending segments\<close>

lemma rq_leaf_rearr: "rearr ptr (ptr + n) xs (rq_leaf cmp xs ptr n)"
proof (cases "n > 6")
  case True
  have "insertion_sort cmp ys ptr (ptr + 1) ptr = ys" for ys
    by (subst insertion_sort.simps) simp
  then show ?thesis using True by (simp add: rq_leaf_def heapsortx_rearr)
next
  case False
  then show ?thesis by (simp add: rq_leaf_def insertion_sort_rearr)
qed

lemma rq_loop_leaf:
  "\<not> (n > 6 \<and> depth + 1 \<le> 50) \<Longrightarrow> rq_loop cmp xs stk ptr n depth =
     (case stk of [] \<Rightarrow> Some (rq_leaf cmp xs ptr n)
      | (b, c, d) # stk' \<Rightarrow> rq_loop cmp (rq_leaf cmp xs ptr n) stk' b c d)"
  by (subst rq_loop.simps) (simp, auto)

lemma rq_loop_split:
  assumes "n > 6" "depth + 1 \<le> 50" "rq_split cmp xs ptr n = (xs', lt, pgt, gt)" "length stk < 50"
  shows "rq_loop cmp xs stk ptr n depth =
    (if lt > n - gt then rq_loop cmp xs' ((ptr, lt, depth + 1) # stk) pgt (n - gt) (depth + 1)
     else rq_loop cmp xs' ((pgt, n - gt, depth + 1) # stk) ptr lt (depth + 1))"
  using assms by (subst rq_loop.simps) (simp add: rq_push_def rq_stack_size_def)

text \<open>
  The depths on the stack grow from the bottom, so that its height never exceeds the depth of the
  segment at hand.
\<close>

fun depths_ok :: "(nat \<times> nat \<times> nat) list \<Rightarrow> bool" where
  "depths_ok [] \<longleftrightarrow> True"
| "depths_ok ((b, n, d) # stk) \<longleftrightarrow> length stk < d \<and> depths_ok stk"

definition in_array :: "nat \<Rightarrow> (nat \<times> nat \<times> nat) list \<Rightarrow> bool" where
  "in_array N stk \<longleftrightarrow> (\<forall>(b, n, d) \<in> set stk. b + n \<le> N)"

lemma in_array_Cons [simp]: "in_array N ((b, n, d) # stk) \<longleftrightarrow> b + n \<le> N \<and> in_array N stk"
  by (simp add: in_array_def)

lemma rq_loop_rearr:
  "depths_ok stk \<Longrightarrow> length stk \<le> depth \<Longrightarrow> in_array N stk \<Longrightarrow> ptr + n \<le> N \<Longrightarrow> N \<le> length xs \<Longrightarrow>
   \<exists>ys. rq_loop cmp xs stk ptr n depth = Some ys \<and> rearr 0 N xs ys"
proof (induction "stack_work stk + 2 * n" arbitrary: xs stk ptr n depth rule: less_induct)
  case less
  show ?case
  proof (cases "n > 6 \<and> depth + 1 \<le> 50")
    case True
    obtain xs' lt pgt gt where sp: "rq_split cmp xs ptr n = (xs', lt, pgt, gt)" by (rule prod_cases4)
    have b: "lt + (n - gt) < n" "lt < gt" "gt \<le> n" "pgt = ptr + gt"
      using rq_split_bounds [OF sp] True by auto
    have r: "rearr 0 N xs xs'"
      using rq_split_spec [OF sp] True less.prems rearr_mono [of ptr "ptr + n" xs xs' 0 N] by auto
    have len: "N \<le> length xs'" using rearr_length [OF r] less.prems by simp
    have "\<exists>ys. rq_loop cmp xs' ((ptr, lt, depth + 1) # stk) pgt (n - gt) (depth + 1) = Some ys \<and> rearr 0 N xs' ys"
      by (rule less.hyps) (use b less.prems len in \<open>auto simp: stack_work_def\<close>)
    moreover have "\<exists>ys. rq_loop cmp xs' ((pgt, n - gt, depth + 1) # stk) ptr lt (depth + 1) = Some ys \<and> rearr 0 N xs' ys"
      by (rule less.hyps) (use b less.prems len in \<open>auto simp: stack_work_def\<close>)
    moreover have "length stk < 50" using True less.prems by simp
    ultimately show ?thesis
      using rq_loop_split [OF _ _ sp, of depth stk] True r by (auto intro: rearr_trans)
  next
    case False
    let ?ys = "rq_leaf cmp xs ptr n"
    have r: "rearr 0 N xs ?ys"
      by (rule rearr_mono [OF rq_leaf_rearr]) (use less.prems in auto)
    have len: "N \<le> length ?ys" using rearr_length [OF r] less.prems by simp
    show ?thesis
    proof (cases stk)
      case Nil
      then show ?thesis using r False by (simp add: rq_loop_leaf)
    next
      case (Cons e stk')
      obtain b c d where e: "e = (b, c, d)" by (rule prod_cases3)
      have "\<exists>ys. rq_loop cmp ?ys stk' b c d = Some ys \<and> rearr 0 N ?ys ys"
        by (rule less.hyps) (use Cons e less.prems len in \<open>auto simp: stack_work_def\<close>)
      then show ?thesis using Cons e False r by (auto simp: rq_loop_leaf intro: rearr_trans)
    qed
  qed
qed

text \<open>Any two positions are either in order or together in a pending segment.\<close>

definition ordered_but :: "'a cmp_f \<Rightarrow> nat \<Rightarrow> (nat \<times> nat) list \<Rightarrow> 'a list \<Rightarrow> bool" where
  "ordered_but cmp N segs xs \<longleftrightarrow>
     (\<forall>i j. i < j \<longrightarrow> j < N \<longrightarrow> (\<exists>(b, n) \<in> set segs. b \<le> i \<and> j < b + n) \<or> cmp (xs ! i) (xs ! j) \<le> 0)"

definition disjoint_segs :: "(nat \<times> nat) list \<Rightarrow> bool" where
  "disjoint_segs segs \<longleftrightarrow> sorted_wrt (\<lambda>(b, n) (b', n'). b + n \<le> b' \<or> b' + n' \<le> b) segs"

definition segs_of :: "(nat \<times> nat \<times> nat) list \<Rightarrow> (nat \<times> nat) list" where
  "segs_of stk = map (\<lambda>(b, n, d). (b, n)) stk"

lemma segs_of_Cons [simp]: "segs_of ((b, n, d) # stk) = (b, n) # segs_of stk" "segs_of [] = []"
  by (simp_all add: segs_of_def)

lemma ordered_but_refine:
  assumes o: "ordered_but cmp N ((b, n) # segs) xs" and d: "disjoint_segs ((b, n) # segs)"
    and r: "rearr b (b + n) xs ys" and N: "b + n \<le> N" "N \<le> length xs"
    and new: "\<And>i j. b \<le> i \<Longrightarrow> i < j \<Longrightarrow> j < b + n \<Longrightarrow>
      (\<exists>(b', n') \<in> set new. b' \<le> i \<and> j < b' + n') \<or> cmp (ys ! i) (ys ! j) \<le> 0"
  shows "ordered_but cmp N (new @ segs) ys"
  unfolding ordered_but_def
proof (intro allI impI)
  fix i j assume ij: "i < j" "j < N"
  let ?in = "\<lambda>k. b \<le> k \<and> k < b + n"
  have src: "\<exists>l. ys ! k = xs ! l \<and> (if ?in k then ?in l else l = k)" if "k < N" for k
  proof (cases "?in k")
    case True
    then show ?thesis using rearr_inside [OF r, of k] N by auto
  next
    case False
    then show ?thesis using rearr_outside [OF r, of k] N that by auto
  qed
  obtain i' where i': "ys ! i = xs ! i'" "if ?in i then ?in i' else i' = i" using src [of i] ij by auto
  obtain j' where j': "ys ! j = xs ! j'" "if ?in j then ?in j' else j' = j" using src [of j] ij by auto
  show "(\<exists>(b, n) \<in> set (new @ segs). b \<le> i \<and> j < b + n) \<or> cmp (ys ! i) (ys ! j) \<le> 0"
  proof (cases "?in i \<and> ?in j")
    case True
    then show ?thesis using new [of i j] ij by auto
  next
    case False
    then have lt: "i' < j'" "j' < N" using ij i'(2) j'(2) N by (auto split: if_splits)
    consider (seg) b' n' where "(b', n') \<in> set ((b, n) # segs)" "b' \<le> i'" "j' < b' + n'"
      | (le) "cmp (xs ! i') (xs ! j') \<le> 0"
      using o lt unfolding ordered_but_def by blast
    then show ?thesis
    proof cases
      case seg
      then have s: "(b', n') \<in> set segs" using False i'(2) j'(2) ij by (auto split: if_splits)
      then have "b + n \<le> b' \<or> b' + n' \<le> b" using d by (auto simp: disjoint_segs_def)
      then have "i' = i" "j' = j" using seg i'(2) j'(2) False ij by (auto split: if_splits)
      then show ?thesis using s seg by auto
    next
      case le
      then show ?thesis using i' j' by simp
    qed
  qed
qed

context comparator
begin

lemma rq_leaf_sorts:
  assumes "ptr + n \<le> length xs"
  shows "sorted_on cmp (rq_leaf cmp xs ptr n) ptr (ptr + n)"
proof (cases "n > 6")
  case True
  have "insertion_sort cmp ys ptr (ptr + 1) ptr = ys" for ys
    by (subst insertion_sort.simps) simp
  then show ?thesis using True assms by (simp add: rq_leaf_def heapsortx_sorts)
next
  case False
  have "n = 0 \<or> sorted_on cmp (insertion_sort cmp xs ptr (ptr + 1) (ptr + n)) ptr (ptr + n)"
  proof (cases n)
    case (Suc m)
    have "sorted_on cmp xs ptr (ptr + 1)" by (auto simp: sorted_on_def)
    then have "sorted_on cmp (insertion_sort cmp xs ptr (ptr + 1) (ptr + n)) ptr (ptr + n)"
      using assms Suc by (intro insertion_sort_sorts) auto
    then show ?thesis ..
  qed simp
  then show ?thesis using False by (auto simp: rq_leaf_def sorted_on_def)
qed

lemma split_covers:
  assumes "on_range (\<lambda>x. cmp p x > 0) ys lo m1" "on_range (\<lambda>x. x = p \<or> cmp p x = 0) ys m1 m2"
    "on_range (\<lambda>x. cmp p x < 0) ys m2 hi" "lo \<le> i" "i < j" "j < hi"
  shows "(i < m1 \<and> j < m1) \<or> (m2 \<le> i \<and> m2 \<le> j) \<or> cmp (ys ! i) (ys ! j) \<le> 0"
proof -
  have "cmp (ys ! i) p \<le> 0 \<or> m2 \<le> i"
    using assms cmp_antisym [of p "ys ! i"] cmp_antisym [of "ys ! i" p] by (fastforce simp: on_range_def not_less)
  moreover have "cmp p (ys ! j) \<le> 0 \<or> j < m1"
    using assms by (fastforce simp: on_range_def not_less)
  ultimately show ?thesis using cmp_trans assms(5) by (metis less_trans order.trans less_imp_le)
qed

lemma rq_loop_sorts:
  "depths_ok stk \<Longrightarrow> length stk \<le> depth \<Longrightarrow> in_array N stk \<Longrightarrow> ptr + n \<le> N \<Longrightarrow> N \<le> length xs \<Longrightarrow>
   disjoint_segs ((ptr, n) # segs_of stk) \<Longrightarrow> ordered_but cmp N ((ptr, n) # segs_of stk) xs \<Longrightarrow>
   rq_loop cmp xs stk ptr n depth = Some ys \<Longrightarrow> sorted_on cmp ys 0 N"
proof (induction "stack_work stk + 2 * n" arbitrary: xs stk ptr n depth rule: less_induct)
  case less
  note pre = less.prems(1-5)
  show ?case
  proof (cases "n > 6 \<and> depth + 1 \<le> 50")
    case True
    obtain xs' lt pgt gt where sp: "rq_split cmp xs ptr n = (xs', lt, pgt, gt)" by (rule prod_cases4)
    have b: "lt + (n - gt) < n" "lt < gt" "gt \<le> n" "pgt = ptr + gt"
      using rq_split_bounds [OF sp] True by auto
    obtain p where r: "rearr ptr (ptr + n) xs xs'"
      and cl: "on_range (\<lambda>x. cmp p x > 0) xs' ptr (ptr + lt)"
        "on_range (\<lambda>x. x = p \<or> cmp p x = 0) xs' (ptr + lt) pgt" "on_range (\<lambda>x. cmp p x < 0) xs' pgt (ptr + n)"
      using rq_split_spec [OF sp] True pre by auto
    have len: "N \<le> length xs'" using rearr_length [OF r] pre by simp
    have ord: "ordered_but cmp N ([(ptr, lt), (pgt, n - gt)] @ segs_of stk) xs'"
    proof (rule ordered_but_refine [OF less.prems(7,6) r pre(4,5)])
      fix i j assume "ptr \<le> i" "i < j" "j < ptr + n"
      then show "(\<exists>(b', n') \<in> set [(ptr, lt), (pgt, n - gt)]. b' \<le> i \<and> j < b' + n') \<or> cmp (xs' ! i) (xs' ! j) \<le> 0"
        using split_covers [OF cl, of i j] b by auto
    qed
    have dis: "disjoint_segs ((ptr, lt) # (pgt, n - gt) # segs_of stk)"
      "disjoint_segs ((pgt, n - gt) # (ptr, lt) # segs_of stk)"
      using less.prems(6) b by (auto simp: disjoint_segs_def)
    have "length stk < 50" using True pre by simp
    note eq = rq_loop_split [OF _ _ sp this, of depth]
    have stk: "depths_ok ((ptr, lt, depth + 1) # stk)" "depths_ok ((pgt, n - gt, depth + 1) # stk)"
      "in_array N ((ptr, lt, depth + 1) # stk)" "in_array N ((pgt, n - gt, depth + 1) # stk)"
      using pre b by auto
    show ?thesis
    proof (cases "lt > n - gt")
      case lt: True
      show ?thesis
        by (rule less.hyps [of "(ptr, lt, depth + 1) # stk" "n - gt" "depth + 1" pgt xs'])
          (use eq lt True less.prems(8) pre b len dis ord stk in
            \<open>auto simp: stack_work_def ordered_but_def\<close>)
    next
      case False
      show ?thesis
        by (rule less.hyps [of "(pgt, n - gt, depth + 1) # stk" lt "depth + 1" ptr xs'])
          (use eq False True less.prems(8) pre b len dis ord stk in
            \<open>auto simp: stack_work_def\<close>)
    qed
  next
    case False
    let ?zs = "rq_leaf cmp xs ptr n"
    have s: "sorted_on cmp ?zs ptr (ptr + n)" by (rule rq_leaf_sorts) (use pre in simp)
    have ord: "ordered_but cmp N ([] @ segs_of stk) ?zs"
      by (rule ordered_but_refine [OF less.prems(7,6) rq_leaf_rearr pre(4,5)])
        (use s in \<open>auto simp: sorted_on_def\<close>)
    have len: "N \<le> length ?zs" using rearr_length [OF rq_leaf_rearr] pre by metis
    show ?thesis
    proof (cases stk)
      case Nil
      then show ?thesis
        using ord less.prems(8) False by (simp add: rq_loop_leaf ordered_but_def sorted_on_def)
    next
      case (Cons e stk')
      obtain b c d where e: "e = (b, c, d)" by (rule prod_cases3)
      show ?thesis
        by (rule less.hyps [of stk' c d b ?zs])
          (use Cons e less.prems(6,8) pre len ord False in
            \<open>auto simp: stack_work_def rq_loop_leaf disjoint_segs_def\<close>)
    qed
  qed
qed

end

section \<open>Comparison functions of typed arrays\<close>

text \<open>
  The comparison functions \<open>TypedArray.prototype.sort\<close> of \<open>quickjs.c\<close> passes to
  \<open>rqsort\<close> for the integer element types, on the bit patterns of the elements: the narrow types
  subtract as \<open>int\<close>, the wide ones combine two comparisons.
\<close>

definition cmp_int :: "int \<Rightarrow> int \<Rightarrow> int" where
  "cmp_int x y = of_bool (y < x) - of_bool (y > x)"

definition js_TA_cmp_int8 :: "byte cmp_f" where
  "js_TA_cmp_int8 a b = sint a - sint b"

definition js_TA_cmp_uint8 :: "byte cmp_f" where
  "js_TA_cmp_uint8 a b = uint a - uint b"

definition js_TA_cmp_int16 :: "u16 cmp_f" where
  "js_TA_cmp_int16 a b = sint a - sint b"

definition js_TA_cmp_uint16 :: "u16 cmp_f" where
  "js_TA_cmp_uint16 a b = uint a - uint b"

definition js_TA_cmp_int32 :: "u32 cmp_f" where
  "js_TA_cmp_int32 a b = cmp_int (sint a) (sint b)"

definition js_TA_cmp_uint32 :: "u32 cmp_f" where
  "js_TA_cmp_uint32 a b = cmp_int (uint a) (uint b)"

definition js_TA_cmp_int64 :: "u64 cmp_f" where
  "js_TA_cmp_int64 a b = cmp_int (sint a) (sint b)"

definition js_TA_cmp_uint64 :: "u64 cmp_f" where
  "js_TA_cmp_uint64 a b = cmp_int (uint a) (uint b)"

lemmas js_TA_cmp_defs = js_TA_cmp_int8_def js_TA_cmp_uint8_def js_TA_cmp_int16_def js_TA_cmp_uint16_def
  js_TA_cmp_int32_def js_TA_cmp_uint32_def js_TA_cmp_int64_def js_TA_cmp_uint64_def

lemma cmp_int_sign: "cmp_int x y > 0 \<longleftrightarrow> y < x" "cmp_int x y < 0 \<longleftrightarrow> x < y" "cmp_int x y \<le> 0 \<longleftrightarrow> x \<le> y"
  by (auto simp: cmp_int_def)

interpretation int8: comparator js_TA_cmp_int8
  by unfold_locales (auto simp: js_TA_cmp_defs)

interpretation uint8: comparator js_TA_cmp_uint8
  by unfold_locales (auto simp: js_TA_cmp_defs)

interpretation int16: comparator js_TA_cmp_int16
  by unfold_locales (auto simp: js_TA_cmp_defs)

interpretation uint16: comparator js_TA_cmp_uint16
  by unfold_locales (auto simp: js_TA_cmp_defs)

interpretation int32: comparator js_TA_cmp_int32
  by unfold_locales (auto simp: js_TA_cmp_defs cmp_int_sign)

interpretation uint32: comparator js_TA_cmp_uint32
  by unfold_locales (auto simp: js_TA_cmp_defs cmp_int_sign)

interpretation int64: comparator js_TA_cmp_int64
  by unfold_locales (auto simp: js_TA_cmp_defs cmp_int_sign)

interpretation uint64: comparator js_TA_cmp_uint64
  by unfold_locales (auto simp: js_TA_cmp_defs cmp_int_sign)

section \<open>Properties\<close>

lemma rqsort_rearr:
  assumes "nmemb \<le> length xs"
  shows "\<exists>ys. rqsort cmp nmemb sz xs = Some ys \<and> rearr 0 nmemb xs ys"
  using rq_loop_rearr [of "[]" 0 nmemb 0 nmemb xs cmp] assms by (auto simp: rqsort_def in_array_def)

text \<open>
  C23: for any comparison function, even one that is not an order, \<open>rqsort\<close> ends with a result
  (its loops terminate and no push exceeds the 50 entries of its stack), the first \<open>nmemb\<close>
  elements are permuted and everything behind them is untouched.
\<close>

theorem rqsort_permutes:
  assumes "nmemb \<le> length xs"
  shows "\<exists>ys. rqsort cmp nmemb sz xs = Some ys \<and> mset (take nmemb ys) = mset (take nmemb xs) \<and>
    drop nmemb ys = drop nmemb xs"
proof -
  obtain ys where ys: "rqsort cmp nmemb sz xs = Some ys" "rearr 0 nmemb xs ys"
    using rqsort_rearr [OF assms, of cmp sz] by blast
  have d: "drop nmemb ys = drop nmemb xs"
    using rearr_outside [OF ys(2) assms] rearr_length [OF ys(2)] by (auto intro: nth_equalityI)
  have "mset (take nmemb ys) + mset (drop nmemb ys) = mset (take nmemb xs) + mset (drop nmemb xs)"
    using rearr_mset [OF ys(2) assms] by (simp flip: mset_append)
  then show ?thesis using ys(1) d by simp
qed

theorem rqsort_permutes_witness:
  "\<exists>ys. rqsort (\<lambda>a b. 1) 3 4 [5, 6, 7, 8 :: byte] = Some ys \<and> mset (take 3 ys) = {#5, 6, 7#} \<and> drop 3 ys = [8]"
  using rqsort_permutes [of 3 "[5, 6, 7, 8 :: byte]" "\<lambda>a b. 1" 4] by (simp add: ac_simps)

text \<open>
  C22: with a comparison function that is a total preorder, such as those of the integer typed
  arrays, \<open>rqsort\<close> returns and the first \<open>nmemb\<close> elements are in ascending order.
\<close>

theorem rqsort_sorts:
  assumes "comparator cmp" and "nmemb \<le> length xs" and "0 < sz"
  shows "\<exists>ys. rqsort cmp nmemb sz xs = Some ys \<and>
    (\<forall>i j. i < j \<longrightarrow> j < nmemb \<longrightarrow> cmp (ys ! i) (ys ! j) \<le> 0)"
proof -
  obtain ys where ys: "rqsort cmp nmemb sz xs = Some ys"
    using rqsort_rearr [OF assms(2), of cmp sz] by blast
  have "sorted_on cmp ys 0 nmemb"
  proof (cases "nmemb < 2")
    case True
    then show ?thesis by (auto simp: sorted_on_def)
  next
    case False
    then have "rq_loop cmp xs [] 0 nmemb 0 = Some ys" using ys assms(3) by (simp add: rqsort_def)
    then show ?thesis
      using comparator.rq_loop_sorts [OF assms(1), of "[]" 0 nmemb 0 nmemb xs ys] assms(2)
      by (auto simp: in_array_def disjoint_segs_def ordered_but_def)
  qed
  then show ?thesis using ys by (simp add: sorted_on_def)
qed

theorem rqsort_sorts_witness:
  "\<exists>ys. rqsort js_TA_cmp_uint8 3 1 [7, 5, 6] = Some ys \<and>
    (\<forall>i j. i < j \<longrightarrow> j < 3 \<longrightarrow> js_TA_cmp_uint8 (ys ! i) (ys ! j) \<le> 0)"
  using rqsort_sorts [OF uint8.comparator_axioms, of 3 "[7, 5, 6]" 1] by simp

end
