(* ===== verification/Char_Range.thy ===== *)
theory Char_Range
  imports Cutils
begin

text \<open>
  The character ranges of \<open>BugChecker/QuickJS/libunicode.c\<close>: a set of code points as the
  increasing list of the points where membership changes, in a block that grows through a
  reallocation function. The block is a list of \<open>size\<close> cells of which the first \<open>len\<close> are
  the points; an access outside it is \<open>None\<close>. The set operations are shown to compute the set
  operations, and \<open>cr_compress\<close> to bring a range into its canonical form. The counters, of type
  \<open>int\<close> in C, are natural numbers: a range has at most two points per code point, so that no
  counter comes near \<open>INT_MAX\<close>.
\<close>

section \<open>The model\<close>

type_synonym 'o cr_realloc_fn = "'o \<Rightarrow> u32 list \<Rightarrow> nat \<Rightarrow> u32 list option \<times> 'o"

record 'o CharRange =
  cr_len :: nat
  cr_size :: nat
  cr_points :: "u32 list"
  cr_mem_opaque :: 'o
  cr_realloc_func :: "'o cr_realloc_fn"

datatype CharRangeOpEnum = CR_OP_UNION | CR_OP_INTER | CR_OP_XOR

definition cr_init :: "'o cr_realloc_fn \<Rightarrow> 'o \<Rightarrow> 'o cr_realloc_fn option \<Rightarrow> 'o CharRange" where
  "cr_init cr_default_realloc mem_opaque realloc_func =
     \<lparr>cr_len = 0, cr_size = 0, cr_points = [], cr_mem_opaque = mem_opaque,
      cr_realloc_func = (case realloc_func of None \<Rightarrow> cr_default_realloc | Some f \<Rightarrow> f)\<rparr>"

definition cr_free :: "'o CharRange \<Rightarrow> 'o CharRange" where
  "cr_free cr =
     cr\<lparr>cr_mem_opaque := snd (cr_realloc_func cr (cr_mem_opaque cr) (cr_points cr) 0)\<rparr>"

text \<open>The size passed to the reallocation function is counted in cells of four bytes.\<close>

definition cr_realloc :: "'o CharRange \<Rightarrow> nat \<Rightarrow> int \<times> 'o CharRange" where
  "cr_realloc cr sz =
     (if sz > cr_size cr then
        (let new_size = max sz (cr_size cr * 3 div 2) in
         case cr_realloc_func cr (cr_mem_opaque cr) (cr_points cr) new_size of
           (None, opq) \<Rightarrow> (-1, cr\<lparr>cr_mem_opaque := opq\<rparr>)
         | (Some new_buf, opq) \<Rightarrow>
             (0, cr\<lparr>cr_mem_opaque := opq, cr_points := new_buf, cr_size := new_size\<rparr>))
      else (0, cr))"

definition cr_copy :: "'o CharRange \<Rightarrow> 'p CharRange \<Rightarrow> (int \<times> 'o CharRange) option" where
  "cr_copy cr cr1 =
     (case cr_realloc cr (cr_len cr1) of
        (r, cr) \<Rightarrow>
          if r \<noteq> 0 then Some (-1, cr)
          else (case read_block (cr_points cr1) 0 (cr_len cr1) of
                  None \<Rightarrow> None
                | Some ps \<Rightarrow>
                    (case write_block (cr_points cr) 0 ps of
                       None \<Rightarrow> None
                     | Some pts \<Rightarrow> Some (0, cr\<lparr>cr_points := pts, cr_len := cr_len cr1\<rparr>))))"

definition cr_put :: "'o CharRange \<Rightarrow> u32 \<Rightarrow> 'o CharRange option" where
  "cr_put cr v =
     (case store (cr_points cr) (cr_len cr) v of
        None \<Rightarrow> None
      | Some pts \<Rightarrow> Some (cr\<lparr>cr_points := pts, cr_len := cr_len cr + 1\<rparr>))"

definition cr_add_point :: "'o CharRange \<Rightarrow> u32 \<Rightarrow> (int \<times> 'o CharRange) option" where
  "cr_add_point cr v =
     (case (if cr_len cr \<ge> cr_size cr then cr_realloc cr (cr_len cr + 1) else (0, cr)) of
        (r, cr) \<Rightarrow>
          if r \<noteq> 0 then Some (-1, cr)
          else map_option (Pair 0) (cr_put cr v))"

definition cr_add_interval :: "'o CharRange \<Rightarrow> u32 \<Rightarrow> u32 \<Rightarrow> (int \<times> 'o CharRange) option" where
  "cr_add_interval cr c1 c2 =
     (case (if cr_len cr + 2 > cr_size cr then cr_realloc cr (cr_len cr + 2) else (0, cr)) of
        (r, cr) \<Rightarrow>
          if r \<noteq> 0 then Some (-1, cr)
          else (case cr_put cr c1 of
                  None \<Rightarrow> None
                | Some cr \<Rightarrow> map_option (Pair 0) (cr_put cr c2)))"

text \<open>
  \<open>cr_compress\<close> works in place: \<open>merge_end\<close> is the inner loop over \<open>j\<close>, the outer one
  reads at \<open>i\<close> and writes at \<open>k\<close>.
\<close>

function merge_end :: "u32 list \<Rightarrow> nat \<Rightarrow> nat \<Rightarrow> nat option" where
  "merge_end pt len j =
     (if j + 3 < len then
        (case load pt (j + 1) of
           None \<Rightarrow> None
         | Some x \<Rightarrow>
             (case load pt (j + 2) of
                None \<Rightarrow> None
              | Some y \<Rightarrow> if x = y then merge_end pt len (j + 2) else Some j))
      else Some j)"
  by pat_completeness auto
termination by (relation "measure (\<lambda>(pt, len, j). len - j)") auto

declare merge_end.simps [simp del]

lemma merge_end_ge: "merge_end pt len j = Some j' \<Longrightarrow> j \<le> j'"
proof (induction pt len j rule: merge_end.induct)
  case (1 pt len j)
  then show ?case
    by (subst (asm) (2) merge_end.simps) (auto split: if_splits option.splits)
qed

function compress_loop :: "u32 list \<Rightarrow> nat \<Rightarrow> nat \<Rightarrow> nat \<Rightarrow> (u32 list \<times> nat) option" where
  "compress_loop pt len i k =
     (if i + 1 < len then
        (case (load pt i, load pt (i + 1)) of
           (Some x, Some y) \<Rightarrow>
             if x = y then compress_loop pt len (i + 2) k
             else (case merge_end pt len i of
                     None \<Rightarrow> None
                   | Some j \<Rightarrow>
                       (case load pt (j + 1) of
                          None \<Rightarrow> None
                        | Some z \<Rightarrow>
                            (case store pt k x of
                               None \<Rightarrow> None
                             | Some pt1 \<Rightarrow>
                                 (case store pt1 (k + 1) z of
                                    None \<Rightarrow> None
                                  | Some pt2 \<Rightarrow> compress_loop pt2 len (j + 2) (k + 2)))))
         | _ \<Rightarrow> None)
      else Some (pt, k))"
  by pat_completeness auto
termination
  by (relation "measure (\<lambda>(pt, len, i, k). len - i)") (auto dest: merge_end_ge)

declare compress_loop.simps [simp del]

definition cr_compress :: "'o CharRange \<Rightarrow> 'o CharRange option" where
  "cr_compress cr =
     (case compress_loop (cr_points cr) (cr_len cr) 0 0 of
        None \<Rightarrow> None
      | Some (pt, k) \<Rightarrow> Some (cr\<lparr>cr_points := pt, cr_len := k\<rparr>))"

text \<open>The next point of the merge with the advanced indices.\<close>

definition next_point :: "u32 list \<Rightarrow> u32 list \<Rightarrow> nat \<Rightarrow> nat \<Rightarrow> (u32 \<times> nat \<times> nat) option" where
  "next_point a b ai bi =
     (if ai < length a \<and> bi < length b then
        (if a ! ai < b ! bi then Some (a ! ai, ai + 1, bi)
         else if a ! ai = b ! bi then Some (a ! ai, ai + 1, bi + 1)
         else Some (b ! bi, ai, bi + 1))
      else if ai < length a then Some (a ! ai, ai + 1, bi)
      else if bi < length b then Some (b ! bi, ai, bi + 1)
      else None)"

fun cr_is_in :: "CharRangeOpEnum \<Rightarrow> bool \<Rightarrow> bool \<Rightarrow> bool" where
  "cr_is_in CR_OP_UNION x y = (x \<or> y)"
| "cr_is_in CR_OP_INTER x y = (x \<and> y)"
| "cr_is_in CR_OP_XOR x y = (x \<noteq> y)"

function cr_op_loop :: "CharRangeOpEnum \<Rightarrow> u32 list \<Rightarrow> u32 list \<Rightarrow> nat \<Rightarrow> nat \<Rightarrow> 'o CharRange \<Rightarrow> (int \<times> 'o CharRange) option" where
  "cr_op_loop op a b ai bi cr =
     (case next_point a b ai bi of
        None \<Rightarrow> Some (0, cr)
      | Some (v, ai', bi') \<Rightarrow>
          if cr_is_in op (odd ai') (odd bi') \<noteq> odd (cr_len cr) then
            (case cr_add_point cr v of
               None \<Rightarrow> None
             | Some (r, cr') \<Rightarrow> if r \<noteq> 0 then Some (-1, cr') else cr_op_loop op a b ai' bi' cr')
          else cr_op_loop op a b ai' bi' cr)"
  by pat_completeness auto
termination
  by (relation "measure (\<lambda>(op, a, b, ai, bi, cr). length a - ai + (length b - bi))")
    (auto simp: next_point_def split: if_splits)

declare cr_op_loop.simps [simp del]

definition cr_op :: "'o CharRange \<Rightarrow> u32 list \<Rightarrow> u32 list \<Rightarrow> CharRangeOpEnum \<Rightarrow> (int \<times> 'o CharRange) option" where
  "cr_op cr a_pt b_pt op =
     (case cr_op_loop op a_pt b_pt 0 0 cr of
        None \<Rightarrow> None
      | Some (r, cr') \<Rightarrow>
          if r \<noteq> 0 then Some (-1, cr') else map_option (Pair 0) (cr_compress cr'))"

text \<open>
  The local copy \<open>a\<close> of \<open>cr_union1\<close> keeps the old block; freeing it goes through the same
  allocator, whose state is the one \<open>cr_op\<close> left.
\<close>

definition cr_union1 :: "'o CharRange \<Rightarrow> u32 list \<Rightarrow> (int \<times> 'o CharRange) option" where
  "cr_union1 cr b_pt =
     (case read_block (cr_points cr) 0 (cr_len cr) of
        None \<Rightarrow> None
      | Some a_pt \<Rightarrow>
          (case cr_op (cr\<lparr>cr_len := 0, cr_size := 0, cr_points := []\<rparr>) a_pt b_pt CR_OP_UNION of
             None \<Rightarrow> None
           | Some (ret, cr') \<Rightarrow>
               Some (ret, cr'\<lparr>cr_mem_opaque :=
                 cr_mem_opaque (cr_free (cr\<lparr>cr_mem_opaque := cr_mem_opaque cr'\<rparr>))\<rparr>)))"

definition cr_union_interval :: "'o CharRange \<Rightarrow> u32 \<Rightarrow> u32 \<Rightarrow> (int \<times> 'o CharRange) option" where
  "cr_union_interval cr c1 c2 = cr_union1 cr [c1, c2 + 1]"

definition cr_invert :: "'o CharRange \<Rightarrow> (int \<times> 'o CharRange) option" where
  "cr_invert cr =
     (let len = cr_len cr in
      case cr_realloc cr (len + 2) of
        (r, cr) \<Rightarrow>
          if r \<noteq> 0 then Some (-1, cr)
          else (case read_block (cr_points cr) 0 len of
                  None \<Rightarrow> None
                | Some ps \<Rightarrow>
                    (case write_block (cr_points cr) 1 ps of
                       None \<Rightarrow> None
                     | Some pts1 \<Rightarrow>
                         (case store pts1 0 0 of
                            None \<Rightarrow> None
                          | Some pts2 \<Rightarrow>
                              (case store pts2 (len + 1) 0xFFFFFFFF of
                                 None \<Rightarrow> None
                               | Some pts3 \<Rightarrow>
                                   map_option (Pair 0)
                                     (cr_compress (cr\<lparr>cr_points := pts3, cr_len := len + 2\<rparr>)))))))"


section \<open>Points as a set of codes\<close>

text \<open>
  A code belongs to a range when an odd number of its points is not above it. A range is canonical
  when its points strictly increase and their number is even: then no interval is empty and no two
  of them touch.
\<close>

definition inside :: "u32 list \<Rightarrow> u32 \<Rightarrow> bool" where
  "inside pts c \<longleftrightarrow> odd (length (filter (\<lambda>p. p \<le> c) pts))"

definition cr_canonical :: "u32 list \<Rightarrow> bool" where
  "cr_canonical pts \<longleftrightarrow> sorted_wrt (<) pts \<and> even (length pts)"

lemma inside_Nil [simp]: "\<not> inside [] c"
  by (simp add: inside_def)

lemma inside_Cons: "inside (p # pts) c \<longleftrightarrow> (if p \<le> c then \<not> inside pts c else inside pts c)"
  by (simp add: inside_def)

lemma inside_append: "inside (xs @ ys) c \<longleftrightarrow> (inside xs c \<noteq> inside ys c)"
  by (simp add: inside_def)

lemma inside_above: "\<forall>p\<in>set pts. p \<le> c \<Longrightarrow> inside pts c \<longleftrightarrow> odd (length pts)"
  by (simp add: inside_def)

lemma inside_below: "\<forall>p\<in>set pts. c < p \<Longrightarrow> \<not> inside pts c"
  unfolding inside_def by (subst filter_False) (auto simp: not_le)

text \<open>The reference for \<open>cr_compress\<close>, on the list of points.\<close>

fun absorb :: "u32 \<Rightarrow> u32 list \<Rightarrow> u32 \<times> u32 list" where
  "absorb y (p # q # r) = (if y = p then absorb q r else (y, p # q # r))"
| "absorb y [] = (y, [])"
| "absorb y [v] = (y, [v])"

lemma absorb_length: "length (snd (absorb y r)) \<le> length r"
  by (induction y r rule: absorb.induct) auto

function compress :: "u32 list \<Rightarrow> u32 list" where
  "compress [] = []"
| "compress [x] = []"
| "compress (x # y # r) =
     (if x = y then compress r else x # fst (absorb y r) # compress (snd (absorb y r)))"
  by pat_completeness auto
termination
  by (relation "measure length") (auto simp: le_imp_less_Suc le_SucI absorb_length)

lemma absorb_inside: "even (length r) \<Longrightarrow> inside (fst (absorb y r) # snd (absorb y r)) c = inside (y # r) c"
  by (induction y r rule: absorb.induct) (auto simp: inside_Cons)

lemma absorb_even: "even (length (snd (absorb y r))) = even (length r)"
  by (induction y r rule: absorb.induct) auto

lemma absorb_sorted:
  "sorted (y # r) \<Longrightarrow> even (length r) \<Longrightarrow>
   sorted (snd (absorb y r)) \<and> y \<le> fst (absorb y r) \<and> (\<forall>p\<in>set (snd (absorb y r)). fst (absorb y r) < p)"
  by (induction y r rule: absorb.induct) (fastforce simp: less_le)+

lemma compress_inside: "even (length pts) \<Longrightarrow> inside (compress pts) c = inside pts c"
proof (induction pts rule: compress.induct)
  case (3 x y r)
  show ?case
  proof (cases "x = y")
    case False
    have "inside (x # fst (absorb y r) # compress (snd (absorb y r))) c =
        inside (x # fst (absorb y r) # snd (absorb y r)) c"
      using 3 False by (simp add: inside_Cons absorb_even)
    also have "\<dots> = inside (x # y # r) c"
      using 3(3) absorb_inside [of r y c] by (simp add: inside_Cons [of x])
    finally show ?thesis using False by simp
  qed (use 3 in \<open>auto simp: inside_Cons\<close>)
qed auto

lemma compress_set: "set (compress pts) \<subseteq> set pts \<and> even (length (compress pts))"
proof (induction pts rule: compress.induct)
  case (3 x y r)
  have "fst (absorb y r) \<in> insert y (set r) \<and> set (snd (absorb y r)) \<subseteq> set r"
    by (induction y r rule: absorb.induct) auto
  then show ?case using 3 by auto
qed auto

lemma compress_sorted: "sorted pts \<Longrightarrow> even (length pts) \<Longrightarrow> sorted_wrt (<) (compress pts)"
proof (induction pts rule: compress.induct)
  case (3 x y r)
  show ?case
  proof (cases "x = y")
    case False
    note ab = absorb_sorted [of y r]
    have "sorted_wrt (<) (compress (snd (absorb y r)))"
      using 3 False ab by (simp add: absorb_even)
    moreover have "\<forall>p\<in>set (compress (snd (absorb y r))). fst (absorb y r) < p"
      using ab 3(3,4) compress_set [of "snd (absorb y r)"] by auto
    moreover have "x < fst (absorb y r)" using ab 3(3,4) False by (auto simp: less_le)
    ultimately show ?thesis using False by auto
  qed (use 3 in auto)
qed auto

lemma compress_canonical: "sorted pts \<Longrightarrow> even (length pts) \<Longrightarrow> cr_canonical (compress pts)"
  by (simp add: cr_canonical_def compress_sorted compress_set)

section \<open>The in-place loop computes the reference\<close>

lemma drop_ConsD: "drop n xs = y # ys \<Longrightarrow> xs ! n = y \<and> drop (Suc n) xs = ys \<and> n < length xs"
  by (metis drop_Suc list.sel(3) nth_via_drop tl_drop drop_eq_Nil leI list.distinct(1))

lemma merge_end_absorb:
  assumes "len \<le> length pt" "drop (j + 1) (take len pt) = y # r"
  shows "\<exists>j'. merge_end pt len j = Some j' \<and> j \<le> j' \<and> j' + 1 < len \<and> pt ! (j' + 1) = fst (absorb y r) \<and>
    drop (j' + 2) (take len pt) = snd (absorb y r)"
  using assms
proof (induction y r arbitrary: j rule: absorb.induct)
  case (1 y p q r)
  have 0: "pt ! (j + 1) = y" "drop (j + 2) (take len pt) = p # q # r"
    using drop_ConsD [OF 1(3)] by auto
  have nth: "pt ! (j + 2) = p" "drop (j + 2 + 1) (take len pt) = q # r" "j + 3 < len"
    using drop_ConsD [OF 0(2)] drop_ConsD [of "Suc (j + 2)" "take len pt" q r] by auto
  show ?case
  proof (cases "y = p")
    case True
    then show ?thesis using 1(1) [OF True 1(2) nth(2)] 1(2) 0(1) nth
      by (subst merge_end.simps) (auto simp: mem_simps)
  next
    case False
    then show ?thesis using 1(2) 0 nth drop_ConsD [OF 1(3)]
      by (subst merge_end.simps) (auto simp: mem_simps)
  qed
next
  case (2 y)
  then have "pt ! (j + 1) = y" "drop (j + 2) (take len pt) = []" "j + 1 < len"
    using drop_ConsD [OF 2(2)] by auto
  then show ?case using 2 by (subst merge_end.simps) auto
next
  case (3 y v)
  have 0: "pt ! (j + 1) = y" "drop (j + 2) (take len pt) = [v]" "j + 1 < len"
    using drop_ConsD [OF 3(2)] by auto
  then have "\<not> j + 3 < len" using drop_ConsD [OF 0(2)] 3(1) by auto
  then show ?case using 0 by (subst merge_end.simps) auto
qed

lemma take_update_beyond: "k \<le> n \<Longrightarrow> take k (xs[n := v]) = take k xs"
  by simp

lemma compress_loop_compress:
  "len \<le> length pt \<Longrightarrow> k \<le> i \<Longrightarrow> \<exists>pt' k'. compress_loop pt len i k = Some (pt', k') \<and> length pt' = length pt \<and>
     k' \<le> max k len \<and> take k' pt' = take k pt @ compress (drop i (take len pt))"
proof (induction "len - i" arbitrary: pt i k rule: less_induct)
  case less
  show ?case
  proof (cases "i + 1 < len")
    case False
    then have "compress (drop i (take len pt)) = []"
      by (cases "i < len") (auto simp: Cons_nth_drop_Suc [symmetric] less.prems(1))
    then show ?thesis using False less.prems by (subst compress_loop.simps) auto
  next
    case True
    let ?x = "pt ! i" and ?y = "pt ! (i + 1)" and ?r = "drop (i + 2) (take len pt)"
    have d: "drop i (take len pt) = ?x # ?y # ?r"
      using True less.prems(1) Cons_nth_drop_Suc [of i "take len pt"] Cons_nth_drop_Suc [of "i + 1" "take len pt"]
      by simp
    have ld: "load pt i = Some ?x" "load pt (i + 1) = Some ?y"
      using True less.prems(1) by (simp_all add: mem_simps)
    show ?thesis
    proof (cases "?x = ?y")
      case eq: True
      have "len - (i + 2) < len - i" using True by simp
      from less.hyps [OF this less.prems(1), of k] show ?thesis
        using eq True ld d less.prems by (subst compress_loop.simps) auto
    next
      case ne: False
      obtain j where j: "merge_end pt len i = Some j" "i \<le> j" "j + 1 < len"
        "pt ! (j + 1) = fst (absorb ?y ?r)" "drop (j + 2) (take len pt) = snd (absorb ?y ?r)"
        using merge_end_absorb [OF less.prems(1), of i ?y ?r] d drop_ConsD [OF d] by auto
      let ?p1 = "pt[k := ?x]" and ?z = "pt ! (j + 1)"
      let ?p2 = "?p1[k + 1 := ?z]"
      have st: "load pt (j + 1) = Some ?z" "store pt k ?x = Some ?p1" "store ?p1 (k + 1) ?z = Some ?p2"
        using j less.prems True by (auto simp: mem_simps)
      have "drop (j + 2) (take len ?p2) = drop (j + 2) (take len pt)"
        using less.prems(2) j(2) by (simp add: take_update_swap drop_update_cancel)
      moreover have "take (k + 2) ?p2 = take k pt @ [?x, ?z]"
        using less.prems True by (simp add: take_Suc_conv_app_nth nth_list_update)
      moreover have "len - (j + 2) < len - i" using j True by simp
      ultimately show ?thesis
        using less.hyps [of "j + 2" ?p2 "k + 2"] ne j less.prems ld st d True
        by (subst compress_loop.simps) auto
    qed
  qed
qed


section \<open>The block of points\<close>

definition cr_realloc_ok :: "'o cr_realloc_fn \<Rightarrow> bool" where
  "cr_realloc_ok f \<longleftrightarrow> (\<forall>opq ptr n new opq'. f opq ptr n = (Some new, opq') \<longrightarrow> 0 < n \<longrightarrow>
     length new = n \<and> take (min n (length ptr)) new = take (min n (length ptr)) ptr)"

definition cr_realloc_total :: "'o cr_realloc_fn \<Rightarrow> bool" where
  "cr_realloc_total f \<longleftrightarrow> (\<forall>opq ptr n. 0 < n \<longrightarrow> fst (f opq ptr n) \<noteq> None)"

definition cr_inv :: "'o CharRange \<Rightarrow> bool" where
  "cr_inv cr \<longleftrightarrow> length (cr_points cr) = cr_size cr \<and> cr_len cr \<le> cr_size cr \<and> cr_realloc_ok (cr_realloc_func cr)"

definition cr_pts :: "'o CharRange \<Rightarrow> u32 list" where
  "cr_pts cr = take (cr_len cr) (cr_points cr)"

lemma length_cr_pts [simp]: "cr_inv cr \<Longrightarrow> length (cr_pts cr) = cr_len cr"
  by (simp add: cr_inv_def cr_pts_def)

text \<open>
  What an operation that may run out of memory does: it keeps the invariant and the allocator, and
  either succeeds with points that satisfy \<open>Q\<close>, or returns -1, which needs an allocator that
  fails.
\<close>

definition cr_outcome :: "'o CharRange \<Rightarrow> (u32 list \<Rightarrow> bool) \<Rightarrow> (int \<times> 'o CharRange) option \<Rightarrow> bool" where
  "cr_outcome cr Q res \<longleftrightarrow>
     (\<exists>r cr'. res = Some (r, cr') \<and> cr_inv cr' \<and> cr_realloc_func cr' = cr_realloc_func cr \<and>
        (r = 0 \<and> Q (cr_pts cr') \<or> r = -1 \<and> \<not> cr_realloc_total (cr_realloc_func cr)))"

lemma cr_outcomeI:
  "res = Some (r, cr') \<Longrightarrow> cr_inv cr' \<Longrightarrow> cr_realloc_func cr' = cr_realloc_func cr \<Longrightarrow>
   r = 0 \<and> Q (cr_pts cr') \<or> r = -1 \<and> \<not> cr_realloc_total (cr_realloc_func cr) \<Longrightarrow> cr_outcome cr Q res"
  unfolding cr_outcome_def by blast

lemma cr_outcomeE:
  assumes "cr_outcome cr Q res"
  obtains (ok) cr' where "res = Some (0, cr')" "cr_inv cr'" "cr_realloc_func cr' = cr_realloc_func cr" "Q (cr_pts cr')"
  | (oom) cr' where "res = Some (-1, cr')" "cr_inv cr'" "cr_realloc_func cr' = cr_realloc_func cr"
      "\<not> cr_realloc_total (cr_realloc_func cr)"
  using assms unfolding cr_outcome_def by blast

lemma cr_realloc_outcome:
  assumes "cr_inv cr"
  obtains (ok) cr' where "cr_realloc cr n = (0, cr')" "cr_inv cr'" "cr_realloc_func cr' = cr_realloc_func cr"
    "cr_len cr' = cr_len cr" "cr_pts cr' = cr_pts cr" "n \<le> cr_size cr'"
  | (oom) cr' where "cr_realloc cr n = (-1, cr')" "cr_inv cr'" "cr_realloc_func cr' = cr_realloc_func cr"
      "cr_pts cr' = cr_pts cr" "\<not> cr_realloc_total (cr_realloc_func cr)"
proof (cases "n > cr_size cr")
  case True
  let ?m = "max n (cr_size cr * 3 div 2)"
  obtain res opq where f: "cr_realloc_func cr (cr_mem_opaque cr) (cr_points cr) ?m = (res, opq)"
    by fastforce
  have m: "0 < ?m" "cr_size cr \<le> ?m" using True by auto
  show thesis
  proof (cases res)
    case None
    have "\<not> cr_realloc_total (cr_realloc_func cr)"
      unfolding cr_realloc_total_def using f None m by (metis fst_conv)
    then show ?thesis
      using oom [of "cr\<lparr>cr_mem_opaque := opq\<rparr>"] f None True assms
      by (simp add: cr_realloc_def Let_def cr_inv_def cr_pts_def)
  next
    case (Some new)
    have "cr_realloc_ok (cr_realloc_func cr)" using assms by (simp add: cr_inv_def)
    then have new: "length new = ?m" "take (min ?m (length (cr_points cr))) new = take (min ?m (length (cr_points cr))) (cr_points cr)"
      using f Some m unfolding cr_realloc_ok_def by blast+
    then have "take (cr_size cr) new = cr_points cr" using m assms by (auto simp: cr_inv_def min_def split: if_splits)
    then have "take (cr_len cr) new = take (cr_len cr) (cr_points cr)"
      using assms by (metis cr_inv_def min.absorb1 take_take)
    then show ?thesis
      using ok [of "cr\<lparr>cr_mem_opaque := opq, cr_points := new, cr_size := ?m\<rparr>"] f Some True assms new m
      by (simp add: cr_realloc_def Let_def cr_inv_def cr_pts_def)
  qed
next
  case False
  then show thesis using ok [of cr] assms by (simp add: cr_realloc_def)
qed

lemma cr_put_ok:
  assumes "cr_inv cr" "cr_len cr < cr_size cr"
  shows "\<exists>cr'. cr_put cr v = Some cr' \<and> cr_inv cr' \<and> cr_realloc_func cr' = cr_realloc_func cr \<and>
    cr_pts cr' = cr_pts cr @ [v] \<and> cr_len cr' = cr_len cr + 1 \<and> cr_size cr' = cr_size cr"
  using assms by (auto simp: cr_put_def cr_inv_def mem_simps cr_pts_def take_Suc_conv_app_nth)

lemma cr_add_point_outcome:
  assumes "cr_inv cr"
  shows "cr_outcome cr (\<lambda>pts. pts = cr_pts cr @ [v]) (cr_add_point cr v)"
proof (cases "cr_len cr \<ge> cr_size cr")
  case True
  from assms show ?thesis
  proof (cases rule: cr_realloc_outcome [of cr "cr_len cr + 1"])
    case (ok cr1)
    with cr_put_ok [of cr1 v] obtain cr' where "cr_put cr1 v = Some cr'" "cr_inv cr'"
      "cr_realloc_func cr' = cr_realloc_func cr" "cr_pts cr' = cr_pts cr @ [v]" by auto
    then show ?thesis using ok True by (intro cr_outcomeI [of _ 0 cr']) (auto simp: cr_add_point_def)
  next
    case (oom cr1)
    then show ?thesis using True by (intro cr_outcomeI [of _ "-1" cr1]) (auto simp: cr_add_point_def)
  qed
next
  case False
  with cr_put_ok [of cr v] assms obtain cr' where "cr_put cr v = Some cr'" "cr_inv cr'"
      "cr_realloc_func cr' = cr_realloc_func cr" "cr_pts cr' = cr_pts cr @ [v]" by auto
  then show ?thesis using False by (intro cr_outcomeI [of _ 0 cr']) (auto simp: cr_add_point_def)
qed

lemma cr_compress_ok:
  assumes "cr_inv cr"
  shows "\<exists>cr'. cr_compress cr = Some cr' \<and> cr_inv cr' \<and> cr_realloc_func cr' = cr_realloc_func cr \<and>
    cr_pts cr' = compress (cr_pts cr)"
proof -
  have "cr_len cr \<le> length (cr_points cr)" using assms by (simp add: cr_inv_def)
  from compress_loop_compress [OF this, of 0 0] obtain pt' k' where
    "compress_loop (cr_points cr) (cr_len cr) 0 0 = Some (pt', k')" "length pt' = length (cr_points cr)"
    "k' \<le> cr_len cr" "take k' pt' = compress (cr_pts cr)" by (auto simp: cr_pts_def)
  then show ?thesis using assms by (auto simp: cr_compress_def cr_inv_def cr_pts_def)
qed

section \<open>The merge of two ranges\<close>

text \<open>
  The merge so far: the points taken from both arguments and put out are not above those still to
  come, and the output is the combination of what was taken.
\<close>

definition merge_inv :: "CharRangeOpEnum \<Rightarrow> u32 list \<Rightarrow> u32 list \<Rightarrow> nat \<Rightarrow> nat \<Rightarrow> u32 list \<Rightarrow> bool" where
  "merge_inv op a b ai bi out \<longleftrightarrow>
     ai \<le> length a \<and> bi \<le> length b \<and> sorted out \<and> odd (length out) = cr_is_in op (odd ai) (odd bi) \<and>
     (\<forall>p\<in>set out \<union> set (take ai a) \<union> set (take bi b). \<forall>q\<in>set (drop ai a) \<union> set (drop bi b). p \<le> q) \<and>
     (\<forall>c. inside out c = cr_is_in op (inside (take ai a) c) (inside (take bi b) c))"

lemma cr_is_in_False [simp]: "cr_is_in op False False = False"
  by (cases op) auto

lemma merge_inv_start: "merge_inv op a b 0 0 []"
  by (simp add: merge_inv_def)

text \<open>Advancing over the points \<open>v\<close> at the front of one or both arguments.\<close>

lemma merge_inv_advance:
  assumes inv: "merge_inv op a b ai bi out"
    and n: "ai \<le> ai'" "ai' \<le> length a" "bi \<le> bi'" "bi' \<le> length b"
    and v: "set (take (ai' - ai) (drop ai a)) \<union> set (take (bi' - bi) (drop bi b)) = {v}"
    and rest: "\<forall>q\<in>set (drop ai' a) \<union> set (drop bi' b). v \<le> q"
    and out': "out' = (if cr_is_in op (odd ai') (odd bi') \<noteq> odd (length out) then out @ [v] else out)"
  shows "merge_inv op a b ai' bi' out'"
proof -
  have ta: "take ai' a = take ai a @ take (ai' - ai) (drop ai a)" and tb: "take bi' b = take bi b @ take (bi' - bi) (drop bi b)"
    using n by (simp_all add: take_add [symmetric])
  have vin: "v \<in> set (drop ai a) \<union> set (drop bi b)"
    using v set_take_subset [of "ai' - ai" "drop ai a"] set_take_subset [of "bi' - bi" "drop bi b"] by blast
  have da: "set (drop ai' a) \<subseteq> set (drop ai a)" "set (drop bi' b) \<subseteq> set (drop bi b)"
    using n by (simp_all add: set_drop_subset_set_drop)
  have below: "\<forall>p\<in>set out \<union> set (take ai a) \<union> set (take bi b). p \<le> v"
    using inv vin unfolding merge_inv_def by blast
  have len: "length (take ai' a) = ai'" "length (take bi' b) = bi'" using n by simp_all
  have le: "\<forall>p\<in>set out' \<union> set (take ai' a) \<union> set (take bi' b). p \<le> v"
    using below v unfolding ta tb out' by auto
  have odd': "odd (length out') = cr_is_in op (odd ai') (odd bi')" unfolding out' by auto
  have "inside out' c = cr_is_in op (inside (take ai' a) c) (inside (take bi' b) c)" for c
  proof (cases "v \<le> c")
    case True
    then have "\<forall>p\<in>set out' \<union> set (take ai' a) \<union> set (take bi' b). p \<le> c" using le by (meson order_trans)
    then show ?thesis using odd' len by (simp add: inside_above)
  next
    case False
    moreover have "\<forall>p\<in>set (take (ai' - ai) (drop ai a)) \<union> set (take (bi' - bi) (drop bi b)). p = v"
      using v by blast
    ultimately have "\<not> inside (take (ai' - ai) (drop ai a)) c" "\<not> inside (take (bi' - bi) (drop bi b)) c" "\<not> inside [v] c"
      by (auto intro!: inside_below simp: not_le)
    then have "inside (take ai' a) c = inside (take ai a) c" "inside (take bi' b) c = inside (take bi b) c"
      "inside out' c = inside out c" unfolding ta tb out' by (auto simp: inside_append)
    then show ?thesis using inv by (simp add: merge_inv_def)
  qed
  moreover have "sorted out'"
    using inv below unfolding out' by (auto simp: merge_inv_def sorted_append)
  moreover have "\<forall>p\<in>set out' \<union> set (take ai' a) \<union> set (take bi' b). \<forall>q\<in>set (drop ai' a) \<union> set (drop bi' b). p \<le> q"
    using le rest by (meson order_trans)
  ultimately show ?thesis
    using n odd' unfolding merge_inv_def by blast
qed

lemma next_point_advance:
  assumes inv: "merge_inv op a b ai bi out" and np: "next_point a b ai bi = Some (v, ai', bi')"
    and s: "sorted a" "sorted b"
    and out': "out' = (if cr_is_in op (odd ai') (odd bi') \<noteq> odd (length out) then out @ [v] else out)"
  shows "merge_inv op a b ai' bi' out'"
proof (rule merge_inv_advance [OF inv _ _ _ _ _ _ out'])
  have sa: "ai < length a \<Longrightarrow> drop ai a = a ! ai # drop (Suc ai) a \<and> (\<forall>q\<in>set (drop (Suc ai) a). a ! ai \<le> q)"
    using sorted_wrt_drop [OF s(1), of ai] by (metis Cons_nth_drop_Suc sorted_simps(2))
  have sb: "bi < length b \<Longrightarrow> drop bi b = b ! bi # drop (Suc bi) b \<and> (\<forall>q\<in>set (drop (Suc bi) b). b ! bi \<le> q)"
    using sorted_wrt_drop [OF s(2), of bi] by (metis Cons_nth_drop_Suc sorted_simps(2))
  have b: "ai \<le> length a" "bi \<le> length b" using inv by (simp_all add: merge_inv_def)
  show "ai \<le> ai'" "ai' \<le> length a" "bi \<le> bi'" "bi' \<le> length b"
    using np b by (auto simp: next_point_def split: if_splits)
  show "set (take (ai' - ai) (drop ai a)) \<union> set (take (bi' - bi) (drop bi b)) = {v}"
    using np sa sb by (auto simp: next_point_def split: if_splits)
  show "\<forall>q\<in>set (drop ai' a) \<union> set (drop bi' b). v \<le> q"
    using np sa sb by (fastforce simp: next_point_def split: if_splits)
qed

lemma cr_op_loop_outcome:
  assumes "cr_inv cr" "merge_inv op a b ai bi (cr_pts cr)" "sorted a" "sorted b"
  shows "cr_outcome cr (merge_inv op a b (length a) (length b)) (cr_op_loop op a b ai bi cr)"
  using assms
proof (induction "length a - ai + (length b - bi)" arbitrary: ai bi cr rule: less_induct)
  case less
  show ?case
  proof (cases "next_point a b ai bi")
    case None
    then have e: "ai = length a" "bi = length b"
      using less.prems(2) by (auto simp: next_point_def merge_inv_def split: if_splits)
    have "cr_op_loop op a b ai bi cr = Some (0, cr)" using None by (subst cr_op_loop.simps) simp
    then show ?thesis
      using e less.prems by (intro cr_outcomeI [of _ 0 cr]) auto
  next
    case (Some t)
    obtain v ai' bi' where np: "next_point a b ai bi = Some (v, ai', bi')" using Some by (cases t) auto
    have dec: "length a - ai' + (length b - bi') < length a - ai + (length b - bi)"
      using np by (auto simp: next_point_def split: if_splits)
    note adv = next_point_advance [OF less.prems(2) np less.prems(3,4) refl]
    have len: "length (cr_pts cr) = cr_len cr" using less.prems(1) by simp
    show ?thesis
    proof (cases "cr_is_in op (odd ai') (odd bi') \<noteq> odd (cr_len cr)")
      case True
      from cr_add_point_outcome [OF less.prems(1), of v] show ?thesis
      proof (cases rule: cr_outcomeE)
        case (ok cr')
        with less.hyps [OF dec, of cr'] adv True len less.prems
        have "cr_outcome cr' (merge_inv op a b (length a) (length b)) (cr_op_loop op a b ai' bi' cr')" by simp
        then show ?thesis
          using ok True np by (simp add: cr_op_loop.simps [of op a b ai bi] cr_outcome_def)
      next
        case (oom cr')
        then show ?thesis
          using True np by (intro cr_outcomeI [of _ "-1" cr']) (auto simp: cr_op_loop.simps [of op a b ai bi])
      qed
    next
      case False
      then show ?thesis
        using less.hyps [OF dec less.prems(1)] adv len less.prems np by (simp add: cr_op_loop.simps [of op a b ai bi])
    qed
  qed
qed

lemma cr_op_outcome:
  assumes "cr_inv cr" "cr_len cr = 0" "sorted a" "sorted b" "even (length a)" "even (length b)"
  shows "cr_outcome cr (\<lambda>pts. cr_canonical pts \<and> (\<forall>c. inside pts c = cr_is_in op (inside a c) (inside b c)))
    (cr_op cr a b op)"
proof -
  have "cr_pts cr = []" using assms(2) by (simp add: cr_pts_def)
  then have "cr_outcome cr (merge_inv op a b (length a) (length b)) (cr_op_loop op a b 0 0 cr)"
    using cr_op_loop_outcome [OF assms(1) _ assms(3,4)] by (simp add: merge_inv_start)
  then show ?thesis
  proof (cases rule: cr_outcomeE)
    case (ok cr')
    from cr_compress_ok [OF ok(2)] obtain cr'' where c: "cr_compress cr' = Some cr''" "cr_inv cr''"
      "cr_realloc_func cr'' = cr_realloc_func cr'" "cr_pts cr'' = compress (cr_pts cr')" by blast
    have s: "sorted (cr_pts cr')" "even (length (cr_pts cr'))"
      and i: "inside (cr_pts cr') c = cr_is_in op (inside a c) (inside b c)" for c
      using ok(4) assms(5,6) unfolding merge_inv_def by auto
    show ?thesis
      by (rule cr_outcomeI [of _ 0 cr''])
        (use ok c s i in \<open>auto simp: cr_op_def compress_canonical compress_inside\<close>)
  next
    case (oom cr')
    then show ?thesis by (intro cr_outcomeI [of _ "-1" cr']) (auto simp: cr_op_def)
  qed
qed

lemma cr_union1_outcome:
  assumes "cr_inv cr" "sorted (cr_pts cr)" "even (cr_len cr)" "sorted b" "even (length b)"
  shows "cr_outcome cr (\<lambda>pts. cr_canonical pts \<and> (\<forall>c. inside pts c = (inside (cr_pts cr) c \<or> inside b c)))
    (cr_union1 cr b)"
proof -
  let ?e = "cr\<lparr>cr_len := 0, cr_size := 0, cr_points := []\<rparr>"
  have rd: "read_block (cr_points cr) 0 (cr_len cr) = Some (cr_pts cr)"
    using assms(1) by (simp add: cr_inv_def cr_pts_def read_block_def)
  have "cr_inv ?e" using assms(1) by (simp add: cr_inv_def)
  from cr_op_outcome [OF this _ assms(2,4), of CR_OP_UNION] assms
  have "cr_outcome ?e (\<lambda>pts. cr_canonical pts \<and> (\<forall>c. inside pts c = (inside (cr_pts cr) c \<or> inside b c)))
      (cr_op ?e (cr_pts cr) b CR_OP_UNION)" by simp
  then show ?thesis
  proof (cases rule: cr_outcomeE)
    case (ok cr')
    let ?q = "cr_mem_opaque (cr_free (cr\<lparr>cr_mem_opaque := cr_mem_opaque cr'\<rparr>))"
    show ?thesis
      by (rule cr_outcomeI [of _ 0 "cr'\<lparr>cr_mem_opaque := ?q\<rparr>"])
        (use ok rd in \<open>simp_all add: cr_union1_def cr_inv_def cr_pts_def\<close>)
  next
    case (oom cr')
    let ?q = "cr_mem_opaque (cr_free (cr\<lparr>cr_mem_opaque := cr_mem_opaque cr'\<rparr>))"
    show ?thesis
      by (rule cr_outcomeI [of _ "-1" "cr'\<lparr>cr_mem_opaque := ?q\<rparr>"])
        (use oom rd in \<open>simp_all add: cr_union1_def cr_inv_def cr_pts_def\<close>)
  qed
qed

lemma inside_interval: "c1 \<le> c2 \<Longrightarrow> c2 < 0xFFFFFFFF \<Longrightarrow> inside [c1, c2 + 1] c \<longleftrightarrow> c1 \<le> c \<and> c \<le> c2"
proof -
  assume c: "c1 \<le> c2" "c2 < 0xFFFFFFFF"
  have "uint (c2 + 1) = uint c2 + 1"
    using c(2) by (simp add: word_less_def uint_word_ariths)
  then have "c2 + 1 \<le> c \<longleftrightarrow> c2 < c" by (simp only: word_le_def word_less_def) linarith
  then show ?thesis using c(1) by (auto simp: inside_Cons)
qed

lemma cr_invert_outcome:
  assumes "cr_inv cr" "sorted (cr_pts cr)" "even (cr_len cr)"
  shows "cr_outcome cr (\<lambda>pts. cr_canonical pts \<and> (\<forall>c. c \<noteq> 0xFFFFFFFF \<longrightarrow> inside pts c = (\<not> inside (cr_pts cr) c)))
    (cr_invert cr)"
  using assms(1)
proof (cases rule: cr_realloc_outcome [of cr "cr_len cr + 2"])
  case (ok cr1)
  let ?n = "cr_len cr" and ?p = "cr_points cr1"
  have len: "length ?p = cr_size cr1" "?n + 2 \<le> length ?p" using ok by (simp_all add: cr_inv_def)
  have ps: "take ?n ?p = cr_pts cr" using ok by (simp add: cr_pts_def)
  have rd: "read_block ?p 0 ?n = Some (cr_pts cr)" using len ps by (simp add: read_block_def)
  have n: "length (cr_pts cr) = ?n" using assms(1) by simp
  obtain pts1 where w1: "write_block ?p 1 (cr_pts cr) = Some pts1" using len n by (simp add: write_block_def)
  let ?p3 = "pts1[0 := 0, ?n + 1 := 0xFFFFFFFF]"
  have l1: "length pts1 = length ?p" by (rule length_write_block [OF w1])
  have s: "store pts1 0 0 = Some (pts1[0 := 0])" "store (pts1[0 := 0]) (?n + 1) 0xFFFFFFFF = Some ?p3"
    using l1 len by (simp_all add: store_def)
  have "take (?n + 1) ?p3 = 0 # cr_pts cr"
    using w1 len n l1 by (cases ?p) (auto simp: write_block_def split: if_splits)
  then have t: "take (?n + 2) ?p3 = 0 # cr_pts cr @ [0xFFFFFFFF]"
    using l1 len take_Suc_conv_app_nth [of "?n + 1" ?p3] by simp
  let ?cr = "cr1\<lparr>cr_points := ?p3, cr_len := ?n + 2\<rparr>"
  have inv: "cr_inv ?cr" using ok l1 len by (simp add: cr_inv_def)
  from cr_compress_ok [OF inv] t obtain cr2 where c: "cr_compress ?cr = Some cr2" "cr_inv cr2"
    "cr_realloc_func cr2 = cr_realloc_func cr" "cr_pts cr2 = compress (0 # cr_pts cr @ [0xFFFFFFFF])"
    using ok by (auto simp: cr_pts_def)
  have max: "x \<le> 0xFFFFFFFF" for x :: u32
    using unat_less_length [of x] by (simp add: word_le_nat_alt)
  then have "sorted (0 # cr_pts cr @ [0xFFFFFFFF])" using assms(2) by (simp add: sorted_append)
  moreover have ev: "even (length (0 # cr_pts cr @ [0xFFFFFFFF]))" using assms(3) n by simp
  moreover have "inside (0 # cr_pts cr @ [0xFFFFFFFF]) c = (\<not> inside (cr_pts cr) c)" if "c \<noteq> 0xFFFFFFFF" for c
    using that max [of c] by (auto simp: inside_Cons inside_append)
  ultimately have "cr_canonical (cr_pts cr2)" "\<forall>c. c \<noteq> 0xFFFFFFFF \<longrightarrow> inside (cr_pts cr2) c = (\<not> inside (cr_pts cr) c)"
    using c(4) compress_canonical compress_inside [OF ev] by auto
  then show ?thesis
    using ok(1) rd w1 s c by (intro cr_outcomeI [of _ 0 cr2]) (auto simp: cr_invert_def Let_def)
next
  case (oom cr1)
  then show ?thesis by (intro cr_outcomeI [of _ "-1" cr1]) (auto simp: cr_invert_def)
qed

lemma cr_add_interval_outcome:
  assumes "cr_inv cr"
  shows "cr_outcome cr (\<lambda>pts. pts = cr_pts cr @ [c1, c2]) (cr_add_interval cr c1 c2)"
proof -
  have put: "\<exists>cr'. (case cr_put cr1 c1 of None \<Rightarrow> None | Some cr \<Rightarrow> map_option (Pair (0::int)) (cr_put cr c2)) = Some (0, cr') \<and>
      cr_inv cr' \<and> cr_realloc_func cr' = cr_realloc_func cr1 \<and> cr_pts cr' = cr_pts cr1 @ [c1, c2]"
    if "cr_inv cr1" "cr_len cr1 + 2 \<le> cr_size cr1" for cr1 :: "'a CharRange"
  proof -
    from cr_put_ok [of cr1 c1] that obtain x where x: "cr_put cr1 c1 = Some x" "cr_inv x"
      "cr_realloc_func x = cr_realloc_func cr1" "cr_pts x = cr_pts cr1 @ [c1]" "cr_len x < cr_size x" by auto
    from cr_put_ok [of x c2] x show ?thesis by auto
  qed
  show ?thesis
  proof (cases "cr_len cr + 2 > cr_size cr")
    case True
    from assms show ?thesis
    proof (cases rule: cr_realloc_outcome [of cr "cr_len cr + 2"])
      case (ok cr1)
      with put [of cr1] obtain cr' where
        "(case cr_put cr1 c1 of None \<Rightarrow> None | Some cr \<Rightarrow> map_option (Pair (0::int)) (cr_put cr c2)) = Some (0, cr')"
        "cr_inv cr'" "cr_realloc_func cr' = cr_realloc_func cr" "cr_pts cr' = cr_pts cr @ [c1, c2]" by auto
      then show ?thesis using ok True by (intro cr_outcomeI [of _ 0 cr']) (auto simp: cr_add_interval_def)
    next
      case (oom cr1)
      then show ?thesis using True by (intro cr_outcomeI [of _ "-1" cr1]) (auto simp: cr_add_interval_def)
    qed
  next
    case False
    with put [OF assms] obtain cr' where
      "(case cr_put cr c1 of None \<Rightarrow> None | Some cr \<Rightarrow> map_option (Pair (0::int)) (cr_put cr c2)) = Some (0, cr')"
      "cr_inv cr'" "cr_realloc_func cr' = cr_realloc_func cr" "cr_pts cr' = cr_pts cr @ [c1, c2]" by auto
    then show ?thesis using False by (intro cr_outcomeI [of _ 0 cr']) (auto simp: cr_add_interval_def)
  qed
qed

lemma cr_copy_outcome:
  assumes "cr_inv cr" "cr_inv cr1"
  shows "cr_outcome cr (\<lambda>pts. pts = cr_pts cr1) (cr_copy cr cr1)"
  using assms(1)
proof (cases rule: cr_realloc_outcome [of cr "cr_len cr1"])
  case (ok cr2)
  have rd: "read_block (cr_points cr1) 0 (cr_len cr1) = Some (cr_pts cr1)"
    using assms(2) by (simp add: cr_inv_def cr_pts_def read_block_def)
  have n: "length (cr_pts cr1) = cr_len cr1" "cr_len cr1 \<le> length (cr_points cr2)"
    using assms(2) ok by (simp_all add: cr_inv_def)
  then obtain pts where w: "write_block (cr_points cr2) 0 (cr_pts cr1) = Some pts" by (simp add: write_block_def)
  then have "length pts = length (cr_points cr2)" "take (cr_len cr1) pts = cr_pts cr1"
    using length_write_block [OF w] read_write_block [OF w] n by (auto simp: read_block_def split: if_splits)
  then show ?thesis
    using ok rd w n(2) by (intro cr_outcomeI [of _ 0 "cr2\<lparr>cr_points := pts, cr_len := cr_len cr1\<rparr>"])
      (auto simp: cr_copy_def cr_inv_def cr_pts_def)
next
  case (oom cr2)
  then show ?thesis by (intro cr_outcomeI [of _ "-1" cr2]) (auto simp: cr_copy_def)
qed

section \<open>Properties\<close>

text \<open>A concrete allocator for closed examples.\<close>

definition plain_cr_realloc :: "unit cr_realloc_fn" where
  "plain_cr_realloc opq ptr n = (Some (take n ptr @ replicate (n - length ptr) 0), ())"

lemma plain_cr_inv: "cr_inv (cr_init plain_cr_realloc () None)"
  by (auto simp: cr_inv_def cr_init_def cr_realloc_ok_def plain_cr_realloc_def)

text \<open>
  C24: \<open>cr_op\<close> computes the union, intersection or symmetric difference of two sets of codes
  given by increasing points: the result is canonical (strictly increasing points, an even number of
  them) and contains exactly the codes the set operation asks for. No access leaves the block, and
  -1 is returned only when the allocator fails.
\<close>

theorem cr_op_computes:
  assumes "cr_inv cr" and "cr_len cr = 0" and "sorted a" "sorted b" and "even (length a)" "even (length b)"
  shows "\<exists>r cr'. cr_op cr a b op = Some (r, cr') \<and> cr_inv cr' \<and>
    (r = 0 \<and> cr_canonical (cr_pts cr') \<and> (\<forall>c. inside (cr_pts cr') c = cr_is_in op (inside a c) (inside b c)) \<or>
     r = -1 \<and> \<not> cr_realloc_total (cr_realloc_func cr))"
  using cr_op_outcome [OF assms, of op] unfolding cr_outcome_def by blast

theorem cr_op_computes_witness:
  "\<exists>r cr'. cr_op (cr_init plain_cr_realloc () None) [1, 5] [3, 9] CR_OP_INTER = Some (r, cr') \<and> r = 0 \<and>
    inside (cr_pts cr') 4 \<and> \<not> inside (cr_pts cr') 5 \<and> \<not> inside (cr_pts cr') 1"
proof -
  have tot: "cr_realloc_total (cr_realloc_func (cr_init plain_cr_realloc () None))"
    by (simp add: cr_realloc_total_def cr_init_def plain_cr_realloc_def)
  have "cr_len (cr_init plain_cr_realloc () None) = 0" by (simp add: cr_init_def)
  moreover have "inside [1, 5] 4 \<and> inside [3, 9] 4 \<and> \<not> inside [1, 5] 5 \<and> \<not> inside [3, 9] 1" by code_simp
  ultimately show ?thesis
    using cr_op_computes [OF plain_cr_inv, of "[1, 5]" "[3, 9]" CR_OP_INTER] tot by auto
qed

text \<open>
  C25: \<open>cr_union_interval\<close> adds the codes from \<open>c1\<close> to \<open>c2\<close> to a range, and
  \<open>cr_invert\<close> replaces it by its complement in the codes below \<open>0xFFFFFFFF\<close>; both leave it
  canonical.
\<close>

theorem cr_union_interval_invert:
  assumes "cr_inv cr" and "sorted (cr_pts cr)" and "even (cr_len cr)" and "c1 \<le> c2" and "c2 < 0xFFFFFFFF"
  shows "cr_outcome cr (\<lambda>pts. cr_canonical pts \<and> (\<forall>c. inside pts c \<longleftrightarrow> inside (cr_pts cr) c \<or> c1 \<le> c \<and> c \<le> c2))
      (cr_union_interval cr c1 c2) \<and>
    cr_outcome cr (\<lambda>pts. cr_canonical pts \<and> (\<forall>c. c \<noteq> 0xFFFFFFFF \<longrightarrow> inside pts c = (\<not> inside (cr_pts cr) c)))
      (cr_invert cr)"
proof -
  have "uint (c2 + 1) = uint c2 + 1"
    using assms(5) by (simp add: word_less_def uint_word_ariths)
  then have "sorted [c1, c2 + 1]" using assms(4) by (simp add: word_le_def)
  then show ?thesis
    using cr_union1_outcome [OF assms(1-3), of "[c1, c2 + 1]"] inside_interval [OF assms(4,5)]
      cr_invert_outcome [OF assms(1-3)] by (simp add: cr_union_interval_def)
qed

theorem cr_union_interval_invert_witness:
  "cr_outcome (cr_init plain_cr_realloc () None) (\<lambda>pts. cr_canonical pts \<and> (\<forall>c. inside pts c \<longleftrightarrow> 0x61 \<le> c \<and> c \<le> 0x7A))
     (cr_union_interval (cr_init plain_cr_realloc () None) 0x61 0x7A)"
  using cr_union_interval_invert [OF plain_cr_inv, of "0x61" "0x7A"]
  by (simp add: cr_init_def cr_pts_def)

text \<open>
  Copying a range copies its points, and appending an interval appends exactly its two points,
  as the range tables are built by \<open>unicode_prop\<close> and the class parser.
\<close>

theorem cr_copy_add_interval:
  assumes "cr_inv cr" and "cr_inv cr1"
  shows "cr_outcome cr (\<lambda>pts. pts = cr_pts cr1) (cr_copy cr cr1) \<and>
    cr_outcome cr (\<lambda>pts. pts = cr_pts cr @ [c1, c2]) (cr_add_interval cr c1 c2)"
  using assms cr_copy_outcome cr_add_interval_outcome by blast

theorem cr_copy_add_interval_witness:
  "cr_outcome (cr_init plain_cr_realloc () None) (\<lambda>pts. pts = [1, 2]) (cr_add_interval (cr_init plain_cr_realloc () None) 1 2)"
  using cr_copy_add_interval [OF plain_cr_inv plain_cr_inv, of 1 2] by (simp add: cr_init_def cr_pts_def)

end
