(* ===== verification/Linked_List.thy ===== *)
theory Linked_List
  imports Prelude
begin

text \<open>
  The intrusive doubly linked lists of \<open>BugChecker/QuickJS/list.h\<close>. The heap maps addresses to
  \<open>list_head\<close> cells; following a pointer to an address with no cell (\<open>NULL\<close> among them)
  is \<open>None\<close>. A list is circular through its head cell; \<open>dlist\<close> relates a heap to the
  sequence of elements, and the operations are shown to act on that sequence.
\<close>

section \<open>The model\<close>

type_synonym addr = nat

record list_head =
  lh_prev :: addr
  lh_next :: addr

type_synonym list_heap = "addr \<rightharpoonup> list_head"

definition NULL :: addr where "NULL = 0"

definition get_prev :: "list_heap \<Rightarrow> addr \<Rightarrow> addr option" where
  "get_prev h p = map_option lh_prev (h p)"

definition get_next :: "list_heap \<Rightarrow> addr \<Rightarrow> addr option" where
  "get_next h p = map_option lh_next (h p)"

definition set_prev :: "addr \<Rightarrow> addr \<Rightarrow> list_heap \<Rightarrow> list_heap option" where
  "set_prev p v h = (case h p of None \<Rightarrow> None | Some c \<Rightarrow> Some (h(p \<mapsto> c\<lparr>lh_prev := v\<rparr>)))"

definition set_next :: "addr \<Rightarrow> addr \<Rightarrow> list_heap \<Rightarrow> list_heap option" where
  "set_next p v h = (case h p of None \<Rightarrow> None | Some c \<Rightarrow> Some (h(p \<mapsto> c\<lparr>lh_next := v\<rparr>)))"

definition init_list_head :: "addr \<Rightarrow> list_heap \<Rightarrow> list_heap option" where
  "init_list_head head h = Option.bind (set_prev head head h) (set_next head head)"

definition list_add_between :: "addr \<Rightarrow> addr \<Rightarrow> addr \<Rightarrow> list_heap \<Rightarrow> list_heap option" where
  "list_add_between el prev next h =
     Option.bind (set_next prev el h) (\<lambda>h.
     Option.bind (set_prev el prev h) (\<lambda>h.
     Option.bind (set_next el next h) (\<lambda>h.
     set_prev next el h)))"

definition list_add :: "addr \<Rightarrow> addr \<Rightarrow> list_heap \<Rightarrow> list_heap option" where
  "list_add el head h =
     Option.bind (get_next h head) (\<lambda>next. list_add_between el head next h)"

definition list_add_tail :: "addr \<Rightarrow> addr \<Rightarrow> list_heap \<Rightarrow> list_heap option" where
  "list_add_tail el head h =
     Option.bind (get_prev h head) (\<lambda>prev. list_add_between el prev head h)"

definition list_del :: "addr \<Rightarrow> list_heap \<Rightarrow> list_heap option" where
  "list_del el h =
     Option.bind (get_prev h el) (\<lambda>prev.
     Option.bind (get_next h el) (\<lambda>next.
     Option.bind (set_next prev next h) (\<lambda>h.
     Option.bind (set_prev next prev h) (\<lambda>h.
     Option.bind (set_prev el NULL h) (\<lambda>h.
     set_next el NULL h)))))"

definition list_empty :: "addr \<Rightarrow> list_heap \<Rightarrow> bool option" where
  "list_empty el h = map_option (\<lambda>n. n = el) (get_next h el)"

text \<open>
  The iteration macros: the elements a loop over an unchanged list visits, forwards and backwards,
  and the loop that saves the successor before it runs its body, which may unlink the element. The
  first argument bounds the number of rounds.
\<close>

fun list_for_each :: "nat \<Rightarrow> list_heap \<Rightarrow> addr \<Rightarrow> addr \<Rightarrow> addr list option" where
  "list_for_each 0 h head el = None"
| "list_for_each (Suc n) h head el =
     (if el = head then Some []
      else Option.bind (get_next h el) (\<lambda>el1. map_option ((#) el) (list_for_each n h head el1)))"

fun list_for_each_prev :: "nat \<Rightarrow> list_heap \<Rightarrow> addr \<Rightarrow> addr \<Rightarrow> addr list option" where
  "list_for_each_prev 0 h head el = None"
| "list_for_each_prev (Suc n) h head el =
     (if el = head then Some []
      else Option.bind (get_prev h el) (\<lambda>el1. map_option ((#) el) (list_for_each_prev n h head el1)))"

fun list_for_each_safe ::
  "nat \<Rightarrow> (addr \<Rightarrow> list_heap \<Rightarrow> list_heap option) \<Rightarrow> addr \<Rightarrow> addr \<Rightarrow> addr \<Rightarrow> list_heap \<Rightarrow> list_heap option" where
  "list_for_each_safe 0 body head el el1 h = None"
| "list_for_each_safe (Suc n) body head el el1 h =
     (if el = head then Some h
      else Option.bind (body el h) (\<lambda>h'.
           Option.bind (get_next h' el1) (\<lambda>el2. list_for_each_safe n body head el1 el2 h')))"

section \<open>Lists in the heap\<close>

fun linked :: "list_heap \<Rightarrow> addr \<Rightarrow> addr list \<Rightarrow> addr \<Rightarrow> bool" where
  "linked h a [] b \<longleftrightarrow> get_next h a = Some b \<and> get_prev h b = Some a"
| "linked h a (x # xs) b \<longleftrightarrow> get_next h a = Some x \<and> get_prev h x = Some a \<and> linked h x xs b"

definition dlist :: "list_heap \<Rightarrow> addr \<Rightarrow> addr list \<Rightarrow> bool" where
  "dlist h head xs \<longleftrightarrow> linked h head xs head \<and> distinct (head # xs)"

lemma linked_append: "linked h a (xs @ x # ys) b \<longleftrightarrow> linked h a xs x \<and> linked h x ys b"
  by (induction xs arbitrary: a) auto

lemma linked_cong:
  "(\<And>p. p \<in> set (a # xs) \<Longrightarrow> get_next h' p = get_next h p) \<Longrightarrow>
   (\<And>p. p \<in> set (xs @ [b]) \<Longrightarrow> get_prev h' p = get_prev h p) \<Longrightarrow> linked h' a xs b = linked h a xs b"
  by (induction xs arbitrary: a) auto

lemma linked_last: "linked h a xs b \<Longrightarrow> get_prev h b = Some (last (a # xs))"
  by (induction xs arbitrary: a) auto

lemma linked_first: "linked h a xs b \<Longrightarrow> get_next h a = Some (hd (xs @ [b]))"
  by (cases xs) auto

lemma get_next_cell: "get_next h p = Some q \<Longrightarrow> \<exists>c. h p = Some c \<and> lh_next c = q"
  by (auto simp: get_next_def)

lemma get_prev_cell: "get_prev h p = Some q \<Longrightarrow> \<exists>c. h p = Some c \<and> lh_prev c = q"
  by (auto simp: get_prev_def)

lemma init_list_head_dlist: "h head \<noteq> None \<Longrightarrow> \<exists>h'. init_list_head head h = Some h' \<and> dlist h' head []"
  by (auto simp: init_list_head_def set_prev_def set_next_def dlist_def get_next_def get_prev_def)

lemma linked_split:
  "linked h a (xs @ ys) b \<longleftrightarrow> linked h a xs (hd (ys @ [b])) \<and> linked h (last (a # xs)) ys b"
proof (induction xs arbitrary: a)
  case Nil
  then show ?case by (cases ys) auto
qed auto

lemma linked_retarget_end:
  "linked h a xs b \<Longrightarrow> (\<And>p. p \<in> set (butlast (a # xs)) \<Longrightarrow> get_next h' p = get_next h p) \<Longrightarrow>
   (\<And>p. p \<in> set xs \<Longrightarrow> get_prev h' p = get_prev h p) \<Longrightarrow> get_next h' (last (a # xs)) = Some b' \<Longrightarrow>
   get_prev h' b' = Some (last (a # xs)) \<Longrightarrow> linked h' a xs b'"
  by (induction xs arbitrary: a) auto

lemma linked_retarget_start:
  "linked h a xs b \<Longrightarrow> (\<And>p. p \<in> set xs \<Longrightarrow> get_next h' p = get_next h p) \<Longrightarrow>
   (\<And>p. p \<in> set (tl (xs @ [b])) \<Longrightarrow> get_prev h' p = get_prev h p) \<Longrightarrow> get_next h' a' = Some (hd (xs @ [b])) \<Longrightarrow>
   get_prev h' (hd (xs @ [b])) = Some a' \<Longrightarrow> linked h' a' xs b"
proof (cases xs)
  case (Cons x xs')
  assume "linked h a xs b" "\<And>p. p \<in> set xs \<Longrightarrow> get_next h' p = get_next h p"
    "\<And>p. p \<in> set (tl (xs @ [b])) \<Longrightarrow> get_prev h' p = get_prev h p"
    "get_next h' a' = Some (hd (xs @ [b]))" "get_prev h' (hd (xs @ [b])) = Some a'"
  then show ?thesis using Cons linked_cong [of x xs' h' h b] by auto
qed auto

lemma linked_cells: "linked h a xs b \<Longrightarrow> q \<in> set (a # xs) \<Longrightarrow> h q \<noteq> None"
  by (induction xs arbitrary: a) (auto simp: get_next_def)

lemma distinct_butlast_last: "distinct xs \<Longrightarrow> xs \<noteq> [] \<Longrightarrow> last xs \<notin> set (butlast xs)"
  by (metis append_butlast_last_id distinct_append disjoint_insert(1) list.set(2))

lemma distinct_hd_tl: "distinct xs \<Longrightarrow> xs \<noteq> [] \<Longrightarrow> hd xs \<notin> set (tl xs)"
  by (cases xs) auto

text \<open>Inserting between two neighbours of a circular list, which may be the same cell.\<close>

lemma list_add_between_effect:
  assumes "h prev \<noteq> None" "h el \<noteq> None" "h next \<noteq> None" "el \<noteq> prev" "el \<noteq> next"
  shows "\<exists>h'. list_add_between el prev next h = Some h' \<and>
    (\<forall>p. get_next h' p = (if p = el then Some next else if p = prev then Some el else get_next h p)) \<and>
    (\<forall>p. get_prev h' p = (if p = el then Some prev else if p = next then Some el else get_prev h p)) \<and>
    (\<forall>p. p \<notin> {el, prev, next} \<longrightarrow> h' p = h p)"
  using assms
  by (cases "prev = next")
    (auto simp: list_add_between_def set_next_def set_prev_def get_next_def get_prev_def fun_upd_def)

lemma list_add_between_dlist:
  assumes d: "dlist h head (xs @ ys)" and el: "h el \<noteq> None" "el \<notin> set (head # xs @ ys)"
    and p: "prev = last (head # xs)" and n: "next = hd (ys @ [head])"
  shows "\<exists>h'. list_add_between el prev next h = Some h' \<and> dlist h' head (xs @ el # ys) \<and>
    (\<forall>q. q \<notin> set (head # el # xs @ ys) \<longrightarrow> h' q = h q)"
proof -
  have lk: "linked h head (xs @ ys) head" and dis: "distinct (head # xs @ ys)" using d by (simp_all add: dlist_def)
  have pin: "prev \<in> set (head # xs)" using p last_in_set by blast
  have nin: "next \<in> set (ys @ [head])" using n hd_in_set by blast
  have cells: "h q \<noteq> None" if "q \<in> set (head # xs @ ys)" for q
    using linked_cells [OF lk that] .
  from list_add_between_effect [of h prev el "next"] obtain h' where h': "list_add_between el prev next h = Some h'"
    "\<And>p. get_next h' p = (if p = el then Some next else if p = prev then Some el else get_next h p)"
    "\<And>p. get_prev h' p = (if p = el then Some prev else if p = next then Some el else get_prev h p)"
    "\<And>p. p \<notin> {el, prev, next} \<Longrightarrow> h' p = h p"
    using cells [of prev] cells [of "next"] pin nin el by force
  have l1: "linked h head xs next" and l2: "linked h prev ys head"
    using lk unfolding linked_split p n by simp_all
  have "linked h' head xs el"
  proof (rule linked_retarget_end [OF l1])
    fix q assume q: "q \<in> set (butlast (head # xs))"
    then have "q \<in> set (head # xs)" by (rule in_set_butlastD)
    moreover have "q \<noteq> prev" using q dis distinct_butlast_last [of "head # xs"] p by auto
    ultimately show "get_next h' q = get_next h q" using el(2) h'(2) by auto
  next
    fix q assume q: "q \<in> set xs"
    then show "get_prev h' q = get_prev h q" using el(2) h'(3) nin dis by auto
  qed (use h'(2,3) p pin nin el in auto)
  moreover have "linked h' el ys head"
  proof (rule linked_retarget_start [OF l2])
    fix q assume q: "q \<in> set ys"
    then show "get_next h' q = get_next h q" using el(2) h'(2) pin dis by auto
  next
    fix q assume q: "q \<in> set (tl (ys @ [head]))"
    then have "q \<in> set (ys @ [head])" by (metis list.set_sel(2) snoc_eq_iff_butlast)
    moreover have "q \<noteq> next" using q dis distinct_hd_tl [of "ys @ [head]"] n by auto
    ultimately show "get_prev h' q = get_prev h q" using el(2) h'(3) by auto
  qed (use h'(2,3) n nin el in auto)
  ultimately have "dlist h' head (xs @ el # ys)"
    using dis el(2) by (auto simp: dlist_def linked_append)
  moreover have "\<forall>q. q \<notin> set (head # el # xs @ ys) \<longrightarrow> h' q = h q"
    using h'(4) pin nin by auto
  ultimately show ?thesis using h'(1) by blast
qed

lemma list_del_effect:
  assumes "get_prev h el = Some p" "get_next h el = Some n" "h p \<noteq> None" "h n \<noteq> None" "el \<noteq> p" "el \<noteq> n"
  shows "\<exists>h'. list_del el h = Some h' \<and>
    (\<forall>q. q \<noteq> el \<longrightarrow> get_next h' q = (if q = p then Some n else get_next h q)) \<and>
    (\<forall>q. q \<noteq> el \<longrightarrow> get_prev h' q = (if q = n then Some p else get_prev h q)) \<and>
    h' el = Some \<lparr>lh_prev = NULL, lh_next = NULL\<rparr> \<and> (\<forall>q. q \<notin> {el, p, n} \<longrightarrow> h' q = h q)"
proof -
  obtain c where c: "h el = Some c" "lh_prev c = p" "lh_next c = n"
    using assms(1,2) by (auto simp: get_prev_def get_next_def)
  have "c\<lparr>lh_prev := NULL, lh_next := NULL\<rparr> = \<lparr>lh_prev = NULL, lh_next = NULL\<rparr>" by simp
  then show ?thesis
    using assms c by (cases "p = n")
      (auto simp: list_del_def set_next_def set_prev_def get_next_def get_prev_def fun_upd_def)
qed

lemma list_del_dlist:
  assumes d: "dlist h head (xs @ el # ys)"
  shows "\<exists>h'. list_del el h = Some h' \<and> dlist h' head (xs @ ys) \<and>
    h' el = Some \<lparr>lh_prev = NULL, lh_next = NULL\<rparr> \<and> (\<forall>q. q \<notin> set (head # xs @ el # ys) \<longrightarrow> h' q = h q)"
proof -
  let ?p = "last (head # xs)" and ?n = "hd (ys @ [head])"
  have lk: "linked h head (xs @ el # ys) head" and dis: "distinct (head # xs @ el # ys)"
    using d by (simp_all add: dlist_def)
  have l1: "linked h head xs el" and l2: "linked h el ys head" using lk by (simp_all add: linked_append)
  have pin: "?p \<in> set (head # xs)" using last_in_set by blast
  have nin: "?n \<in> set (ys @ [head])" using hd_in_set by blast
  have cells: "h q \<noteq> None" if "q \<in> set (head # xs @ el # ys)" for q using linked_cells [OF lk that] .
  have ne: "el \<noteq> ?p" "el \<noteq> ?n" using pin nin dis by auto
  from list_del_effect [OF linked_last [OF l1] linked_first [OF l2] cells cells ne] pin nin
  obtain h' where h': "list_del el h = Some h'"
    "\<And>q. q \<noteq> el \<Longrightarrow> get_next h' q = (if q = ?p then Some ?n else get_next h q)"
    "\<And>q. q \<noteq> el \<Longrightarrow> get_prev h' q = (if q = ?n then Some ?p else get_prev h q)"
    "h' el = Some \<lparr>lh_prev = NULL, lh_next = NULL\<rparr>" "\<And>q. q \<notin> {el, ?p, ?n} \<Longrightarrow> h' q = h q"
    by auto
  have "linked h' head xs ?n"
  proof (rule linked_retarget_end [OF l1])
    fix q assume q: "q \<in> set (butlast (head # xs))"
    then have "q \<in> set (head # xs)" by (rule in_set_butlastD)
    moreover have "q \<noteq> ?p" using q dis distinct_butlast_last [of "head # xs"] by auto
    moreover have "q \<noteq> el" using calculation dis by auto
    ultimately show "get_next h' q = get_next h q" using h'(2) by auto
  next
    fix q assume q: "q \<in> set xs"
    then have "q \<noteq> el" "q \<noteq> ?n" using nin dis by auto
    then show "get_prev h' q = get_prev h q" using h'(3) by auto
  qed (use h'(2,3) ne in auto)
  moreover have "linked h' ?p ys head"
  proof (rule linked_retarget_start [OF l2])
    fix q assume q: "q \<in> set ys"
    then have "q \<noteq> el" "q \<noteq> ?p" using pin dis by auto
    then show "get_next h' q = get_next h q" using h'(2) by auto
  next
    fix q assume q: "q \<in> set (tl (ys @ [head]))"
    then have "q \<in> set (ys @ [head])" by (metis list.set_sel(2) snoc_eq_iff_butlast)
    moreover have "q \<noteq> ?n" using q dis distinct_hd_tl [of "ys @ [head]"] by auto
    moreover have "q \<noteq> el" using calculation dis by auto
    ultimately show "get_prev h' q = get_prev h q" using h'(3) by auto
  qed (use h'(2,3) ne in auto)
  ultimately have "dlist h' head (xs @ ys)"
    using dis by (auto simp: dlist_def linked_split)
  moreover have "\<forall>q. q \<notin> set (head # xs @ el # ys) \<longrightarrow> h' q = h q" using h'(5) pin nin by auto
  ultimately show ?thesis using h'(1,4) by blast
qed

lemma list_for_each_visits:
  "linked h a xs head \<Longrightarrow> head \<notin> set xs \<Longrightarrow> length xs < n \<Longrightarrow> list_for_each n h head (hd (xs @ [head])) = Some xs"
proof (induction xs arbitrary: a n)
  case Nil
  then show ?case by (cases n) auto
next
  case (Cons x xs)
  then obtain m where "n = Suc m" by (cases n) auto
  then show ?case using Cons linked_first [of h x xs head] by auto
qed

lemma list_for_each_prev_visits:
  "linked h head xs b \<Longrightarrow> head \<notin> set xs \<Longrightarrow> length xs < n \<Longrightarrow> list_for_each_prev n h head (last (head # xs)) = Some (rev xs)"
proof (induction xs arbitrary: b n rule: rev_induct)
  case Nil
  then show ?case by (cases n) auto
next
  case (snoc x xs)
  then obtain m where n: "n = Suc m" by (cases n) auto
  have "linked h head xs x" using snoc.prems(1) by (simp add: linked_append)
  moreover from this have "get_prev h x = Some (last (head # xs))" by (rule linked_last)
  ultimately show ?case using snoc n by auto
qed

lemma list_for_each_safe_del:
  "dlist h head (x # xs) \<Longrightarrow> length xs + 1 < n \<Longrightarrow>
   \<exists>h'. list_for_each_safe n list_del head x (hd (xs @ [head])) h = Some h' \<and> dlist h' head []"
proof (induction xs arbitrary: x n h)
  case Nil
  then obtain m where n: "n = Suc (Suc m)" by (metis One_nat_def add_0 less_natE list.size(3) plus_1_eq_Suc)
  from list_del_dlist [of h head "[]" x "[]"] Nil(1) obtain h' where h': "list_del x h = Some h'" "dlist h' head []" by auto
  moreover have "get_next h' head = Some head" using h'(2) by (simp add: dlist_def)
  ultimately show ?case using Nil(1) n by (auto simp: dlist_def)
next
  case (Cons y ys)
  then obtain m where n: "n = Suc m" "length ys + 1 < m" by (cases n) auto
  from list_del_dlist [of h head "[]" x "y # ys"] Cons.prems(1) obtain h' where h': "list_del x h = Some h'" "dlist h' head (y # ys)" by auto
  then have "get_next h' y = Some (hd (ys @ [head]))" by (auto simp: dlist_def dest: linked_first)
  then show ?case using Cons.IH [OF h'(2) n(2)] Cons.prems(1) n h'(1) by (auto simp: dlist_def)
qed

section \<open>Properties\<close>

text \<open>
  C30: on a circular list holding the elements \<open>xs\<close>, \<open>list_add\<close> puts a new cell in front,
  \<open>list_add_tail\<close> behind, and \<open>list_del\<close> removes the cell it is given and clears its
  pointers; in each case every link of the new list is consistent in both directions and no cell
  outside the list changes.
\<close>

theorem list_operations:
  assumes "dlist h head xs" and "h el \<noteq> None" and "el \<notin> set (head # xs)"
  shows "(\<exists>h'. list_add el head h = Some h' \<and> dlist h' head (el # xs) \<and>
      (\<forall>q. q \<notin> set (head # el # xs) \<longrightarrow> h' q = h q)) \<and>
    (\<exists>h'. list_add_tail el head h = Some h' \<and> dlist h' head (xs @ [el]) \<and>
      (\<forall>q. q \<notin> set (head # el # xs) \<longrightarrow> h' q = h q)) \<and>
    (\<forall>ys x zs. xs = ys @ x # zs \<longrightarrow> (\<exists>h'. list_del x h = Some h' \<and> dlist h' head (ys @ zs) \<and>
      h' x = Some \<lparr>lh_prev = NULL, lh_next = NULL\<rparr> \<and> (\<forall>q. q \<notin> set (head # xs) \<longrightarrow> h' q = h q)))"
proof -
  have "get_next h head = Some (hd (xs @ [head]))" "get_prev h head = Some (last (head # xs))"
    using assms(1) linked_first linked_last unfolding dlist_def by blast+
  then show ?thesis
    using list_add_between_dlist [of h head "[]" xs el head] list_add_between_dlist [of h head xs "[]" el]
      list_del_dlist [of h head] assms by (auto simp: list_add_def list_add_tail_def)
qed

definition two_cells :: list_heap where
  "two_cells = [1 \<mapsto> \<lparr>lh_prev = 1, lh_next = 1\<rparr>, 2 \<mapsto> \<lparr>lh_prev = 7, lh_next = 7\<rparr>]"

theorem list_operations_witness:
  "\<exists>h'. list_add_tail 2 1 two_cells = Some h' \<and> dlist h' 1 [2]"
  using list_operations [of two_cells 1 "[]" 2]
  by (auto simp: two_cells_def dlist_def get_next_def get_prev_def)

text \<open>
  The iteration macros visit every element exactly once and end at the head, in order forwards
  and in reverse order backwards, and \<open>list_empty\<close> tells whether there is one; a
  \<open>list_for_each_safe\<close> loop whose body unlinks the current element runs to its end and leaves
  the list empty.
\<close>

theorem list_iteration:
  assumes "dlist h head xs" and "length xs < n"
  shows "list_for_each n h head (hd (xs @ [head])) = Some xs \<and>
    list_for_each_prev n h head (last (head # xs)) = Some (rev xs) \<and>
    list_empty head h = Some (xs = []) \<and>
    (\<exists>h'. list_for_each_safe n list_del head (hd (xs @ [head])) (hd (tl xs @ [head])) h = Some h' \<and> dlist h' head [])"
proof -
  have d: "linked h head xs head" "head \<notin> set xs" using assms(1) by (simp_all add: dlist_def)
  have "\<exists>h'. list_for_each_safe n list_del head (hd (xs @ [head])) (hd (tl xs @ [head])) h = Some h' \<and> dlist h' head []"
    using assms list_for_each_safe_del [of h head "hd xs" "tl xs" n] by (cases xs; cases n) auto
  moreover have "list_empty head h = Some (xs = [])"
    using linked_first [OF d(1)] d(2) by (cases xs) (auto simp: list_empty_def)
  ultimately show ?thesis
    using list_for_each_visits [OF d assms(2)] list_for_each_prev_visits [OF d assms(2)] by blast
qed

theorem list_iteration_witness:
  "list_for_each 5 [1 \<mapsto> \<lparr>lh_prev = 2, lh_next = 2\<rparr>, 2 \<mapsto> \<lparr>lh_prev = 1, lh_next = 1\<rparr>] 1 2 = Some [2]"
  using list_iteration [of "[1 \<mapsto> \<lparr>lh_prev = 2, lh_next = 2\<rparr>, 2 \<mapsto> \<lparr>lh_prev = 1, lh_next = 1\<rparr>]" 1 "[2]" 5]
  by (simp add: dlist_def get_next_def get_prev_def)

end
