(* ===== verification/Unicode_Lookup_Correct.thy ===== *)
theory Unicode_Lookup_Correct
  imports Unicode_Lookup
begin

text \<open>
  Correctness of the lookups of \<open>Unicode_Lookup\<close>: the binary search over runs finds the run that
  contains a code, case conversion and property membership never read outside the shipped tables,
  and the sparse index of a property table only shortens the scan from its start. The facts about
  the shipped tables are established by evaluating checks over them, row by row.
\<close>

section \<open>Binary search over runs\<close>

definition in_run :: "nat \<Rightarrow> u32 \<Rightarrow> u32 \<Rightarrow> bool" where
  "in_run cb v c \<longleftrightarrow> run_code cb v \<le> c \<and> c < run_code cb v + run_len cb v"

definition run_before :: "nat \<Rightarrow> u32 \<Rightarrow> u32 \<Rightarrow> bool" where
  "run_before cb v w \<longleftrightarrow> run_code cb v + run_len cb v \<le> run_code cb w"

definition runs_sorted :: "nat \<Rightarrow> u32 list \<Rightarrow> bool" where
  "runs_sorted cb tab \<longleftrightarrow> successively (run_before cb) tab"

lemma run_no_wrap:
  assumes "cb \<le> 24"
  shows "run_code cb v \<le> run_code cb v + run_len cb v"
proof -
  have "(2::nat) ^ cb \<le> 2 ^ 24" using assms by (intro power_increasing) auto
  moreover have "unat (run_code cb v) < 2 ^ cb"
  proof -
    have "2 ^ 32 = (2::nat) ^ cb * 2 ^ (32 - cb)" using assms by (simp flip: power_add)
    then show ?thesis
      using unat_less_length [of v] by (simp add: run_code_def unat_drop_bit less_mult_imp_div_less)
  qed
  moreover have "unat (run_len cb v) < 128"
  proof -
    have "(0x7f :: u32) = mask 7" by (simp add: mask_eq_exp_minus_1)
    then show ?thesis by (simp only: run_len_def unat_and_mask) simp
  qed
  ultimately have "unat (run_code cb v) + unat (run_len cb v) < 2 ^ 32" by simp
  then show ?thesis by (simp add: word_le_nat_alt unat_word_ariths)
qed

lemma run_before_trans: "cb \<le> 24 \<Longrightarrow> transp (run_before cb)"
  using run_no_wrap by (auto simp: transp_def run_before_def) (meson order_trans)

lemma runs_sorted_nth:
  "cb \<le> 24 \<Longrightarrow> runs_sorted cb tab \<Longrightarrow> i < j \<Longrightarrow> j < length tab \<Longrightarrow> run_before cb (tab ! i) (tab ! j)"
  using successively_conv_sorted_wrt [OF run_before_trans, of cb tab]
  by (simp add: runs_sorted_def sorted_wrt_nth_less)

definition search_result :: "nat \<Rightarrow> u32 list \<Rightarrow> u32 \<Rightarrow> int \<Rightarrow> int \<Rightarrow> nat option \<Rightarrow> bool" where
  "search_result cb tab c lo hi r \<longleftrightarrow>
     (case r of None \<Rightarrow> \<forall>i. lo \<le> int i \<and> int i \<le> hi \<longrightarrow> \<not> in_run cb (tab ! i) c
      | Some i \<Rightarrow> lo \<le> int i \<and> int i \<le> hi \<and> in_run cb (tab ! i) c)"

lemma search_result_below:
  assumes "search_result cb tab c lo (int m - 1) r" "lo \<le> int m" "int m \<le> hi"
    "\<And>i. m \<le> i \<Longrightarrow> int i \<le> hi \<Longrightarrow> \<not> in_run cb (tab ! i) c"
  shows "search_result cb tab c lo hi r"
proof (cases r)
  case None
  have "\<not> in_run cb (tab ! i) c" if "lo \<le> int i" "int i \<le> hi" for i
    using assms(1,4) that None by (cases "m \<le> i") (auto simp: search_result_def)
  then show ?thesis using None by (simp add: search_result_def)
qed (use assms(1,3) in \<open>auto simp: search_result_def\<close>)

lemma search_result_above:
  assumes "search_result cb tab c (int m + 1) hi r" "lo \<le> int m"
    "\<And>i. lo \<le> int i \<Longrightarrow> i \<le> m \<Longrightarrow> \<not> in_run cb (tab ! i) c"
  shows "search_result cb tab c lo hi r"
proof (cases r)
  case None
  have "\<not> in_run cb (tab ! i) c" if "lo \<le> int i" "int i \<le> hi" for i
    using assms(1,3) that None by (cases "i \<le> m") (auto simp: search_result_def)
  then show ?thesis using None by (simp add: search_result_def)
qed (use assms(1,2) in \<open>auto simp: search_result_def\<close>)

lemma find_run_below:
  "lo \<le> hi \<Longrightarrow> load tab (nat ((hi + lo) div 2)) = Some v \<Longrightarrow> c < run_code cb v \<Longrightarrow>
   find_run cb tab c lo hi = find_run cb tab c lo ((hi + lo) div 2 - 1)"
  by (subst find_run.simps) (simp add: Let_def)

lemma find_run_above:
  "lo \<le> hi \<Longrightarrow> load tab (nat ((hi + lo) div 2)) = Some v \<Longrightarrow> \<not> c < run_code cb v \<Longrightarrow> c \<ge> run_code cb v + run_len cb v \<Longrightarrow>
   find_run cb tab c lo hi = find_run cb tab c ((hi + lo) div 2 + 1) hi"
  by (subst find_run.simps) (simp add: Let_def)

lemma find_run_hit:
  "lo \<le> hi \<Longrightarrow> load tab (nat ((hi + lo) div 2)) = Some v \<Longrightarrow> in_run cb v c \<Longrightarrow>
   find_run cb tab c lo hi = Some (Some (nat ((hi + lo) div 2)))"
  by (subst find_run.simps) (auto simp: Let_def in_run_def)

lemma run_outside:
  assumes "cb \<le> 24" "runs_sorted cb tab"
  shows "c < run_code cb (tab ! m) \<Longrightarrow> m \<le> i \<Longrightarrow> i < length tab \<Longrightarrow> \<not> in_run cb (tab ! i) c"
    and "run_code cb (tab ! m) + run_len cb (tab ! m) \<le> c \<Longrightarrow> i \<le> m \<Longrightarrow> m < length tab \<Longrightarrow> \<not> in_run cb (tab ! i) c"
proof -
  assume a: "c < run_code cb (tab ! m)" "m \<le> i" "i < length tab"
  have "run_code cb (tab ! m) \<le> run_code cb (tab ! i)"
  proof (cases "m = i")
    case False
    then have "run_before cb (tab ! m) (tab ! i)" using runs_sorted_nth [OF assms, of m i] a by simp
    then show ?thesis using run_no_wrap [OF assms(1), of "tab ! m"] order_trans unfolding run_before_def by blast
  qed simp
  with a show "\<not> in_run cb (tab ! i) c" unfolding in_run_def by (meson leD less_le_trans)
next
  assume a: "run_code cb (tab ! m) + run_len cb (tab ! m) \<le> c" "i \<le> m" "m < length tab"
  have "run_code cb (tab ! i) + run_len cb (tab ! i) \<le> run_code cb (tab ! m) + run_len cb (tab ! m)"
  proof (cases "i = m")
    case False
    then have "run_before cb (tab ! i) (tab ! m)" using runs_sorted_nth [OF assms, of i m] a by simp
    then show ?thesis using run_no_wrap [OF assms(1), of "tab ! m"] order_trans unfolding run_before_def by blast
  qed simp
  with a show "\<not> in_run cb (tab ! i) c" unfolding in_run_def by (meson leD order_trans)
qed

lemma find_run_spec:
  assumes "cb \<le> 24" "runs_sorted cb tab" "0 \<le> lo" "hi < int (length tab)"
  shows "\<exists>r. find_run cb tab c lo hi = Some r \<and> search_result cb tab c lo hi r"
  using assms(3,4)
proof (induction "nat (hi - lo + 1)" arbitrary: lo hi rule: less_induct)
  case less
  show ?case
  proof (cases "lo \<le> hi")
    case False
    then have "find_run cb tab c lo hi = Some None" by (subst find_run.simps) simp
    moreover have "search_result cb tab c lo hi None" using False by (auto simp: search_result_def)
    ultimately show ?thesis by blast
  next
    case True
    have mid: "lo \<le> (hi + lo) div 2" "(hi + lo) div 2 \<le> hi" using True by presburger+
    obtain m where m: "(hi + lo) div 2 = int m" using mid less.prems(1) by (metis nonneg_int_cases order_trans)
    have b: "lo \<le> int m" "int m \<le> hi" "m < length tab" using mid m less.prems by auto
    let ?v = "tab ! m"
    have ld: "load tab (nat ((hi + lo) div 2)) = Some ?v" using m b by (simp add: mem_simps)
    consider (below) "c < run_code cb ?v" | (above) "\<not> c < run_code cb ?v" "c \<ge> run_code cb ?v + run_len cb ?v"
      | (hit) "in_run cb ?v c" unfolding in_run_def by (meson linorder_not_less)
    then show ?thesis
    proof cases
      case below
      have dec: "nat (int m - 1 - lo + 1) < nat (hi - lo + 1)" using b by auto
      have "\<exists>r. find_run cb tab c lo (int m - 1) = Some r \<and> search_result cb tab c lo (int m - 1) r"
        by (rule less.hyps [OF dec less.prems(1)]) (use b in simp)
      then obtain r where r: "find_run cb tab c lo (int m - 1) = Some r" "search_result cb tab c lo (int m - 1) r" by blast
      have "search_result cb tab c lo hi r"
        by (rule search_result_below [OF r(2) b(1,2)]) (use run_outside(1) [OF assms(1,2) below] less.prems(2) in auto)
      then show ?thesis using find_run_below [OF True ld below] r m by simp
    next
      case above
      have dec: "nat (hi - (int m + 1) + 1) < nat (hi - lo + 1)" using b by auto
      have "\<exists>r. find_run cb tab c (int m + 1) hi = Some r \<and> search_result cb tab c (int m + 1) hi r"
        by (rule less.hyps [OF dec _ less.prems(2)]) simp
      then obtain r where r: "find_run cb tab c (int m + 1) hi = Some r" "search_result cb tab c (int m + 1) hi r" by blast
      have "search_result cb tab c lo hi r"
        by (rule search_result_above [OF r(2) b(1)]) (use run_outside(2) [OF assms(1,2) above(2)] b(3) in auto)
      then show ?thesis using find_run_above [OF True ld above] r m by simp
    next
      case hit
      then have "search_result cb tab c lo hi (Some m)" using b by (simp add: search_result_def)
      then show ?thesis using find_run_hit [OF True ld hit] m by simp
    qed
  qed
qed

section \<open>Case conversion stays inside its tables\<close>

text \<open>
  What the entry of a run may refer to, for \<open>n1\<close> runs and \<open>ne\<close> extra codes: the check reads
  no other entry.
\<close>

definition case_refs_ok :: "nat \<Rightarrow> nat \<Rightarrow> u32 \<Rightarrow> u32 \<Rightarrow> bool" where
  "case_refs_ok n1 ne type data \<longleftrightarrow>
     (if type < 4 then unat data < n1
      else if type = 6 \<or> type = 11 \<or> type = 12 then unat (drop_bit 6 data) < ne \<and> unat (data AND 0x3f) < ne
      else if type = 8 \<or> type = 9 \<or> type = 10 then unat data < ne
      else if type = 4 \<or> type = 5 \<or> type = 7 then True
      else unat (drop_bit 8 data) < ne \<and> unat (drop_bit 4 data AND 0xf) < ne \<and> unat (data AND 0xf) < ne)"

definition case_entry_ok :: "nat \<Rightarrow> nat \<Rightarrow> u32 \<Rightarrow> byte \<Rightarrow> bool" where
  "case_entry_ok n1 ne v t2 \<longleftrightarrow> case_refs_ok n1 ne (drop_bit 4 v AND 0xf) (push_bit 8 (v AND 0xf) OR ucast t2)"

definition case_tables_ok :: "case_tables \<Rightarrow> bool" where
  "case_tables_ok t \<longleftrightarrow>
     length (ct_table2 t) = length (ct_table1 t) \<and> runs_sorted 17 (ct_table1 t) \<and>
     (\<forall>(v, t2)\<in>set (zip (ct_table1 t) (ct_table2 t)). case_entry_ok (length (ct_table1 t)) (length (ct_ext t)) v t2)"

text \<open>The checks by rows.\<close>

fun rows_sorted :: "nat \<Rightarrow> u32 \<Rightarrow> u32 list list \<Rightarrow> bool" where
  "rows_sorted cb v [] \<longleftrightarrow> True"
| "rows_sorted cb v (r # rs) \<longleftrightarrow> successively (run_before cb) (v # r) \<and> rows_sorted cb (last (v # r)) rs"

lemma successively_tl: "successively P (v # ys) \<Longrightarrow> successively P ys"
  by (cases ys) auto

lemma successively_join:
  "successively P xs \<Longrightarrow> successively P (last xs # ys) \<Longrightarrow> successively P (xs @ ys)"
  by (cases ys) (auto simp: successively_append_iff)

lemma rows_sorted_concat: "rows_sorted cb v rs \<Longrightarrow> successively (run_before cb) (v # concat rs)"
proof (induction rs arbitrary: v)
  case (Cons r rs)
  then have "successively (run_before cb) (v # r)" "successively (run_before cb) (last (v # r) # concat rs)" by auto
  then have "successively (run_before cb) ((v # r) @ concat rs)"
    by (rule successively_join)
  then show ?case by simp
qed simp

lemma zip_concat:
  "list_all2 (\<lambda>r s. length r = length s) rs ss \<Longrightarrow> zip (concat rs) (concat ss) = concat (map (\<lambda>(r, s). zip r s) (zip rs ss))"
  by (induction rs ss rule: list_all2_induct) auto

lemma shipped_case_ok: "case_tables_ok shipped_case_tables"
proof -
  let ?r1 = case_conv_table1_rows and ?r2 = case_conv_table2_rows
  have len: "length case_conv_table1 = 361" "length case_conv_table2 = 361" "length case_conv_ext = 58" by code_simp+
  have "rows_sorted 17 0 ?r1" by code_simp
  from rows_sorted_concat [OF this] have s: "runs_sorted 17 case_conv_table1"
    unfolding runs_sorted_def case_conv_table1_def by (rule successively_tl)
  have "list_all2 (\<lambda>r s. length r = length s) ?r1 ?r2" by code_simp
  note z = zip_concat [OF this, folded case_conv_table1_def case_conv_table2_def]
  have "list_all (\<lambda>(r, s). list_all (\<lambda>(v, t2). case_entry_ok 361 58 v t2) (zip r s)) (zip ?r1 ?r2)" by code_simp
  then have "\<forall>(v, t2)\<in>set (zip case_conv_table1 case_conv_table2). case_entry_ok 361 58 v t2"
    unfolding z by (auto simp: list_all_iff)
  then show ?thesis using s len by (simp add: case_tables_ok_def shipped_case_tables_def)
qed

lemma ext_code_Some: "unat i < length (ct_ext t) \<Longrightarrow> \<exists>e. ext_code t i = Some e"
  by (simp add: ext_code_def mem_simps)

lemma small_type_cases: "(x :: u32) < 4 \<Longrightarrow> x = 0 \<or> x = 1 \<or> x = 2 \<or> x = 3"
proof -
  assume "x < 4"
  then have "unat x < 4" by (simp add: word_less_nat_alt)
  then have "unat x = 0 \<or> unat x = 1 \<or> unat x = 2 \<or> unat x = 3" by arith
  then show ?thesis by (auto simp: word_unat_eq_iff)
qed

lemma case_conv_switch_ok:
  assumes "case_refs_ok (length (ct_table1 t)) (length (ct_ext t)) type data"
  shows "\<exists>res. case_conv_switch t type data code c ct = Some res \<and> 1 \<le> length res \<and> length res \<le> 3"
proof -
  consider "type < 4" | "type = 4" | "type = 5" | "type = 6" | "type = 7" | "type = 8" | "type = 9 \<or> type = 10"
    | "type = 11 \<or> type = 12" | "\<not> type < 4 \<and> type \<notin> {4, 5, 6, 7, 8, 9, 10, 11, 12}" by blast
  then show ?thesis
  proof cases
    case 1
    then have "load (ct_table1 t) (unat data) = Some (ct_table1 t ! unat data)"
      using assms by (simp add: case_refs_ok_def mem_simps)
    then show ?thesis using small_type_cases [OF 1] by (auto simp: case_conv_switch_def run_types Let_def)
  next
    case 2
    then show ?thesis by (simp add: case_conv_switch_def run_types Let_def)
  next
    case 3
    then show ?thesis by (simp add: case_conv_switch_def run_types Let_def)
  next
    case 4
    then obtain e f where "ext_code t (drop_bit 6 data) = Some e" "ext_code t (data AND 0x3f) = Some f"
      using assms ext_code_Some by (auto simp: case_refs_ok_def) (metis option.exhaust)
    then show ?thesis using 4 by (simp add: case_conv_switch_def run_types Let_def)
  next
    case 5
    then show ?thesis by (simp add: case_conv_switch_def run_types Let_def)
  next
    case 6
    then obtain e where "ext_code t data = Some e" using assms ext_code_Some [of data t] by (auto simp: case_refs_ok_def)
    then show ?thesis using 6 by (simp add: case_conv_switch_def run_types Let_def)
  next
    case 7
    then obtain e where "ext_code t data = Some e" using assms ext_code_Some [of data t] by (auto simp: case_refs_ok_def)
    then show ?thesis using 7 by (auto simp: case_conv_switch_def run_types Let_def)
  next
    case 8
    then obtain e f where "ext_code t (drop_bit 6 data) = Some e" "ext_code t (data AND 0x3f) = Some f"
      using assms ext_code_Some by (auto simp: case_refs_ok_def) (metis option.exhaust)+
    then show ?thesis using 8 by (auto simp: case_conv_switch_def run_types Let_def)
  next
    case 9
    then have "type \<noteq> 0" "type \<noteq> 1" "type \<noteq> 2" "type \<noteq> 3" by auto
    moreover obtain e f g where "ext_code t (drop_bit 8 data) = Some e" "ext_code t (drop_bit 4 data AND 0xf) = Some f"
      "ext_code t (data AND 0xf) = Some g"
      using 9 assms ext_code_Some by (auto simp: case_refs_ok_def) (metis option.exhaust)
    ultimately show ?thesis using 9 by (simp add: case_conv_switch_def run_types Let_def)
  qed
qed

lemma lre_case_conv_ok:
  assumes "case_tables_ok t"
  shows "\<exists>res. lre_case_conv t c ct = Some res \<and> 1 \<le> length res \<and> length res \<le> 3 \<and>
    (128 \<le> c \<and> (\<forall>v\<in>set (ct_table1 t). \<not> in_run 17 v c) \<longrightarrow> res = [c])"
proof (cases "c < 128")
  case True
  then show ?thesis by (auto simp: lre_case_conv_def)
next
  case False
  have s: "runs_sorted 17 (ct_table1 t)" "length (ct_table2 t) = length (ct_table1 t)"
    using assms by (simp_all add: case_tables_ok_def)
  obtain r where r: "find_run 17 (ct_table1 t) c 0 (int (length (ct_table1 t)) - 1) = Some r"
    "search_result 17 (ct_table1 t) c 0 (int (length (ct_table1 t)) - 1) r"
    using find_run_spec [of 17 "ct_table1 t" 0 "int (length (ct_table1 t)) - 1" c] s by auto
  show ?thesis
  proof (cases r)
    case None
    then show ?thesis using False r by (simp add: lre_case_conv_def)
  next
    case (Some i)
    then have i: "i < length (ct_table1 t)" "in_run 17 (ct_table1 t ! i) c"
      using r(2) by (auto simp: search_result_def)
    have "(ct_table1 t ! i, ct_table2 t ! i) \<in> set (zip (ct_table1 t) (ct_table2 t))"
      using i s by (auto simp: in_set_zip)
    then have "case_entry_ok (length (ct_table1 t)) (length (ct_ext t)) (ct_table1 t ! i) (ct_table2 t ! i)"
      using assms by (auto simp: case_tables_ok_def)
    then obtain res where "case_conv_run t i (ct_table1 t ! i) c ct = Some res" "1 \<le> length res" "length res \<le> 3"
      using case_conv_switch_ok i s by (fastforce simp: case_conv_run_def case_entry_ok_def mem_simps)
    then show ?thesis using False r Some i by (auto simp: lre_case_conv_def mem_simps)
  qed
qed

section \<open>Property tables\<close>

lemma get_le24_Some: "i + 2 < length p \<Longrightarrow> \<exists>v. get_le24 p i = Some v"
  by (simp add: get_le24_def mem_simps)

text \<open>The upper end of the codes of block \<open>k - 1\<close>: the last entry is compared unmasked.\<close>

definition index_upper :: "byte list \<Rightarrow> nat \<Rightarrow> u32" where
  "index_upper tab k =
     (let v = the (get_le24 tab (k * 3)) in if k = length tab div 3 - 1 then v else index_code v)"

definition index_lower :: "byte list \<Rightarrow> nat \<Rightarrow> u32" where
  "index_lower tab k = index_code (the (get_le24 tab (k * 3)))"

lemma index_search_spec:
  assumes "lo < hi" "hi \<le> length tab div 3 - 1" "index_lower tab lo \<le> c" "c < index_upper tab hi"
  shows "\<exists>r. index_search tab c lo hi = Some r \<and> r < length tab div 3 - 1 \<and> index_lower tab r \<le> c \<and> c < index_upper tab (r + 1)"
  using assms
proof (induction "hi - lo" arbitrary: lo hi rule: less_induct)
  case less
  show ?case
  proof (cases "hi - lo > 1")
    case False
    then have "hi = lo + 1" using less.prems(1) by simp
    then show ?thesis using False less.prems by (subst index_search.simps) simp
  next
    case True
    define m where "m = (hi + lo) div 2"
    have m: "lo < m" "m < hi" using True by (auto simp: m_def)
    have "m * 3 + 2 < length tab" using m(2) less.prems(2) by simp
    then obtain v where v: "get_le24 tab (m * 3) = Some v" using get_le24_Some by blast
    have low: "index_lower tab m = index_code v" "index_upper tab m = index_code v"
      using v m(2) less.prems(2) by (simp_all add: index_lower_def index_upper_def)
    show ?thesis
    proof (cases "c < index_code v")
      case below: True
      have "index_search tab c lo hi = index_search tab c lo m"
        using True v below by (subst index_search.simps) (simp add: Let_def m_def)
      then show ?thesis using less.hyps [of m lo] m less.prems below low by simp
    next
      case False
      have "index_search tab c lo hi = index_search tab c m hi"
        using True v False by (subst index_search.simps) (simp add: Let_def m_def)
      then show ?thesis using less.hyps [of hi m] m less.prems False low by simp
    qed
  qed
qed

text \<open>One iteration of the loop, without the tests on \<open>c\<close>: the code, the bit and the rest of the table.\<close>

fun table_step :: "u32 \<Rightarrow> bool \<Rightarrow> byte list \<Rightarrow> (u32 \<times> u32 \<times> bool \<times> byte list \<times> nat) option" where
  "table_step code bt [] = None"
| "table_step code bt (b # p) =
     (if b < 64 then
        (let code1 = code + ucast (drop_bit 3 b) + 1
         in Some (code1, code1 + ucast (b AND 7) + 1, bt, p, 1))
      else if b \<ge> 0x80 then
        (let code1 = code + ucast b - 0x80 + 1 in Some (code1, code1, \<not> bt, p, 1))
      else if b < 0x60 then
        (case p of
           [] \<Rightarrow> None
         | q # p \<Rightarrow>
             (let code1 = code + (push_bit 8 (ucast b - 0x40) OR ucast q) + 1 in Some (code1, code1, \<not> bt, p, 2)))
      else
        (case p of
           q # r # p \<Rightarrow>
             (let code1 = code + (push_bit 16 (ucast b - 0x60) OR push_bit 8 (ucast q) OR ucast r) + 1
              in Some (code1, code1, \<not> bt, p, 3))
         | _ \<Rightarrow> None))"

lemma table_step_length:
  "table_step code bt p = Some (c1, c2, bt', p', k) \<Longrightarrow> length p' < length p \<and> p' = drop k p"
  by (cases p) (auto simp: Let_def split: if_splits list.splits)

lemma table_step_loop:
  assumes "table_step code bt p = Some (c1, c2, bt', p', k)" "c1 \<le> c2"
  shows "c2 \<le> c \<Longrightarrow> in_table_loop c code bt p = in_table_loop c c2 bt' p'"
    and "c < c2 \<Longrightarrow> in_table_loop c code bt p \<noteq> None"
proof -
  obtain b q where p: "p = b # q" using assms(1) by (cases p) auto
  have nw: "c2 \<le> c \<Longrightarrow> \<not> c < c1" "c2 \<le> c \<Longrightarrow> \<not> c < c2" using assms(2) by auto
  show "c2 \<le> c \<Longrightarrow> in_table_loop c code bt p = in_table_loop c c2 bt' p'"
    using assms(1) nw unfolding p by (auto simp: Let_def split: if_splits list.splits)
  show "c < c2 \<Longrightarrow> in_table_loop c code bt p \<noteq> None"
    using assms(1) unfolding p by (auto simp: Let_def split: if_splits list.splits)
qed

text \<open>The same iteration over the integers.\<close>

fun int_step :: "int \<Rightarrow> bool \<Rightarrow> byte list \<Rightarrow> (int \<times> int \<times> bool \<times> byte list \<times> int) option" where
  "int_step code bt [] = None"
| "int_step code bt (b # p) =
     (let n = uint b in
      if n < 64 then
        (let code1 = code + n div 8 + 1 in Some (code1, code1 + n mod 8 + 1, bt, p, 1))
      else if n \<ge> 128 then
        (let code1 = code + (n - 128) + 1 in Some (code1, code1, \<not> bt, p, 1))
      else if n < 96 then
        (case p of
           [] \<Rightarrow> None
         | q # p \<Rightarrow> (let code1 = code + ((n - 64) * 256 + uint q) + 1 in Some (code1, code1, \<not> bt, p, 2)))
      else
        (case p of
           q # r # p \<Rightarrow>
             (let code1 = code + ((n - 96) * 65536 + uint q * 256 + uint r) + 1 in Some (code1, code1, \<not> bt, p, 3))
         | _ \<Rightarrow> None))"

lemma byte_or_low: "(push_bit 8 x :: u32) OR ucast (q::byte) = x * 256 + ucast q"
proof -
  have "bit (ucast q :: u32) i \<Longrightarrow> i < 8" for i
    by (auto simp: bit_ucast_iff dest: bit_imp_le_length)
  then have "(ucast q :: u32) AND push_bit 8 x = 0"
    by (intro bit_word_eqI) (force simp: bit_and_iff bit_push_bit_iff)
  then have "ucast q OR push_bit 8 x = (ucast q :: u32) + push_bit 8 x" by (rule or_eq_add)
  then show ?thesis by (simp add: or.commute push_bit_eq_mult)
qed

lemma byte_or_low3: "push_bit 16 x OR (push_bit 8 (ucast (q::byte)) OR ucast (r::byte)) =
    (x * 65536 + ucast q * 256 + ucast r :: u32)"
proof -
  have "push_bit 16 x OR (push_bit 8 (ucast q) OR ucast r) = push_bit 8 (push_bit 8 x OR ucast q) OR (ucast r :: u32)"
    by (simp only: push_bit_or push_bit_push_bit or.assoc) simp
  also have "\<dots> = (push_bit 8 x OR ucast q) * 256 + ucast r" by (rule byte_or_low)
  finally show ?thesis by (simp only: byte_or_low) (simp add: algebra_simps)
qed

lemma ucast_div_mod8:
  "(ucast (drop_bit 3 (b::byte)) :: u32) = word_of_int (uint b div 8)"
  "(ucast (b AND 7) :: u32) = word_of_int (uint b mod 8)"
proof -
  have seven: "(7::byte) = mask 3" by (simp add: mask_eq_exp_minus_1)
  have "(ucast w :: u32) = word_of_int (uint w)" for w :: byte by simp
  note u = this
  have "uint (b AND 7) = uint b mod 8"
    by (simp only: seven take_bit_eq_mask [symmetric] unsigned_take_bit_eq) (simp add: take_bit_eq_mod)
  then show "(ucast (b AND 7) :: u32) = word_of_int (uint b mod 8)" by (metis u)
  have "take_bit 8 (uint b) = uint b" using uint_lt2p [of b] by (intro take_bit_int_eq_self) simp_all
  then have "uint (drop_bit 3 b) = uint b div 8"
    by (simp only: unsigned_drop_bit_eq) (simp add: drop_bit_eq_div)
  then show "(ucast (drop_bit 3 b) :: u32) = word_of_int (uint b div 8)" by (metis u)
qed

lemma int_step_table_step:
  "int_step code bt p = Some (c1, c2, bt', p', k) \<Longrightarrow>
   table_step (word_of_int code) bt p = Some (word_of_int c1, word_of_int c2, bt', p', nat k) \<and> code \<le> c1 \<and> c1 \<le> c2 \<and> 0 \<le> k"
proof (cases p)
  case (Cons b q)
  assume n: "int_step code bt p = Some (c1, c2, bt', p', k)"
  have cmp: "b < 64 \<longleftrightarrow> uint b < 64" "b \<ge> 0x80 \<longleftrightarrow> uint b \<ge> 128" "b < 0x60 \<longleftrightarrow> uint b < 96"
    by (simp_all add: word_less_def word_le_def)
  have g: "64 \<le> uint b \<Longrightarrow> 0 \<le> uint b * 256 + (uint x - 16383)" for x :: byte
    using uint_ge_0 [of x] by linarith
  have g3: "96 \<le> uint b \<Longrightarrow> 0 \<le> uint b * 65536 + (uint x * 256 + (uint y - 6291455))" for x y :: byte
    using uint_ge_0 [of x] uint_ge_0 [of y] by linarith
  consider "uint b < 64" | "128 \<le> uint b" | "64 \<le> uint b" "uint b < 96" | "96 \<le> uint b" "uint b < 128" by linarith
  then show ?thesis
  proof cases
    case 1
    then show ?thesis using n unfolding Cons
      by (auto simp: Let_def cmp ucast_div_mod8 intro!: add_nonneg_nonneg pos_imp_zdiv_nonneg_iff [THEN iffD2])
  next
    case 2
    then show ?thesis using n unfolding Cons by (auto simp: Let_def cmp)
  next
    case 3
    then show ?thesis using n unfolding Cons
      by (auto simp: Let_def cmp byte_or_low g split: list.splits)
  next
    case 4
    then show ?thesis using n unfolding Cons
      by (auto simp: Let_def cmp byte_or_low3 g3 split: list.splits)
  qed
qed simp

text \<open>
  A walk over the whole table, row by row, that meets every position the index names with the code
  the index gives for it and with the bit clear, up to the last code; codes must not wrap around.
  A row may end inside an entry, whose bytes are then carried over to the next one.
\<close>

function walk_row :: "(int \<times> int) list \<Rightarrow> int \<Rightarrow> int \<Rightarrow> bool \<Rightarrow> byte list \<Rightarrow>
    ((int \<times> int) list \<times> int \<times> int \<times> bool \<times> byte list) option" where
  "walk_row ts pos code bt p =
     (if ts \<noteq> [] \<and> fst (hd ts) = pos
      then (if snd (hd ts) = code \<and> \<not> bt then walk_row (tl ts) pos code bt p else None)
      else (case int_step code bt p of
              None \<Rightarrow> Some (ts, pos, code, bt, p)
            | Some (c1, c2, bt', p', k) \<Rightarrow>
                if c2 < 0x100000000 then walk_row ts (pos + k) c2 bt' p' else None))"
  by pat_completeness auto
termination
  by (relation "measure (\<lambda>(ts, pos, code, bt, p). length ts + length p)")
    (auto dest: int_step_table_step table_step_length)

declare walk_row.simps [simp del]

fun walk_rows :: "(int \<times> int) list \<Rightarrow> int \<Rightarrow> int \<Rightarrow> int \<Rightarrow> bool \<Rightarrow> byte list \<Rightarrow> byte list list \<Rightarrow> bool" where
  "walk_rows ts lst pos code bt p [] \<longleftrightarrow> ts = [] \<and> lst \<le> code"
| "walk_rows ts lst pos code bt p (r # rs) \<longleftrightarrow>
     (case walk_row ts pos code bt (p @ r) of
        None \<Rightarrow> False
      | Some (ts', pos', code', bt', p') \<Rightarrow> walk_rows ts' lst pos' code' bt' p' rs)"

definition walk_result :: "(int \<times> int) list \<Rightarrow> int \<Rightarrow> int \<Rightarrow> int \<Rightarrow> bool \<Rightarrow> byte list \<Rightarrow> bool" where
  "walk_result ts lst pos code bt p \<longleftrightarrow> 0 \<le> code \<longrightarrow>
     (\<forall>(tp, tc)\<in>set ts. pos \<le> tp \<and> code \<le> tc \<and>
        (\<forall>c. tc \<le> uint c \<longrightarrow> in_table_loop c (word_of_int code) bt p = in_table_loop c (word_of_int tc) False (drop (nat (tp - pos)) p))) \<and>
     (\<forall>c. uint c < lst \<longrightarrow> code \<le> uint c \<longrightarrow> in_table_loop c (word_of_int code) bt p \<noteq> None)"

lemma walk_result_step:
  assumes st: "int_step code bt p = Some (c1, c2, bt', p', k)" "c2 < 2 ^ 32" and z: "0 \<le> code"
    and r: "walk_result ts lst (pos + k) c2 bt' p'"
  shows "walk_result ts lst pos code bt p"
proof -
  have t: "table_step (word_of_int code) bt p = Some (word_of_int c1, word_of_int c2, bt', p', nat k)"
    and cc: "code \<le> c1" "c1 \<le> c2" "0 \<le> k" using int_step_table_step [OF st(1)] by auto
  have u: "uint (word_of_int c2 :: u32) = c2" "uint (word_of_int c1 :: u32) = c1"
    using st(2) cc z by (simp_all add: unsigned_of_int take_bit_int_eq_self)
  have wle: "(word_of_int c1 :: u32) \<le> word_of_int c2" unfolding word_le_def u by (rule cc(2))
  note loop = table_step_loop [OF t wle, unfolded word_le_def word_less_def u]
  have z2: "0 \<le> c2" using z cc by simp
  note len = table_step_length [OF t]
  have "pos \<le> tp \<and> code \<le> tc \<and> (\<forall>c. tc \<le> uint c \<longrightarrow>
      in_table_loop c (word_of_int code) bt p = in_table_loop c (word_of_int tc) False (drop (nat (tp - pos)) p))"
    if t: "(tp, tc) \<in> set ts" for tp tc
  proof -
    have t': "pos + k \<le> tp" "c2 \<le> tc"
      "\<And>c. tc \<le> uint c \<Longrightarrow> in_table_loop c (word_of_int c2) bt' p' = in_table_loop c (word_of_int tc) False (drop (nat (tp - (pos + k))) p')"
      using r t z2 by (auto simp: walk_result_def)
    have "drop (nat (tp - (pos + k))) p' = drop (nat (tp - pos)) p" using len t'(1) cc(3) by (simp flip: nat_add_distrib)
    then have "in_table_loop c (word_of_int code) bt p = in_table_loop c (word_of_int tc) False (drop (nat (tp - pos)) p)"
      if "tc \<le> uint c" for c
      using t'(3) [OF that] loop(1) [OF order_trans [OF t'(2) that]] by simp
    moreover have "pos \<le> tp" "code \<le> tc" using t'(1,2) cc by linarith+
    ultimately show ?thesis by blast
  qed
  moreover have "in_table_loop c (word_of_int code) bt p \<noteq> None" if "uint c < lst" for c
  proof (cases "uint c < c2")
    case True
    then show ?thesis by (rule loop(2))
  next
    case False
    then show ?thesis using that r loop(1) [of c] z2 unfolding walk_result_def by simp
  qed
  ultimately show ?thesis unfolding walk_result_def by blast
qed

lemma int_step_append:
  "int_step code bt p = Some (c1, c2, bt', p', k) \<Longrightarrow> int_step code bt (p @ q) = Some (c1, c2, bt', p' @ q, k)"
  by (cases p) (auto simp: Let_def split: if_splits list.splits)

lemma walk_row_result:
  "walk_row ts pos code bt p = Some (ts', pos', code', bt', p') \<Longrightarrow> walk_result ts' lst pos' code' bt' (p' @ q) \<Longrightarrow>
   walk_result ts lst pos code bt (p @ q)"
proof (induction "length ts + length p" arbitrary: ts pos code bt p rule: less_induct)
  case less
  consider (target) "ts \<noteq> []" "fst (hd ts) = pos" | (step) "\<not> (ts \<noteq> [] \<and> fst (hd ts) = pos)" by blast
  then show ?case
  proof cases
    case target
    then obtain ts1 where ts: "ts = (pos, code) # ts1" "\<not> bt" "walk_row ts1 pos code bt p = Some (ts', pos', code', bt', p')"
      using less.prems(1) by (subst (asm) walk_row.simps) (cases ts; auto split: if_splits)
    then show ?thesis using less.hyps [of ts1 p pos code bt] less.prems(2) by (auto simp: walk_result_def)
  next
    case step
    show ?thesis
    proof (cases "int_step code bt p")
      case None
      then have "walk_row ts pos code bt p = Some (ts, pos, code, bt, p)"
        using step by (subst walk_row.simps) auto
      then show ?thesis using less.prems by simp
    next
      case (Some x)
      then obtain c1 c2 bt1 p1 k where st: "int_step code bt p = Some (c1, c2, bt1, p1, k)" by (cases x) auto
      have "walk_row ts pos code bt p = (if c2 < 0x100000000 then walk_row ts (pos + k) c2 bt1 p1 else None)"
        using step st by (subst walk_row.simps) auto
      then have r: "c2 < 2 ^ 32" "walk_row ts (pos + k) c2 bt1 p1 = Some (ts', pos', code', bt', p')"
        using less.prems(1) by (simp_all split: if_splits)
      have "length ts + length p1 < length ts + length p"
        using int_step_table_step [OF st] table_step_length by fastforce
      from less.hyps [OF this r(2) less.prems(2)] show ?thesis
        using walk_result_step [OF int_step_append [OF st] r(1)] by (cases "0 \<le> code") (auto simp: walk_result_def)
    qed
  qed
qed

lemma walk_rows_result: "walk_rows ts lst pos code bt p rs \<Longrightarrow> walk_result ts lst pos code bt (p @ concat rs)"
proof (induction rs arbitrary: ts pos code bt p)
  case Nil
  then show ?case by (auto simp: walk_result_def)
next
  case (Cons r rs)
  then obtain ts' pos' code' bt' p' where w: "walk_row ts pos code bt (p @ r) = Some (ts', pos', code', bt', p')"
    "walk_rows ts' lst pos' code' bt' p' rs" by (auto split: option.splits)
  from walk_row_result [OF w(1) Cons.IH [OF w(2)]] show ?case by simp
qed

fun index_targets :: "int \<Rightarrow> byte list \<Rightarrow> (int \<times> int) list" where
  "index_targets k (a # b # c # d # rest) =
     (let v = ucast a OR push_bit 8 (ucast b) OR push_bit 16 (ucast c)
      in ((k + 1) * 32 + uint (drop_bit 21 v), uint (index_code v)) # index_targets (k + 1) (d # rest))"
| "index_targets k tab = []"

definition index_last :: "byte list \<Rightarrow> int" where
  "index_last tab = uint (the (get_le24 tab (length tab - 3)))"

definition prop_table_ok :: "byte list \<Rightarrow> byte list \<Rightarrow> bool" where
  "prop_table_ok table tab \<longleftrightarrow>
     6 \<le> length tab \<and> length tab mod 3 = 0 \<and> uint (index_lower tab 0) \<le> index_last tab \<and>
     walk_result (index_targets 0 tab) (index_last tab) 0 0 False table"

lemma prop_table_okI:
  "6 \<le> length tab \<Longrightarrow> length tab mod 3 = 0 \<Longrightarrow> uint (index_lower tab 0) \<le> index_last tab \<Longrightarrow>
   walk_rows (index_targets 0 tab) (index_last tab) 0 0 False [] rows \<Longrightarrow>
   prop_table_ok (concat rows) tab"
  using walk_rows_result [of _ _ 0 0 False "[]" rows] by (simp add: prop_table_ok_def)

lemma shipped_prop_tables_ok:
  "prop_table_ok unicode_prop_Cased1_table unicode_prop_Cased1_index"
  "prop_table_ok unicode_prop_Case_Ignorable_table unicode_prop_Case_Ignorable_index"
  "prop_table_ok unicode_prop_ID_Start_table unicode_prop_ID_Start_index"
  "prop_table_ok unicode_prop_ID_Continue1_table unicode_prop_ID_Continue1_index"
  unfolding unicode_prop_Cased1_table_def unicode_prop_Case_Ignorable_table_def
    unicode_prop_ID_Start_table_def unicode_prop_ID_Continue1_table_def
  by (rule prop_table_okI; code_simp)+


lemma get_le24_Cons3: "get_le24 (a # b # c # tab) (Suc k * 3) = get_le24 tab (k * 3)"
proof -
  have "load (a # b # c # tab) (3 + i) = load tab i" for i by (simp add: load_def eval_nat_numeral)
  from this [of "k * 3"] this [of "k * 3 + 1"] this [of "k * 3 + 2"] show ?thesis
    by (simp add: get_le24_def add.assoc)
qed

lemma index_targets_nth:
  "k + 1 < length tab div 3 \<Longrightarrow> length tab mod 3 = 0 \<Longrightarrow> get_le24 tab (k * 3) = Some v \<Longrightarrow>
   ((j + int k + 1) * 32 + uint (drop_bit 21 v), uint (index_code v)) \<in> set (index_targets j tab)"
proof (induction k arbitrary: tab j)
  case 0
  then have "4 \<le> length tab" by linarith
  then obtain a b c d rest where "tab = a # b # c # d # rest"
    by (auto simp: numeral_eq_Suc Suc_le_length_iff)
  then show ?case using 0 by (simp add: get_le24_def load_def Let_def)
next
  case (Suc k)
  then have "4 \<le> length tab" by linarith
  then obtain a b c d rest where tab: "tab = a # b # c # d # rest"
    by (auto simp: numeral_eq_Suc Suc_le_length_iff)
  have "length tab = length (d # rest) + 3" using tab by simp
  then have "k + 1 < length (d # rest) div 3" "length (d # rest) mod 3 = 0"
    using Suc.prems(1,2) by presburger+
  moreover have "get_le24 (d # rest) (k * 3) = Some v" using Suc.prems(3) unfolding tab get_le24_Cons3 .
  ultimately have "((j + 1 + int k + 1) * 32 + uint (drop_bit 21 v), uint (index_code v)) \<in> set (index_targets (j + 1) (d # rest))"
    by (rule Suc.IH)
  then show ?case by (simp add: tab Let_def algebra_simps)
qed

text \<open>The index only shortens the scan of the table from its start.\<close>

lemma lre_is_in_table_scan:
  assumes "prop_table_ok table tab"
  shows "uint c < index_last tab \<Longrightarrow>
      lre_is_in_table c table tab = in_table_loop c 0 False table \<and> in_table_loop c 0 False table \<noteq> None"
    and "index_last tab \<le> uint c \<Longrightarrow> lre_is_in_table c table tab = Some False"
proof -
  define n where "n = length tab div 3"
  have len: "2 \<le> n" "length tab = n * 3" "length tab div 3 = n" and first: "uint (index_lower tab 0) \<le> index_last tab"
    and walk: "walk_result (index_targets 0 tab) (index_last tab) 0 0 False table"
    using assms by (auto simp: prop_table_ok_def n_def)
  have rd: "\<exists>v. get_le24 tab (k * 3) = Some v" if "k < n" for k
    using that len by (intro get_le24_Some) simp
  obtain v0 vl where v0: "get_le24 tab 0 = Some v0" and vl: "get_le24 tab ((n - 1) * 3) = Some vl"
    using rd [of 0] rd [of "n - 1"] len(1) by auto
  have last: "index_last tab = uint vl" using vl len by (simp add: index_last_def diff_mult_distrib)
  have low0: "index_lower tab 0 = index_code v0" using v0 by (simp add: index_lower_def)
  have up: "index_upper tab (n - 1) = vl" using vl len by (simp add: index_upper_def)
  { assume "index_last tab \<le> uint c"
    then show "lre_is_in_table c table tab = Some False"
      using first v0 vl len unfolding last low0
      by (simp add: lre_is_in_table_def get_index_pos_def word_less_def word_le_def) }
  { assume c: "uint c < index_last tab"
    have some: "in_table_loop c 0 False table \<noteq> None" using walk c by (auto simp: walk_result_def)
    then have ne: "table \<noteq> []" by auto
    have "lre_is_in_table c table tab = in_table_loop c 0 False table"
    proof (cases "c < index_code v0")
      case True
      then show ?thesis using v0 ne by (simp add: lre_is_in_table_def get_index_pos_def)
    next
      case False
      then have ge: "index_code v0 \<le> c" by simp
      have "c < vl" using c last by (simp add: word_less_def)
      then obtain r where r: "index_search tab c 0 (n - 1) = Some r" "r < n - 1" "index_lower tab r \<le> c"
        using index_search_spec [of 0 "n - 1" tab c] len ge low0 up by auto
      obtain v where v: "get_le24 tab (r * 3) = Some v" using rd [of r] r(2) by fastforce
      let ?pos = "int ((r + 1) * 32) + uint (drop_bit 21 v)"
      have "(?pos, uint (index_code v)) \<in> set (index_targets 0 tab)"
        using index_targets_nth [of r tab v 0] r(2) v len by (simp add: algebra_simps)
      moreover have "uint (index_code v) \<le> uint c" using r(3) v by (simp add: index_lower_def word_le_def)
      ultimately have eq: "in_table_loop c 0 False table = in_table_loop c (index_code v) False (drop (nat ?pos) table)"
        using walk by (fastforce simp: walk_result_def)
      then have "nat ?pos < length table" using some by (metis drop_all in_table_loop.simps(1) linorder_not_less)
      moreover have pos: "\<not> 32 + int r * 32 + uint (drop_bit 21 v) < 0"
        using uint_ge_0 [of "drop_bit 21 v"] by linarith
      moreover have "get_index_pos c tab n = Some (?pos, index_code v)"
        using False \<open>c < vl\<close> v0 vl r(1) v by (auto simp: get_index_pos_def)
      ultimately show ?thesis unfolding lre_is_in_table_def len(3) eq by (simp add: pos)
    qed
    with some show "lre_is_in_table c table tab = in_table_loop c 0 False table \<and> in_table_loop c 0 False table \<noteq> None"
      by blast }
qed

section \<open>Properties\<close>

text \<open>
  Over any table whose runs are sorted and disjoint, the binary search of the case conversion
  and decomposition lookups stays inside the table and ends; when it returns an index, the run
  stored there contains the code, and when it returns none, no run of the table does.
\<close>

theorem find_run_correct:
  assumes "cb \<le> 24" "runs_sorted cb tab"
  shows "\<exists>r. find_run cb tab c 0 (int (length tab) - 1) = Some r \<and>
    (case r of None \<Rightarrow> \<forall>v\<in>set tab. \<not> in_run cb v c
     | Some i \<Rightarrow> i < length tab \<and> in_run cb (tab ! i) c)"
proof -
  obtain r where r: "find_run cb tab c 0 (int (length tab) - 1) = Some r"
    "search_result cb tab c 0 (int (length tab) - 1) r"
    using find_run_spec [OF assms, of 0 "int (length tab) - 1" c] by auto
  then show ?thesis by (cases r) (auto simp: search_result_def in_set_conv_nth)
qed

theorem find_run_correct_witness:
  "\<exists>r. find_run 17 [0x00209a30, 0x00309a00] 0x61 0 1 = Some r \<and>
    (case r of None \<Rightarrow> \<forall>v\<in>set [0x00209a30, 0x00309a00]. \<not> in_run 17 v 0x61
     | Some i \<Rightarrow> i < length [0x00209a30, 0x00309a00 :: u32] \<and> in_run 17 ([0x00209a30, 0x00309a00] ! i) 0x61)"
proof -
  have "runs_sorted 17 [0x00209a30, 0x00309a00]" by code_simp
  from find_run_correct [OF _ this, of "0x61"] show ?thesis by simp
qed

text \<open>
  C32: with the shipped tables, case conversion of any 32-bit code, to upper case, to lower case or
  by folding, reads no entry outside its tables and stores between one and three codes, the size of
  the callers' buffers; a code above 127 that lies in no run is its own conversion.
\<close>

theorem lre_case_conv_shipped:
  "\<exists>res. lre_case_conv shipped_case_tables c conv_type = Some res \<and> 1 \<le> length res \<and> length res \<le> 3 \<and>
    (128 \<le> c \<and> (\<forall>v\<in>set case_conv_table1. \<not> in_run 17 v c) \<longrightarrow> res = [c])"
  using lre_case_conv_ok [OF shipped_case_ok] by (simp add: shipped_case_tables_def)

theorem lre_case_conv_shipped_witness:
  "\<exists>res. lre_case_conv shipped_case_tables 0x20AC 0 = Some res \<and> 1 \<le> length res \<and> length res \<le> 3 \<and> res = [0x20AC]"
proof -
  have "find_run 17 case_conv_table1 0x20AC 0 360 = Some None" by code_simp
  moreover have "length case_conv_table1 = 361" by code_simp
  ultimately have "lre_case_conv shipped_case_tables 0x20AC 0 = Some [0x20AC]"
    by (simp add: lre_case_conv_def shipped_case_tables_def)
  with lre_case_conv_shipped [of "0x20AC" 0] show ?thesis by auto
qed

text \<open>The answer of the scan from the start of the table, without the index.\<close>

definition scan_answer :: "u32 \<Rightarrow> byte list \<Rightarrow> byte list \<Rightarrow> bool" where
  "scan_answer c table tab \<longleftrightarrow> uint c < index_last tab \<and> in_table_loop c 0 False table = Some True"

lemma lre_is_in_table_answer:
  assumes "prop_table_ok table tab"
  shows "lre_is_in_table c table tab = Some (scan_answer c table tab)"
proof (cases "uint c < index_last tab")
  case True
  then obtain b where "in_table_loop c 0 False table = Some b" "lre_is_in_table c table tab = Some b"
    using lre_is_in_table_scan(1) [OF assms] by auto
  then show ?thesis using True by (simp add: scan_answer_def)
qed (use lre_is_in_table_scan(2) [OF assms] in \<open>simp add: scan_answer_def\<close>)

text \<open>
  C31: the four classifications of a code, cased, case-ignorable, identifier start and identifier
  part, are decided for every 32-bit code without reading outside the shipped tables, and the
  sparse index is only a shortcut: the answer is that of scanning the run lengths from the start of
  the table, codes above the last code of the index being no members; a code is cased also when a
  run of the case table contains it, and an identifier part also when it may start one.
\<close>

theorem unicode_classes_decided:
  "lre_is_case_ignorable c = Some (scan_answer c unicode_prop_Case_Ignorable_table unicode_prop_Case_Ignorable_index) \<and>
   lre_is_id_start c = Some (scan_answer c unicode_prop_ID_Start_table unicode_prop_ID_Start_index) \<and>
   lre_is_id_continue c =
     Some (scan_answer c unicode_prop_ID_Start_table unicode_prop_ID_Start_index \<or>
           scan_answer c unicode_prop_ID_Continue1_table unicode_prop_ID_Continue1_index) \<and>
   lre_is_cased c =
     Some ((\<exists>v\<in>set case_conv_table1. in_run 17 v c) \<or>
           scan_answer c unicode_prop_Cased1_table unicode_prop_Cased1_index)"
proof -
  note ans = shipped_prop_tables_ok [THEN lre_is_in_table_answer, of c]
  have "runs_sorted 17 case_conv_table1"
    using shipped_case_ok by (simp add: case_tables_ok_def shipped_case_tables_def)
  then obtain r where r: "find_run 17 case_conv_table1 c 0 (int (length case_conv_table1) - 1) = Some r"
    "search_result 17 case_conv_table1 c 0 (int (length case_conv_table1) - 1) r"
    using find_run_spec [of 17 case_conv_table1 0 "int (length case_conv_table1) - 1" c] by auto
  have "lre_is_cased c = Some ((\<exists>v\<in>set case_conv_table1. in_run 17 v c) \<or>
      scan_answer c unicode_prop_Cased1_table unicode_prop_Cased1_index)"
    using r ans(1) by (cases r) (auto simp: lre_is_cased_def search_result_def in_set_conv_nth Bex_def)
  then show ?thesis using ans
    by (auto simp: lre_is_case_ignorable_def lre_is_id_start_def lre_is_id_continue_def split: bool.split)
qed

end
