(* ===== verification/Bitmap.thy ===== *)
theory Bitmap
  imports Cutils
begin

text \<open>
  The bitmap of \<open>BugChecker/Allocator.cpp\<close> (class \<open>SerenityOSBitmap\<close>): the search for a
  range of unset bits, the count of set bits and the change of a range, for the 64-bit build, where
  \<open>size_t\<close> has 64 bits. The memory behind \<open>m_data\<close> is a list of bytes, an access outside it is
  \<open>None\<close>; the address of \<open>m_data\<close> matters to the alignment of the word-wise count. The counters
  are natural numbers: every one of them stays below the number of bits of the memory, which fits in
  a \<open>size_t\<close>; only the end of a range, whose length may come from memory, is added as a
  \<open>size_t\<close> that may wrap around.
\<close>

section \<open>The model\<close>

record SerenityOSBitmap =
  m_data :: "byte list"
  m_size :: nat
  m_addr :: nat

definition max_size :: nat where
  "max_size = 0xffffffff"

definition size_t_max :: nat where
  "size_t_max = 2 ^ 64 - 1"

definition size_add :: "nat \<Rightarrow> nat \<Rightarrow> nat" where
  "size_add a b = unat (word_of_nat a + word_of_nat b :: u64)"

definition count_trailing_zeroes :: "u64 \<Rightarrow> nat" where
  "count_trailing_zeroes v = (if v = 0 then 64 else the (bit_scan_forward v))"

definition popcount :: "'a::len word \<Rightarrow> nat" where
  "popcount v = length (filter (\<lambda>i. bit (drop_bit i v AND 1) 0) [0..<LENGTH('a)])"

definition bitmask_first_byte :: "byte list" where
  "bitmask_first_byte = [0xFF, 0xFE, 0xFC, 0xF8, 0xF0, 0xE0, 0xC0, 0x80]"

definition bitmask_last_byte :: "byte list" where
  "bitmask_last_byte = [0x00, 0x1, 0x3, 0x7, 0xF, 0x1F, 0x3F, 0x7F]"

definition get_bit :: "SerenityOSBitmap \<Rightarrow> nat \<Rightarrow> bool option" where
  "get_bit bm i = map_option (\<lambda>b. b AND push_bit (i mod 8) 1 \<noteq> 0) (load (m_data bm) (i div 8))"

definition size_in_bytes :: "SerenityOSBitmap \<Rightarrow> nat" where
  "size_in_bytes bm = m_size bm div 8"

subsection \<open>Finding a range of unset bits\<close>

text \<open>
  The scan either has a result, the start and the length of a range, or goes on with the start and
  the length of the range that ends where it stands.
\<close>

datatype scan = Found nat nat | More nat nat

lemma count_trailing_zeroes_props:
  "v \<noteq> 0 \<Longrightarrow> count_trailing_zeroes v < 64 \<and> bit v (count_trailing_zeroes v)"
  "i < count_trailing_zeroes v \<Longrightarrow> \<not> bit v i"
  "count_trailing_zeroes v \<le> 64"
proof -
  have *: "v \<noteq> 0 \<Longrightarrow> bit_scan_forward v = Some (count_trailing_zeroes v)"
    using bit_scan_forward_None [of v] by (auto simp: count_trailing_zeroes_def)
  then show nz: "v \<noteq> 0 \<Longrightarrow> count_trailing_zeroes v < 64 \<and> bit v (count_trailing_zeroes v)"
    using bit_scan_forward_props(1,2) [of v] by auto
  show "i < count_trailing_zeroes v \<Longrightarrow> \<not> bit v i"
    using bit_scan_forward_props(3) [OF *] by (cases "v = 0") auto
  show "count_trailing_zeroes v \<le> 64"
    using nz by (cases "v = 0") (auto simp: count_trailing_zeroes_def)
qed

lemma trailing_ones_pos: "v \<noteq> 0 \<Longrightarrow> 0 < count_trailing_zeroes (NOT (drop_bit (count_trailing_zeroes v) v))"
proof -
  let ?w = "drop_bit (count_trailing_zeroes v) v"
  assume "v \<noteq> 0"
  then have "bit ?w 0" using count_trailing_zeroes_props(1) [of v] by (simp add: bit_drop_bit_eq)
  then have "\<not> bit (NOT ?w) 0" by (simp add: bit_not_iff)
  then show ?thesis
    using count_trailing_zeroes_props(1) [of "NOT ?w"] by (cases "NOT ?w = 0") (auto simp: count_trailing_zeroes_def intro: gr0I)
qed

text \<open>
  The \<open>while\<close> loop over one bucket; \<open>base\<close> is \<open>bucket_index * bit_size\<close>. The bucket is not
  full, so that no shift is by 64 bits, the case C leaves undefined.
\<close>

function bucket_loop :: "nat \<Rightarrow> nat \<Rightarrow> nat \<Rightarrow> u64 \<Rightarrow> nat \<Rightarrow> nat \<Rightarrow> nat \<Rightarrow> scan" where
  "bucket_loop min_length max_length base bucket viewed_bits start free_chunks =
     (if viewed_bits < 64 then
        (let start = (if free_chunks = 0 then base + viewed_bits else start) in
         if bucket = 0 then
           bucket_loop min_length max_length base bucket 64 start (free_chunks + (64 - viewed_bits))
         else
           (let trailing_zeroes = count_trailing_zeroes bucket;
                bucket1 = drop_bit trailing_zeroes bucket;
                free_chunks = free_chunks + trailing_zeroes;
                viewed_bits1 = viewed_bits + trailing_zeroes
            in
              if free_chunks \<ge> min_length then Found start (min free_chunks max_length)
              else
                (let trailing_ones = count_trailing_zeroes (NOT bucket1) in
                 bucket_loop min_length max_length base (drop_bit trailing_ones bucket1)
                   (viewed_bits1 + trailing_ones) start 0)))
      else More start free_chunks)"
  by pat_completeness auto
termination
  by (relation "measure (\<lambda>(min_length, max_length, base, bucket, viewed_bits, start, free_chunks). 64 - viewed_bits)")
    (auto dest: trailing_ones_pos intro!: diff_less_mono2)

declare bucket_loop.simps [simp del]

text \<open>The \<open>for\<close> loop over the buckets; \<open>n\<close> is the number of buckets left.\<close>

fun buckets_loop :: "SerenityOSBitmap \<Rightarrow> nat \<Rightarrow> nat \<Rightarrow> nat \<Rightarrow> nat \<Rightarrow> nat \<Rightarrow> nat \<Rightarrow> nat \<Rightarrow> scan option" where
  "buckets_loop bm min_length max_length bucket_index 0 start_bucket_bit start free_chunks = Some (More start free_chunks)"
| "buckets_loop bm min_length max_length bucket_index (Suc n) start_bucket_bit start free_chunks =
     (case get_u64 (m_data bm) (8 * bucket_index) of
        None \<Rightarrow> None
      | Some bucket \<Rightarrow>
          if bucket = -1 then
            (if free_chunks \<ge> min_length then Some (Found start (min free_chunks max_length))
             else buckets_loop bm min_length max_length (bucket_index + 1) n 0 start 0)
          else if bucket = 0 then
            (let start = (if free_chunks = 0 then bucket_index * 64 else start);
                 free_chunks = free_chunks + 64
             in
               if free_chunks \<ge> max_length then Some (Found start max_length)
               else buckets_loop bm min_length max_length (bucket_index + 1) n 0 start free_chunks)
          else
            (case bucket_loop min_length max_length (bucket_index * 64)
                    (drop_bit start_bucket_bit bucket) start_bucket_bit start free_chunks of
               Found s r \<Rightarrow> Some (Found s r)
             | More start free_chunks \<Rightarrow>
                 buckets_loop bm min_length max_length (bucket_index + 1) n 0 start free_chunks))"

text \<open>The loop over the bits behind the last whole bucket.\<close>

fun trailing_loop :: "SerenityOSBitmap \<Rightarrow> nat \<Rightarrow> nat \<Rightarrow> nat \<Rightarrow> nat \<Rightarrow> nat \<Rightarrow> nat \<Rightarrow> scan option" where
  "trailing_loop bm min_length max_length pos 0 start free_chunks = Some (More start free_chunks)"
| "trailing_loop bm min_length max_length pos (Suc n) start free_chunks =
     (case get_bit bm pos of
        None \<Rightarrow> None
      | Some b \<Rightarrow>
          if \<not> b then
            (let start = (if free_chunks = 0 then pos else start) in
             if free_chunks + 1 \<ge> min_length then Some (Found start (min (free_chunks + 1) max_length))
             else trailing_loop bm min_length max_length (pos + 1) n start (free_chunks + 1))
          else trailing_loop bm min_length max_length (pos + 1) n start 0)"

text \<open>The result and the value left in \<open>from\<close>.\<close>

definition find_next_range_of_unset_bits :: "SerenityOSBitmap \<Rightarrow> nat \<Rightarrow> nat \<Rightarrow> nat \<Rightarrow> (nat \<times> nat) option" where
  "find_next_range_of_unset_bits bm from min_length max_length =
     (if min_length > max_length then Some (size_t_max, from)
      else
        (case buckets_loop bm min_length max_length (from div 64) (m_size bm div 64 - from div 64) (from mod 64) from 0 of
           None \<Rightarrow> None
         | Some (Found start r) \<Rightarrow> Some (r, start)
         | Some (More start free_chunks) \<Rightarrow>
             if free_chunks < min_length then
               (case trailing_loop bm min_length max_length (m_size bm div 64 * 64) (m_size bm mod 64) start free_chunks of
                  None \<Rightarrow> None
                | Some (Found start r) \<Rightarrow> Some (r, start)
                | Some (More start free_chunks) \<Rightarrow> Some (0, start))
             else Some (min free_chunks max_length, start)))"

subsection \<open>Counting set bits\<close>

definition align_up8 :: "nat \<Rightarrow> nat" where
  "align_up8 a = (a + 7) div 8 * 8"

definition align_down8 :: "nat \<Rightarrow> nat" where
  "align_down8 a = a div 8 * 8"

text \<open>The three loops over addresses: bytes up to \<open>stop\<close>, and words up to \<open>stop\<close>.\<close>

function count_bytes :: "SerenityOSBitmap \<Rightarrow> nat \<Rightarrow> nat \<Rightarrow> nat \<Rightarrow> nat option" where
  "count_bytes bm first stop cnt =
     (if first < stop then
        (case load (m_data bm) (first - m_addr bm) of
           None \<Rightarrow> None
         | Some b \<Rightarrow> count_bytes bm (first + 1) stop (cnt + popcount b))
      else Some cnt)"
  by pat_completeness auto
termination by (relation "measure (\<lambda>(bm, first, stop, cnt). stop - first)") auto

function count_words :: "SerenityOSBitmap \<Rightarrow> nat \<Rightarrow> nat \<Rightarrow> nat \<Rightarrow> (nat \<times> nat) option" where
  "count_words bm ptr_large last_large cnt =
     (if ptr_large < last_large then
        (case get_u64 (m_data bm) (ptr_large - m_addr bm) of
           None \<Rightarrow> None
         | Some w \<Rightarrow> count_words bm (ptr_large + 8) last_large (cnt + popcount w))
      else Some (ptr_large, cnt))"
  by pat_completeness auto
termination by (relation "measure (\<lambda>(bm, ptr, lst, cnt). lst - ptr)") auto

declare count_bytes.simps [simp del] count_words.simps [simp del]

definition count_middle :: "SerenityOSBitmap \<Rightarrow> nat \<Rightarrow> nat \<Rightarrow> nat \<Rightarrow> nat option" where
  "count_middle bm first lst cnt =
     (if first < lst then
        (let ptr_large = min (align_up8 first) lst in
         case count_bytes bm first ptr_large cnt of
           None \<Rightarrow> None
         | Some cnt \<Rightarrow>
             (case count_words bm ptr_large (align_down8 lst) cnt of
                None \<Rightarrow> None
              | Some (ptr_large, cnt) \<Rightarrow> count_bytes bm ptr_large lst cnt))
      else Some cnt)"

definition count_in_range :: "SerenityOSBitmap \<Rightarrow> nat \<Rightarrow> nat \<Rightarrow> bool \<Rightarrow> nat option" where
  "count_in_range bm start len v =
     (if len = 0 then Some 0
      else
        (let first = start div 8; lst = size_add start len div 8 in
         case load (m_data bm) first of
           None \<Rightarrow> None
         | Some b \<Rightarrow>
             (let byte = b AND bitmask_first_byte ! (start mod 8) in
              map_option (\<lambda>cnt. if \<not> v then len - cnt else cnt)
                (if first = lst then Some (popcount (byte AND bitmask_last_byte ! (size_add start len mod 8)))
                 else
                   (case (if lst < size_in_bytes bm
                          then map_option (\<lambda>b. popcount byte + popcount (b AND bitmask_last_byte ! (size_add start len mod 8)))
                                 (load (m_data bm) lst)
                          else Some (popcount byte)) of
                      None \<Rightarrow> None
                    | Some cnt \<Rightarrow> count_middle bm (m_addr bm + first + 1) (m_addr bm + lst) cnt)))))"

subsection \<open>Changing a range\<close>

definition apply_mask :: "bool \<Rightarrow> byte \<Rightarrow> byte \<Rightarrow> byte" where
  "apply_mask v m b = (if v then b OR m else b AND NOT m)"

definition mask_byte :: "bool \<Rightarrow> nat \<Rightarrow> byte \<Rightarrow> byte list \<Rightarrow> byte list option" where
  "mask_byte v i m data =
     (case load data i of
        None \<Rightarrow> None
      | Some b \<Rightarrow> store data i (apply_mask v m b))"

definition set_range :: "bool \<Rightarrow> SerenityOSBitmap \<Rightarrow> nat \<Rightarrow> nat \<Rightarrow> SerenityOSBitmap option" where
  "set_range v bm start len =
     (if len = 0 then Some bm
      else
        (let first = start div 8; lst = size_add start len div 8;
             byte_mask = bitmask_first_byte ! (start mod 8);
             last_mask = bitmask_last_byte ! (size_add start len mod 8)
         in
           map_option (\<lambda>data. bm\<lparr>m_data := data\<rparr>)
             (if first = lst then mask_byte v first (byte_mask AND last_mask) (m_data bm)
              else
                (case mask_byte v first byte_mask (m_data bm) of
                   None \<Rightarrow> None
                 | Some data \<Rightarrow>
                     (case mask_byte v lst last_mask data of
                        None \<Rightarrow> None
                      | Some data \<Rightarrow>
                          if first + 1 < lst
                          then write_block data (first + 1) (replicate (lst - (first + 1)) (if v then 0xFF else 0))
                          else Some data)))))"


subsection \<open>The self test\<close>

text \<open>The search of the self test from \<open>f\<close>: it must return \<open>r\<close> and leave \<open>f'\<close> behind.\<close>

definition expect_range :: "SerenityOSBitmap \<Rightarrow> nat \<Rightarrow> nat \<Rightarrow> nat \<Rightarrow> nat \<Rightarrow> bool" where
  "expect_range bm f n r f' \<longleftrightarrow> find_next_range_of_unset_bits bm f n n = Some (r, f')"

definition TestBitmap :: "nat \<Rightarrow> bool option" where
  "TestBitmap addr =
     (let vb = \<lparr>m_data = replicate 256 0, m_size = 256 * 8, m_addr = addr\<rparr> in
      case set_range True vb 2 1 of
        None \<Rightarrow> None
      | Some vb \<Rightarrow>
          (case set_range True vb 6 800 of
             None \<Rightarrow> None
           | Some vb \<Rightarrow>
               (case set_range True vb 809 (2048 - 809 - 1) of
                  None \<Rightarrow> None
                | Some vb \<Rightarrow>
                    Some (count_in_range vb 0 (m_size vb) False = Some 9 \<and>
                      count_in_range vb 1 (m_size vb - 1 - 1) False = Some 7 \<and>
                      expect_range vb 0 4 0 2047 \<and>
                      expect_range vb 0 3 3 3 \<and>
                      expect_range vb (3 + 2) 2 2 806 \<and>
                      expect_range vb 600 1 1 806 \<and>
                      expect_range vb (806 + 1) 1 1 807 \<and>
                      expect_range vb (807 + 1) 1 1 808 \<and>
                      expect_range vb (808 + 1) 1 1 2047))))"

end
