(* ===== verification/Bitmap_Correct.thy ===== *)
theory Bitmap_Correct
  imports Bitmap
begin

text \<open>
  Correctness of the bitmap of \<open>BugChecker/Allocator.cpp\<close>: the search returns a range of unset
  bits whenever there is one, a change affects exactly the bits of its range, and the word-wise count
  is the number of set bits.
\<close>

section \<open>Bits of the memory\<close>

definition bit_at :: "byte list \<Rightarrow> nat \<Rightarrow> bool" where
  "bit_at data i \<longleftrightarrow> bit (data ! (i div 8)) (i mod 8)"

lemma bit_low_high: "v < 2 ^ n \<Longrightarrow> bit (v + 2 ^ n * w) j = (if j < n then bit v j else bit (w::nat) (j - n))"
proof -
  assume "v < 2 ^ n"
  then have v: "take_bit n v = v" by (simp add: take_bit_nat_eq_self)
  then have low: "bit v i \<Longrightarrow> i < n" for i by (metis bit_take_bit_iff)
  have "v AND push_bit n w = 0"
    by (intro bit_eqI) (auto simp: bit_and_iff bit_push_bit_iff dest: low)
  then have "v + push_bit n w = v OR push_bit n w" by (simp add: disjunctive_add_eq_or)
  then have "v + 2 ^ n * w = v OR push_bit n w" by (simp add: push_bit_eq_mult mult.commute)
  then show ?thesis using low by (auto simp: bit_or_iff bit_push_bit_iff)
qed

lemma bit_le_value: "j < 8 * length bs \<Longrightarrow> bit (le_value bs) j = bit (bs ! (j div 8)) (j mod 8)"
proof (induction bs arbitrary: j)
  case (Cons b bs)
  have "unat b < 2 ^ 8" using unat_less_length [of b] by simp
  note b = bit_low_high [OF this, of "le_value bs" j]
  show ?case
  proof (cases "j < 8")
    case True
    then show ?thesis using b by (simp add: bit_unsigned_iff)
  next
    case False
    then obtain i where j: "j = i + 8" by (metis add.commute le_add_diff_inverse not_less)
    have "(i + 8) div 8 = Suc (i div 8)" by simp
    then show ?thesis using b Cons j by simp
  qed
qed simp

lemma get_u64_bit_at:
  assumes "get_u64 data p = Some w" "j < 64"
  shows "bit w j = bit_at data (8 * p + j)"
proof -
  from assms have len: "p + 8 \<le> length data" and w: "w = word_of_nat (le_value (take 8 (drop p data)))"
    by (auto simp: get_u64_def read_block_def split: if_splits)
  let ?bs = "take 8 (drop p data)"
  have "bit w j = bit (le_value ?bs) j" using assms(2) w by (simp add: bit_of_nat_iff)
  also have "\<dots> = bit (?bs ! (j div 8)) (j mod 8)" by (rule bit_le_value) (use len assms(2) in simp)
  also have "?bs ! (j div 8) = data ! (p + j div 8)" using assms(2) len by simp
  finally show ?thesis by (simp add: bit_at_def)
qed

lemma get_u64_bit: "get_u64 data (8 * k) = Some w \<Longrightarrow> j < 64 \<Longrightarrow> bit w j = bit_at data (64 * k + j)"
  using get_u64_bit_at [of data "8 * k" w j] by simp

lemma get_u64_Some: "p + 8 \<le> length data \<Longrightarrow> \<exists>w. get_u64 data p = Some w"
  by (simp add: get_u64_def read_block_def)

lemma get_bit_Some: "i < 8 * length (m_data bm) \<Longrightarrow> get_bit bm i = Some (bit_at (m_data bm) i)"
proof -
  assume i: "i < 8 * length (m_data bm)"
  have "(b AND push_bit n 1 \<noteq> 0) = bit b n" if "n < 8" for b :: byte and n
    by (simp add: bit_iff_and_push_bit_not_eq_0)
  then show ?thesis using i by (simp add: get_bit_def bit_at_def load_def less_mult_imp_div_less mult.commute)
qed

section \<open>Scanning for a run of free bits\<close>

definition all_in :: "(nat \<Rightarrow> bool) \<Rightarrow> nat \<Rightarrow> nat \<Rightarrow> bool" where
  "all_in U a b \<longleftrightarrow> (\<forall>i. a \<le> i \<and> i < b \<longrightarrow> U i)"

definition no_range :: "(nat \<Rightarrow> bool) \<Rightarrow> nat \<Rightarrow> nat \<Rightarrow> nat \<Rightarrow> bool" where
  "no_range U from n pos \<longleftrightarrow> (\<forall>s. from \<le> s \<and> s + n \<le> pos \<longrightarrow> \<not> all_in U s (s + n))"

text \<open>
  What the scan knows at position \<open>pos\<close>: \<open>free\<close> is the length of a run of free bits that ends
  there and starts at \<open>start\<close>, no longer run from \<open>from\<close> on ends there, and a long enough run
  was not met before.
\<close>

definition scan_inv :: "(nat \<Rightarrow> bool) \<Rightarrow> nat \<Rightarrow> nat \<Rightarrow> nat \<Rightarrow> nat \<Rightarrow> nat \<Rightarrow> bool" where
  "scan_inv U from minl pos start free \<longleftrightarrow>
     (0 < free \<longrightarrow> start + free = pos \<and> all_in U start pos) \<and>
     (\<forall>s. from \<le> s \<and> s \<le> pos \<and> all_in U s pos \<longrightarrow> pos - s \<le> free) \<and>
     (free < minl \<longrightarrow> no_range U from minl pos)"

definition found_ok :: "(nat \<Rightarrow> bool) \<Rightarrow> nat \<Rightarrow> nat \<Rightarrow> nat \<Rightarrow> nat \<Rightarrow> nat \<Rightarrow> bool" where
  "found_ok U minl maxl pos s r \<longleftrightarrow> minl \<le> r \<and> r \<le> maxl \<and> s + r \<le> pos \<and> all_in U s (s + r)"

lemma all_in_split: "all_in U a b \<Longrightarrow> all_in U b c \<Longrightarrow> all_in U a c"
  unfolding all_in_def by (metis not_less)

lemma all_in_sub: "all_in U a b \<Longrightarrow> a \<le> c \<Longrightarrow> d \<le> b \<Longrightarrow> all_in U c d"
  unfolding all_in_def by (meson le_trans less_le_trans)

lemma all_in_shift: "(\<And>j. a \<le> j \<Longrightarrow> j < b \<Longrightarrow> U (base + j)) \<Longrightarrow> all_in U (base + a) (base + b)"
  unfolding all_in_def
proof (intro allI impI)
  fix i assume u: "\<And>j. a \<le> j \<Longrightarrow> j < b \<Longrightarrow> U (base + j)" and i: "base + a \<le> i \<and> i < base + b"
  then have "a \<le> i - base" "i - base < b" "base + (i - base) = i" by auto
  then show "U i" using u [of "i - base"] by simp
qed

lemma scan_inv_start: "pos \<le> from \<Longrightarrow> 0 < minl \<Longrightarrow> scan_inv U from minl pos start 0"
  by (auto simp: scan_inv_def no_range_def)

lemma scan_inv_free:
  assumes "scan_inv U from minl pos start free" "pos \<le> q" "all_in U a q" "a \<le> pos" "0 < free \<longrightarrow> a = pos"
  shows "scan_inv U from minl q (if free = 0 then a else start) (free + (q - a))"
proof -
  have ap: "all_in U pos q" using all_in_sub [OF assms(3,4)] by simp
  have suffix: "q - s \<le> free + (q - a)" if s: "from \<le> s" "s \<le> q" "all_in U s q" for s
  proof (cases "s \<le> pos")
    case True
    then have "all_in U s pos" using s(3) assms(2) by (auto intro: all_in_sub)
    then have "pos - s \<le> free" using assms(1) s(1) True by (simp add: scan_inv_def)
    then show ?thesis using assms(2,4) True by simp
  qed (use assms(4) in simp)
  moreover have "no_range U from minl q" if lt: "free + (q - a) < minl"
    unfolding no_range_def
  proof (intro allI impI notI)
    fix s assume s: "from \<le> s \<and> s + minl \<le> q" and r: "all_in U s (s + minl)"
    show False
    proof (cases "s + minl \<le> pos")
      case True
      then show ?thesis using assms(1) lt s r by (simp add: scan_inv_def no_range_def)
    next
      case False
      then have "all_in U s q" using r ap by (meson all_in_split all_in_sub linear order_refl)
      then show ?thesis using suffix [of s] s lt by linarith
    qed
  qed
  moreover have "all_in U start q" if "0 < free"
    using assms(1,2,3,5) that by (auto simp: scan_inv_def intro: all_in_split)
  ultimately show ?thesis
    using assms(1,2,3,4,5) unfolding scan_inv_def by auto
qed

lemma scan_inv_set:
  assumes "scan_inv U from minl pos start free" "free < minl" "pos < q" "\<And>i. pos \<le> i \<Longrightarrow> i < q \<Longrightarrow> \<not> U i"
  shows "scan_inv U from minl q start' 0"
proof -
  have hit: "\<not> all_in U s e" if "pos < e" "e \<le> q" "s < e" for s e
  proof -
    have "s \<le> e - 1 \<and> e - 1 < e" "\<not> U (e - 1)" using that assms(4) [of "e - 1"] by auto
    then show ?thesis unfolding all_in_def by blast
  qed
  have "q - s \<le> 0" if "s \<le> q" "all_in U s q" for s
    using hit [of q s] that assms(3) by (cases "s < q") auto
  moreover have "no_range U from minl q"
    unfolding no_range_def
  proof (intro allI impI)
    fix s assume s: "from \<le> s \<and> s + minl \<le> q"
    show "\<not> all_in U s (s + minl)"
      using assms(1,2) s hit [of "s + minl" s]
      by (cases "s + minl \<le> pos") (auto simp: scan_inv_def no_range_def)
  qed
  ultimately show ?thesis by (auto simp: scan_inv_def)
qed

lemma scan_inv_found:
  "scan_inv U from minl pos start free \<Longrightarrow> 0 < minl \<Longrightarrow> minl \<le> maxl \<Longrightarrow> minl \<le> free \<Longrightarrow> pos \<le> e \<Longrightarrow>
   found_ok U minl maxl e start (min free maxl)"
  by (auto simp: scan_inv_def found_ok_def intro: all_in_sub)


lemma bucket_loop_done: "bucket_loop minl maxl base b 64 start free = More start free"
  by (simp add: bucket_loop.simps)

lemma trailing_ones_bound:
  assumes "b = drop_bit v (w :: u64)" "v \<le> 64"
  shows "v + count_trailing_zeroes (NOT b) \<le> 64"
proof (rule ccontr)
  let ?t = "count_trailing_zeroes (NOT b)"
  assume a: "\<not> v + ?t \<le> 64"
  then have "0 < v" using count_trailing_zeroes_props(3) [of "NOT b"] by linarith
  have "\<not> bit (NOT b) (64 - v)" by (rule count_trailing_zeroes_props(2)) (use a assms(2) in linarith)
  then have "bit b (64 - v)" using \<open>0 < v\<close> by (simp add: bit_not_iff)
  then have "bit w 64" using assms by (simp add: bit_drop_bit_eq)
  then show False using bit_imp_le_length [of w 64] by simp
qed

lemma bucket_loop_spec:
  assumes "viewed \<le> 64" "bucket = drop_bit viewed w" "\<And>j. j < 64 \<Longrightarrow> U (base + j) \<longleftrightarrow> \<not> bit w j"
    "0 < minl" "minl \<le> maxl" "scan_inv U from minl (base + viewed) start free"
  shows "case bucket_loop minl maxl base bucket viewed start free of
      Found s r \<Rightarrow> found_ok U minl maxl (base + 64) s r
    | More s f \<Rightarrow> scan_inv U from minl (base + 64) s f"
  using assms(1,2,6)
proof (induction "64 - viewed" arbitrary: viewed bucket start free rule: less_induct)
  case less
  let ?start = "if free = 0 then base + viewed else start"
  consider (stop) "viewed = 64" | (zero) "viewed < 64" "bucket = 0" | (bits) "viewed < 64" "bucket \<noteq> 0"
    using less.prems(1) by linarith
  then show ?case
  proof cases
    case stop
    then show ?thesis using less.prems(3) by (simp add: bucket_loop_done)
  next
    case zero
    have "\<not> bit w j" if "viewed \<le> j" for j
      using arg_cong [where f = "\<lambda>x. bit x (j - viewed)", OF less.prems(2)] zero that by (simp add: bit_drop_bit_eq)
    then have "all_in U (base + viewed) (base + 64)" using assms(3) by (intro all_in_shift) simp
    from scan_inv_free [OF less.prems(3) _ this] zero(1)
    have "scan_inv U from minl (base + 64) ?start (free + (64 - viewed))" by simp
    moreover have "bucket_loop minl maxl base bucket viewed start free = More ?start (free + (64 - viewed))"
      using zero by (subst bucket_loop.simps) (simp add: Let_def bucket_loop_done)
    ultimately show ?thesis by simp
  next
    case bits
    define tz where "tz = count_trailing_zeroes bucket"
    define b1 where "b1 = drop_bit tz bucket"
    define ones where "ones = count_trailing_zeroes (NOT b1)"
    have b1: "b1 = drop_bit (viewed + tz) w" using less.prems(2) by (simp add: b1_def add.commute)
    have "bit bucket tz" using count_trailing_zeroes_props(1) [OF bits(2)] by (simp add: tz_def)
    then have v1: "viewed + tz < 64" using bit_imp_le_length [of w] less.prems(2) by (auto simp: bit_drop_bit_eq)
    have "\<not> bit w j" if "viewed \<le> j" "j < viewed + tz" for j
      using count_trailing_zeroes_props(2) [of "j - viewed" bucket] that less.prems(2) by (simp add: tz_def bit_drop_bit_eq)
    then have "all_in U (base + viewed) (base + (viewed + tz))" using assms(3) v1 by (intro all_in_shift) simp
    from scan_inv_free [OF less.prems(3) _ this]
    have inv: "scan_inv U from minl (base + (viewed + tz)) ?start (free + tz)" by simp
    show ?thesis
    proof (cases "free + tz \<ge> minl")
      case True
      then have "bucket_loop minl maxl base bucket viewed start free = Found ?start (min (free + tz) maxl)"
        using bits by (subst bucket_loop.simps) (simp add: Let_def tz_def)
      moreover have "found_ok U minl maxl (base + 64) ?start (min (free + tz) maxl)"
        by (rule scan_inv_found [OF inv assms(4,5) True]) (use v1 in simp)
      ultimately show ?thesis by simp
    next
      case False
      have "bucket_loop minl maxl base bucket viewed start free =
          bucket_loop minl maxl base (drop_bit ones b1) (viewed + tz + ones) ?start 0"
        using bits False by (subst bucket_loop.simps) (simp add: Let_def tz_def b1_def ones_def)
      moreover have v2: "viewed + tz + ones \<le> 64"
        using trailing_ones_bound [OF b1] v1 by (simp add: ones_def)
      moreover have pos: "0 < ones" using trailing_ones_pos [OF bits(2)] by (simp add: ones_def b1_def tz_def)
      moreover have "scan_inv U from minl (base + (viewed + tz + ones)) ?start 0"
      proof (rule scan_inv_set [OF inv])
        fix i assume i: "base + (viewed + tz) \<le> i" "i < base + (viewed + tz + ones)"
        define j where "j = i - (base + (viewed + tz))"
        have j: "i = base + (viewed + tz + j)" "j < ones" using i by (simp_all add: j_def)
        have "\<not> bit (NOT b1) j" by (rule count_trailing_zeroes_props(2)) (use j in \<open>simp add: ones_def\<close>)
        then have "bit w (viewed + tz + j)" using j v2 b1 by (simp add: bit_not_iff bit_drop_bit_eq)
        then show "\<not> U i" using j assms(3) [of "viewed + tz + j"] v2 by simp
      qed (use False pos in simp_all)
      moreover have "drop_bit ones b1 = drop_bit (viewed + tz + ones) w" by (simp add: b1 add.commute)
      ultimately show ?thesis using less.hyps [of "viewed + tz + ones" "drop_bit ones b1" ?start 0] bits(1) by simp
    qed
  qed
qed


abbreviation unset :: "SerenityOSBitmap \<Rightarrow> nat \<Rightarrow> bool" where
  "unset bm i \<equiv> \<not> bit_at (m_data bm) i"

lemma found_ok_mono: "found_ok U minl maxl p s r \<Longrightarrow> p \<le> q \<Longrightarrow> found_ok U minl maxl q s r"
  by (auto simp: found_ok_def)

lemma buckets_loop_spec:
  assumes "0 < minl" "minl \<le> maxl" "8 * (k + n) \<le> length (m_data bm)" "sb < 64" "0 < n \<or> sb = 0"
    "scan_inv (unset bm) from minl (64 * k + sb) start free" "0 < free \<longrightarrow> sb = 0"
  shows "\<exists>r. buckets_loop bm minl maxl k n sb start free = Some r \<and>
    (case r of Found s l \<Rightarrow> found_ok (unset bm) minl maxl (64 * (k + n)) s l
     | More s f \<Rightarrow> scan_inv (unset bm) from minl (64 * (k + n)) s f)"
  using assms(3-)
proof (induction n arbitrary: k sb start free)
  case 0
  then show ?case by simp
next
  case (Suc n)
  obtain w where w: "get_u64 (m_data bm) (8 * k) = Some w"
    using get_u64_Some [of "8 * k" "m_data bm"] Suc.prems(1) by auto
  have U: "unset bm (64 * k + j) \<longleftrightarrow> \<not> bit w j" if "j < 64" for j using get_u64_bit [OF w that] by simp
  have IH: "\<exists>r. buckets_loop bm minl maxl (k + 1) n 0 s f = Some r \<and>
      (case r of Found s l \<Rightarrow> found_ok (unset bm) minl maxl (64 * (k + 1 + n)) s l
       | More s f \<Rightarrow> scan_inv (unset bm) from minl (64 * (k + 1 + n)) s f)"
    if "scan_inv (unset bm) from minl (64 * k + 64) s f" for s f
    using Suc.IH [of "k + 1" 0 s f] Suc.prems(1) that by (simp add: distrib_left add.commute)
  consider (full) "w = -1" | (empty) "w = 0" | (mixed) "w \<noteq> -1" "w \<noteq> 0" by blast
  then have "\<exists>r. buckets_loop bm minl maxl k (Suc n) sb start free = Some r \<and>
      (case r of Found s l \<Rightarrow> found_ok (unset bm) minl maxl (64 * (k + 1 + n)) s l
       | More s f \<Rightarrow> scan_inv (unset bm) from minl (64 * (k + 1 + n)) s f)"
  proof cases
    case full
    show ?thesis
    proof (cases "minl \<le> free")
      case True
      have "found_ok (unset bm) minl maxl (64 * (k + 1 + n)) start (min free maxl)"
        by (rule scan_inv_found [OF Suc.prems(4) assms(1,2) True]) (use Suc.prems(2) in simp)
      then show ?thesis using full w True by simp
    next
      case False
      have "scan_inv (unset bm) from minl (64 * k + 64) start 0"
      proof (rule scan_inv_set [OF Suc.prems(4)])
        fix i assume "64 * k + sb \<le> i" "i < 64 * k + 64"
        then show "\<not> unset bm i" using U [of "i - 64 * k"] full by simp
      qed (use False Suc.prems(2) in simp_all)
      from IH [OF this] show ?thesis using full w False by simp
    qed
  next
    case empty
    let ?start = "if free = 0 then 64 * k else start"
    have "all_in (unset bm) (64 * k + 0) (64 * k + 64)" by (rule all_in_shift) (use U empty in simp)
    then have a: "all_in (unset bm) (64 * k) (64 * k + 64)" by simp
    have inv: "scan_inv (unset bm) from minl (64 * k + 64) ?start (free + 64)"
      using scan_inv_free [OF Suc.prems(4) _ a] Suc.prems(2,5) by simp
    show ?thesis
    proof (cases "maxl \<le> free + 64")
      case True
      have "found_ok (unset bm) minl maxl (64 * (k + 1 + n)) ?start (min (free + 64) maxl)"
        by (rule scan_inv_found [OF inv assms(1,2)]) (use True assms(2) in simp_all)
      then show ?thesis using empty w True by (simp add: Let_def mult.commute [of 64] min_absorb2 split: if_splits)
    next
      case False
      then show ?thesis using IH [OF inv] empty w by (cases "free = 0") (simp_all add: Let_def mult.commute [of 64])
    qed
  next
    case mixed
    let ?r = "bucket_loop minl maxl (64 * k) (drop_bit sb w) sb start free"
    have r: "case ?r of Found s l \<Rightarrow> found_ok (unset bm) minl maxl (64 * k + 64) s l
        | More s f \<Rightarrow> scan_inv (unset bm) from minl (64 * k + 64) s f"
      by (rule bucket_loop_spec [OF _ refl U assms(1,2) Suc.prems(4)]) (use Suc.prems(2) in simp_all)
    show ?thesis
    proof (cases ?r)
      case (Found s l)
      then have "found_ok (unset bm) minl maxl (64 * (k + 1 + n)) s l" using r by (auto intro: found_ok_mono)
      then show ?thesis using Found mixed w by (simp add: mult.commute)
    next
      case (More s f)
      then show ?thesis using r IH [of s f] mixed w by (simp add: mult.commute)
    qed
  qed
  moreover have "k + 1 + n = k + Suc n" by simp
  ultimately show ?case by (simp only:)
qed

lemma trailing_loop_spec:
  assumes "0 < minl" "minl \<le> maxl" "pos + n \<le> 8 * length (m_data bm)"
    "scan_inv (unset bm) from minl pos start free" "free < minl"
  shows "\<exists>r. trailing_loop bm minl maxl pos n start free = Some r \<and>
    (case r of Found s l \<Rightarrow> found_ok (unset bm) minl maxl (pos + n) s l
     | More s f \<Rightarrow> no_range (unset bm) from minl (pos + n))"
  using assms(3-)
proof (induction n arbitrary: pos start free)
  case 0
  then show ?case by (simp add: scan_inv_def)
next
  case (Suc n)
  have g: "get_bit bm pos = Some (bit_at (m_data bm) pos)" by (rule get_bit_Some) (use Suc.prems(1) in simp)
  let ?start = "if free = 0 then pos else start"
  have "\<exists>r. trailing_loop bm minl maxl pos (Suc n) start free = Some r \<and>
    (case r of Found s l \<Rightarrow> found_ok (unset bm) minl maxl (pos + 1 + n) s l
     | More s f \<Rightarrow> no_range (unset bm) from minl (pos + 1 + n))"
  proof (cases "unset bm pos")
    case True
    then have a: "all_in (unset bm) pos (pos + 1)" by (auto simp: all_in_def less_Suc_eq_le dest: le_antisym)
    have inv: "scan_inv (unset bm) from minl (pos + 1) ?start (free + 1)"
      using scan_inv_free [OF Suc.prems(2) _ a] by simp
    show ?thesis
    proof (cases "minl \<le> free + 1")
      case found: True
      have "found_ok (unset bm) minl maxl (pos + 1 + n) ?start (min (free + 1) maxl)"
        by (rule scan_inv_found [OF inv assms(1,2) found]) simp
      then show ?thesis using True g found by (simp add: Let_def)
    next
      case False
      then show ?thesis using True g Suc.IH [OF _ inv] Suc.prems(1) by (simp add: Let_def split: if_splits)
    qed
  next
    case False
    have "scan_inv (unset bm) from minl (pos + 1) start 0"
      by (rule scan_inv_set [OF Suc.prems(2,3)]) (use False in \<open>auto simp: less_Suc_eq_le dest: le_antisym\<close>)
    then show ?thesis using False g Suc.IH [of "pos + 1" start 0] Suc.prems(1) assms(1) by simp
  qed
  moreover have "pos + 1 + n = pos + Suc n" by simp
  ultimately show ?case by (simp only:)
qed

lemma find_next_range_spec:
  assumes "0 < minl" "minl \<le> maxl" "m_size bm \<le> 8 * length (m_data bm)"
  shows "\<exists>r s. find_next_range_of_unset_bits bm from minl maxl = Some (r, s) \<and>
    (if r = 0 then no_range (unset bm) from minl (m_size bm) else found_ok (unset bm) minl maxl (m_size bm) s r)"
proof -
  let ?n = "m_size bm div 64 - from div 64" and ?e = "64 * (m_size bm div 64)"
  have tail: "?e + m_size bm mod 64 = m_size bm" by simp
  have e8: "8 * (m_size bm div 64) \<le> length (m_data bm)" using assms(3) tail by linarith
  have pos_r: "0 < r" if "found_ok U minl maxl p s r" for U p s r using that assms(1) by (simp add: found_ok_def)
  obtain r where r: "buckets_loop bm minl maxl (from div 64) ?n (from mod 64) from 0 = Some r"
    "case r of Found s l \<Rightarrow> found_ok (unset bm) minl maxl (m_size bm) s l
     | More s f \<Rightarrow> scan_inv (unset bm) from minl ?e s f"
  proof (cases "from div 64 < m_size bm div 64")
    case True
    then have e: "from div 64 + ?n = m_size bm div 64" by simp
    have "\<exists>r. buckets_loop bm minl maxl (from div 64) ?n (from mod 64) from 0 = Some r \<and>
      (case r of Found s l \<Rightarrow> found_ok (unset bm) minl maxl (64 * (from div 64 + ?n)) s l
       | More s f \<Rightarrow> scan_inv (unset bm) from minl (64 * (from div 64 + ?n)) s f)"
      by (rule buckets_loop_spec [OF assms(1,2)]) (use e e8 True scan_inv_start [of "from" "from" minl] assms(1) in auto)
    then obtain r where "buckets_loop bm minl maxl (from div 64) ?n (from mod 64) from 0 = Some r"
      "case r of Found s l \<Rightarrow> found_ok (unset bm) minl maxl ?e s l
       | More s f \<Rightarrow> scan_inv (unset bm) from minl ?e s f"
      unfolding e by blast
    moreover from this have "case r of Found s l \<Rightarrow> found_ok (unset bm) minl maxl (m_size bm) s l
     | More s f \<Rightarrow> scan_inv (unset bm) from minl ?e s f"
      using tail by (cases r) (auto elim!: found_ok_mono)
    ultimately show ?thesis using that by blast
  next
    case False
    then have "?e \<le> from" by linarith
    then have "scan_inv (unset bm) from minl ?e from 0" by (rule scan_inv_start [OF _ assms(1)])
    then show ?thesis using False that [of "More from 0"] by simp
  qed
  show ?thesis
  proof (cases r)
    case (Found s l)
    then show ?thesis using r assms(2) pos_r by (auto simp: find_next_range_of_unset_bits_def)
  next
    case (More s f)
    show ?thesis
    proof (cases "f < minl")
      case True
      obtain r' where r': "trailing_loop bm minl maxl ?e (m_size bm mod 64) s f = Some r'"
        "case r' of Found s l \<Rightarrow> found_ok (unset bm) minl maxl (m_size bm) s l
         | More s f \<Rightarrow> no_range (unset bm) from minl (m_size bm)"
        using trailing_loop_spec [OF assms(1,2), of ?e "m_size bm mod 64" bm "from" s f, unfolded tail]
          r(2) More True assms(3) by auto
      then show ?thesis using r(1) More True assms(2) pos_r
        by (cases r') (auto simp: find_next_range_of_unset_bits_def mult.commute)
    next
      case False
      have "found_ok (unset bm) minl maxl (m_size bm) s (min f maxl)"
        using scan_inv_found [OF _ assms(1,2), of "unset bm" "from" ?e s f "m_size bm"] r(2) More False tail by simp
      moreover from pos_r [OF this] have "min f maxl \<noteq> 0" by simp
      ultimately show ?thesis using r(1) More False assms(2) by (auto simp: find_next_range_of_unset_bits_def min_def)
    qed
  qed
qed


section \<open>Changing a range\<close>

lemma size_add_exact: "a + b < 2 ^ 64 \<Longrightarrow> size_add a b = a + b"
  unfolding size_add_def of_nat_add [symmetric] unat_of_nat by simp

lemma bit_masks:
  assumes "r < 8" "j < 8"
  shows "bit (bitmask_first_byte ! r) j \<longleftrightarrow> r \<le> j" "bit (bitmask_last_byte ! r) j \<longleftrightarrow> j < r"
proof -
  have "\<forall>r\<in>set [0..<8]. \<forall>j\<in>set [0..<8]. (bit (bitmask_first_byte ! r) j \<longleftrightarrow> r \<le> j) \<and> (bit (bitmask_last_byte ! r) j \<longleftrightarrow> j < r)"
    by code_simp
  then show "bit (bitmask_first_byte ! r) j \<longleftrightarrow> r \<le> j" "bit (bitmask_last_byte ! r) j \<longleftrightarrow> j < r"
    using assms by auto
qed

lemma mask_byte_bits:
  assumes "i < length data"
  shows "\<exists>data'. mask_byte v i m data = Some data' \<and> length data' = length data \<and>
    (\<forall>x < 8 * length data. bit_at data' x = (if x div 8 = i \<and> bit m (x mod 8) then v else bit_at data x))"
proof -
  let ?d = "data[i := apply_mask v m (data ! i)]"
  have "mask_byte v i m data = Some ?d" using assms by (simp add: mask_byte_def mem_simps)
  moreover have "bit_at ?d x = (if x div 8 = i \<and> bit m (x mod 8) then v else bit_at data x)" if "x < 8 * length data" for x
    using that assms by (auto simp: bit_at_def apply_mask_def nth_list_update bit_or_iff bit_and_iff bit_not_iff)
  ultimately show ?thesis by simp
qed

lemma fill_bits:
  assumes "f \<le> l" "l \<le> length data"
  shows "\<exists>data'. write_block data f (replicate (l - f) (if v then 0xFF else 0)) = Some data' \<and> length data' = length data \<and>
    (\<forall>x < 8 * length data. bit_at data' x = (if f \<le> x div 8 \<and> x div 8 < l then v else bit_at data x))"
proof -
  let ?b = "if v then 0xFF else 0 :: byte"
  let ?d = "take f data @ replicate (l - f) ?b @ drop l data"
  have "write_block data f (replicate (l - f) ?b) = Some ?d" using assms by (simp add: write_block_def)
  moreover have "length ?d = length data" using assms by simp
  moreover have "bit_at ?d x = (if f \<le> x div 8 \<and> x div 8 < l then v else bit_at data x)" if "x < 8 * length data" for x
  proof -
    have "(0xFF::byte) = -1" by simp
    then have "bit ?b (x mod 8) = v" by (simp only: bit_minus_1_iff if_split) simp
    moreover have "?d ! (x div 8) = (if f \<le> x div 8 \<and> x div 8 < l then ?b else data ! (x div 8))"
      using assms that by (auto simp: nth_append)
    ultimately show ?thesis by (simp add: bit_at_def)
  qed
  ultimately show ?thesis by blast
qed

lemma position_cases:
  fixes x :: nat
  shows "start \<le> x \<and> x < stop \<longleftrightarrow>
    (start div 8 < x div 8 \<or> (start div 8 = x div 8 \<and> start mod 8 \<le> x mod 8)) \<and>
    (x div 8 < stop div 8 \<or> (x div 8 = stop div 8 \<and> x mod 8 < stop mod 8))"
proof -
  have lex: "8 * a + j \<le> 8 * b + k \<longleftrightarrow> a < b \<or> a = b \<and> j \<le> k" "8 * a + j < 8 * b + k \<longleftrightarrow> a < b \<or> a = b \<and> j < k"
    if "j < 8" "k < 8" for a b j k :: nat using that by linarith+
  have "start mod 8 < 8" "x mod 8 < 8" "stop mod 8 < 8" by simp_all
  then show ?thesis
    using lex(1) [of "start mod 8" "x mod 8" "start div 8" "x div 8"] lex(2) [of "x mod 8" "stop mod 8" "x div 8" "stop div 8"]
    by (simp only: mult_div_mod_eq)
qed

lemma set_range_spec:
  assumes "start + len < 8 * length (m_data bm)" "start + len < 2 ^ 64"
  shows "\<exists>data. set_range v bm start len = Some (bm\<lparr>m_data := data\<rparr>) \<and> length data = length (m_data bm) \<and>
    (\<forall>x < 8 * length data. bit_at data x = (if start \<le> x \<and> x < start + len then v else bit_at (m_data bm) x))"
proof (cases "len = 0")
  case True
  then show ?thesis by (auto simp: set_range_def intro!: exI [of _ "m_data bm"])
next
  case False
  let ?f = "start div 8" and ?l = "(start + len) div 8" and ?d = "m_data bm"
  let ?m = "bitmask_first_byte ! (start mod 8)" and ?m' = "bitmask_last_byte ! ((start + len) mod 8)"
  have fl: "?f \<le> ?l" "?l < length ?d" using assms by (auto intro: div_le_mono)
  have mask: "bit ?m (x mod 8) \<longleftrightarrow> start mod 8 \<le> x mod 8" "bit ?m' (x mod 8) \<longleftrightarrow> x mod 8 < (start + len) mod 8" for x
    by (simp_all add: bit_masks)
  show ?thesis
  proof (cases "?f = ?l")
    case True
    obtain d where d: "mask_byte v ?f (?m AND ?m') ?d = Some d" "length d = length ?d"
      "\<forall>x < 8 * length ?d. bit_at d x = (if x div 8 = ?f \<and> bit (?m AND ?m') (x mod 8) then v else bit_at ?d x)"
      using mask_byte_bits [of ?f ?d] fl by fastforce
    have "bit_at d x = (if start \<le> x \<and> x < start + len then v else bit_at ?d x)" if "x < 8 * length ?d" for x
      using d(3) that True unfolding position_cases [of start x "start + len"] by (auto simp: bit_and_iff mask)
    then show ?thesis using d(1,2) False True by (auto simp: set_range_def Let_def size_add_exact [OF assms(2)])
  next
    case diff: False
    obtain d1 where d1: "mask_byte v ?f ?m ?d = Some d1" "length d1 = length ?d"
      "\<forall>x < 8 * length ?d. bit_at d1 x = (if x div 8 = ?f \<and> bit ?m (x mod 8) then v else bit_at ?d x)"
      using mask_byte_bits [of ?f ?d] fl by fastforce
    obtain d2 where d2: "mask_byte v ?l ?m' d1 = Some d2" "length d2 = length ?d"
      "\<forall>x < 8 * length ?d. bit_at d2 x = (if x div 8 = ?l \<and> bit ?m' (x mod 8) then v else bit_at d1 x)"
      using mask_byte_bits [of ?l d1] fl d1(2) by fastforce
    obtain d3 where d3: "(if ?f + 1 < ?l then write_block d2 (?f + 1) (replicate (?l - (?f + 1)) (if v then 0xFF else 0)) else Some d2) = Some d3"
      "length d3 = length ?d"
      "\<forall>x < 8 * length ?d. bit_at d3 x = (if ?f + 1 \<le> x div 8 \<and> x div 8 < ?l then v else bit_at d2 x)"
    proof (cases "?f + 1 < ?l")
      case True
      then show ?thesis using that fill_bits [of "?f + 1" ?l d2 v] fl d2(2) by auto
    next
      case False
      then have "\<not> (?f + 1 \<le> x div 8 \<and> x div 8 < ?l)" for x by linarith
      then have "\<forall>x < 8 * length ?d. bit_at d2 x = (if ?f + 1 \<le> x div 8 \<and> x div 8 < ?l then v else bit_at d2 x)" by auto
      then show ?thesis by (intro that [of d2]) (use d2(2) False in simp_all)
    qed
    have "bit_at d3 x = (if start \<le> x \<and> x < start + len then v else bit_at ?d x)" if "x < 8 * length ?d" for x
      using d1(3) d2(3) d3(3) that fl(1) diff unfolding position_cases [of start x "start + len"] by (auto simp: mask)
    then show ?thesis using d1(1) d2(1) d3(1,2) False diff by (auto simp: set_range_def Let_def size_add_exact [OF assms(2)])
  qed
qed


section \<open>Counting\<close>

definition set_count :: "byte list \<Rightarrow> nat \<Rightarrow> nat \<Rightarrow> nat" where
  "set_count data a b = card {i. a \<le> i \<and> i < b \<and> bit_at data i}"

lemma finite_bits [simp]: "finite {i::nat. a \<le> i \<and> i < b \<and> P i}"
  by (rule finite_subset [of _ "{a..<b}"]) auto

lemma set_count_same [simp]: "set_count data a a = 0"
  by (simp add: set_count_def)

lemma set_count_split: "a \<le> b \<Longrightarrow> b \<le> c \<Longrightarrow> set_count data a c = set_count data a b + set_count data b c"
proof -
  assume "a \<le> b" "b \<le> c"
  then have "{i. a \<le> i \<and> i < c \<and> bit_at data i} = {i. a \<le> i \<and> i < b \<and> bit_at data i} \<union> {i. b \<le> i \<and> i < c \<and> bit_at data i}"
    by auto
  moreover have "{i. a \<le> i \<and> i < b \<and> bit_at data i} \<inter> {i. b \<le> i \<and> i < c \<and> bit_at data i} = {}" by auto
  ultimately show ?thesis unfolding set_count_def by (simp add: card_Un_disjoint)
qed

lemma popcount_card: "popcount (w :: 'a::len word) = card {j. j < LENGTH('a) \<and> bit w j}"
proof -
  have "popcount w = card (set (filter (\<lambda>i. bit w i) [0..<LENGTH('a)]))"
    by (subst distinct_card) (simp_all add: popcount_def bit_and_iff bit_drop_bit_eq bit_1_iff)
  also have "set (filter (\<lambda>i. bit w i) [0..<LENGTH('a)]) = {j. j < LENGTH('a) \<and> bit w j}" by auto
  finally show ?thesis .
qed

lemma popcount_shifted:
  assumes "\<And>j. j < LENGTH('a) \<Longrightarrow> bit (w :: 'a::len word) j \<longleftrightarrow> p + j \<in> S" "S \<subseteq> {p..<p + LENGTH('a)}"
  shows "popcount w = card S"
proof -
  have "(\<lambda>j. p + j) ` {j. j < LENGTH('a) \<and> bit w j} = S"
  proof (intro equalityI subsetI)
    fix x assume "x \<in> S"
    then have "p \<le> x" "x < p + LENGTH('a)" using assms(2) by auto
    then obtain j where "x = p + j" "j < LENGTH('a)" by (metis le_Suc_ex nat_add_left_cancel_less)
    then show "x \<in> (\<lambda>j. p + j) ` {j. j < LENGTH('a) \<and> bit w j}" using assms(1) \<open>x \<in> S\<close> by auto
  qed (use assms(1) in auto)
  then show ?thesis unfolding popcount_card by (metis card_image inj_on_add)
qed

lemma popcount_word: "get_u64 data p = Some w \<Longrightarrow> popcount w = set_count data (8 * p) (8 * p + 64)"
  unfolding set_count_def by (rule popcount_shifted [of _ "8 * p"]) (auto simp: get_u64_bit_at)

lemma popcount_masked:
  assumes "a \<le> b" "8 * k \<le> a" "b \<le> 8 * k + 8" "\<And>j. j < 8 \<Longrightarrow> bit m j \<longleftrightarrow> a \<le> 8 * k + j \<and> 8 * k + j < b"
  shows "popcount (data ! k AND m) = set_count data a b"
  unfolding set_count_def
proof (rule popcount_shifted [of _ "8 * k"])
  fix j assume "j < LENGTH(8)"
  then have "j < 8" by simp
  moreover from this have "(8 * k + j) div 8 = k" "(8 * k + j) mod 8 = j" by simp_all
  ultimately show "bit (data ! k AND m) j \<longleftrightarrow> 8 * k + j \<in> {i. a \<le> i \<and> i < b \<and> bit_at data i}"
    using assms(4) by (auto simp: bit_and_iff bit_at_def)
qed (use assms in auto)

lemma popcount_byte: "popcount (data ! k) = set_count data (8 * k) (8 * k + 8)"
  using popcount_masked [of "8 * k" "8 * k + 8" k "-1" data] by simp

lemma count_bytes_spec:
  "m_addr bm \<le> first \<Longrightarrow> first \<le> stop \<Longrightarrow> stop - m_addr bm \<le> length (m_data bm) \<Longrightarrow>
   count_bytes bm first stop n = Some (n + set_count (m_data bm) (8 * (first - m_addr bm)) (8 * (stop - m_addr bm)))"
proof (induction "stop - first" arbitrary: first n)
  case 0
  then show ?case by (subst count_bytes.simps) simp
next
  case (Suc d)
  let ?A = "m_addr bm" and ?p = "first - m_addr bm"
  have lt: "first < stop" "?p < length (m_data bm)" using Suc.hyps(2) Suc.prems by linarith+
  have next_p: "first + 1 - ?A = ?p + 1" using Suc.prems(1) by simp
  have "count_bytes bm first stop n = count_bytes bm (first + 1) stop (n + popcount (m_data bm ! ?p))"
    using lt by (subst count_bytes.simps) (simp add: mem_simps)
  also have "\<dots> = Some (n + popcount (m_data bm ! ?p) + set_count (m_data bm) (8 * (?p + 1)) (8 * (stop - ?A)))"
    using Suc.hyps(1) [of "first + 1"] Suc.hyps(2) Suc.prems lt unfolding next_p by simp
  also have "popcount (m_data bm ! ?p) = set_count (m_data bm) (8 * ?p) (8 * (?p + 1))"
    unfolding popcount_byte by (simp add: distrib_left add.commute)
  finally show ?case
    using set_count_split [of "8 * ?p" "8 * (?p + 1)" "8 * (stop - ?A)" "m_data bm"] lt Suc.prems(1) by simp
qed

lemma count_words_stop: "stop \<le> ptr \<Longrightarrow> count_words bm ptr stop n = Some (ptr, n)"
  by (subst count_words.simps) simp

lemma count_words_spec:
  "m_addr bm \<le> ptr \<Longrightarrow> stop = ptr + 8 * k \<Longrightarrow> stop - m_addr bm \<le> length (m_data bm) \<Longrightarrow>
   count_words bm ptr stop n = Some (stop, n + set_count (m_data bm) (8 * (ptr - m_addr bm)) (8 * (stop - m_addr bm)))"
proof (induction k arbitrary: ptr n)
  case 0
  then show ?case by (simp add: count_words_stop)
next
  case (Suc k)
  let ?A = "m_addr bm" and ?p = "ptr - m_addr bm"
  obtain w where w: "get_u64 (m_data bm) ?p = Some w"
    using get_u64_Some [of ?p "m_data bm"] Suc.prems by fastforce
  have next_p: "ptr + 8 - ?A = ?p + 8" using Suc.prems(1) by simp
  have "count_words bm ptr stop n = count_words bm (ptr + 8) stop (n + popcount w)"
    using w Suc.prems(2) by (subst count_words.simps) simp
  also have "\<dots> = Some (stop, n + popcount w + set_count (m_data bm) (8 * (?p + 8)) (8 * (stop - ?A)))"
    using Suc.IH [of "ptr + 8" "n + popcount w"] Suc.prems unfolding next_p by simp
  also have "popcount w = set_count (m_data bm) (8 * ?p) (8 * (?p + 8))" unfolding popcount_word [OF w] by (simp add: distrib_left)
  also have "n + set_count (m_data bm) (8 * ?p) (8 * (?p + 8)) + set_count (m_data bm) (8 * (?p + 8)) (8 * (stop - ?A)) =
      n + set_count (m_data bm) (8 * ?p) (8 * (stop - ?A))"
    unfolding add.assoc by (subst set_count_split [of "8 * ?p" "8 * (?p + 8)"]) (use Suc.prems in simp_all)
  finally show ?case .
qed

lemma count_middle_spec:
  assumes "m_addr bm \<le> first" "first \<le> lst" "lst - m_addr bm \<le> length (m_data bm)"
  shows "count_middle bm first lst n =
    Some (n + set_count (m_data bm) (8 * (first - m_addr bm)) (8 * (lst - m_addr bm)))"
proof (cases "first < lst")
  case True
  let ?A = "m_addr bm" and ?c = "set_count (m_data bm)"
  define ptr where "ptr = min (align_up8 first) lst"
  define mid where "mid = max ptr (align_down8 lst)"
  have up: "first \<le> align_up8 first" "align_down8 lst \<le> lst" by (auto simp: align_up8_def align_down8_def)
  have ptr: "first \<le> ptr" "ptr \<le> lst" "ptr \<le> mid" "mid \<le> lst" using up True by (auto simp: ptr_def mid_def)
  have "count_words bm ptr (align_down8 lst) m = Some (mid, m + ?c (8 * (ptr - ?A)) (8 * (mid - ?A)))" for m
  proof (cases "ptr < align_down8 lst")
    case lt: True
    then have "ptr = (first + 7) div 8 * 8" using up by (auto simp: ptr_def align_up8_def)
    then have "align_down8 lst = ptr + 8 * (lst div 8 - (first + 7) div 8)"
      using lt by (simp add: align_down8_def algebra_simps)
    moreover have "mid = align_down8 lst" using lt by (simp add: mid_def)
    moreover have "align_down8 lst - ?A \<le> length (m_data bm)" using up(2) assms(3) by linarith
    ultimately show ?thesis using count_words_spec [of bm ptr "align_down8 lst"] assms(1) ptr(1) by simp
  next
    case False
    then show ?thesis by (simp add: mid_def count_words_stop)
  qed
  moreover have "count_bytes bm first ptr n = Some (n + ?c (8 * (first - ?A)) (8 * (ptr - ?A)))"
    by (rule count_bytes_spec) (use assms ptr in simp_all)
  moreover have "count_bytes bm mid lst m = Some (m + ?c (8 * (mid - ?A)) (8 * (lst - ?A)))" for m
    by (rule count_bytes_spec) (use assms ptr in simp_all)
  moreover have "?c (8 * (first - ?A)) (8 * (lst - ?A)) =
      ?c (8 * (first - ?A)) (8 * (ptr - ?A)) + ?c (8 * (ptr - ?A)) (8 * (mid - ?A)) + ?c (8 * (mid - ?A)) (8 * (lst - ?A))"
    using ptr set_count_split [of "8 * (first - ?A)" "8 * (ptr - ?A)" "8 * (lst - ?A)" "m_data bm"]
      set_count_split [of "8 * (ptr - ?A)" "8 * (mid - ?A)" "8 * (lst - ?A)" "m_data bm"] by simp
  ultimately show ?thesis using True by (simp add: count_middle_def Let_def ptr_def [symmetric])
qed (use assms in \<open>simp add: count_middle_def\<close>)


lemma count_in_range_spec:
  assumes "start + len \<le> m_size bm" "8 dvd m_size bm" "m_size bm \<le> 8 * length (m_data bm)" "0 < len" "start + len < 2 ^ 64"
  shows "count_in_range bm start len v =
    Some (if v then set_count (m_data bm) start (start + len) else len - set_count (m_data bm) start (start + len))"
proof -
  let ?f = "start div 8" and ?l = "(start + len) div 8" and ?e = "start + len" and ?d = "m_data bm"
  let ?m = "bitmask_first_byte ! (start mod 8)" and ?m' = "bitmask_last_byte ! ((start + len) mod 8)"
  have fl: "?f \<le> ?l" "?f < length ?d" "?l \<le> length ?d" using assms by (auto intro: div_le_mono)
  have ld: "load ?d ?f = Some (?d ! ?f)" using fl(2) by (simp add: mem_simps)
  have first: "8 * ?f \<le> start" "start < 8 * ?f + 8" "8 * ?l \<le> ?e" "?e < 8 * ?l + 8"
    "start = 8 * ?f + start mod 8" "?e = 8 * ?l + ?e mod 8" by simp_all
  show ?thesis
  proof (cases "?f = ?l")
    case True
    have "popcount (?d ! ?f AND (?m AND ?m')) = set_count ?d start ?e"
    proof (rule popcount_masked)
      fix j :: nat assume "j < 8"
      then have b: "bit (?m AND ?m') j \<longleftrightarrow> start mod 8 \<le> j \<and> j < ?e mod 8" by (simp add: bit_and_iff bit_masks)
      show "bit (?m AND ?m') j \<longleftrightarrow> start \<le> 8 * ?f + j \<and> 8 * ?f + j < ?e"
        unfolding b using first(5,6) True by linarith
    qed (use first True in simp_all)
    then show ?thesis using ld True assms(4) by (simp add: count_in_range_def Let_def and.assoc size_add_exact [OF assms(5)])
  next
    case False
    then have lt: "?f < ?l" using fl(1) by simp
    have c1: "popcount (?d ! ?f AND ?m) = set_count ?d start (8 * (?f + 1))"
    proof (rule popcount_masked)
      fix j :: nat assume "j < 8"
      then have b: "bit ?m j \<longleftrightarrow> start mod 8 \<le> j" by (simp add: bit_masks)
      show "bit ?m j \<longleftrightarrow> start \<le> 8 * ?f + j \<and> 8 * ?f + j < 8 * (?f + 1)"
      proof -
        have "start \<le> 8 * ?f + j \<longleftrightarrow> start mod 8 \<le> j" using first(5) by linarith
        then show ?thesis unfolding b using \<open>j < 8\<close> by simp
      qed
    qed (use first in simp_all)
    have c2: "popcount (?d ! ?l AND ?m') = set_count ?d (8 * ?l) ?e"
    proof (rule popcount_masked)
      fix j :: nat assume "j < 8"
      then have b: "bit ?m' j \<longleftrightarrow> j < ?e mod 8" by (simp add: bit_masks)
      show "bit ?m' j \<longleftrightarrow> 8 * ?l \<le> 8 * ?l + j \<and> 8 * ?l + j < ?e"
        unfolding b using first(6) by linarith
    qed (use first in simp_all)
    have "(if ?l < size_in_bytes bm then map_option (\<lambda>b. popcount (?d ! ?f AND ?m) + popcount (b AND ?m')) (load ?d ?l)
        else Some (popcount (?d ! ?f AND ?m))) = Some (set_count ?d start (8 * (?f + 1)) + set_count ?d (8 * ?l) ?e)"
    proof (cases "?l < size_in_bytes bm")
      case True
      then have "?l < length ?d" using assms(2,3) by (auto simp: size_in_bytes_def)
      then show ?thesis using True c1 c2 by (simp add: mem_simps)
    next
      case False
      then have "8 * ?l = ?e" using assms(1,2) first(3,4) by (auto simp: size_in_bytes_def)
      then show ?thesis using False c1 by simp
    qed
    moreover have "count_middle bm (m_addr bm + ?f + 1) (m_addr bm + ?l) n = Some (n + set_count ?d (8 * (?f + 1)) (8 * ?l))" for n
      using count_middle_spec [of bm "m_addr bm + ?f + 1" "m_addr bm + ?l" n] lt fl(3) by (simp add: add.commute)
    moreover have "set_count ?d start ?e =
        set_count ?d start (8 * (?f + 1)) + set_count ?d (8 * ?l) ?e + set_count ?d (8 * (?f + 1)) (8 * ?l)"
    proof -
      have o: "start \<le> 8 * (?f + 1)" "8 * (?f + 1) \<le> 8 * ?l" "8 * ?l \<le> ?e" using first(2,3) lt by simp_all
      show ?thesis using set_count_split [OF o(1) order_trans [OF o(2,3)]] set_count_split [OF o(2,3)] by simp
    qed
    ultimately show ?thesis using ld False assms(4) unfolding count_in_range_def size_add_exact [OF assms(5)] Let_def by simp
  qed
qed


section \<open>Properties\<close>

text \<open>
  C20: a search for at least \<open>min_length\<close> unset bits from \<open>from\<close> on never reads outside the
  bitmap. It returns 0 only when no such range starts at \<open>from\<close> or behind it; otherwise it
  returns a length between the two limits and leaves in \<open>from\<close> the start of a range of that many
  unset bits inside the bitmap.
\<close>

theorem find_next_range_correct:
  assumes "0 < min_length" "min_length \<le> max_length" "m_size bm \<le> 8 * length (m_data bm)"
  shows "\<exists>r s. find_next_range_of_unset_bits bm from min_length max_length = Some (r, s) \<and>
    (r = 0 \<longrightarrow> (\<forall>t\<ge>from. t + min_length \<le> m_size bm \<longrightarrow> (\<exists>i\<ge>t. i < t + min_length \<and> bit_at (m_data bm) i))) \<and>
    (r \<noteq> 0 \<longrightarrow> min_length \<le> r \<and> r \<le> max_length \<and> s + r \<le> m_size bm \<and>
      (\<forall>i\<ge>s. i < s + r \<longrightarrow> \<not> bit_at (m_data bm) i))"
proof -
  obtain r s where f: "find_next_range_of_unset_bits bm from min_length max_length = Some (r, s)"
    "if r = 0 then no_range (unset bm) from min_length (m_size bm) else found_ok (unset bm) min_length max_length (m_size bm) s r"
    using find_next_range_spec [OF assms] by blast
  then show ?thesis by (cases "r = 0") (auto simp: no_range_def found_ok_def all_in_def)
qed

theorem find_next_range_correct_witness:
  "\<exists>r s. find_next_range_of_unset_bits \<lparr>m_data = replicate 8 0xF0, m_size = 64, m_addr = 0\<rparr> 3 2 4 = Some (r, s) \<and>
    (r \<noteq> 0 \<longrightarrow> 2 \<le> r \<and> r \<le> 4)"
  using find_next_range_correct [of 2 4 "\<lparr>m_data = replicate 8 0xF0, m_size = 64, m_addr = 0\<rparr>" 3] by auto

text \<open>
  In memory that extends past the bits it is given, \<open>set_range\<close> sets or clears exactly the
  bits of its range and leaves every other bit of the memory alone, and \<open>count_in_range\<close> returns
  how many bits of a range have the value asked for, whatever the alignment of the memory.
\<close>

theorem set_and_count_range:
  assumes "start + len < 8 * length (m_data bm)" "start + len < 2 ^ 64"
  shows "(\<exists>data. set_range v bm start len = Some (bm\<lparr>m_data := data\<rparr>) \<and> length data = length (m_data bm) \<and>
      (\<forall>x < 8 * length data. bit_at data x = (if start \<le> x \<and> x < start + len then v else bit_at (m_data bm) x))) \<and>
    (start + len \<le> m_size bm \<and> 8 dvd m_size bm \<and> m_size bm \<le> 8 * length (m_data bm) \<longrightarrow>
      count_in_range bm start len v = Some (card {i. start \<le> i \<and> i < start + len \<and> bit_at (m_data bm) i = v}))"
proof -
  let ?S = "{i. start \<le> i \<and> i < start + len \<and> bit_at (m_data bm) i}"
  let ?U = "{i. start \<le> i \<and> i < start + len \<and> \<not> bit_at (m_data bm) i}"
  have "?S \<union> ?U = {start..<start + len}" "?S \<inter> ?U = {}" by auto
  then have "card ?S + card ?U = len" by (metis card_Un_disjoint card_atLeastLessThan diff_add_inverse finite_bits)
  moreover have "count_in_range bm start 0 v = Some 0" by (simp add: count_in_range_def)
  ultimately show ?thesis
    using set_range_spec [OF assms, of v] count_in_range_spec [of start len bm v] assms(2)
    by (cases "len = 0"; cases v) (auto simp: set_count_def)
qed

theorem set_and_count_range_witness:
  "count_in_range \<lparr>m_data = replicate 9 0xF0, m_size = 64, m_addr = 3\<rparr> 5 40 True =
    Some (card {i. 5 \<le> i \<and> i < 45 \<and> bit_at (replicate 9 0xF0) i = True})"
  using set_and_count_range [of 5 40 "\<lparr>m_data = replicate 9 0xF0, m_size = 64, m_addr = 3\<rparr>" True] by simp

text \<open>
  Two facts the callers have to know: an empty first bucket is taken from its start, so that the
  range found may begin before \<open>from\<close>; and a range that ends with the memory makes
  \<open>set_range\<close> access the byte behind it, with an empty mask.
\<close>

lemma find_may_step_back:
  "find_next_range_of_unset_bits \<lparr>m_data = replicate 8 0, m_size = 64, m_addr = 0\<rparr> 5 1 1 = Some (1, 0)"
  by code_simp

lemma set_range_past_end:
  "start + len < 2 ^ 64 \<Longrightarrow> 0 < len \<Longrightarrow> start + len = 8 * length (m_data bm) \<Longrightarrow> set_range v bm start len = None"
proof -
  assume a: "start + len < 2 ^ 64" "0 < len" "start + len = 8 * length (m_data bm)"
  then have "(start + len) div 8 = length (m_data bm)" "start div 8 < length (m_data bm)" by auto
  then show ?thesis using a(2,3) size_add_exact [OF a(1)]
    by (auto simp: set_range_def Let_def mask_byte_def load_def store_def)
qed

end
