(* ===== verification/Bitmap_Test.thy ===== *)
theory Bitmap_Test
  imports Bitmap_Correct
begin

text \<open>
  The self test \<open>Allocator::TestBitmap\<close> of the bitmap, which evaluates to \<open>TRUE\<close> wherever its
  buffer is placed. The searches are evaluated; the counts follow from the correctness of
  \<open>count_in_range\<close> and the bytes of the buffer.
\<close>

definition test_data :: "byte list" where
  "test_data = [0xC4] @ replicate 99 0xFF @ [0x3F, 0xFE] @ replicate 153 0xFF @ [0x7F]"

definition test_bitmap :: "nat \<Rightarrow> SerenityOSBitmap" where
  "test_bitmap addr = \<lparr>m_data = test_data, m_size = 2048, m_addr = addr\<rparr>"

lemma test_ranges:
  "set_range True \<lparr>m_data = replicate 256 0, m_size = 2048, m_addr = addr\<rparr> 2 1 =
     Some \<lparr>m_data = 4 # replicate 255 0, m_size = 2048, m_addr = addr\<rparr>"
  "set_range True \<lparr>m_data = 4 # replicate 255 0, m_size = 2048, m_addr = addr\<rparr> 6 800 =
     Some \<lparr>m_data = [0xC4] @ replicate 99 0xFF @ [0x3F] @ replicate 155 0, m_size = 2048, m_addr = addr\<rparr>"
  "set_range True \<lparr>m_data = [0xC4] @ replicate 99 0xFF @ [0x3F] @ replicate 155 0, m_size = 2048, m_addr = addr\<rparr> 809 1238 =
     Some (test_bitmap addr)"
  by code_simp+

lemma test_search1: "expect_range (test_bitmap addr) 0 4 0 2047" by code_simp
lemma test_search2: "expect_range (test_bitmap addr) 0 3 3 3" by code_simp
lemma test_search3: "expect_range (test_bitmap addr) (3 + 2) 2 2 806" by code_simp
lemma test_search4: "expect_range (test_bitmap addr) 600 1 1 806" by code_simp
lemma test_search5: "expect_range (test_bitmap addr) (806 + 1) 1 1 807" by code_simp
lemma test_search6: "expect_range (test_bitmap addr) (807 + 1) 1 1 808" by code_simp
lemma test_search7: "expect_range (test_bitmap addr) (808 + 1) 1 1 2047" by code_simp

lemma set_count_all: "set_count data 0 (8 * n) = sum_list (map popcount (take n data))" if "n \<le> length data"
  using that
proof (induction n)
  case (Suc n)
  have "set_count data 0 (8 * Suc n) = set_count data 0 (8 * n) + popcount (data ! n)"
    unfolding popcount_byte using set_count_split [of 0 "8 * n" "8 * Suc n" data] by (simp add: add.commute)
  then show ?case using Suc by (simp add: take_Suc_conv_app_nth)
qed simp

lemma test_counts:
  "set_count test_data 0 2048 = 2039"
  "set_count test_data 1 2047 = 2039"
proof -
  have pop: "popcount (0xC4::byte) = 3" "popcount (0xFF::byte) = 8" "popcount (0x3F::byte) = 6" "popcount (0xFE::byte) = 7" "popcount (0x7F::byte) = 7"
    by code_simp+
  have len: "length test_data = 256" by (simp add: test_data_def)
  show all: "set_count test_data 0 2048 = 2039"
    using set_count_all [of 256 test_data] len by (simp add: test_data_def pop sum_list_replicate)
  have "\<not> bit_at test_data 0" "\<not> bit_at test_data 2047" by code_simp+
  then have "{i. i < 1 \<and> bit_at test_data i} = {}" "{i. 2047 \<le> i \<and> i < 2048 \<and> bit_at test_data i} = {}"
    by (auto simp: less_Suc_eq le_eq_less_or_eq)
  then have "set_count test_data 0 1 = 0" "set_count test_data 2047 2048 = 0" by (simp_all add: set_count_def)
  then show "set_count test_data 1 2047 = 2039"
    using all set_count_split [of 0 1 2048 test_data] set_count_split [of 1 2047 2048 test_data] by simp
qed


text \<open>
  The self test of the bitmap returns \<open>TRUE\<close>, without leaving its buffer, for every address
  of that buffer: the counts and the seven searches have the values it expects.
\<close>

theorem TestBitmap_passes: "TestBitmap addr = Some True"
proof -
  have "8 * length test_data = 2048" by (simp add: test_data_def)
  then have "count_in_range (test_bitmap addr) 0 2048 False = Some 9" "count_in_range (test_bitmap addr) 1 2046 False = Some 7"
    using count_in_range_spec [of 0 2048 "test_bitmap addr" False] count_in_range_spec [of 1 2046 "test_bitmap addr" False] test_counts
    by (simp_all add: test_bitmap_def)
  moreover have "m_size (test_bitmap addr) = 2048" by (simp add: test_bitmap_def)
  ultimately show ?thesis
    using test_ranges [of addr] test_search1 test_search2 test_search3 test_search4 test_search5 test_search6 test_search7
    by (simp add: TestBitmap_def Let_def)
qed

end
