(* ===== verification/Allocator.thy ===== *)
theory Allocator
  imports Bitmap
begin

text \<open>
  The memory allocator of \<open>BugChecker/Allocator.cpp\<close>, used while the kernel is stopped: an arena of
  fixed-size blocks, a bitmap of the blocks in use, and the number of blocks of an allocation in a
  header in front of it, together with the operators \<open>new\<close> and \<open>delete\<close> that choose between it
  and the pool of the kernel (constants of the 64-bit build). \<open>FatalError\<close> never returns: it is an
  error with its message, as is an access outside the memory of the arena or of the bitmap. Pointers
  are natural numbers, the arena being far from the end of the address space.
\<close>

section \<open>The model\<close>

definition ArenaSize :: nat where "ArenaSize = 13 * 1024 * 1024"
definition BlockSize :: nat where "BlockSize = 64"
definition HeaderSize :: nat where "HeaderSize = 16"
definition BlocksNum :: nat where "BlocksNum = ArenaSize div BlockSize"
definition BitmapSize :: nat where "BitmapSize = BlocksNum div 8"

lemmas alloc_consts = ArenaSize_def BlockSize_def HeaderSize_def BlocksNum_def BitmapSize_def

datatype alloc_error = FatalError string | BadAccess

record Allocator =
  Arena :: nat
  arena_mem :: "byte list"
  bitmap :: SerenityOSBitmap
  ForceUse :: bool
  Start0to99 :: nat
  Perf_AllocationsNum :: u64
  Perf_TotalAllocatedSize :: u64

text \<open>
  \<open>Init\<close> takes its memory from the pool, whose state is threaded through; the pool returns an address
  and the memory there.
\<close>

type_synonym 'p pool_alloc = "nat \<Rightarrow> 'p \<Rightarrow> (nat \<times> byte list) option \<times> 'p"

definition Init :: "'p pool_alloc \<Rightarrow> 'p \<Rightarrow> Allocator \<Rightarrow> (alloc_error + Allocator) \<times> 'p" where
  "Init ExAllocatePool p st =
     (case ExAllocatePool ArenaSize p of
        (a, p) \<Rightarrow>
          (case ExAllocatePool BitmapSize p of
             (b, p) \<Rightarrow>
               (case (a, b) of
                  (Some (arena, amem), Some (bits, bmem)) \<Rightarrow>
                    (case (write_block amem 0 (replicate ArenaSize 0), write_block bmem 0 (replicate BitmapSize 0)) of
                       (Some amem, Some bmem) \<Rightarrow>
                         (Inr (st\<lparr>Arena := arena, arena_mem := amem,
                            bitmap := \<lparr>m_data = bmem, m_size = BlocksNum, m_addr = bits\<rparr>\<rparr>), p)
                     | _ \<Rightarrow> (Inl BadAccess, p))
                | _ \<Rightarrow> (Inl BadAccess, p))))"

definition Uninit :: "(nat \<Rightarrow> 'p \<Rightarrow> 'p) \<Rightarrow> 'p \<Rightarrow> Allocator \<Rightarrow> Allocator \<times> 'p" where
  "Uninit ExFreePool p st =
     (let p = (if Arena st \<noteq> 0 then ExFreePool (Arena st) p else p);
          p = (if m_addr (bitmap st) \<noteq> 0 then ExFreePool (m_addr (bitmap st)) p else p)
      in (st\<lparr>Arena := 0, arena_mem := [], bitmap := \<lparr>m_data = [], m_size = 0, m_addr = 0\<rparr>\<rparr>, p))"

definition blocks_for :: "u64 \<Rightarrow> nat" where
  "blocks_for size0 =
     (let sz = unat (size0 + word_of_nat HeaderSize)
      in sz div BlockSize + (if sz mod BlockSize \<noteq> 0 then 1 else 0))"

definition Alloc :: "u64 \<Rightarrow> Allocator \<Rightarrow> alloc_error + (nat \<times> Allocator)" where
  "Alloc size0 st =
     (let sizeInBits = blocks_for size0 in
      case find_next_range_of_unset_bits (bitmap st) (BlocksNum * Start0to99 st div 100) sizeInBits sizeInBits of
        None \<Rightarrow> Inl BadAccess
      | Some (r, block) \<Rightarrow>
          if r \<noteq> sizeInBits then Inl (FatalError ''INTERNAL_ALLOCATOR_OUT_OF_MEMORY'')
          else if block + sizeInBits > BlocksNum then Inl (FatalError ''INTERNAL_ALLOCATOR_OUT_OF_MEMORY'')
          else
            (case set_range True (bitmap st) block sizeInBits of
               None \<Rightarrow> Inl BadAccess
             | Some bm \<Rightarrow>
                 (case put_u64 (arena_mem st) (block * BlockSize) (word_of_nat sizeInBits) of
                    None \<Rightarrow> Inl BadAccess
                  | Some mem \<Rightarrow>
                      Inr (Arena st + block * BlockSize + HeaderSize,
                        st\<lparr>bitmap := bm, arena_mem := mem,
                           Perf_AllocationsNum := Perf_AllocationsNum st + 1,
                           Perf_TotalAllocatedSize :=
                             Perf_TotalAllocatedSize st + word_of_nat (sizeInBits * BlockSize)\<rparr>))))"

definition outside_arena :: "nat \<Rightarrow> Allocator \<Rightarrow> bool" where
  "outside_arena ptr st \<longleftrightarrow> ptr < Arena st \<or> ptr \<ge> Arena st + ArenaSize"

text \<open>The header of an allocation: its number of blocks, and the number of its first block.\<close>

definition read_header :: "nat \<Rightarrow> Allocator \<Rightarrow> (nat \<times> nat) option" where
  "read_header ptr st =
     (if ptr < Arena st + HeaderSize then None
      else map_option (\<lambda>w. (unat w, (ptr - Arena st) div BlockSize))
             (get_u64 (arena_mem st) (ptr - HeaderSize - Arena st)))"

definition Free :: "nat \<Rightarrow> Allocator \<Rightarrow> alloc_error + Allocator" where
  "Free ptr st =
     (if outside_arena ptr st then Inl (FatalError ''FREE_OF_NON_ALLOCATOR_MEMORY'')
      else
        (case read_header ptr st of
           None \<Rightarrow> Inl BadAccess
         | Some (sizeInBits, block) \<Rightarrow>
             if sizeInBits = 0 \<or> size_add block sizeInBits > BlocksNum then Inl (FatalError ''FREE_OF_WRONG_POINTER'')
             else
               (case set_range False (bitmap st) block sizeInBits of
                  None \<Rightarrow> Inl BadAccess
                | Some bm \<Rightarrow>
                    Inr (st\<lparr>bitmap := bm,
                      Perf_AllocationsNum := Perf_AllocationsNum st - 1,
                      Perf_TotalAllocatedSize :=
                        Perf_TotalAllocatedSize st - word_of_nat (sizeInBits * BlockSize)\<rparr>))))"

definition IsPtrInArena :: "nat \<Rightarrow> Allocator \<Rightarrow> bool" where
  "IsPtrInArena ptr st \<longleftrightarrow> \<not> (Arena st = 0 \<or> outside_arena ptr st)"

definition UserSizeInBytes :: "nat \<Rightarrow> Allocator \<Rightarrow> alloc_error + u64" where
  "UserSizeInBytes ptr st =
     (if outside_arena ptr st then Inl (FatalError ''USERSIZEINBYTES_OF_NON_ALLOCATOR_MEMORY'')
      else
        (case read_header ptr st of
           None \<Rightarrow> Inl BadAccess
         | Some (sizeInBits, block) \<Rightarrow>
             if sizeInBits = 0 \<or> size_add block sizeInBits > BlocksNum then Inl (FatalError ''USERSIZEINBYTES_OF_WRONG_POINTER'')
             else Inr (word_of_nat (sizeInBits * BlockSize) - word_of_nat HeaderSize)))"

definition GetSetBitsNumInBitmap :: "Allocator \<Rightarrow> nat option" where
  "GetSetBitsNumInBitmap st = count_in_range (bitmap st) 0 (m_size (bitmap st)) True"

fun pool_map_loop :: "SerenityOSBitmap \<Rightarrow> nat \<Rightarrow> nat \<Rightarrow> nat \<Rightarrow> nat list option" where
  "pool_map_loop bm bitsNum i 0 = Some []"
| "pool_map_loop bm bitsNum i (Suc n) =
     (case count_in_range bm (i * bitsNum) bitsNum True of
        None \<Rightarrow> None
      | Some bitsTrue \<Rightarrow>
          map_option ((#) (if bitsTrue = 0 then 65 else (90 - 66) * bitsTrue div bitsNum + 66))
            (pool_map_loop bm bitsNum (i + 1) n))"

text \<open>The characters stored in \<open>out\<close>, the terminator included, for a positive \<open>num\<close>.\<close>

definition GetPoolMap :: "Allocator \<Rightarrow> nat \<Rightarrow> nat list option" where
  "GetPoolMap st num =
     map_option (\<lambda>cs. cs @ [0]) (pool_map_loop (bitmap st) (m_size (bitmap st) div num) 0 num)"

section \<open>The operators new and delete\<close>

text \<open>
  What the processor and the kernel tell: whether interrupts are enabled and the current interrupt
  level, and the pool.
\<close>

record 'p kernel =
  AreInterruptsEnabled :: bool
  GetCurrentIrql :: nat
  pool :: 'p

definition DISPATCH_LEVEL :: nat where
  "DISPATCH_LEVEL = 2"

definition MustUseExXxxPool :: "'p kernel \<Rightarrow> Allocator \<Rightarrow> bool" where
  "MustUseExXxxPool k st \<longleftrightarrow> \<not> ForceUse st \<and> AreInterruptsEnabled k \<and> GetCurrentIrql k \<le> DISPATCH_LEVEL"

definition op_new ::
  "(nat \<Rightarrow> 'p \<Rightarrow> nat option \<times> 'p) \<Rightarrow> u64 \<Rightarrow> 'p kernel \<times> Allocator \<Rightarrow> alloc_error + (nat \<times> 'p kernel \<times> Allocator)" where
  "op_new ExAllocatePool cnt s =
     (case s of (k, st) \<Rightarrow>
        if MustUseExXxxPool k st then
          (case ExAllocatePool (unat cnt) (pool k) of
             (None, p) \<Rightarrow> Inl (FatalError ''EXALLOCATEPOOL_OUT_OF_MEMORY'')
           | (Some ptr, p) \<Rightarrow> Inr (ptr, k\<lparr>pool := p\<rparr>, st))
        else
          (case Alloc cnt st of
             Inl e \<Rightarrow> Inl e
           | Inr (ptr, st) \<Rightarrow> Inr (ptr, k, st)))"

definition op_delete ::
  "(nat \<Rightarrow> 'p \<Rightarrow> 'p) \<Rightarrow> nat \<Rightarrow> 'p kernel \<times> Allocator \<Rightarrow> alloc_error + ('p kernel \<times> Allocator)" where
  "op_delete ExFreePool address s =
     (case s of (k, st) \<Rightarrow>
        if \<not> IsPtrInArena address st then
          (if MustUseExXxxPool k st then Inr (k\<lparr>pool := ExFreePool address (pool k)\<rparr>, st)
           else Inl (FatalError ''EXFREEPOOL_IN_DEBUGGER_CONTEXT''))
        else (case Free address st of Inl e \<Rightarrow> Inl e | Inr st \<Rightarrow> Inr (k, st)))"

end
