(* ===== verification/Allocator_Correct.thy ===== *)
theory Allocator_Correct
  imports Allocator Bitmap_Correct
begin

text \<open>
  Correctness of the debugger's allocator: the blocks in use are exactly those the bitmap marks, they
  are disjoint and their headers intact, through any sequence of allocations, releases and writes of
  the clients into their own memory; nothing leaks. The contract of an allocator is stated as a
  locale, with what follows for its clients, and is interpreted on the model.
\<close>

section \<open>The contract of an allocator\<close>

text \<open>
  A request for memory, the release of a pointer, or a write of bytes at an offset into the memory
  of a pointer; requests about pointers that are not live are skipped.
\<close>

datatype request = New u64 | Delete nat | Write nat nat "byte list"

fun serve :: "(u64 \<Rightarrow> 's \<Rightarrow> 'e + (nat \<times> 's)) \<Rightarrow> (nat \<Rightarrow> 's \<Rightarrow> 'e + 's) \<Rightarrow> (nat \<Rightarrow> byte list \<Rightarrow> 's \<Rightarrow> 's) \<Rightarrow>
    (nat \<Rightarrow> 's \<Rightarrow> nat) \<Rightarrow> request list \<Rightarrow> nat list \<times> 's \<Rightarrow> 'e + (nat list \<times> 's)" where
  "serve alloc free poke sz [] s = Inr s"
| "serve alloc free poke sz (New k # rs) (ps, s) =
     (case alloc k s of Inl e \<Rightarrow> Inl e | Inr (p, s') \<Rightarrow> serve alloc free poke sz rs (p # ps, s'))"
| "serve alloc free poke sz (Delete p # rs) (ps, s) =
     (if p \<in> set ps
      then (case free p s of Inl e \<Rightarrow> Inl e | Inr s' \<Rightarrow> serve alloc free poke sz rs (remove1 p ps, s'))
      else serve alloc free poke sz rs (ps, s))"
| "serve alloc free poke sz (Write p off xs # rs) (ps, s) =
     (if p \<in> set ps \<and> off + length xs \<le> sz p s
      then serve alloc free poke sz rs (ps, poke (p + off) xs s)
      else serve alloc free poke sz rs (ps, s))"

locale region_allocator =
  fixes inv :: "'s \<Rightarrow> (nat \<rightharpoonup> nat) \<Rightarrow> bool"
    and alloc :: "u64 \<Rightarrow> 's \<Rightarrow> 'e + (nat \<times> 's)"
    and free :: "nat \<Rightarrow> 's \<Rightarrow> 'e + 's"
    and poke :: "nat \<Rightarrow> byte list \<Rightarrow> 's \<Rightarrow> 's"
    and contents :: "nat \<Rightarrow> nat \<Rightarrow> 's \<Rightarrow> byte list option"
    and user_size :: "nat \<Rightarrow> 's \<Rightarrow> nat"
    and fits :: "u64 \<Rightarrow> bool"
    and refused :: "u64 \<Rightarrow> 's \<Rightarrow> 'e \<Rightarrow> bool"
  assumes disjoint: "inv s R \<Longrightarrow> R p = Some m \<Longrightarrow> R q = Some m' \<Longrightarrow> p \<noteq> q \<Longrightarrow> p + m \<le> q \<or> q + m' \<le> p"
    and size_law: "inv s R \<Longrightarrow> R p = Some m \<Longrightarrow> user_size p s = m"
    and alloc_error: "inv s R \<Longrightarrow> fits k \<Longrightarrow> alloc k s = Inl e \<Longrightarrow> refused k s e"
    and alloc_law: "inv s R \<Longrightarrow> fits k \<Longrightarrow> alloc k s = Inr (p, s') \<Longrightarrow>
      \<exists>m. unat k \<le> m \<and> R p = None \<and> inv s' (R(p \<mapsto> m)) \<and>
        (\<forall>q m'. R q = Some m' \<longrightarrow> contents q m' s' = contents q m' s)"
    and free_law: "inv s R \<Longrightarrow> R p = Some m \<Longrightarrow>
      \<exists>s'. free p s = Inr s' \<and> inv s' (R(p := None)) \<and>
        (\<forall>q m'. R q = Some m' \<longrightarrow> contents q m' s' = contents q m' s)"
    and poke_law: "inv s R \<Longrightarrow> R p = Some m \<Longrightarrow> off + length xs \<le> m \<Longrightarrow>
      inv (poke (p + off) xs s) R \<and> contents (p + off) (length xs) (poke (p + off) xs s) = Some xs \<and>
        (\<forall>q m'. R q = Some m' \<and> q \<noteq> p \<longrightarrow> contents q m' (poke (p + off) xs s) = contents q m' s)"
begin

abbreviation fitting :: "request list \<Rightarrow> bool" where
  "fitting rs \<equiv> (\<forall>k. New k \<in> set rs \<longrightarrow> fits k)"

abbreviation run :: "request list \<Rightarrow> nat list \<times> 's \<Rightarrow> 'e + (nat list \<times> 's)" where
  "run \<equiv> serve alloc free poke user_size"

text \<open>
  Every sequence of requests keeps the invariant, and stops early only at an allocation that the
  allocator refuses in the state reached by then.
\<close>

abbreviation stops_refused :: "request list \<Rightarrow> nat list \<times> 's \<Rightarrow> 'e \<Rightarrow> bool" where
  "stops_refused rs s e \<equiv> (\<exists>served k later ps' s'. rs = served @ New k # later \<and>
     run served s = Inr (ps', s') \<and> alloc k s' = Inl e \<and> refused k s' e)"

lemma stops_later:
  assumes "stops_refused rs s1 e" "\<And>qs. run (r # qs) s = run qs s1"
  shows "stops_refused (r # rs) s e"
proof -
  obtain served k later ps' s' where s: "rs = served @ New k # later" "run served s1 = Inr (ps', s')"
    "alloc k s' = Inl e" "refused k s' e" using assms(1) by blast
  then have "r # rs = (r # served) @ New k # later" "run (r # served) s = Inr (ps', s')" using assms(2) by simp_all
  then show ?thesis using s(3,4) by blast
qed

abbreviation session_ok :: "request list \<Rightarrow> nat list \<times> 's \<Rightarrow> bool" where
  "session_ok rs s \<equiv> (case run rs s of Inl e \<Rightarrow> stops_refused rs s e
     | Inr (ps', s') \<Rightarrow> \<exists>R'. inv s' R' \<and> dom R' = set ps' \<and> distinct ps')"

lemma session_step: "session_ok rs s1 \<Longrightarrow> (\<And>qs. run (r # qs) s = run qs s1) \<Longrightarrow> session_ok (r # rs) s"
  using stops_later [of rs s1 _ r s] by (cases "run rs s1") (simp_all del: serve.simps)

lemma serve_keeps:
  "inv s R \<Longrightarrow> dom R = set ps \<Longrightarrow> distinct ps \<Longrightarrow> fitting rs \<Longrightarrow> session_ok rs (ps, s)"
proof (induction rs arbitrary: ps s R)
  case (Cons r rs)
  have fit: "fitting rs" using Cons.prems(4) by simp
  have same: "session_ok rs (ps, s)" by (rule Cons.IH [OF Cons.prems(1-3) fit])
  show ?case
  proof (cases r)
    case (New k)
    show ?thesis
    proof (cases "alloc k s")
      case (Inl e)
      then have "refused k s e" using New Cons.prems alloc_error by auto
      then have "r # rs = [] @ New k # rs \<and> run [] (ps, s) = Inr (ps, s) \<and> alloc k s = Inl e \<and> refused k s e"
        using Inl New by simp
      then have "stops_refused (r # rs) (ps, s) e" by blast
      then show ?thesis using Inl New by simp
    next
      case (Inr ps1)
      then obtain p s1 where a: "alloc k s = Inr (p, s1)" by (cases ps1) auto
      then obtain m where m: "R p = None" "inv s1 (R(p \<mapsto> m))" using alloc_law Cons.prems New by fastforce
      have "p \<notin> set ps" "dom (R(p \<mapsto> m)) = set (p # ps)" using m(1) Cons.prems(2) by auto
      then have "session_ok rs (p # ps, s1)" using Cons.IH [OF m(2)] Cons.prems(3) fit by (simp del: fun_upd_apply)
      then show ?thesis by (rule session_step) (simp add: New a)
    qed
  next
    case (Delete p)
    show ?thesis
    proof (cases "p \<in> set ps")
      case True
      then obtain m where "R p = Some m" using Cons.prems(2) by auto
      then obtain s1 where s1: "free p s = Inr s1" "inv s1 (R(p := None))" using free_law Cons.prems(1) by blast
      have "dom (R(p := None)) = set (remove1 p ps)" using Cons.prems(2,3) by (simp add: set_remove1_eq)
      then have "session_ok rs (remove1 p ps, s1)" using Cons.IH [OF s1(2)] Cons.prems(3) fit by (simp del: fun_upd_apply)
      then show ?thesis by (rule session_step) (simp add: Delete True s1(1))
    next
      case False
      show ?thesis by (rule session_step [OF same]) (simp add: Delete False)
    qed
  next
    case (Write p off xs)
    show ?thesis
    proof (cases "p \<in> set ps \<and> off + length xs \<le> user_size p s")
      case True
      then obtain m where m: "R p = Some m" using Cons.prems(2) by auto
      then have "inv (poke (p + off) xs s) R" using poke_law True size_law Cons.prems(1) by auto
      from Cons.IH [OF this Cons.prems(2,3) fit] show ?thesis by (rule session_step) (simp add: Write True)
    next
      case False
      show ?thesis by (rule session_step [OF same]) (use Write False in auto)
    qed
  qed
qed auto

text \<open>The memory of a pointer that is neither released nor written to keeps its contents.\<close>

lemma serve_frame:
  "inv s R \<Longrightarrow> dom R = set ps \<Longrightarrow> distinct ps \<Longrightarrow> fitting rs \<Longrightarrow> R q = Some n \<Longrightarrow>
   Delete q \<notin> set rs \<Longrightarrow> (\<forall>off xs. Write q off xs \<notin> set rs) \<Longrightarrow> run rs (ps, s) = Inr (ps', s') \<Longrightarrow>
   \<exists>R'. inv s' R' \<and> dom R' = set ps' \<and> distinct ps' \<and> R' q = Some n \<and> contents q n s' = contents q n s"
proof (induction rs arbitrary: ps s R)
  case (Cons r rs)
  have fit: "fitting rs" and noq: "Delete q \<notin> set rs" "\<forall>off xs. Write q off xs \<notin> set rs" using Cons.prems by auto
  show ?case
  proof (cases r)
    case (New k)
    obtain p s1 where a: "alloc k s = Inr (p, s1)"
      using Cons.prems(8) New by (cases "alloc k s") auto
    then obtain m where m: "R p = None" "inv s1 (R(p \<mapsto> m))" "contents q n s1 = contents q n s"
      using alloc_law Cons.prems(1,4,5) New by fastforce
    have "p \<notin> set ps" "(R(p \<mapsto> m)) q = Some n" "dom (R(p \<mapsto> m)) = set (p # ps)" using m(1) Cons.prems(2,5) by auto
    then show ?thesis
      using Cons.IH [OF m(2), of "p # ps"] Cons.prems(3,8) fit noq New a m(3) by (simp del: fun_upd_apply)
  next
    case (Delete p)
    show ?thesis
    proof (cases "p \<in> set ps")
      case True
      then obtain m where "R p = Some m" using Cons.prems(2) by auto
      then obtain s1 where s1: "free p s = Inr s1" "inv s1 (R(p := None))" "contents q n s1 = contents q n s"
        using free_law Cons.prems(1,5) by blast
      have "dom (R(p := None)) = set (remove1 p ps)" using Cons.prems(2,3) by (simp add: set_remove1_eq)
      moreover have "(R(p := None)) q = Some n" using Cons.prems(5,6) Delete by auto
      ultimately show ?thesis
        using Cons.IH [OF s1(2), of "remove1 p ps"] Cons.prems(3,8) fit noq Delete True s1(1,3) by (simp del: fun_upd_apply)
    next
      case False
      then show ?thesis using Cons.IH [OF Cons.prems(1-3) fit Cons.prems(5) noq] Cons.prems(8) Delete by simp
    qed
  next
    case (Write p off xs)
    show ?thesis
    proof (cases "p \<in> set ps \<and> off + length xs \<le> user_size p s")
      case True
      then obtain m where m: "R p = Some m" using Cons.prems(2) by auto
      have "q \<noteq> p" using Write Cons.prems(7) by auto
      then have s1: "inv (poke (p + off) xs s) R" "contents q n (poke (p + off) xs s) = contents q n s"
        using poke_law [OF Cons.prems(1) m] True size_law [OF Cons.prems(1) m] Cons.prems(5) by auto
      show ?thesis
        using Cons.IH [OF s1(1) Cons.prems(2,3) fit Cons.prems(5) noq] Cons.prems(8) Write True s1(2) by simp
    next
      case False
      then show ?thesis using Cons.IH [OF Cons.prems(1-3) fit Cons.prems(5) noq] Cons.prems(8) Write by auto
    qed
  qed
qed auto

end

section \<open>The invariant of the arena\<close>

text \<open>
  \<open>L\<close> maps the first block of every live allocation to its number of blocks. The pool gives at
  least the memory asked for, and may give no byte more: then \<open>set_range\<close> would access the byte
  behind the bitmap for an allocation that ends with the last block, so that none such is live.
\<close>

definition covered :: "(nat \<rightharpoonup> nat) \<Rightarrow> nat \<Rightarrow> bool" where
  "covered L i \<longleftrightarrow> (\<exists>b n. L b = Some n \<and> b \<le> i \<and> i < b + n)"

definition blocks_disjoint :: "(nat \<rightharpoonup> nat) \<Rightarrow> bool" where
  "blocks_disjoint L \<longleftrightarrow> (\<forall>b n c m. L b = Some n \<and> L c = Some m \<and> b \<noteq> c \<longrightarrow> b + n \<le> c \<or> c + m \<le> b)"

definition arena_shape :: "Allocator \<Rightarrow> bool" where
  "arena_shape st \<longleftrightarrow> ArenaSize \<le> length (arena_mem st) \<and> m_size (bitmap st) = BlocksNum \<and>
     BitmapSize \<le> length (m_data (bitmap st)) \<and> length (m_data (bitmap st)) < 2 ^ 60"

definition arena_inv :: "Allocator \<Rightarrow> (nat \<rightharpoonup> nat) \<Rightarrow> bool" where
  "arena_inv st L \<longleftrightarrow> arena_shape st \<and> finite (dom L) \<and> blocks_disjoint L \<and>
     (\<forall>b n. L b = Some n \<longrightarrow> 0 < n \<and> b + n \<le> BlocksNum \<and> b + n < 8 * length (m_data (bitmap st)) \<and>
        get_u64 (arena_mem st) (b * BlockSize) = Some (word_of_nat n)) \<and>
     (\<forall>i < BlocksNum. bit_at (m_data (bitmap st)) i \<longleftrightarrow> covered L i) \<and>
     Perf_AllocationsNum st = word_of_nat (card (dom L)) \<and>
     Perf_TotalAllocatedSize st = word_of_nat (\<Sum>b\<in>dom L. the (L b) * BlockSize)"

lemma BlocksNum_eq: "BlocksNum = 212992" "BitmapSize = 26624" "ArenaSize = 13631488" "BlocksNum * BlockSize = ArenaSize"
  "8 * BitmapSize = BlocksNum"
  by (simp_all add: alloc_consts)

lemma blocks_for_bounds:
  assumes "unat k + 16 < 2 ^ 64"
  shows "0 < blocks_for k" "unat k + HeaderSize \<le> blocks_for k * BlockSize" "blocks_for k * BlockSize < unat k + HeaderSize + BlockSize"
proof -
  have "unat (k + word_of_nat HeaderSize) = unat k + 16"
    using assms by (simp add: HeaderSize_def unat_word_ariths)
  then have b: "blocks_for k = (unat k + 16) div 64 + (if (unat k + 16) mod 64 \<noteq> 0 then 1 else 0)"
    by (simp add: blocks_for_def Let_def BlockSize_def)
  define q r where "q = (unat k + 16) div 64" and "r = (unat k + 16) mod 64"
  have d: "unat k + 16 = 64 * q + r" "r < 64" "blocks_for k = q + (if r \<noteq> 0 then 1 else 0)" by (simp_all add: q_def r_def b)
  show "unat k + HeaderSize \<le> blocks_for k * BlockSize" "blocks_for k * BlockSize < unat k + HeaderSize + BlockSize"
    using d by (auto simp: HeaderSize_def BlockSize_def)
  then show "0 < blocks_for k" by (cases "blocks_for k") (simp_all add: HeaderSize_def)
qed

lemma disjoint_insert:
  assumes "blocks_disjoint L" "\<And>i. b \<le> i \<Longrightarrow> i < b + n \<Longrightarrow> \<not> covered L i" "0 < n" "\<And>c m. L c = Some m \<Longrightarrow> 0 < m"
  shows "blocks_disjoint (L(b \<mapsto> n))" "L b = None"
    and "L c = Some m \<Longrightarrow> c + m \<le> b \<or> b + n \<le> c"
proof -
  have apart: "c + m \<le> b \<or> b + n \<le> c" if "L c = Some m" for c m
  proof (rule ccontr)
    assume a: "\<not> (c + m \<le> b \<or> b + n \<le> c)"
    have "\<not> covered L (max b c)" by (rule assms(2)) (use a assms(3) in auto)
    moreover have "covered L (max b c)"
      unfolding covered_def by (rule exI [of _ c], rule exI [of _ m]) (use that a assms(4) [OF that] in auto)
    ultimately show False by blast
  qed
  then show "L c = Some m \<Longrightarrow> c + m \<le> b \<or> b + n \<le> c" by blast
  show "L b = None"
  proof (cases "L b")
    case (Some m)
    then show ?thesis using apart [OF Some] assms(3) assms(4) [OF Some] by linarith
  qed
  show "blocks_disjoint (L(b \<mapsto> n))"
    using assms(1) apart unfolding blocks_disjoint_def by (auto split: if_splits) blast+
qed


lemma covered_insert: "L b = None \<Longrightarrow> covered (L(b \<mapsto> n)) i \<longleftrightarrow> b \<le> i \<and> i < b + n \<or> covered L i"
  unfolding covered_def by (auto split: if_splits)

lemma covered_delete:
  assumes "blocks_disjoint L" "L b = Some n"
  shows "covered (L(b := None)) i \<longleftrightarrow> covered L i \<and> \<not> (b \<le> i \<and> i < b + n)"
proof
  assume "covered (L(b := None)) i"
  then obtain c m where c: "c \<noteq> b" "L c = Some m" "c \<le> i" "i < c + m"
    by (auto simp: covered_def split: if_splits)
  then have "b + n \<le> c \<or> c + m \<le> b" using assms unfolding blocks_disjoint_def by blast
  then show "covered L i \<and> \<not> (b \<le> i \<and> i < b + n)" using c by (auto simp: covered_def)
next
  assume "covered L i \<and> \<not> (b \<le> i \<and> i < b + n)"
  then obtain c m where c: "L c = Some m" "c \<le> i" "i < c + m" "c \<noteq> b"
    using assms(2) unfolding covered_def by (metis option.inject)
  then show "covered (L(b := None)) i"
    unfolding covered_def by (intro exI [of _ c] exI [of _ m]) simp
qed

lemma arena_invD:
  assumes "arena_inv st L"
  shows "ArenaSize \<le> length (arena_mem st)" "m_size (bitmap st) = BlocksNum"
    "BlocksNum \<le> 8 * length (m_data (bitmap st))" "8 * length (m_data (bitmap st)) < 2 ^ 64"
    "finite (dom L)" "blocks_disjoint L"
    and "L b = Some n \<Longrightarrow> 0 < n \<and> b + n \<le> BlocksNum \<and> b + n < 8 * length (m_data (bitmap st)) \<and>
      get_u64 (arena_mem st) (b * BlockSize) = Some (word_of_nat n)"
    and "i < BlocksNum \<Longrightarrow> bit_at (m_data (bitmap st)) i \<longleftrightarrow> covered L i"
  using assms BlocksNum_eq(5) by (auto simp: arena_inv_def arena_shape_def)

lemma set_range_arena:
  assumes "arena_shape st" "b + n < 8 * length (m_data (bitmap st))"
  shows "\<exists>bm. set_range v (bitmap st) b n = Some bm \<and> arena_shape (st\<lparr>bitmap := bm\<rparr>) \<and>
    length (m_data bm) = length (m_data (bitmap st)) \<and>
    (\<forall>i < BlocksNum. bit_at (m_data bm) i = (if b \<le> i \<and> i < b + n then v else bit_at (m_data (bitmap st)) i))"
proof -
  have len: "BlocksNum \<le> 8 * length (m_data (bitmap st))" "8 * length (m_data (bitmap st)) < 2 ^ 64"
    using assms(1) BlocksNum_eq(5) by (auto simp: arena_shape_def)
  obtain data where "set_range v (bitmap st) b n = Some ((bitmap st)\<lparr>m_data := data\<rparr>)"
    "length data = length (m_data (bitmap st))"
    "\<forall>x < 8 * length data. bit_at data x = (if b \<le> x \<and> x < b + n then v else bit_at (m_data (bitmap st)) x)"
    using set_range_spec [of b n "bitmap st" v] len assms(2) by auto
  then show ?thesis using assms(1) len by (auto simp: arena_shape_def)
qed

text \<open>
  When an allocation is refused: no range of enough free blocks begins at the configured start of
  the search or behind it; or, in a bitmap without a byte to spare, the range that was found ends
  with the last block.
\<close>

definition alloc_refused :: "u64 \<Rightarrow> Allocator \<Rightarrow> alloc_error \<Rightarrow> bool" where
  "alloc_refused k st e \<longleftrightarrow>
     e = FatalError ''INTERNAL_ALLOCATOR_OUT_OF_MEMORY'' \<and>
       no_range (unset (bitmap st)) (BlocksNum * Start0to99 st div 100) (blocks_for k) BlocksNum \<or>
     e = BadAccess \<and> length (m_data (bitmap st)) = BitmapSize \<and> blocks_for k \<le> BlocksNum \<and>
       all_in (unset (bitmap st)) (BlocksNum - blocks_for k) BlocksNum"

text \<open>What an allocation does once the search has found its range.\<close>

lemma Alloc_taken:
  assumes inv: "arena_inv st L" and fit: "unat k + 16 < 2 ^ 64"
    and f: "find_next_range_of_unset_bits (bitmap st) (BlocksNum * Start0to99 st div 100) (blocks_for k) (blocks_for k) =
      Some (blocks_for k, b)"
    and r: "b + blocks_for k < 8 * length (m_data (bitmap st))" "b + blocks_for k \<le> BlocksNum"
      "all_in (unset (bitmap st)) b (b + blocks_for k)"
  shows "\<exists>st'. Alloc k st = Inr (Arena st + b * BlockSize + HeaderSize, st') \<and> L b = None \<and>
    arena_inv st' (L(b \<mapsto> blocks_for k)) \<and> Arena st' = Arena st \<and>
    (\<forall>c m. L c = Some m \<longrightarrow> c + m \<le> b \<or> b + blocks_for k \<le> c) \<and>
    put_u64 (arena_mem st) (b * BlockSize) (word_of_nat (blocks_for k)) = Some (arena_mem st')"
proof -
  let ?n = "blocks_for k"
  note D = arena_invD [OF inv]
  note n = blocks_for_bounds [OF fit]
  have free: "\<And>i. b \<le> i \<Longrightarrow> i < b + ?n \<Longrightarrow> \<not> covered L i"
    using r(2,3) D(8) by (auto simp: all_in_def)
  note ins = disjoint_insert [OF D(6) free n(1), of b]
  obtain bm where bm: "set_range True (bitmap st) b ?n = Some bm" "arena_shape (st\<lparr>bitmap := bm\<rparr>)"
    "\<forall>i < BlocksNum. bit_at (m_data bm) i = (if b \<le> i \<and> i < b + ?n then True else bit_at (m_data (bitmap st)) i)"
    "length (m_data bm) = length (m_data (bitmap st))"
    using set_range_arena [of st b ?n True] inv r(1) by (auto simp: arena_inv_def)
  have "(b + 1) * BlockSize \<le> BlocksNum * BlockSize" using r(2) n(1) by (intro mult_right_mono) auto
  then have "b * BlockSize + 8 \<le> length (arena_mem st)" using D(1) BlocksNum_eq(4) by (simp add: BlockSize_def)
  then obtain mem where mem: "put_u64 (arena_mem st) (b * BlockSize) (word_of_nat ?n) = Some mem" "length mem = length (arena_mem st)"
    by (auto simp: put_u64_def write_block_def)
  let ?st = "st\<lparr>bitmap := bm, arena_mem := mem, Perf_AllocationsNum := Perf_AllocationsNum st + 1,
      Perf_TotalAllocatedSize := Perf_TotalAllocatedSize st + word_of_nat (?n * BlockSize)\<rparr>"
  have res: "Alloc k st = Inr (Arena st + b * BlockSize + HeaderSize, ?st)"
    using f r(2) bm(1) mem(1) by (simp add: Alloc_def Let_def)
  have b: "L b = None" "blocks_disjoint (L(b \<mapsto> ?n))" "\<And>c m. L c = Some m \<Longrightarrow> c + m \<le> b \<or> b + ?n \<le> c"
    using ins D(7) by blast+
  have head: "get_u64 mem (c * BlockSize) = Some (word_of_nat m)" if "L c = Some m" for c m
  proof -
    have "c \<noteq> b" using b(1) that by auto
    then have "c * BlockSize + 8 \<le> b * BlockSize \<or> b * BlockSize + 8 \<le> c * BlockSize"
      unfolding BlockSize_def by linarith
    then show ?thesis using get_put_u64_other [OF mem(1)] D(7) [OF that] by simp
  qed
  have "arena_inv ?st (L(b \<mapsto> ?n))"
    unfolding arena_inv_def
  proof (intro conjI)
    show "arena_shape ?st" using bm(2) mem(2) D(1) by (simp add: arena_shape_def)
    show "finite (dom (L(b \<mapsto> ?n)))" using D(5) by simp
    show "blocks_disjoint (L(b \<mapsto> ?n))" by (rule b(2))
    show "\<forall>c m. (L(b \<mapsto> ?n)) c = Some m \<longrightarrow> 0 < m \<and> c + m \<le> BlocksNum \<and>
        c + m < 8 * length (m_data (bitmap ?st)) \<and> get_u64 (arena_mem ?st) (c * BlockSize) = Some (word_of_nat m)"
      using head D(7) get_put_u64 [OF mem(1)] r(1,2) n(1) bm(4) by auto
    show "\<forall>i < BlocksNum. bit_at (m_data (bitmap ?st)) i \<longleftrightarrow> covered (L(b \<mapsto> ?n)) i"
      using bm(3) D(8) covered_insert [of L b, OF b(1)] by auto
    show "Perf_AllocationsNum ?st = word_of_nat (card (dom (L(b \<mapsto> ?n))))"
      using inv b(1) D(5) by (simp add: arena_inv_def domIff)
    have "(\<Sum>c\<in>dom L. the ((L(b \<mapsto> ?n)) c) * BlockSize) = (\<Sum>c\<in>dom L. the (L c) * BlockSize)"
      using b(1) by (intro sum.cong) (auto simp: domIff)
    then show "Perf_TotalAllocatedSize ?st = word_of_nat (\<Sum>c\<in>dom (L(b \<mapsto> ?n)). the ((L(b \<mapsto> ?n)) c) * BlockSize)"
      using inv b(1) D(5) by (simp add: arena_inv_def domIff add.commute del: fun_upd_apply) (simp add: fun_upd_same)
  qed
  then show ?thesis using res b mem(1) by auto
qed

text \<open>The outcome of an allocation, in terms of blocks.\<close>

lemma Alloc_outcome:
  assumes inv: "arena_inv st L" and fit: "unat k + 16 < 2 ^ 64"
  shows "case Alloc k st of
      Inl e \<Rightarrow> alloc_refused k st e
    | Inr (p, st') \<Rightarrow> \<exists>b. p = Arena st + b * BlockSize + HeaderSize \<and> L b = None \<and> b + blocks_for k \<le> BlocksNum \<and>
        arena_inv st' (L(b \<mapsto> blocks_for k)) \<and> Arena st' = Arena st \<and>
        (\<forall>c m. L c = Some m \<longrightarrow> c + m \<le> b \<or> b + blocks_for k \<le> c) \<and>
        put_u64 (arena_mem st) (b * BlockSize) (word_of_nat (blocks_for k)) = Some (arena_mem st')"
proof -
  let ?n = "blocks_for k" and ?from = "BlocksNum * Start0to99 st div 100"
  note D = arena_invD [OF inv]
  note n = blocks_for_bounds [OF fit]
  obtain r b where f: "find_next_range_of_unset_bits (bitmap st) ?from ?n ?n = Some (r, b)"
    "if r = 0 then no_range (unset (bitmap st)) ?from ?n BlocksNum else found_ok (unset (bitmap st)) ?n ?n BlocksNum b r"
    using find_next_range_spec [of ?n ?n "bitmap st" ?from, unfolded D(2), OF n(1) order_refl D(3)] by blast
  show ?thesis
  proof (cases "r = 0")
    case True
    then show ?thesis using f n(1) by (simp add: Alloc_def Let_def alloc_refused_def)
  next
    case False
    then have r: "r = ?n" "b + ?n \<le> BlocksNum" "all_in (unset (bitmap st)) b (b + ?n)"
      using f(2) by (auto simp: found_ok_def)
    show ?thesis
    proof (cases "b + ?n < 8 * length (m_data (bitmap st))")
      case False
      then have e: "b + ?n = BlocksNum" "length (m_data (bitmap st)) = BitmapSize" using r(2) D(3) BlocksNum_eq(5) by linarith+
      then have "set_range True (bitmap st) b ?n = None"
        using n(1) BlocksNum_eq(1,5) by (intro set_range_past_end) simp_all
      then have "Alloc k st = Inl BadAccess" using f(1) r(1,2) by (simp add: Alloc_def Let_def)
      moreover have "b = BlocksNum - ?n" "?n \<le> BlocksNum" using e(1) by linarith+
      ultimately show ?thesis using e r(3) by (simp add: alloc_refused_def)
    next
      case True
      then show ?thesis using Alloc_taken [OF inv fit _ True r(2,3)] f(1) r(1,2) by auto
    qed
  qed
qed

text \<open>Reading the header of a live allocation, and releasing it.\<close>

lemma live_header:
  assumes inv: "arena_inv st L" and L: "L b = Some n"
  shows "\<not> outside_arena (Arena st + b * BlockSize + HeaderSize) st"
    and "read_header (Arena st + b * BlockSize + HeaderSize) st = Some (n, b)"
    and "size_add b n = b + n"
proof -
  note D = arena_invD(7) [OF inv L]
  have "(b + 1) * BlockSize \<le> BlocksNum * BlockSize" using D by (intro mult_right_mono) auto
  then show "\<not> outside_arena (Arena st + b * BlockSize + HeaderSize) st"
    unfolding BlocksNum_eq(4) by (simp add: outside_arena_def BlockSize_def HeaderSize_def)
  have "unat (word_of_nat n :: u64) = n" using D BlocksNum_eq(1) by (simp add: unat_of_nat)
  moreover have "(Arena st + b * BlockSize + HeaderSize - Arena st) div BlockSize = b"
    by (simp add: BlockSize_def HeaderSize_def)
  ultimately show "read_header (Arena st + b * BlockSize + HeaderSize) st = Some (n, b)"
    using D by (simp add: read_header_def)
  show "size_add b n = b + n" using D BlocksNum_eq(1) by (intro size_add_exact) simp
qed

lemma Free_outcome:
  assumes inv: "arena_inv st L" and L: "L b = Some n"
  shows "\<exists>st'. Free (Arena st + b * BlockSize + HeaderSize) st = Inr st' \<and> arena_inv st' (L(b := None)) \<and>
    Arena st' = Arena st \<and> arena_mem st' = arena_mem st"
proof -
  note D = arena_invD [OF inv]
  have n: "0 < n" "b + n \<le> BlocksNum" "b + n < 8 * length (m_data (bitmap st))" using D(7) [OF L] by auto
  obtain bm where bm: "set_range False (bitmap st) b n = Some bm" "arena_shape (st\<lparr>bitmap := bm\<rparr>)"
    "\<forall>i < BlocksNum. bit_at (m_data bm) i = (if b \<le> i \<and> i < b + n then False else bit_at (m_data (bitmap st)) i)"
    "length (m_data bm) = length (m_data (bitmap st))"
    using set_range_arena [of st b n False] inv n(3) by (auto simp: arena_inv_def)
  let ?st = "st\<lparr>bitmap := bm, Perf_AllocationsNum := Perf_AllocationsNum st - 1,
      Perf_TotalAllocatedSize := Perf_TotalAllocatedSize st - word_of_nat (n * BlockSize)\<rparr>"
  have "Free (Arena st + b * BlockSize + HeaderSize) st = Inr ?st"
    using live_header [OF inv L] n bm(1) by (simp add: Free_def)
  moreover have "arena_inv ?st (L(b := None))"
    unfolding arena_inv_def
  proof (intro conjI)
    have dom: "dom (L(b := None)) = dom L - {b}" "b \<in> dom L" "finite (dom L)" using L D(5) by auto
    show "arena_shape ?st" using bm(2) by (simp add: arena_shape_def)
    show "finite (dom (L(b := None)))" using D(5) by simp
    show "blocks_disjoint (L(b := None))" using D(6) by (auto simp: blocks_disjoint_def)
    show "\<forall>c m. (L(b := None)) c = Some m \<longrightarrow> 0 < m \<and> c + m \<le> BlocksNum \<and>
        c + m < 8 * length (m_data (bitmap ?st)) \<and> get_u64 (arena_mem ?st) (c * BlockSize) = Some (word_of_nat m)"
      using D(7) bm(4) by auto
    show "\<forall>i < BlocksNum. bit_at (m_data (bitmap ?st)) i \<longleftrightarrow> covered (L(b := None)) i"
      using bm(3) D(8) covered_delete [OF D(6) L] by auto
    have "card (dom L) = Suc (card (dom L - {b}))" using dom by (metis card.remove)
    then show "Perf_AllocationsNum ?st = word_of_nat (card (dom (L(b := None))))"
      using inv dom(1) by (simp add: arena_inv_def)
    have "(\<Sum>c\<in>dom L. the (L c) * BlockSize) = n * BlockSize + (\<Sum>c\<in>dom L - {b}. the (L c) * BlockSize)"
      using sum.remove [OF dom(3,2), of "\<lambda>c. the (L c) * BlockSize"] L by simp
    moreover have "(\<Sum>c\<in>dom L - {b}. the ((L(b := None)) c) * BlockSize) = (\<Sum>c\<in>dom L - {b}. the (L c) * BlockSize)"
      by (intro sum.cong) auto
    ultimately show "Perf_TotalAllocatedSize ?st = word_of_nat (\<Sum>c\<in>dom (L(b := None)). the ((L(b := None)) c) * BlockSize)"
      using inv unfolding dom(1) by (simp add: arena_inv_def)
  qed
  ultimately show ?thesis by fastforce
qed

text \<open>A client may write anywhere into its own memory.\<close>

definition poke_arena :: "nat \<Rightarrow> byte list \<Rightarrow> Allocator \<Rightarrow> Allocator" where
  "poke_arena p xs st =
     (case write_block (arena_mem st) (p - Arena st) xs of None \<Rightarrow> st | Some mem \<Rightarrow> st\<lparr>arena_mem := mem\<rparr>)"

definition arena_contents :: "nat \<Rightarrow> nat \<Rightarrow> Allocator \<Rightarrow> byte list option" where
  "arena_contents p m st = read_block (arena_mem st) (p - Arena st) m"

lemma poke_outcome:
  assumes inv: "arena_inv st L" and L: "L b = Some n" and fit: "HeaderSize + off + length xs \<le> n * BlockSize"
  shows "\<exists>mem. write_block (arena_mem st) (b * BlockSize + HeaderSize + off) xs = Some mem \<and>
    poke_arena (Arena st + b * BlockSize + HeaderSize + off) xs st = st\<lparr>arena_mem := mem\<rparr> \<and>
    arena_inv (st\<lparr>arena_mem := mem\<rparr>) L"
proof -
  note D = arena_invD [OF inv]
  have n: "0 < n" "b + n \<le> BlocksNum" using D(7) [OF L] by auto
  have "(b + n) * BlockSize \<le> BlocksNum * BlockSize" using n by (intro mult_right_mono) auto
  then have "b * BlockSize + HeaderSize + off + length xs \<le> length (arena_mem st)"
    using fit D(1) unfolding BlocksNum_eq(4) by (simp add: add_mult_distrib)
  then obtain mem where mem: "write_block (arena_mem st) (b * BlockSize + HeaderSize + off) xs = Some mem"
    by (auto simp: write_block_def)
  have head: "get_u64 mem (c * BlockSize) = get_u64 (arena_mem st) (c * BlockSize)" if c: "L c = Some m" for c m
  proof -
    have "c * BlockSize + 8 \<le> b * BlockSize + HeaderSize + off \<or> b * BlockSize + HeaderSize + off + length xs \<le> c * BlockSize"
    proof (cases "c \<le> b")
      case True
      then show ?thesis by (simp add: BlockSize_def HeaderSize_def)
    next
      case False
      then have "b + n \<le> c" using D(6) c L D(7) [OF c] unfolding blocks_disjoint_def by (metis add_leD1 le_add1 order_trans nat_le_linear)
      then have "(b + n) * BlockSize \<le> c * BlockSize" by (rule mult_right_mono) simp
      then show ?thesis using fit by (simp add: add_mult_distrib)
    qed
    then show ?thesis using read_write_other [OF mem] by (simp add: get_u64_def)
  qed
  have "arena_inv (st\<lparr>arena_mem := mem\<rparr>) L"
    using inv head length_write_block [OF mem] by (auto simp: arena_inv_def arena_shape_def)
  then show ?thesis using mem by (auto simp: poke_arena_def add.assoc)
qed


section \<open>The arena keeps the contract\<close>

text \<open>\<open>R\<close> maps every live pointer to the bytes its owner may use.\<close>

abbreviation block_ptr :: "nat \<Rightarrow> nat \<Rightarrow> nat" where
  "block_ptr a b \<equiv> a + b * BlockSize + HeaderSize"

definition region_map :: "nat \<Rightarrow> (nat \<rightharpoonup> nat) \<Rightarrow> nat \<rightharpoonup> nat" where
  "region_map a L p =
     (if p = block_ptr a ((p - HeaderSize - a) div BlockSize)
      then map_option (\<lambda>n. n * BlockSize - HeaderSize) (L ((p - HeaderSize - a) div BlockSize)) else None)"

definition heap_inv :: "Allocator \<Rightarrow> (nat \<rightharpoonup> nat) \<Rightarrow> bool" where
  "heap_inv st R \<longleftrightarrow> (\<exists>L. arena_inv st L \<and> R = region_map (Arena st) L)"

definition user_size :: "nat \<Rightarrow> Allocator \<Rightarrow> nat" where
  "user_size p st = (case UserSizeInBytes p st of Inl e \<Rightarrow> 0 | Inr w \<Rightarrow> unat w)"

definition size_fits :: "u64 \<Rightarrow> bool" where
  "size_fits k \<longleftrightarrow> unat k + 16 < 2 ^ 64"

lemma block_ptr_inj: "block_ptr a b = block_ptr a c \<longleftrightarrow> b = c" "(block_ptr a b - HeaderSize - a) div BlockSize = b"
  by (simp_all add: BlockSize_def HeaderSize_def)

lemma region_map_ptr: "region_map a L (block_ptr a b) = map_option (\<lambda>n. n * BlockSize - HeaderSize) (L b)"
  unfolding region_map_def block_ptr_inj by simp

lemma region_map_upd:
  "region_map a (L(b := x)) = (region_map a L)(block_ptr a b := map_option (\<lambda>n. n * BlockSize - HeaderSize) x)"
proof
  fix p show "region_map a (L(b := x)) p = ((region_map a L)(block_ptr a b := map_option (\<lambda>n. n * BlockSize - HeaderSize) x)) p"
  proof (cases "p = block_ptr a b")
    case True
    then show ?thesis by (simp add: region_map_ptr)
  next
    case False
    let ?j = "(p - HeaderSize - a) div BlockSize"
    have "?j \<noteq> b" if "p = block_ptr a ?j" using False that by metis
    then show ?thesis using False by (cases "p = block_ptr a ?j") (simp_all add: region_map_def)
  qed
qed

lemma region_mapE:
  assumes "region_map a L p = Some m"
  obtains b n where "p = block_ptr a b" "L b = Some n" "m = n * BlockSize - HeaderSize"
  using assms by (auto simp: region_map_def split: if_splits)

lemma blocks_apart:
  "b + n \<le> c \<Longrightarrow> 0 < n \<Longrightarrow> block_ptr a b + (n * BlockSize - HeaderSize) \<le> block_ptr a c - HeaderSize"
proof -
  assume "b + n \<le> c" "0 < n"
  then have "(b + n) * BlockSize \<le> c * BlockSize" "HeaderSize \<le> n * BlockSize"
    by (auto simp: HeaderSize_def BlockSize_def)
  then show ?thesis by (simp add: add_mult_distrib)
qed

lemma live_blocks_apart:
  assumes "arena_inv st L" "L b = Some n" "L c = Some m" "b \<noteq> c"
  shows "block_ptr a b + (n * BlockSize - HeaderSize) \<le> block_ptr a c - HeaderSize \<or>
    block_ptr a c + (m * BlockSize - HeaderSize) \<le> block_ptr a b - HeaderSize"
proof -
  have "b + n \<le> c \<or> c + m \<le> b" using arena_invD(6) [OF assms(1)] assms(2-4) unfolding blocks_disjoint_def by blast
  then show ?thesis using blocks_apart arena_invD(7) [OF assms(1)] assms(2,3) by blast
qed

lemma live_user_size:
  assumes "arena_inv st L" "L b = Some n"
  shows "UserSizeInBytes (block_ptr (Arena st) b) st = Inr (word_of_nat (n * BlockSize - HeaderSize))"
    "user_size (block_ptr (Arena st) b) st = n * BlockSize - HeaderSize"
proof -
  have n: "0 < n" "b + n \<le> BlocksNum" using arena_invD(7) [OF assms] by auto
  then have "HeaderSize \<le> n * BlockSize" by (simp add: HeaderSize_def BlockSize_def)
  then show u: "UserSizeInBytes (block_ptr (Arena st) b) st = Inr (word_of_nat (n * BlockSize - HeaderSize))"
    using live_header [OF assms] n by (simp add: UserSizeInBytes_def of_nat_diff)
  have "n * BlockSize \<le> BlocksNum * BlockSize" using n by (intro mult_right_mono) auto
  then show "user_size (block_ptr (Arena st) b) st = n * BlockSize - HeaderSize"
    unfolding user_size_def u BlocksNum_eq(4) by (simp add: unat_of_nat BlocksNum_eq(3))
qed

lemma write_contents_other:
  "write_block (arena_mem st) (p - Arena st) xs = Some mem \<Longrightarrow> q + m \<le> p \<or> p + length xs \<le> q \<Longrightarrow> Arena st \<le> q \<Longrightarrow> Arena st \<le> p \<Longrightarrow>
   arena_contents q m (st\<lparr>arena_mem := mem\<rparr>) = arena_contents q m st"
  unfolding arena_contents_def by (simp add: read_write_other) (rule read_write_other, assumption, arith)

interpretation dbg: region_allocator heap_inv Alloc Free poke_arena arena_contents user_size size_fits alloc_refused
proof unfold_locales
  fix s R p m q m'
  assume "heap_inv s R" "R p = Some m" "R q = Some m'" "p \<noteq> q"
  then obtain L b n c k where "arena_inv s L" "L b = Some n" "L c = Some k" "b \<noteq> c"
    "p = block_ptr (Arena s) b" "q = block_ptr (Arena s) c" "m = n * BlockSize - HeaderSize" "m' = k * BlockSize - HeaderSize"
    unfolding heap_inv_def by (metis region_mapE)
  then show "p + m \<le> q \<or> q + m' \<le> p" using live_blocks_apart [of s L b n c k "Arena s"] by auto
next
  fix s R p m
  assume "heap_inv s R" "R p = Some m"
  then show "user_size p s = m" unfolding heap_inv_def by (metis region_mapE live_user_size(2))
next
  fix s R k e
  assume "heap_inv s R" "size_fits k" "Alloc k s = Inl e"
  then show "alloc_refused k s e"
    using Alloc_outcome [of s _ k] by (auto simp: heap_inv_def size_fits_def)
next
  fix s R k p s'
  assume a: "heap_inv s R" "size_fits k" "Alloc k s = Inr (p, s')"
  then obtain L where L: "arena_inv s L" "R = region_map (Arena s) L" by (auto simp: heap_inv_def)
  then obtain b where b: "p = block_ptr (Arena s) b" "L b = None" "arena_inv s' (L(b \<mapsto> blocks_for k))" "Arena s' = Arena s"
    "\<forall>c m. L c = Some m \<longrightarrow> c + m \<le> b \<or> b + blocks_for k \<le> c"
    "put_u64 (arena_mem s) (b * BlockSize) (word_of_nat (blocks_for k)) = Some (arena_mem s')"
    using Alloc_outcome [OF L(1), of k] a(2,3) by (auto simp: size_fits_def)
  let ?m = "blocks_for k * BlockSize - HeaderSize"
  have "unat k \<le> ?m" using blocks_for_bounds(2) [of k] a(2) by (simp add: size_fits_def)
  moreover have "R p = None" using L(2) b(1,2) by (simp add: region_map_ptr)
  moreover have "heap_inv s' (R(p \<mapsto> ?m))"
    unfolding heap_inv_def using b(1,3,4) L(2) region_map_upd [of "Arena s" L b "Some (blocks_for k)"] by auto
  moreover have "arena_contents q m' s' = arena_contents q m' s" if q: "R q = Some m'" for q m'
  proof -
    obtain c n where c: "q = block_ptr (Arena s) c" "L c = Some n" "m' = n * BlockSize - HeaderSize"
      using q L(2) region_mapE by blast
    have n: "0 < n" "0 < blocks_for k" using arena_invD(7) [OF L(1) c(2)] blocks_for_bounds(1) a(2) by (auto simp: size_fits_def)
    have "c + n \<le> b \<or> b + blocks_for k \<le> c" using b(5) c(2) by blast
    then have "c * BlockSize + HeaderSize + m' \<le> b * BlockSize \<or> b * BlockSize + 8 \<le> c * BlockSize + HeaderSize"
      using blocks_apart [of c n b 0] n c(3) by (auto simp: BlockSize_def HeaderSize_def)
    then have "read_block (arena_mem s') (c * BlockSize + HeaderSize) m' = read_block (arena_mem s) (c * BlockSize + HeaderSize) m'"
      using read_write_other [of "arena_mem s" "b * BlockSize" _ "arena_mem s'"] b(6) by (simp add: put_u64_def)
    then show ?thesis using c(1) b(4) by (simp add: arena_contents_def add.assoc)
  qed
  ultimately show "\<exists>m. unat k \<le> m \<and> R p = None \<and> heap_inv s' (R(p \<mapsto> m)) \<and>
      (\<forall>q m'. R q = Some m' \<longrightarrow> arena_contents q m' s' = arena_contents q m' s)" by blast
next
  fix s R p m
  assume "heap_inv s R" "R p = Some m"
  then obtain L b n where L: "arena_inv s L" "R = region_map (Arena s) L" "p = block_ptr (Arena s) b" "L b = Some n"
    unfolding heap_inv_def by (metis region_mapE)
  obtain s' where s': "Free p s = Inr s'" "arena_inv s' (L(b := None))" "Arena s' = Arena s" "arena_mem s' = arena_mem s"
    using Free_outcome [OF L(1,4)] L(3) by blast
  have "heap_inv s' (R(p := None))"
    unfolding heap_inv_def using s'(2,3) L(2,3) region_map_upd [of "Arena s" L b None] by auto
  then show "\<exists>s'. Free p s = Inr s' \<and> heap_inv s' (R(p := None)) \<and>
      (\<forall>q m'. R q = Some m' \<longrightarrow> arena_contents q m' s' = arena_contents q m' s)"
    using s' by (auto simp: arena_contents_def)
next
  fix s R p m off and xs :: "byte list"
  assume a: "heap_inv s R" "R p = Some m" "off + length xs \<le> m"
  then obtain L b n where L: "arena_inv s L" "R = region_map (Arena s) L" "p = block_ptr (Arena s) b" "L b = Some n"
    "m = n * BlockSize - HeaderSize"
    unfolding heap_inv_def by (metis region_mapE)
  have "0 < n" using arena_invD(7) [OF L(1,4)] by simp
  then have "HeaderSize + off + length xs \<le> n * BlockSize" using a(3) L(5) by (simp add: HeaderSize_def BlockSize_def)
  from poke_outcome [OF L(1,4) this]
  obtain mem where mem: "write_block (arena_mem s) (b * BlockSize + HeaderSize + off) xs = Some mem"
    "poke_arena (p + off) xs s = s\<lparr>arena_mem := mem\<rparr>" "arena_inv (s\<lparr>arena_mem := mem\<rparr>) L" using L(3) by blast
  have w: "write_block (arena_mem s) (p + off - Arena s) xs = Some mem" using mem(1) L(3) by (simp add: add.assoc)
  have "arena_contents (p + off) (length xs) (s\<lparr>arena_mem := mem\<rparr>) = Some xs"
    using read_write_block [OF w] by (simp add: arena_contents_def)
  moreover have "heap_inv (s\<lparr>arena_mem := mem\<rparr>) R" using mem(3) L(2) by (auto simp: heap_inv_def)
  moreover have "arena_contents q m' (s\<lparr>arena_mem := mem\<rparr>) = arena_contents q m' s" if q: "R q = Some m'" "q \<noteq> p" for q m'
  proof -
    obtain c k where c: "q = block_ptr (Arena s) c" "L c = Some k" "m' = k * BlockSize - HeaderSize"
      using q(1) L(2) region_mapE by blast
    then have "c \<noteq> b" using q(2) L(3) by auto
    then have "p + m \<le> q \<or> q + m' \<le> p" using live_blocks_apart [OF L(1,4) c(2), of "Arena s"] L(3,5) c(1,3) by auto
    then show ?thesis using write_contents_other [OF w, of q m'] a(3) c(1) L(3) by auto
  qed
  ultimately show "heap_inv (poke_arena (p + off) xs s) R \<and>
      arena_contents (p + off) (length xs) (poke_arena (p + off) xs s) = Some xs \<and>
      (\<forall>q m'. R q = Some m' \<and> q \<noteq> p \<longrightarrow> arena_contents q m' (poke_arena (p + off) xs s) = arena_contents q m' s)"
    unfolding mem(2) by blast
qed







section \<open>Initialisation and the end of a session\<close>

lemma bit_at_replicate: "i < 8 * n \<Longrightarrow> \<not> bit_at (replicate n 0 @ xs) i"
  by (simp add: bit_at_def nth_append less_mult_imp_div_less mult.commute)


lemma region_map_empty: "region_map a Map.empty = Map.empty"
  by (rule ext) (simp add: region_map_def)



lemma heap_region_in_arena:
  assumes "heap_inv st R" "R p = Some m"
  shows "Arena st + HeaderSize \<le> p" "p + m \<le> Arena st + ArenaSize" "0 < m"
proof -
  obtain L b n where L: "arena_inv st L" "p = block_ptr (Arena st) b" "L b = Some n" "m = n * BlockSize - HeaderSize"
    using assms unfolding heap_inv_def by (metis region_mapE)
  have n: "0 < n" "b + n \<le> BlocksNum" using arena_invD(7) [OF L(1,3)] by auto
  have "(b + n) * BlockSize \<le> BlocksNum * BlockSize" using n by (intro mult_right_mono) auto
  moreover have "HeaderSize < n * BlockSize" using n by (simp add: HeaderSize_def BlockSize_def)
  ultimately show "Arena st + HeaderSize \<le> p" "p + m \<le> Arena st + ArenaSize" "0 < m"
    using L(2,4) unfolding BlocksNum_eq(4) by (simp_all add: add_mult_distrib)
qed

section \<open>Properties\<close>





lemma blocks_for_100: "blocks_for 100 = 2"
  by code_simp

text \<open>The search in a bitmap whose first bucket is empty, and in one whose first two bits are set.\<close>

lemma find_first_bucket:
  assumes "get_u64 (m_data bm) 0 = Some 0" "64 \<le> m_size bm"
  shows "find_next_range_of_unset_bits bm 0 2 2 = Some (2, 0)"
proof -
  have "\<exists>m. m_size bm div 64 = Suc m" using assms(2) by (intro not0_implies_Suc) simp
  then show ?thesis using assms(1) by (auto simp: find_next_range_of_unset_bits_def Let_def)
qed

lemma le_value_zeros: "le_value (replicate m 0) = 0"
  by (induction m) simp_all

lemma get_u64_zeros: "p + 8 \<le> n \<Longrightarrow> get_u64 (replicate n 0 @ xs) p = Some 0"
proof -
  assume "p + 8 \<le> n"
  then have "take 8 (drop p (replicate n 0 @ xs)) = replicate 8 (0 :: byte)" by simp
  then show ?thesis using \<open>p + 8 \<le> n\<close> by (simp add: get_u64_def read_block_def le_value_zeros)
qed

text \<open>The first allocation in a fresh arena takes its first blocks; releasing it gives them back.\<close>

lemma first_alloc:
  assumes "arena_inv st Map.empty" "Start0to99 st = 0" "m_data (bitmap st) = replicate BitmapSize 0 @ xs"
  shows "\<exists>st1 st'. Alloc 100 st = Inr (Arena st + HeaderSize, st1) \<and> arena_inv st1 [0 \<mapsto> 2] \<and> Arena st1 = Arena st \<and>
    Free (Arena st + HeaderSize) st1 = Inr st'"
proof -
  note D = arena_invD [OF assms(1)]
  have f: "find_next_range_of_unset_bits (bitmap st) 0 2 2 = Some (2, 0)"
    using D(2) by (intro find_first_bucket) (simp_all add: assms(3) get_u64_zeros BlocksNum_eq)
  have "all_in (unset (bitmap st)) 0 2" using D(8) by (auto simp: all_in_def covered_def BlocksNum_eq)
  then obtain st1 where st1: "Alloc 100 st = Inr (Arena st + HeaderSize, st1)" "arena_inv st1 [0 \<mapsto> 2]" "Arena st1 = Arena st"
    using Alloc_taken [OF assms(1), of 100 0, unfolded blocks_for_100 add_0] f D(3) by (auto simp: assms(2) BlocksNum_eq)
  then show ?thesis using Free_outcome [OF st1(2), of 0 2] by auto
qed



lemma fresh_arena:
  "\<exists>st. arena_inv st Map.empty \<and> Arena st = 4096 \<and> Start0to99 st = 0 \<and> m_data (bitmap st) = replicate BitmapSize 0"
proof -
  let ?bm = "\<lparr>m_data = replicate BitmapSize 0, m_size = BlocksNum, m_addr = 4096\<rparr>"
  let ?st = "\<lparr>Arena = 4096, arena_mem = replicate ArenaSize 0, bitmap = ?bm, ForceUse = False,
     Start0to99 = 0, Perf_AllocationsNum = 0, Perf_TotalAllocatedSize = 0\<rparr>"
  have "\<not> bit_at (replicate BitmapSize 0) i" if "i < BlocksNum" for i
    using bit_at_replicate [of i BitmapSize "[]"] that BlocksNum_eq(5) by simp
  then have "arena_inv ?st Map.empty"
    by (simp add: arena_inv_def arena_shape_def blocks_disjoint_def covered_def BlocksNum_eq)
  then show ?thesis by (intro exI [of _ ?st]) simp
qed


text \<open>
  For a live allocation \<open>UserSizeInBytes\<close> returns the usable size and \<open>Free\<close> succeeds: it
  clears the blocks of that allocation and no other, leaves the memory of the arena alone and keeps
  the state consistent; after the release of an allocation just made the live allocations are those
  from before it.
\<close>

theorem Free_correct:
  assumes "arena_inv st L" "L b = Some n"
  shows "UserSizeInBytes (Arena st + b * BlockSize + HeaderSize) st = Inr (word_of_nat (n * BlockSize - HeaderSize)) \<and>
    (\<exists>st'. Free (Arena st + b * BlockSize + HeaderSize) st = Inr st' \<and> arena_inv st' (L(b := None)) \<and>
       arena_mem st' = arena_mem st \<and>
       (\<forall>i < BlocksNum. bit_at (m_data (bitmap st')) i \<longleftrightarrow> bit_at (m_data (bitmap st)) i \<and> \<not> (b \<le> i \<and> i < b + n)))"
proof -
  obtain st' where st': "Free (Arena st + b * BlockSize + HeaderSize) st = Inr st'" "arena_inv st' (L(b := None))"
    "arena_mem st' = arena_mem st" using Free_outcome [OF assms] by blast
  have "bit_at (m_data (bitmap st')) i \<longleftrightarrow> bit_at (m_data (bitmap st)) i \<and> \<not> (b \<le> i \<and> i < b + n)" if "i < BlocksNum" for i
    using arena_invD(8) [OF st'(2) that] arena_invD(8) [OF assms(1) that] covered_delete [OF arena_invD(6) [OF assms(1)] assms(2)]
    by simp
  then show ?thesis using live_user_size(1) [OF assms] st' by blast
qed


text \<open>An arena with one live allocation of two blocks, and a second allocation in it.\<close>

lemma get_u64_head: "7 \<le> n \<Longrightarrow> get_u64 (x # replicate n 0) 0 = Some (word_of_nat (unat x))"
  by (simp add: get_u64_def read_block_def take_Cons_numeral le_value_zeros min_def)

lemma live_example:
  "\<exists>st. arena_inv st [0 \<mapsto> 2] \<and> Arena st = 4096 \<and> Start0to99 st = 0 \<and>
    m_data (bitmap st) = 3 # replicate (BitmapSize - 1) 0"
proof -
  let ?bits = "3 # replicate (BitmapSize - 1) 0 :: byte list" and ?mem = "2 # replicate (ArenaSize - 1) 0 :: byte list"
  let ?st = "\<lparr>Arena = 4096, arena_mem = ?mem, bitmap = \<lparr>m_data = ?bits, m_size = BlocksNum, m_addr = 4096\<rparr>,
     ForceUse = False, Start0to99 = 0, Perf_AllocationsNum = 1, Perf_TotalAllocatedSize = 128\<rparr>"
  have "bit_at ?bits i \<longleftrightarrow> covered [0 \<mapsto> 2] i" if "i < BlocksNum" for i
  proof (cases "i < 8")
    case True
    then have "i \<in> {0,1,2,3,4,5,6,7}" by auto
    then show ?thesis by (auto simp: bit_at_def covered_def)
  next
    case False
    then have "?bits ! (i div 8) = 0" using that BlocksNum_eq(5) by (subst nth_Cons_pos) (auto simp: less_mult_imp_div_less)
    then show ?thesis using False by (simp add: bit_at_def covered_def)
  qed
  moreover have "get_u64 ?mem 0 = Some 2" by (subst get_u64_head) (simp_all add: BlocksNum_eq)
  ultimately have "arena_inv ?st [0 \<mapsto> 2]"
    by (simp add: arena_inv_def arena_shape_def blocks_disjoint_def BlocksNum_eq BlockSize_def)
  then show ?thesis by (intro exI [of _ ?st]) simp
qed

lemma find_second_range:
  assumes "m_data bm = 3 # replicate n 0" "128 \<le> m_size bm" "15 \<le> n"
  shows "find_next_range_of_unset_bits bm 0 2 2 = Some (2, 2)"
proof -
  have "2 \<le> m_size bm div 64" using assms(2) by linarith
  then obtain m where m: "m_size bm div 64 = Suc (Suc m)" by (metis Suc_le_D Suc_le_mono numeral_2_eq_2)
  have "get_u64 (m_data bm) 0 = Some 3" using assms(1,3) by (simp add: get_u64_head)
  moreover have "get_u64 (m_data bm) 8 = get_u64 (replicate n 0 @ []) 7"
    using assms(1) by (simp add: get_u64_def read_block_def)
  then have "get_u64 (m_data bm) 8 = Some 0" using get_u64_zeros [of 7 n "[]"] assms(3) by simp
  moreover have "bucket_loop 2 2 0 3 0 0 0 = More 2 62" by code_simp
  ultimately show ?thesis using m by (simp add: find_next_range_of_unset_bits_def Let_def)
qed

lemma second_alloc:
  "\<exists>st st1. arena_inv st [0 \<mapsto> 2] \<and> Arena st = 4096 \<and> Alloc 100 st = Inr (4240, st1)"
proof -
  obtain st where st: "arena_inv st [0 \<mapsto> 2]" "Arena st = 4096" "Start0to99 st = 0"
    "m_data (bitmap st) = 3 # replicate (BitmapSize - 1) 0" using live_example by blast
  note D = arena_invD [OF st(1)]
  have f: "find_next_range_of_unset_bits (bitmap st) 0 2 2 = Some (2, 2)"
    by (rule find_second_range [OF st(4)]) (simp_all add: D(2) BlocksNum_eq)
  have "all_in (unset (bitmap st)) 2 (2 + 2)" using D(8) by (auto simp: all_in_def covered_def BlocksNum_eq)
  then have "\<exists>st1. Alloc 100 st = Inr (4240, st1)"
    using Alloc_taken [OF st(1), of 100 2, unfolded blocks_for_100] f D(3)
    by (auto simp: st(2,3) BlocksNum_eq BlockSize_def HeaderSize_def)
  then show ?thesis using st(1,2) by blast
qed

theorem Free_correct_witness:
  "\<exists>st b n. arena_inv st [b \<mapsto> n] \<and>
    UserSizeInBytes (Arena st + b * BlockSize + HeaderSize) st = Inr (word_of_nat (n * BlockSize - HeaderSize)) \<and>
    (\<exists>st'. Free (Arena st + b * BlockSize + HeaderSize) st = Inr st' \<and> arena_inv st' Map.empty)"
proof -
  obtain st and b n :: nat where st: "arena_inv st [b \<mapsto> n]" using live_example by blast
  have "[b \<mapsto> n](b := None) = Map.empty" by auto
  then show ?thesis using st Free_correct [OF st, of b n] by fastforce
qed

text \<open>
  C19: what a client stored stays: through any sequence of allocations, releases and writes of other
  clients that completes (none of its allocations is refused), the region of a live pointer that is
  neither released nor written to keeps its size and every byte of its contents, and stays live.
\<close>

theorem allocator_frame:
  assumes "heap_inv st R" "dom R = set ps" "distinct ps" "R q = Some n"
    "\<And>k. New k \<in> set requests \<Longrightarrow> unat k + 16 < 2 ^ 64"
    "Delete q \<notin> set requests" "\<And>off xs. Write q off xs \<notin> set requests"
    "serve Alloc Free poke_arena user_size requests (ps, st) = Inr (ps', st')"
  shows "q \<in> set ps' \<and> user_size q st' = n \<and> arena_contents q n st' = arena_contents q n st"
proof -
  obtain R' where R': "heap_inv st' R'" "dom R' = set ps'" "R' q = Some n" "arena_contents q n st' = arena_contents q n st"
    using dbg.serve_frame [OF assms(1-3) _ assms(4,6) _ assms(8)] assms(5,7) by (auto simp: size_fits_def)
  then show ?thesis using dbg.size_law [OF R'(1,3)] by auto
qed

theorem allocator_frame_witness:
  "\<exists>st st1 st'. heap_inv st [4112 \<mapsto> 112] \<and> Alloc 100 st = Inr (4240, st1) \<and>
    serve Alloc Free poke_arena user_size [New 100, Write 4240 0 [1, 2], Delete 4240] ([4112], st) = Inr ([4112], st') \<and>
    user_size 4112 st' = 112 \<and> arena_contents 4112 112 st' = arena_contents 4112 112 st"
proof -
  obtain st st1 where st: "arena_inv st [0 \<mapsto> 2]" "Arena st = 4096" "Alloc 100 st = Inr (4240, st1)"
    using second_alloc by blast
  have "region_map (Arena st) [0 \<mapsto> 2] = [4112 \<mapsto> 112]"
    using region_map_upd [of "Arena st" Map.empty 0 "Some 2"]
    by (simp add: region_map_empty st(2) BlockSize_def HeaderSize_def)
  then have h: "heap_inv st [4112 \<mapsto> 112]" unfolding heap_inv_def using st(1) by metis
  obtain m where m: "100 \<le> m" "heap_inv st1 ([4112 \<mapsto> 112](4240 \<mapsto> m))"
    using dbg.alloc_law [OF h _ st(3)] by (auto simp: size_fits_def)
  have sz: "user_size 4240 st1 = m" by (rule dbg.size_law [OF m(2)]) simp
  have h2: "heap_inv (poke_arena 4240 [1, 2] st1) ([4112 \<mapsto> 112](4240 \<mapsto> m))"
    using dbg.poke_law [OF m(2), of 4240 m 0 "[1, 2]"] m(1) by simp
  obtain st' where "Free 4240 (poke_arena 4240 [1, 2] st1) = Inr st'" using dbg.free_law [OF h2, of 4240 m] by auto
  then have run: "serve Alloc Free poke_arena user_size [New 100, Write 4240 0 [1, 2], Delete 4240] ([4112], st) = Inr ([4112], st')"
    using st(3) sz m(1) by simp
  have "4112 \<in> set [4112 :: nat] \<and> user_size 4112 st' = 112 \<and> arena_contents 4112 112 st' = arena_contents 4112 112 st"
    by (rule allocator_frame [OF h _ _ _ _ _ _ run]) auto
  then show ?thesis using h st(3) run by blast
qed

text \<open>
  C21: memory obtained by \<open>new\<close> while the allocator of the debugger is in use is in the arena, and
  \<open>delete\<close> returns it there whatever the processor state is by then, restoring the live regions;
  \<open>new\<close> fails only when the allocator refuses the request (for want of a range of free blocks from
  the start of its search on, or of a byte behind the bitmap when the last block is taken); a pointer outside the arena goes to the pool of the kernel when the pool may be used, and is a
  fatal error otherwise.
\<close>

theorem new_delete_match:
  assumes "heap_inv st R" "Arena st \<noteq> 0" "unat k + 16 < 2 ^ 64" "\<not> MustUseExXxxPool kern st"
  shows "(case op_new ExAllocatePool k (kern, st) of
      Inl e \<Rightarrow> alloc_refused k st e
    | Inr (p, kern', st') \<Rightarrow> kern' = kern \<and> IsPtrInArena p st' \<and>
        (\<exists>m\<ge>unat k. heap_inv st' (R(p \<mapsto> m))) \<and>
        (\<forall>kern''. \<exists>st''. op_delete ExFreePool p (kern'', st') = Inr (kern'', st'') \<and> heap_inv st'' R)) \<and>
    (\<forall>q kern''. \<not> IsPtrInArena q st \<longrightarrow> op_delete ExFreePool q (kern'', st) =
      (if MustUseExXxxPool kern'' st then Inr (kern''\<lparr>pool := ExFreePool q (pool kern'')\<rparr>, st)
       else Inl (FatalError ''EXFREEPOOL_IN_DEBUGGER_CONTEXT'')))"
proof
  show "case op_new ExAllocatePool k (kern, st) of
      Inl e \<Rightarrow> alloc_refused k st e
    | Inr (p, kern', st') \<Rightarrow> kern' = kern \<and> IsPtrInArena p st' \<and>
        (\<exists>m\<ge>unat k. heap_inv st' (R(p \<mapsto> m))) \<and>
        (\<forall>kern''. \<exists>st''. op_delete ExFreePool p (kern'', st') = Inr (kern'', st'') \<and> heap_inv st'' R)"
  proof (cases "Alloc k st")
    case (Inl e)
    then show ?thesis using assms dbg.alloc_error [OF assms(1) _ Inl] by (simp add: op_new_def size_fits_def)
  next
    case (Inr x)
    then obtain p st' where a: "Alloc k st = Inr (p, st')" by (cases x) auto
    obtain m where m: "unat k \<le> m" "R p = None" "heap_inv st' (R(p \<mapsto> m))"
      using dbg.alloc_law [OF assms(1) _ a] assms(3) by (auto simp: size_fits_def)
    have "Arena st' = Arena st"
      using assms(1,3) a Alloc_outcome [of st _ k] by (auto simp: heap_inv_def)
    then have "IsPtrInArena p st'"
      using heap_region_in_arena [OF m(3), of p m] assms(2) by (auto simp: IsPtrInArena_def outside_arena_def)
    moreover obtain st'' where st'': "Free p st' = Inr st''" "heap_inv st'' ((R(p \<mapsto> m))(p := None))"
      using dbg.free_law [OF m(3), of p m] by auto
    moreover have "(R(p \<mapsto> m))(p := None) = R" using m(2) by auto
    ultimately show ?thesis using a assms(4) m by (auto simp: op_new_def op_delete_def)
  qed
qed (simp add: op_delete_def)

theorem new_delete_match_witness:
  "\<exists>st p kern' st' st''. heap_inv st Map.empty \<and>
    op_new (\<lambda>n p. (None, p)) 100 (\<lparr>AreInterruptsEnabled = False, GetCurrentIrql = 15, pool = ()\<rparr>, st) = Inr (p, kern', st') \<and>
    IsPtrInArena p st' \<and>
    op_delete (\<lambda>n p. ()) p (\<lparr>AreInterruptsEnabled = True, GetCurrentIrql = 0, pool = ()\<rparr>, st') =
      Inr (\<lparr>AreInterruptsEnabled = True, GetCurrentIrql = 0, pool = ()\<rparr>, st'') \<and> heap_inv st'' Map.empty"
proof -
  let ?kern = "\<lparr>AreInterruptsEnabled = False, GetCurrentIrql = 15, pool = ()\<rparr>"
  obtain st where st: "arena_inv st Map.empty" "Arena st = 4096" "Start0to99 st = 0"
    "m_data (bitmap st) = replicate BitmapSize 0 @ []" using fresh_arena by auto
  have h: "heap_inv st Map.empty" unfolding heap_inv_def using st(1) region_map_empty [of "Arena st"] by metis
  have pool: "\<not> MustUseExXxxPool ?kern st" by (simp add: MustUseExXxxPool_def)
  obtain st1 where "Alloc 100 st = Inr (Arena st + HeaderSize, st1)" using first_alloc [OF st(1,3,4)] by blast
  then have new: "op_new (\<lambda>n p. (None, p)) 100 (?kern, st) = Inr (Arena st + HeaderSize, ?kern, st1)"
    using pool by (simp add: op_new_def)
  have "IsPtrInArena (Arena st + HeaderSize) st1 \<and>
      (\<forall>kern''. \<exists>st''. op_delete (\<lambda>n p. ()) (Arena st + HeaderSize) (kern'', st1) = Inr (kern'', st'') \<and> heap_inv st'' Map.empty)"
    using new new_delete_match [OF h _ _ pool, where k = 100 and ExAllocatePool = "\<lambda>n p. (None, p)" and ExFreePool = "\<lambda>n p. ()"]
      st(2) by simp
  then show ?thesis using h new by blast
qed

text \<open>
  The pool map has one character for each of its \<open>num\<close> parts and a terminator; an empty part
  is shown as \<open>A\<close> and every other one by a letter between \<open>B\<close> and \<open>Z\<close>, \<open>Z\<close> exactly when all
  its blocks are in use.
\<close>

theorem GetPoolMap_letters:
  assumes "arena_inv st L" "0 < num" "num \<le> BlocksNum"
  shows "\<exists>cs. GetPoolMap st num = Some (cs @ [0]) \<and> length cs = num \<and>
    (\<forall>i < num. let parts = BlocksNum div num; used = card {j. i * parts \<le> j \<and> j < i * parts + parts \<and> covered L j}
       in (cs ! i = 65 \<longleftrightarrow> used = 0) \<and> 65 \<le> cs ! i \<and> cs ! i \<le> 90 \<and> (cs ! i = 90 \<longleftrightarrow> used = parts))"
proof -
  note D = arena_invD [OF assms(1)]
  define parts where "parts = BlocksNum div num"
  define used where "used i = card {j. i * parts \<le> j \<and> j < i * parts + parts \<and> covered L j}" for i
  define letter where "letter i = (if used i = 0 then 65 else 24 * used i div parts + 66)" for i
  have parts: "0 < parts" "num * parts \<le> BlocksNum" using assms(2,3) by (simp_all add: parts_def div_greater_zero_iff)
  have cnt: "count_in_range (bitmap st) (i * parts) parts True = Some (used i)" if "i < num" for i
  proof -
    have "(i + 1) * parts \<le> num * parts" using that by (intro mult_right_mono) auto
    then have e: "i * parts + parts \<le> BlocksNum" using parts(2) by simp
    then have "set_count (m_data (bitmap st)) (i * parts) (i * parts + parts) = used i"
      using D(8) unfolding set_count_def used_def by (intro arg_cong [where f = card]) auto
    moreover have "8 dvd BlocksNum" "BlocksNum < 2 ^ 64" by (simp_all add: BlocksNum_eq)
    ultimately show ?thesis using count_in_range_spec [of "i * parts" parts "bitmap st" True] D(2,3) e parts(1) by simp
  qed
  have loop: "pool_map_loop (bitmap st) parts i n = Some (map letter [i..<i + n])" if "i + n \<le> num" for i n
    using that
  proof (induction n arbitrary: i)
    case (Suc n)
    have "[i..<i + Suc n] = i # [i + 1..<i + 1 + n]" by (simp add: upt_conv_Cons)
    then show ?case using Suc.IH [of "i + 1"] Suc.prems cnt [of i] by (simp add: letter_def)
  qed simp
  have bound: "used i \<le> parts" for i
  proof -
    have "used i \<le> card {i * parts..<i * parts + parts}" unfolding used_def by (rule card_mono) auto
    then show ?thesis by simp
  qed
  have "(letter i = 65 \<longleftrightarrow> used i = 0) \<and> 65 \<le> letter i \<and> letter i \<le> 90 \<and> (letter i = 90 \<longleftrightarrow> used i = parts)" for i
  proof -
    have "24 * used i div parts \<le> 24 * parts div parts" using bound [of i] by (intro div_le_mono) simp
    then have le: "24 * used i div parts \<le> 24" using parts(1) by simp
    have "used i = parts" if "24 * used i div parts = 24"
    proof -
      have "24 * parts \<le> 24 * used i" using that parts(1) by (metis div_times_less_eq_dividend)
      then show ?thesis using bound [of i] by simp
    qed
    moreover have "24 * used i div parts = 24" if "used i = parts" using that parts(1) by simp
    ultimately show ?thesis using le parts(1) by (auto simp: letter_def)
  qed
  moreover have "GetPoolMap st num = Some (map letter [0..<num] @ [0])"
    using loop [of 0 num] D(2) by (simp add: GetPoolMap_def parts_def)
  ultimately show ?thesis
    unfolding Let_def parts_def [symmetric] used_def [symmetric] by (intro exI [of _ "map letter [0..<num]"]) simp
qed

theorem GetPoolMap_letters_witness:
  "\<exists>st cs. arena_inv st Map.empty \<and> GetPoolMap st 4 = Some (cs @ [0]) \<and> length cs = 4 \<and> cs ! 0 = 65"
proof -
  obtain st where st: "arena_inv st Map.empty" using fresh_arena by blast
  from GetPoolMap_letters [OF st, of 4] st show ?thesis by (fastforce simp: BlocksNum_eq Let_def covered_def)
qed

text \<open>
  The sum of the requested size and the header may wrap around: a request for almost the whole
  address space is served with a single block.
\<close>

lemma Alloc_size_wraps: "blocks_for (- 8) = 1"
  by code_simp

end
