(* ===== verification/Utils.thy ===== *)
theory Utils
  imports Cutils
begin

text \<open>
  The string helpers of \<open>BugChecker/Utils.cpp\<close> and the number parser of \<open>BugChecker/CrtFill.cpp\<close>:
  case-insensitive comparison and search on C strings, hexadecimal output, tokenizing, the lookup in
  a structured configuration file, and \<open>strtoxq\<close>. A C string is a block of bytes with a zero behind
  its characters, an \<open>eastl::string\<close> the list of its bytes. Lengths and positions are natural
  numbers; the count of \<open>memicmp\<close> has the 32 bits of an \<open>unsigned int\<close>.
\<close>

section \<open>The model\<close>

subsection \<open>Comparison and search\<close>

definition TOLOWER :: "byte \<Rightarrow> byte" where
  "TOLOWER c = (if c \<ge> 0x41 \<and> c \<le> 0x5A then c - 0x41 + 0x61 else c)"

fun memicmp_loop :: "byte list \<Rightarrow> byte list \<Rightarrow> nat \<Rightarrow> int \<Rightarrow> int \<Rightarrow> int option" where
  "memicmp_loop first lst 0 f l = Some (f - l)"
| "memicmp_loop (x # first) (y # lst) (Suc n) f l =
     (if x = y then memicmp_loop first lst n f l
      else
        (let f = uint (TOLOWER x); l = uint (TOLOWER y) in
         if f = l then memicmp_loop first lst n f l else Some (f - l)))"
| "memicmp_loop [] lst (Suc n) f l = None"
| "memicmp_loop (x # first) [] (Suc n) f l = None"

definition memicmp :: "byte list \<Rightarrow> byte list \<Rightarrow> u32 \<Rightarrow> int option" where
  "memicmp first lst cnt = memicmp_loop first lst (unat cnt) 0 0"

text \<open>The loop of \<open>stristr\<close>: \<open>n\<close> positions are left to try, \<open>i\<close> is the current one.\<close>

fun stristr_loop :: "byte list \<Rightarrow> byte list \<Rightarrow> u32 \<Rightarrow> nat \<Rightarrow> nat \<Rightarrow> nat option option" where
  "stristr_loop s t len i 0 = Some None"
| "stristr_loop s t len i (Suc n) =
     (case memicmp (drop i s) t len of
        None \<Rightarrow> None
      | Some r \<Rightarrow> if r = 0 then Some (Some i) else stristr_loop s t len (i + 1) n)"

definition stristr :: "byte list \<Rightarrow> byte list \<Rightarrow> nat option option" where
  "stristr s strCharSet =
     (case (strlen s, strlen strCharSet) of
        (Some sz, Some sizeCharSet) \<Rightarrow>
          if sizeCharSet \<le> sz then stristr_loop s strCharSet (word_of_nat sizeCharSet) 0 (sz - sizeCharSet + 1)
          else Some None
      | _ \<Rightarrow> None)"

definition AreStringsEqualI :: "byte list \<Rightarrow> byte list \<Rightarrow> bool option" where
  "AreStringsEqualI str1 str2 =
     (case (strlen str1, strlen str2) of
        (Some n1, Some n2) \<Rightarrow>
          if n1 \<noteq> n2 then Some False
          else (case stristr str1 str2 of None \<Rightarrow> None | Some r \<Rightarrow> Some (r \<noteq> None))
      | _ \<Rightarrow> None)"

definition ToLower :: "byte list \<Rightarrow> byte list" where
  "ToLower s = map (\<lambda>c. if c \<ge> 0x41 \<and> c \<le> 0x5A then c - 0x41 + 0x61 else c) s"

subsection \<open>Hexadecimal output\<close>

text \<open>The digits of \<open>%X\<close>, without leading zeros, and of \<open>%0nX\<close>, \<open>n\<close> digits of a value below \<open>16 ^ n\<close>.\<close>

definition hex_digit :: "nat \<Rightarrow> byte" where
  "hex_digit d = (if d < 10 then word_of_nat (48 + d) else word_of_nat (55 + d))"

fun hex_digits :: "nat \<Rightarrow> nat \<Rightarrow> byte list" where
  "hex_digits 0 v = []"
| "hex_digits (Suc n) v = hex_digits n (v div 16) @ [hex_digit (v mod 16)]"

definition printf_X :: "nat \<Rightarrow> byte list" where
  "printf_X v =
     (let ds = dropWhile (\<lambda>c. c = 48) (hex_digits 16 v) in if ds = [] then [48] else ds)"

definition Dword32ToString :: "u32 \<Rightarrow> byte list" where
  "Dword32ToString dw = printf_X (unat dw)"

definition HexToString :: "u64 \<Rightarrow> nat \<Rightarrow> byte list" where
  "HexToString hex sz =
     (if sz = 1 then hex_digits 2 (unat (ucast hex :: byte))
      else if sz = 2 then hex_digits 4 (unat (ucast hex :: u16))
      else if sz = 4 then hex_digits 8 (unat (ucast hex :: u32))
      else if sz = 8 then hex_digits 8 (unat (ucast (drop_bit 32 hex) :: u32)) @ hex_digits 8 (unat (ucast hex :: u32))
      else [])"

subsection \<open>Tokenizing\<close>

text \<open>\<open>s.find(delimiter)\<close>: the first position of the delimiter, \<open>npos\<close> being \<open>None\<close>.\<close>

fun string_find :: "byte list \<Rightarrow> byte list \<Rightarrow> nat option" where
  "string_find [] d = (if d = [] then Some 0 else None)"
| "string_find (c # s) d =
     (if take (length d) (c # s) = d then Some 0 else map_option Suc (string_find s d))"

text \<open>The loop does not end for an empty delimiter, which is found again and again: it is then \<open>None\<close>.\<close>

partial_function (option) tokenize_loop :: "byte list \<Rightarrow> byte list \<Rightarrow> byte list list \<Rightarrow> byte list list option" where
  "tokenize_loop s delimiter retVal =
     (case string_find s delimiter of
        None \<Rightarrow> Some (retVal @ [s])
      | Some pos \<Rightarrow> tokenize_loop (drop (pos + length delimiter) s) delimiter (retVal @ [take pos s]))"

declare tokenize_loop.simps [code]

definition Tokenize :: "byte list \<Rightarrow> byte list \<Rightarrow> byte list list option" where
  "Tokenize str delimiter = tokenize_loop str delimiter []"

subsection \<open>Structured files\<close>

text \<open>
  One line of the file is copied into a buffer of 1024 characters: the characters, the position
  behind the copy, and how the copy ended.
\<close>

datatype line_end = EndOfLine | EndOfFile | LineTooLong

fun copy_line :: "byte list \<Rightarrow> nat \<Rightarrow> nat \<Rightarrow> byte list \<Rightarrow> byte list \<times> nat \<times> line_end" where
  "copy_line pbFile p 0 out = (out, p, LineTooLong)"
| "copy_line pbFile p (Suc n) out =
     (if p \<ge> length pbFile then (out, p, EndOfFile)
      else if pbFile ! p = 13 \<or> pbFile ! p = 0 then
        (out, if p + 1 < length pbFile \<and> pbFile ! (p + 1) = 10 then p + 1 else p, EndOfLine)
      else copy_line pbFile (p + 1) n (out @ [pbFile ! p]))"

definition count_tabs :: "byte list \<Rightarrow> nat" where
  "count_tabs l = length (takeWhile (\<lambda>c. c = 9) l)"

lemma copy_line_pos: "copy_line pbFile p n out = (out', p', e) \<Longrightarrow> p \<le> p'"
  by (induction pbFile p n out rule: copy_line.induct) (auto split: if_splits)

lemma copy_line_next:
  "copy_line pbFile p 1024 [] = (out, p', e) \<Longrightarrow> e = EndOfFile \<or> e = LineTooLong \<or> length pbFile - Suc p' < length pbFile - p"
proof -
  assume c: "copy_line pbFile p 1024 [] = (out, p', e)"
  have "copy_line pbFile p 1024 [] = ([], p, EndOfFile)" if "length pbFile \<le> p" using that by (simp add: eval_nat_numeral)
  then show ?thesis using copy_line_pos [OF c] c by (cases "length pbFile \<le> p") auto
qed

text \<open>
  The loop over the lines; the result is the position behind the tabulations of the line found and
  the contents of the line buffer.
\<close>

function parse_loop :: "byte list \<Rightarrow> nat \<Rightarrow> byte list option \<Rightarrow> nat \<Rightarrow> bool \<Rightarrow> bool \<Rightarrow> (nat \<times> byte list) option" where
  "parse_loop pbFile ulTabsNum pszString p bTNReached bFirstLine =
     (case copy_line pbFile p 1024 [] of (out, p1, e) \<Rightarrow>
        if e = LineTooLong then None
        else
          (let nNumOfTabs = count_tabs out in
           if ((pszString = None \<and> \<not> bFirstLine) \<or> bTNReached) \<and> nNumOfTabs < ulTabsNum then None
           else
             (let pszLine = drop nNumOfTabs out in
              if pszLine \<noteq> [] \<and> ulTabsNum = nNumOfTabs \<and> (pszString = None \<or> pszString = Some pszLine)
              then Some (p + nNumOfTabs, out)
              else if e = EndOfFile then None
              else parse_loop pbFile ulTabsNum pszString (p1 + 1) (bTNReached \<or> nNumOfTabs \<ge> ulTabsNum) False)))"
  by pat_completeness auto
termination
  by (relation "measure (\<lambda>(pbFile, t, s, p, r, f). length pbFile - p)")
    (auto dest!: copy_line_next [OF sym])

declare parse_loop.simps [simp del]

definition ParseStructuredFile ::
  "byte list \<Rightarrow> nat \<Rightarrow> byte list option \<Rightarrow> nat option \<Rightarrow> (nat \<times> byte list) option" where
  "ParseStructuredFile pbFile ulTabsNum pszString pszStart =
     (if pbFile = [] then None
      else if ulTabsNum = 0 \<and> pszString = None then None
      else parse_loop pbFile ulTabsNum pszString (case pszStart of None \<Rightarrow> 0 | Some p \<Rightarrow> p) False True)"


section \<open>Comparison and search\<close>

definition lower :: "byte list \<Rightarrow> byte list" where
  "lower = map TOLOWER"

lemma memicmp_loop_spec:
  assumes "n \<le> length a" "n \<le> length b"
  shows "\<exists>r. memicmp_loop a b n f f = Some r \<and> (r = 0 \<longleftrightarrow> lower (take n a) = lower (take n b))"
  using assms
proof (induction n arbitrary: a b f)
  case (Suc n)
  obtain x a' y b' where ab: "a = x # a'" "b = y # b'" using Suc.prems by (cases a; cases b) auto
  have eq: "uint (TOLOWER x) = uint (TOLOWER y) \<longleftrightarrow> TOLOWER x = TOLOWER y" by (simp add: word_uint_eq_iff)
  show ?case using Suc.IH [of a' b' f] Suc.IH [of a' b' "uint (TOLOWER y)"] Suc.prems ab eq
    by (cases "x = y") (auto simp: Let_def lower_def)
qed (simp add: lower_def)

lemma memicmp_spec:
  assumes "unat n \<le> length a" "unat n \<le> length b"
  shows "\<exists>r. memicmp a b n = Some r \<and> (r = 0 \<longleftrightarrow> lower (take (unat n) a) = lower (take (unat n) b))"
  using memicmp_loop_spec [OF assms, of 0] by (simp add: memicmp_def)

definition occurs_at :: "byte list \<Rightarrow> byte list \<Rightarrow> nat \<Rightarrow> bool" where
  "occurs_at x y i \<longleftrightarrow> i + length y \<le> length x \<and> lower (take (length y) (drop i x)) = lower y"

text \<open>The first position at which \<open>y\<close> occurs in \<open>x\<close>, ignoring case.\<close>

definition first_occurrence :: "byte list \<Rightarrow> byte list \<Rightarrow> nat option \<Rightarrow> bool" where
  "first_occurrence x y r \<longleftrightarrow>
     (case r of None \<Rightarrow> \<forall>i. \<not> occurs_at x y i
      | Some i \<Rightarrow> occurs_at x y i \<and> (\<forall>j < i. \<not> occurs_at x y j))"

lemma stristr_loop_spec:
  assumes s: "s = x @ 0 # js" and t: "t = y @ 0 # jt" and len: "length y < 2 ^ 32"
  shows "i + n + length y = length x + 1 \<Longrightarrow> (\<And>j. j < i \<Longrightarrow> \<not> occurs_at x y j) \<Longrightarrow>
    \<exists>r. stristr_loop s t (word_of_nat (length y)) i n = Some r \<and> first_occurrence x y r"
proof (induction n arbitrary: i)
  case 0
  then have "\<not> occurs_at x y j" for j by (cases "j < i") (auto simp: occurs_at_def)
  then show ?case by (simp add: first_occurrence_def)
next
  case (Suc n)
  have u: "unat (word_of_nat (length y) :: u32) = length y" using len by (simp add: unat_of_nat)
  have i: "i + length y \<le> length x" using Suc.prems(1) by simp
  have sub: "take (length y) (drop i s) = take (length y) (drop i x)" "take (length y) t = y"
    using i s t by simp_all
  have le: "unat (word_of_nat (length y) :: u32) \<le> length (drop i s)" "unat (word_of_nat (length y) :: u32) \<le> length t"
    using i s t unfolding u by simp_all
  obtain r where r: "memicmp (drop i s) t (word_of_nat (length y)) = Some r" "r = 0 \<longleftrightarrow> occurs_at x y i"
    using memicmp_spec [OF le] i unfolding u sub occurs_at_def by blast
  show ?case
  proof (cases "r = 0")
    case True
    then show ?thesis using r Suc.prems(2) by (auto simp: first_occurrence_def)
  next
    case False
    then have "\<not> occurs_at x y j" if "j < i + 1" for j using r(2) Suc.prems(2) that by (cases "j = i") auto
    then show ?thesis using False r(1) Suc.IH [of "i + 1"] Suc.prems(1) by simp
  qed
qed

lemma stristr_spec:
  assumes "cstr s x" "cstr t y" "length y < 2 ^ 32"
  shows "\<exists>r. stristr s t = Some r \<and> first_occurrence x y r"
proof -
  obtain js jt where st: "s = x @ 0 # js" "t = y @ 0 # jt" using assms(1,2) by (auto simp: cstr_def)
  note len = strlen_cstr [OF assms(1)] strlen_cstr [OF assms(2)]
  show ?thesis
  proof (cases "length y \<le> length x")
    case True
    then show ?thesis
      using stristr_loop_spec [OF st assms(3), of 0 "length x - length y + 1"] len by (simp add: stristr_def)
  next
    case False
    then show ?thesis using len by (simp add: stristr_def first_occurrence_def occurs_at_def)
  qed
qed

section \<open>Tokens\<close>

lemma string_find_spec:
  "case string_find s d of None \<Rightarrow> \<forall>i. i + length d \<le> length s \<longrightarrow> take (length d) (drop i s) \<noteq> d
   | Some pos \<Rightarrow> pos + length d \<le> length s \<and> take (length d) (drop pos s) = d \<and>
       (\<forall>j < pos. take (length d) (drop j s) \<noteq> d)"
proof (induction s)
  case Nil
  then show ?case by auto
next
  case (Cons c s)
  show ?case
  proof (cases "take (length d) (c # s) = d")
    case True
    then have "length d \<le> length (c # s)" by (metis length_take min.cobounded1)
    then show ?thesis using True by simp
  next
    case False
    have step: "take (length d) (drop j (c # s)) = d \<longleftrightarrow> 0 < j \<and> take (length d) (drop (j - 1) s) = d" for j
      using False by (cases j) auto
    show ?thesis
    proof (cases "string_find s d")
      case None
      have "take (length d) (drop i (c # s)) \<noteq> d" if "i + length d \<le> length (c # s)" for i
        using Cons None that unfolding step by (cases i) auto
      then show ?thesis using None False by simp
    next
      case (Some pos)
      have "take (length d) (drop j (c # s)) \<noteq> d" if "j < Suc pos" for j
        using Cons Some that unfolding step by (cases j) auto
      then show ?thesis using Cons Some False by simp
    qed
  qed
qed

fun join :: "byte list \<Rightarrow> byte list list \<Rightarrow> byte list" where
  "join d [] = []"
| "join d [t] = t"
| "join d (t # u # ts) = t @ d @ join d (u # ts)"

definition contains :: "byte list \<Rightarrow> byte list \<Rightarrow> bool" where
  "contains s d \<longleftrightarrow> (\<exists>i. i + length d \<le> length s \<and> take (length d) (drop i s) = d)"

lemma tokenize_loop_spec:
  assumes "d \<noteq> []"
  shows "\<exists>ts. tokenize_loop s d acc = Some (acc @ ts) \<and> ts \<noteq> [] \<and> join d ts = s \<and> (\<forall>t\<in>set ts. \<not> contains t d)"
proof (induction s arbitrary: acc rule: length_induct)
  case (1 s)
  note f = string_find_spec [where s = s and d = d]
  show ?case
  proof (cases "string_find s d")
    case None
    then have "\<not> contains s d" using f by (auto simp: contains_def)
    then show ?thesis using None by (subst tokenize_loop.simps) simp
  next
    case (Some pos)
    then have p: "pos + length d \<le> length s" "take (length d) (drop pos s) = d" "\<And>j. j < pos \<Longrightarrow> take (length d) (drop j s) \<noteq> d"
      using f by auto
    let ?r = "drop (pos + length d) s"
    have "length ?r < length s" using assms p(1) by (cases d) auto
    then obtain ts where ts: "tokenize_loop ?r d (acc @ [take pos s]) = Some ((acc @ [take pos s]) @ ts)" "ts \<noteq> []" "join d ts = ?r"
      "\<forall>t\<in>set ts. \<not> contains t d" using 1 by blast
    have "\<not> contains (take pos s) d"
    proof
      assume "contains (take pos s) d"
      then obtain i where i: "i + length d \<le> pos" "take (length d) (drop i (take pos s)) = d"
        using p(1) by (auto simp: contains_def)
      then have "take (length d) (drop i s) = d" by (simp add: drop_take min_absorb1)
      moreover have "i < pos" using i(1) assms by (cases d) auto
      ultimately show False using p(3) by blast
    qed
    moreover have "join d (take pos s # ts) = s"
    proof -
      have "join d (take pos s # ts) = take pos s @ d @ ?r" using ts(2,3) by (cases ts) auto
      also have "\<dots> = s" using p(2) by (metis append_take_drop_id drop_drop add.commute)
      finally show ?thesis .
    qed
    ultimately show ?thesis using Some ts by (subst tokenize_loop.simps) auto
  qed
qed


lemma string_find_empty: "string_find s [] = Some 0"
  by (cases s) simp_all

lemma tokenize_loop_empty: "tokenize_loop s d acc = Some r \<Longrightarrow> d \<noteq> []"
  by (erule tokenize_loop.raw_induct [rotated, where P = "\<lambda>s d acc r. d \<noteq> []"])
    (metis (no_types, lifting) option.simps(5) string_find_empty)

section \<open>Lines of a structured file\<close>

abbreviation ends_line :: "byte \<Rightarrow> bool" where
  "ends_line c \<equiv> c = 13 \<or> c = 0"

text \<open>The bytes of a line that starts at \<open>p\<close>, and that it ends there.\<close>

definition line_at :: "byte list \<Rightarrow> nat \<Rightarrow> byte list \<Rightarrow> bool" where
  "line_at f p l \<longleftrightarrow> p + length l \<le> length f \<and> take (length l) (drop p f) = l \<and> (\<forall>c\<in>set l. \<not> ends_line c) \<and>
     (p + length l = length f \<or> ends_line (f ! (p + length l)))"

lemma copy_line_spec:
  assumes "copy_line f p n acc = (out, p', e)" "p \<le> length f" "e \<noteq> LineTooLong"
  shows "\<exists>l. out = acc @ l \<and> length l < n \<and> line_at f p l \<and>
    (e = EndOfFile \<longleftrightarrow> p + length l = length f) \<and>
    (p' = p + length l \<or> p' = p + length l + 1 \<and> p' < length f \<and> f ! p' = 10)"
  using assms
proof (induction f p n acc rule: copy_line.induct)
  case (2 f p n acc)
  consider (eof) "length f \<le> p" | (eol) "p < length f" "ends_line (f ! p)" | (ch) "p < length f" "\<not> ends_line (f ! p)" by linarith
  then show ?case
  proof cases
    case eof
    then show ?thesis using 2(2-) by (auto simp: line_at_def)
  next
    case eol
    then show ?thesis using 2(2-) by (auto simp: line_at_def split: if_splits)
  next
    case ch
    then obtain l where l: "out = (acc @ [f ! p]) @ l" "length l < n" "line_at f (p + 1) l"
      "e = EndOfFile \<longleftrightarrow> p + 1 + length l = length f"
      "p' = p + 1 + length l \<or> p' = p + 1 + length l + 1 \<and> p' < length f \<and> f ! p' = 10"
      using 2(1) 2(2-) by auto
    have "drop p f = f ! p # drop (p + 1) f" using ch(1) by (simp add: Cons_nth_drop_Suc)
    then have "line_at f p (f ! p # l)" using l(3) ch by (auto simp: line_at_def)
    then show ?thesis using l by (intro exI [of _ "f ! p # l"]) auto
  qed
qed simp

text \<open>Where a line may start: at the first position, or behind the end of a line.\<close>

definition line_start :: "byte list \<Rightarrow> nat \<Rightarrow> nat \<Rightarrow> bool" where
  "line_start f p0 p \<longleftrightarrow> p = p0 \<or> (p0 < p \<and> p \<le> length f \<and>
     (ends_line (f ! (p - 1)) \<or> 2 \<le> p \<and> f ! (p - 1) = 10 \<and> ends_line (f ! (p - 2))))"

lemma parse_loop_unfold:
  assumes "copy_line f p 1024 [] = (l, p1, e)" "parse_loop f tabs str p tn first = Some (q, out)"
  shows "e \<noteq> LineTooLong"
    and "drop (count_tabs l) l \<noteq> [] \<and> tabs = count_tabs l \<and> (str = None \<or> str = Some (drop (count_tabs l) l)) \<and> q = p + tabs \<and> out = l \<or>
      e \<noteq> EndOfFile \<and> parse_loop f tabs str (p1 + 1) (tn \<or> count_tabs l \<ge> tabs) False = Some (q, out)"
proof -
  have res: "parse_loop f tabs str p tn first =
      (if e = LineTooLong then None
       else if ((str = None \<and> \<not> first) \<or> tn) \<and> count_tabs l < tabs then None
       else if drop (count_tabs l) l \<noteq> [] \<and> tabs = count_tabs l \<and> (str = None \<or> str = Some (drop (count_tabs l) l)) then Some (p + count_tabs l, l)
       else if e = EndOfFile then None
       else parse_loop f tabs str (p1 + 1) (tn \<or> count_tabs l \<ge> tabs) False)"
    by (subst parse_loop.simps) (simp only: assms(1) prod.case Let_def)
  show "e \<noteq> LineTooLong" using res assms(2) by (cases "e = LineTooLong") simp_all
  then show "drop (count_tabs l) l \<noteq> [] \<and> tabs = count_tabs l \<and> (str = None \<or> str = Some (drop (count_tabs l) l)) \<and> q = p + tabs \<and> out = l \<or>
      e \<noteq> EndOfFile \<and> parse_loop f tabs str (p1 + 1) (tn \<or> count_tabs l \<ge> tabs) False = Some (q, out)"
    using assms(2) unfolding res by (simp only: if_False split: if_splits) auto
qed

lemma tabs_split: "tabs = count_tabs l \<Longrightarrow> l = replicate tabs 9 @ drop tabs l \<and> (drop tabs l \<noteq> [] \<longrightarrow> hd (drop tabs l) \<noteq> 9)"
proof -
  assume t: "tabs = count_tabs l"
  have "takeWhile (\<lambda>c. c = 9) l = replicate tabs 9"
    unfolding t count_tabs_def by (rule replicate_eqI) (auto dest: set_takeWhileD)
  moreover have d: "drop tabs l = dropWhile (\<lambda>c. c = 9) l" unfolding t count_tabs_def by (rule dropWhile_eq_drop [symmetric])
  moreover have "drop tabs l \<noteq> [] \<longrightarrow> hd (drop tabs l) \<noteq> 9" unfolding d by (metis (mono_tags) hd_dropWhile)
  ultimately show ?thesis by (metis takeWhile_dropWhile_id)
qed

lemma parse_loop_sound:
  "parse_loop f tabs str p tn first = Some (q, out) \<Longrightarrow> p \<le> length f \<Longrightarrow>
   \<exists>ls name. line_start f p ls \<and> out = replicate tabs 9 @ name \<and> q = ls + tabs \<and> name \<noteq> [] \<and> hd name \<noteq> 9 \<and>
     (str = None \<or> str = Some name) \<and> length out < 1024 \<and> line_at f ls out"
proof (induction "length f - p" arbitrary: p tn first rule: less_induct)
  case less
  obtain l p1 e where c: "copy_line f p 1024 [] = (l, p1, e)" by (metis prod.exhaust)
  note u = parse_loop_unfold [OF c less.prems(1)]
  have l: "length l < 1024" "line_at f p l" "e = EndOfFile \<longleftrightarrow> p + length l = length f"
    "p1 = p + length l \<or> p1 = p + length l + 1 \<and> p1 < length f \<and> f ! p1 = 10"
    using copy_line_spec [OF c less.prems(2) u(1)] by auto
  from u(2) consider
      (hit) "drop (count_tabs l) l \<noteq> []" "tabs = count_tabs l" "str = None \<or> str = Some (drop (count_tabs l) l)" "q = p + tabs" "out = l"
    | (further) "e \<noteq> EndOfFile" "parse_loop f tabs str (p1 + 1) (tn \<or> count_tabs l \<ge> tabs) False = Some (q, out)"
    by blast
  then show ?case
  proof cases
    case h: hit
    have "line_start f p p" by (simp add: line_start_def)
    then show ?thesis using tabs_split [OF h(2)] h l(1,2) by (intro exI [of _ p] exI [of _ "drop tabs l"]) simp
  next
    case n: further
    have p1: "p < p1 + 1" "p1 + 1 \<le> length f" "line_start f p (p1 + 1)"
      using l n(1) by (auto simp: line_at_def line_start_def)
    obtain ls name where ls: "line_start f (p1 + 1) ls" "out = replicate tabs 9 @ name \<and> q = ls + tabs \<and> name \<noteq> [] \<and>
      hd name \<noteq> 9 \<and> (str = None \<or> str = Some name) \<and> length out < 1024 \<and> line_at f ls out"
      using less.hyps [OF diff_less_mono2 n(2) p1(2)] p1(1,2) by fastforce
    have "line_start f p ls" using ls(1) p1 by (auto simp: line_start_def)
    then show ?thesis using ls(2) by blast
  qed
qed

section \<open>Properties\<close>

text \<open>
  On C strings \<open>stristr\<close> returns the first position at which the second string occurs in the
  first, ignoring the case of ASCII letters, and none exactly when it does not occur;
  \<open>AreStringsEqualI\<close> holds exactly when the two strings are equal up to case. Neither reads outside
  the strings.
\<close>

theorem stristr_AreStringsEqualI:
  assumes "cstr s x" "cstr t y" "length y < 2 ^ 32"
  shows "(\<exists>r. stristr s t = Some r \<and>
      (case r of None \<Rightarrow> \<forall>i. i + length y \<le> length x \<longrightarrow> lower (take (length y) (drop i x)) \<noteq> lower y
       | Some i \<Rightarrow> i + length y \<le> length x \<and> lower (take (length y) (drop i x)) = lower y \<and>
           (\<forall>j < i. lower (take (length y) (drop j x)) \<noteq> lower y))) \<and>
    AreStringsEqualI s t = Some (lower x = lower y)"
proof
  obtain r where r: "stristr s t = Some r" "first_occurrence x y r" using stristr_spec [OF assms] by blast
  then show "\<exists>r. stristr s t = Some r \<and>
      (case r of None \<Rightarrow> \<forall>i. i + length y \<le> length x \<longrightarrow> lower (take (length y) (drop i x)) \<noteq> lower y
       | Some i \<Rightarrow> i + length y \<le> length x \<and> lower (take (length y) (drop i x)) = lower y \<and>
           (\<forall>j < i. lower (take (length y) (drop j x)) \<noteq> lower y))"
    by (cases r) (auto simp: first_occurrence_def occurs_at_def)
  note len = strlen_cstr [OF assms(1)] strlen_cstr [OF assms(2)]
  show "AreStringsEqualI s t = Some (lower x = lower y)"
  proof (cases "length x = length y")
    case True
    then have "occurs_at x y i \<longleftrightarrow> i = 0 \<and> lower x = lower y" for i by (auto simp: occurs_at_def)
    then have "r \<noteq> None \<longleftrightarrow> lower x = lower y" using r(2) by (cases r) (auto simp: first_occurrence_def)
    then show ?thesis using len True r(1) by (simp add: AreStringsEqualI_def)
  next
    case False
    then have "lower x \<noteq> lower y" by (metis length_map lower_def)
    then show ?thesis using len False by (simp add: AreStringsEqualI_def)
  qed
qed

theorem stristr_AreStringsEqualI_witness:
  "AreStringsEqualI [82, 97, 88, 0] [114, 65, 120, 0] = Some True"
proof -
  have "lower [82, 97, 88] = lower [114, 65, 120]" by code_simp
  then show ?thesis
    using stristr_AreStringsEqualI [of "[82, 97, 88, 0]" "[82, 97, 88]" "[114, 65, 120, 0]" "[114, 65, 120]"]
    by (simp add: cstr_def)
qed

text \<open>
  With a delimiter that is not empty \<open>Tokenize\<close> ends; joining its tokens with the delimiter
  gives back the string, and no token contains the delimiter. With an empty delimiter it never
  returns.
\<close>

theorem Tokenize_join:
  "(d \<noteq> [] \<longrightarrow> (\<exists>ts. Tokenize s d = Some ts \<and> ts \<noteq> [] \<and> join d ts = s \<and> (\<forall>t\<in>set ts. \<not> contains t d))) \<and>
   (d = [] \<longrightarrow> Tokenize s d = None)"
  using tokenize_loop_spec [of d s "[]"] tokenize_loop_empty [of s d "[]"]
  by (cases "tokenize_loop s d []") (auto simp: Tokenize_def)

theorem Tokenize_join_witness:
  "(\<exists>ts. Tokenize [97, 32, 98] [32] = Some ts \<and> join [32] ts = [97, 32, 98]) \<and> Tokenize [97] [] = None"
  using Tokenize_join [of "[32]" "[97, 32, 98]"] Tokenize_join [of "[]" "[97]"] by auto

text \<open>
  What \<open>ParseStructuredFile\<close> finds is a whole line of the file, from the start position or from
  behind the end of an earlier line, indented by exactly the number of tabulations asked for, with a
  name that is not empty and is the one asked for, if one was; the position returned is behind the
  tabulations, and the line fits in the line buffer with its terminator.
\<close>

theorem ParseStructuredFile_sound:
  assumes "ParseStructuredFile f tabs str start = Some (q, out)" "case start of None \<Rightarrow> True | Some p \<Rightarrow> p \<le> length f"
  shows "\<exists>ls name. line_start f (case start of None \<Rightarrow> 0 | Some p \<Rightarrow> p) ls \<and> q = ls + tabs \<and>
    out = replicate tabs 9 @ name \<and> name \<noteq> [] \<and> hd name \<noteq> 9 \<and> (str = None \<or> str = Some name) \<and>
    length out < 1024 \<and> line_at f ls out"
proof -
  let ?p = "case start of None \<Rightarrow> 0 | Some p \<Rightarrow> p"
  have "parse_loop f tabs str ?p False True = Some (q, out)" "?p \<le> length f"
    using assms by (auto simp: ParseStructuredFile_def split: if_splits option.splits)
  from parse_loop_sound [OF this] show ?thesis by (auto simp: line_start_def)
qed

theorem ParseStructuredFile_sound_witness:
  "\<exists>q out. ParseStructuredFile [97, 13, 10, 9, 98, 13, 10] 1 None (Some 0) = Some (q, out) \<and>
    (\<exists>ls name. q = ls + 1 \<and> out = 9 # name \<and> line_at [97, 13, 10, 9, 98, 13, 10] ls out)"
proof -
  have "ParseStructuredFile [97, 13, 10, 9, 98, 13, 10] 1 None (Some 0) = Some (4, [9, 98])" by code_simp
  from ParseStructuredFile_sound [OF this] this show ?thesis by auto
qed

end
