(* ===== verification/CrtFill.thy ===== *)
theory CrtFill
  imports Utils
begin

text \<open>
  The number parser of \<open>BugChecker/CrtFill.cpp\<close>: \<open>strtoxq\<close> and its signed and unsigned entry
  points. The scanning pointer is the rest of the string from the current character on; reading past
  the block is \<open>None\<close>. The result is the number and the position stored through \<open>endptr\<close>. The parser
  is shown to compute the value of the digits, saturated to the range of the result, and to read back
  what \<open>HexToString\<close> prints.
\<close>

section \<open>The model\<close>

definition ascii_toupper :: "byte \<Rightarrow> byte" where
  "ascii_toupper c = (if c \<ge> 0x61 \<and> c \<le> 0x7A then c - (0x61 - 0x41) else c)"

definition UI64_MAX :: u64 where "UI64_MAX = - 1"
definition I64_MAX :: u64 where "I64_MAX = 0x7FFFFFFFFFFFFFFF"
definition I64_MIN :: u64 where "I64_MIN = 0x8000000000000000"

record strto_flags =
  FL_UNSIGNED :: bool
  FL_NEG :: bool
  FL_OVERFLOW :: bool
  FL_READDIGIT :: bool

fun skip_blanks :: "byte list \<Rightarrow> byte list option" where
  "skip_blanks [] = None"
| "skip_blanks (c # p) = (if c = 32 then skip_blanks p else Some (c # p))"

definition read_sign :: "byte list \<Rightarrow> bool \<times> byte list" where
  "read_sign p =
     (if take 1 p = [45] then (True, drop 1 p) else if take 1 p = [43] then (False, drop 1 p) else (False, p))"

definition x_follows :: "byte list \<Rightarrow> bool option" where
  "x_follows p = map_option (\<lambda>c. c = 0x78 \<or> c = 0x58) (load p 1)"

definition choose_base :: "byte list \<Rightarrow> nat \<Rightarrow> nat option" where
  "choose_base p ibase =
     (if ibase = 0 then
        (case load p 0 of
           None \<Rightarrow> None
         | Some c \<Rightarrow>
             if c \<noteq> 48 then Some 10
             else map_option (\<lambda>x. if x then 16 else 8) (x_follows p))
      else Some ibase)"

definition skip_prefix :: "byte list \<Rightarrow> nat \<Rightarrow> byte list option" where
  "skip_prefix p ibase =
     (if ibase = 16 then
        (case load p 0 of
           None \<Rightarrow> None
         | Some c \<Rightarrow> if c = 48 then map_option (\<lambda>x. if x then drop 2 p else p) (x_follows p) else Some p)
      else Some p)"

definition digval :: "byte \<Rightarrow> nat option" where
  "digval c =
     (if c \<ge> 48 \<and> c \<le> 57 then Some (unat (c - 48))
      else if (c \<ge> 0x61 \<and> c \<le> 0x7A) \<or> (c \<ge> 0x41 \<and> c \<le> 0x5A) then Some (unat (ascii_toupper c - 0x41) + 10)
      else None)"

definition digit_of :: "nat \<Rightarrow> byte \<Rightarrow> nat option" where
  "digit_of base c = (case digval c of None \<Rightarrow> None | Some d \<Rightarrow> if d \<ge> base then None else Some d)"

text \<open>The loop over the digits; \<open>endptr\<close> tells whether the end is wanted.\<close>

fun digit_loop :: "bool \<Rightarrow> nat \<Rightarrow> byte list \<Rightarrow> u64 \<Rightarrow> strto_flags \<Rightarrow> (u64 \<times> strto_flags \<times> byte list) option" where
  "digit_loop endptr base [] number fl = None"
| "digit_loop endptr base (c # p) number fl =
     (case digit_of base c of
        None \<Rightarrow> Some (number, fl, c # p)
      | Some d \<Rightarrow>
          (let fl = fl\<lparr>FL_READDIGIT := True\<rparr>;
               maxval = UI64_MAX div word_of_nat base
           in
             if number < maxval \<or> (number = maxval \<and> word_of_nat d \<le> UI64_MAX mod word_of_nat base)
             then digit_loop endptr base p (number * word_of_nat base + word_of_nat d) fl
             else if \<not> endptr then Some (number, fl\<lparr>FL_OVERFLOW := True\<rparr>, c # p)
             else digit_loop endptr base p number (fl\<lparr>FL_OVERFLOW := True\<rparr>)))"

definition saturate :: "u64 \<Rightarrow> strto_flags \<Rightarrow> u64" where
  "saturate number fl =
     (if \<not> FL_READDIGIT fl then 0
      else if FL_OVERFLOW fl \<or> \<not> FL_UNSIGNED fl \<and> (FL_NEG fl \<and> number > I64_MIN \<or> \<not> FL_NEG fl \<and> number > I64_MAX)
      then (if FL_UNSIGNED fl then UI64_MAX else if FL_NEG fl then I64_MIN else I64_MAX)
      else number)"

definition strtoxq :: "byte list \<Rightarrow> bool \<Rightarrow> nat \<Rightarrow> bool \<Rightarrow> (u64 \<times> nat) option" where
  "strtoxq nptr endptr ibase is_unsigned =
     (case skip_blanks nptr of
        None \<Rightarrow> None
      | Some p \<Rightarrow>
          (case read_sign p of (neg, p) \<Rightarrow>
             (case choose_base p ibase of
                None \<Rightarrow> None
              | Some base \<Rightarrow>
                  (case skip_prefix p base of
                     None \<Rightarrow> None
                   | Some p \<Rightarrow>
                       (case digit_loop endptr base p 0
                               \<lparr>FL_UNSIGNED = is_unsigned, FL_NEG = neg, FL_OVERFLOW = False, FL_READDIGIT = False\<rparr> of
                          None \<Rightarrow> None
                        | Some (number, fl, p) \<Rightarrow>
                            (let number = saturate number fl in
                             Some (if FL_NEG fl then - number else number,
                                   if FL_READDIGIT fl then length nptr - length p else 0)))))))"

definition BC_strtoi64 :: "byte list \<Rightarrow> bool \<Rightarrow> nat \<Rightarrow> (int \<times> nat) option" where
  "BC_strtoi64 nptr endptr ibase = map_option (\<lambda>(n, e). (sint n, e)) (strtoxq nptr endptr ibase False)"

definition BC_strtoui64 :: "byte list \<Rightarrow> bool \<Rightarrow> nat \<Rightarrow> (u64 \<times> nat) option" where
  "BC_strtoui64 nptr endptr ibase = strtoxq nptr endptr ibase True"

section \<open>The value of a string of digits\<close>

fun digits_value :: "nat \<Rightarrow> nat list \<Rightarrow> nat \<Rightarrow> nat" where
  "digits_value base [] acc = acc"
| "digits_value base (d # ds) acc = digits_value base ds (acc * base + d)"

lemma digits_value_ge: "0 < base \<Longrightarrow> acc \<le> digits_value base ds acc"
proof (induction ds arbitrary: acc)
  case (Cons d ds)
  have "acc \<le> acc * base + d" using Cons.prems by (simp add: trans_le_add1)
  also have "\<dots> \<le> digits_value base ds (acc * base + d)" using Cons by simp
  finally show ?case by simp
qed simp

lemma small_word: "n < 2 ^ 64 \<Longrightarrow> unat (word_of_nat n :: u64) = n"
  by (simp add: unat_of_nat)

text \<open>The check in front of the multiplication is exact.\<close>

lemma overflow_check:
  assumes "2 \<le> base" "base \<le> 36" "d < base"
  shows "(number < UI64_MAX div word_of_nat base \<or>
      (number = UI64_MAX div word_of_nat base \<and> word_of_nat d \<le> UI64_MAX mod word_of_nat base))
    \<longleftrightarrow> unat number * base + d < 2 ^ 64"
proof -
  define M where "M = (2::nat) ^ 64 - 1"
  have b: "unat (word_of_nat base :: u64) = base" "unat (word_of_nat d :: u64) = d" using assms by (simp_all add: small_word)
  have m: "unat (UI64_MAX div word_of_nat base) = M div base" "unat (UI64_MAX mod word_of_nat base) = M mod base"
    unfolding unat_div_distrib unat_mod_distrib b by (simp_all add: UI64_MAX_def M_def unsigned_minus_1_eq_mask mask_eq_exp_minus_1)
  have M: "M = base * (M div base) + M mod base" "M mod base < base" using assms(1) by simp_all
  have *: "unat number * base + d < 2 ^ 64 \<longleftrightarrow> unat number * base + d \<le> base * (M div base) + M mod base"
    unfolding M(1) [symmetric] M_def by auto
  have "unat number * base + d \<le> base * (M div base) + M mod base \<longleftrightarrow>
      unat number < M div base \<or> unat number = M div base \<and> d \<le> M mod base"
  proof (cases "unat number" "M div base" rule: linorder_cases)
    case less
    then have "(unat number + 1) * base \<le> (M div base) * base" by (intro mult_right_mono) auto
    then have "base * unat number + base \<le> base * (M div base)" by (simp add: algebra_simps)
    then have "unat number * base + d \<le> base * (M div base) + M mod base" using assms(3) by (simp only: mult.commute [of _ base])
    then show ?thesis using less by simp
  next
    case greater
    then have "(M div base + 1) * base \<le> unat number * base" by (intro mult_right_mono) auto
    then have "base * (M div base) + base \<le> base * unat number" by (simp add: algebra_simps)
    then have "\<not> unat number * base + d \<le> base * (M div base) + M mod base" using M(2) unfolding mult.commute [of _ base] by linarith
    then show ?thesis using greater by simp
  next
    case equal
    then show ?thesis by (simp only: mult.commute [of _ base] nat_add_left_cancel_le) simp
  qed
  then show ?thesis unfolding * by (simp add: word_less_nat_alt word_le_nat_alt word_unat_eq_iff m b)
qed


definition is_digits :: "nat \<Rightarrow> byte list \<Rightarrow> nat list \<Rightarrow> bool" where
  "is_digits base cs ds \<longleftrightarrow> map (digit_of base) cs = map Some ds"

lemma is_digits_Cons: "is_digits base (c # cs) ds \<longleftrightarrow> (\<exists>d ds'. ds = d # ds' \<and> digit_of base c = Some d \<and> is_digits base cs ds')"
  by (cases ds) (auto simp: is_digits_def)

lemma digit_of_less: "digit_of base c = Some d \<Longrightarrow> d < base"
  by (auto simp: digit_of_def split: option.splits if_splits)

lemma digit_loop_spec:
  assumes "2 \<le> base" "base \<le> 36" "is_digits base cs ds" "r \<noteq> []" "digit_of base (hd r) = None"
  shows "\<exists>n' fl' p'. digit_loop e base (cs @ r) number fl = Some (n', fl', p') \<and>
    FL_UNSIGNED fl' = FL_UNSIGNED fl \<and> FL_NEG fl' = FL_NEG fl \<and> FL_READDIGIT fl' = (FL_READDIGIT fl \<or> cs \<noteq> []) \<and>
    FL_OVERFLOW fl' = (FL_OVERFLOW fl \<or> 2 ^ 64 \<le> digits_value base ds (unat number)) \<and>
    (\<not> FL_OVERFLOW fl' \<longrightarrow> n' = word_of_nat (digits_value base ds (unat number))) \<and>
    (e \<or> \<not> FL_OVERFLOW fl' \<longrightarrow> p' = r)"
  using assms(3)
proof (induction cs arbitrary: ds number fl)
  case Nil
  then have ds: "ds = []" by (simp add: is_digits_def)
  obtain c r' where r: "r = c # r'" "digit_of base c = None" using assms(4,5) by (cases r) auto
  have "unat number < 2 ^ 64" using unat_less_length [of number] by simp
  then show ?case using r ds by simp
next
  case (Cons c cs)
  then obtain d ds' where d: "ds = d # ds'" "digit_of base c = Some d" "is_digits base cs ds'"
    unfolding is_digits_Cons by blast
  let ?fl = "fl\<lparr>FL_READDIGIT := True\<rparr>"
  note chk = overflow_check [OF assms(1,2) digit_of_less [OF d(2)], of number]
  show ?case
  proof (cases "unat number * base + d < 2 ^ 64")
    case True
    have b: "unat (word_of_nat base :: u64) = base" "unat (word_of_nat d :: u64) = d"
      using assms(2) digit_of_less [OF d(2)] by (simp_all add: small_word)
    have "unat (number * word_of_nat base + word_of_nat d) = unat number * base + d"
      using True by (simp add: unat_word_ariths b mod_simps)
    then show ?thesis
      using Cons.IH [OF d(3), of "number * word_of_nat base + word_of_nat d" ?fl] True chk d(1,2) by (simp add: Let_def)
  next
    case False
    have big: "2 ^ 64 \<le> digits_value base ds (unat number)"
      using False digits_value_ge [of base "unat number * base + d" ds'] assms(1) d(1) by simp
    show ?thesis
    proof (cases e)
      case True
      then show ?thesis
        using Cons.IH [OF d(3), of number "?fl\<lparr>FL_OVERFLOW := True\<rparr>"] False chk d(1,2) big by (auto simp: Let_def)
    next
      case e: False
      have "digit_loop e base ((c # cs) @ r) number fl = Some (number, ?fl\<lparr>FL_OVERFLOW := True\<rparr>, c # cs @ r)"
        using False chk d(2) e by (auto simp: Let_def)
      then show ?thesis using big e by simp
    qed
  qed
qed

text \<open>A number in a string: blanks, a sign, digits, and what stops the scan.\<close>

definition sign_bytes :: "bool \<Rightarrow> bool \<Rightarrow> byte list" where
  "sign_bytes explicit neg = (if neg then [45] else if explicit then [43] else [])"

lemma skip_blanks_append: "r \<noteq> [] \<Longrightarrow> hd r \<noteq> 32 \<Longrightarrow> skip_blanks (replicate n 32 @ r) = Some r"
  by (induction n) (cases r; simp)+

lemma digit_char: "digit_of base c = Some d \<Longrightarrow> c \<noteq> 32 \<and> c \<noteq> 45 \<and> c \<noteq> 43"
  by (auto simp: digit_of_def digval_def)

lemma strtoxq_digits:
  assumes "2 \<le> base" "base \<le> 36" "is_digits base cs ds" "cs \<noteq> []" "r \<noteq> []" "digit_of base (hd r) = None"
    "base = 16 \<longrightarrow> hd r \<noteq> 0x78 \<and> hd r \<noteq> 0x58"
  shows "\<exists>e. strtoxq (replicate n 32 @ sign_bytes pl neg @ cs @ r) endptr base u =
      Some (let V = digits_value base ds 0;
                lim = (if u then 2 ^ 64 - 1 else if neg then 2 ^ 63 else 2 ^ 63 - 1);
                w = word_of_nat (min V lim) :: u64
            in if neg then - w else w, e) \<and>
    (endptr \<longrightarrow> e = n + length (sign_bytes pl neg) + length cs)"
proof -
  obtain c cs' where cs: "cs = c # cs'" using assms(4) by (cases cs) auto
  then have dc: "c \<noteq> 32" "c \<noteq> 45" "c \<noteq> 43" "digit_of base c \<noteq> None"
    using assms(3) digit_char unfolding cs is_digits_Cons by blast+
  have skip: "skip_blanks (replicate n 32 @ sign_bytes pl neg @ cs @ r) = Some (sign_bytes pl neg @ cs @ r)"
    by (rule skip_blanks_append) (use dc cs in \<open>auto simp: sign_bytes_def\<close>)
  have sign: "read_sign (sign_bytes pl neg @ cs @ r) = (neg, cs @ r)"
    using dc cs by (auto simp: read_sign_def sign_bytes_def)
  have base: "choose_base (cs @ r) base = Some base" using assms(1) by (simp add: choose_base_def)
  have prefix: "skip_prefix (cs @ r) base = Some (cs @ r)"
  proof (cases "base = 16")
    case True
    have "load (cs @ r) 1 = Some (hd (cs' @ r))" using cs assms(5) by (simp add: load_def nth_append hd_append hd_conv_nth)
    moreover have "hd (cs' @ r) \<noteq> 0x78 \<and> hd (cs' @ r) \<noteq> 0x58"
    proof (cases cs')
      case (Cons x xs)
      then have "digit_of 16 x \<noteq> None" using assms(3) True cs by (auto simp: is_digits_Cons)
      moreover have "digit_of 16 0x78 = None" "digit_of 16 0x58 = None" by code_simp+
      ultimately show ?thesis using Cons by auto
    qed (use assms(7) True in simp)
    ultimately have "x_follows (cs @ r) = Some False" by (simp add: x_follows_def)
    then show ?thesis using cs True by (auto simp: skip_prefix_def load_def)
  qed (simp add: skip_prefix_def)
  let ?fl = "\<lparr>FL_UNSIGNED = u, FL_NEG = neg, FL_OVERFLOW = False, FL_READDIGIT = False\<rparr>"
  define V where "V = digits_value base ds 0"
  obtain n' fl' p' where d: "digit_loop endptr base (cs @ r) 0 ?fl = Some (n', fl', p')"
    "FL_UNSIGNED fl' = u" "FL_NEG fl' = neg" "FL_READDIGIT fl'" "FL_OVERFLOW fl' = (2 ^ 64 \<le> V)"
    "\<not> FL_OVERFLOW fl' \<longrightarrow> n' = word_of_nat V" "endptr \<or> \<not> FL_OVERFLOW fl' \<longrightarrow> p' = r"
    using digit_loop_spec [OF assms(1-3,5,6), of endptr 0 ?fl] assms(4) by (auto simp: V_def)
  have len: "endptr \<Longrightarrow> length (replicate n 32 @ sign_bytes pl neg @ cs @ r) - length p' = n + length (sign_bytes pl neg) + length cs"
    using d(7) by simp
  have "saturate n' fl' = word_of_nat (min V (if u then 2 ^ 64 - 1 else if neg then 2 ^ 63 else 2 ^ 63 - 1))"
  proof (cases "2 ^ 64 \<le> V")
    case True
    then have "V > 2 ^ 63" "V > 2 ^ 64 - 1" "V > 2 ^ 63 - 1" by simp_all
    then show ?thesis using True d(2-5) by (auto simp: saturate_def UI64_MAX_def I64_MIN_def I64_MAX_def min_def)
  next
    case False
    then have "unat n' = V" "n' = word_of_nat V" using d(5,6) by (simp_all add: small_word)
    then have "n' > I64_MIN \<longleftrightarrow> V > 2 ^ 63" "n' > I64_MAX \<longleftrightarrow> V > 2 ^ 63 - 1"
      by (simp_all add: word_less_nat_alt I64_MIN_def I64_MAX_def)
    then show ?thesis using False d(2-5) \<open>n' = word_of_nat V\<close>
      by (auto simp: saturate_def I64_MIN_def I64_MAX_def min_def not_less)
  qed
  then show ?thesis
    using skip sign base prefix d(1,3,4) len by (auto simp: strtoxq_def Let_def V_def)
qed


section \<open>Reading back what is printed\<close>

lemma digit_of_hex_digit: "d < 16 \<Longrightarrow> digit_of 16 (hex_digit d) = Some d"
proof -
  have "\<forall>d\<in>set [0..<16]. digit_of 16 (hex_digit d) = Some d" by code_simp
  then show "d < 16 \<Longrightarrow> ?thesis" by simp
qed

fun nibbles :: "nat \<Rightarrow> nat \<Rightarrow> nat list" where
  "nibbles 0 v = []"
| "nibbles (Suc n) v = nibbles n (v div 16) @ [v mod 16]"

lemma hex_digits_are_digits: "is_digits 16 (hex_digits n v) (nibbles n v)"
proof -
  have "v mod 16 < 16" for v :: nat by simp
  then show ?thesis
    by (induction n arbitrary: v) (simp_all add: is_digits_def digit_of_hex_digit)
qed

lemma length_hex_digits [simp]: "length (hex_digits n v) = n"
  by (induction n arbitrary: v) simp_all

lemma digits_value_append: "digits_value b (xs @ ys) acc = digits_value b ys (digits_value b xs acc)"
  by (induction xs arbitrary: acc) simp_all

lemma digits_value_nibbles: "v < 16 ^ n \<Longrightarrow> digits_value 16 (nibbles n v) acc = acc * 16 ^ n + v"
proof (induction n arbitrary: v)
  case (Suc n)
  have "v div 16 < 16 ^ n" using Suc.prems by (simp add: less_mult_imp_div_less mult.commute)
  then have "digits_value 16 (nibbles (Suc n) v) acc = (acc * 16 ^ n + v div 16) * 16 + v mod 16"
    using Suc.IH by (simp add: digits_value_append)
  also have "\<dots> = acc * 16 ^ Suc n + (v div 16 * 16 + v mod 16)" by (simp add: algebra_simps)
  finally show ?case by simp
qed simp

lemma is_digits_append: "is_digits b xs ds \<Longrightarrow> is_digits b ys es \<Longrightarrow> is_digits b (xs @ ys) (ds @ es)"
  by (simp add: is_digits_def)

definition bytes_value :: "u64 \<Rightarrow> nat \<Rightarrow> nat" where
  "bytes_value hex sz = unat hex mod 256 ^ sz"

lemma HexToString_digits:
  assumes "sz \<in> {1, 2, 4, 8}"
  shows "\<exists>ds. is_digits 16 (HexToString hex sz) ds \<and> digits_value 16 ds 0 = bytes_value hex sz \<and> length (HexToString hex sz) = 2 * sz"
proof -
  have u: "unat (ucast hex :: byte) = unat hex mod 256" "unat (ucast hex :: u16) = unat hex mod 65536"
    "unat (ucast hex :: u32) = unat hex mod 2 ^ 32" "unat (ucast (drop_bit 32 hex) :: u32) = unat hex div 2 ^ 32"
    using unat_less_length [of hex]
    by (simp_all add: unsigned_ucast_eq take_bit_eq_mod unat_drop_bit less_mult_imp_div_less)
  have v: "digits_value 16 (nibbles n v) acc = acc * 16 ^ n + v" if "v < 16 ^ n" for n v acc
    using that by (rule digits_value_nibbles)
  consider "sz = 1" | "sz = 2" | "sz = 4" | "sz = 8" using assms by auto
  then show ?thesis
  proof cases
    case 1
    then show ?thesis using hex_digits_are_digits v [of "unat hex mod 256" 2 0]
      by (intro exI [of _ "nibbles 2 (unat hex mod 256)"]) (simp add: HexToString_def u bytes_value_def)
  next
    case 2
    then show ?thesis using hex_digits_are_digits v [of "unat hex mod 65536" 4 0]
      by (intro exI [of _ "nibbles 4 (unat hex mod 65536)"]) (simp add: HexToString_def u bytes_value_def)
  next
    case 3
    then show ?thesis using hex_digits_are_digits v [of "unat hex mod 2 ^ 32" 8 0]
      by (intro exI [of _ "nibbles 8 (unat hex mod 2 ^ 32)"]) (simp add: HexToString_def u bytes_value_def)
  next
    case 4
    let ?h = "unat hex div 2 ^ 32" and ?l = "unat hex mod 2 ^ 32"
    have "?h < 16 ^ 8" "?l < 16 ^ 8" using unat_less_length [of hex] by (simp_all add: less_mult_imp_div_less)
    then have "digits_value 16 (nibbles 8 ?h @ nibbles 8 ?l) 0 = ?h * 16 ^ 8 + ?l"
      using v [of ?h 8 0] v [of ?l 8 ?h] by (simp add: digits_value_append)
    also have "\<dots> = unat hex" by simp
    finally have "digits_value 16 (nibbles 8 ?h @ nibbles 8 ?l) 0 = bytes_value hex 8"
      using unat_less_length [of hex] by (simp add: bytes_value_def)
    then show ?thesis using 4 is_digits_append [OF hex_digits_are_digits hex_digits_are_digits, of 8 ?h 8 ?l]
      by (intro exI [of _ "nibbles 8 ?h @ nibbles 8 ?l"]) (simp add: HexToString_def u)
  qed
qed

section \<open>Properties\<close>

text \<open>
  C33: on blanks, an optional sign and digits of a base from 2 to 36, up to a character that is no
  digit, the signed parser returns the value of the digits with its sign, saturated to the range of a
  signed number, and the unsigned one the value saturated to the largest unsigned number; after a
  minus the unsigned parser negates that saturated value modulo \<open>2 ^ 64\<close>, so that an overflow behind a
  minus gives 1 and not \<open>_UI64_MAX\<close>, which the comment in front of \<open>strtoxq\<close> announces for every
  overflow. The end they store is the position of the character that stopped the scan. The check in
  front of each multiplication is exact, so that no value in range is taken for an overflow.
\<close>

theorem strto64_value:
  assumes "2 \<le> base" "base \<le> 36" "is_digits base cs ds" "cs \<noteq> []" "rest \<noteq> []" "digit_of base (hd rest) = None"
    "base = 16 \<longrightarrow> hd rest \<noteq> 0x78 \<and> hd rest \<noteq> 0x58"
  shows "let V = digits_value base ds 0; s = replicate n 32 @ sign_bytes explicit neg @ cs @ rest;
             stop = n + length (sign_bytes explicit neg) + length cs
    in BC_strtoui64 s True base = Some (if neg then - word_of_nat (min V (2 ^ 64 - 1)) else word_of_nat (min V (2 ^ 64 - 1)), stop) \<and>
       BC_strtoi64 s True base = Some (if neg then - int (min V (2 ^ 63)) else int (min V (2 ^ 63 - 1)), stop)"
proof -
  define V where "V = digits_value base ds 0"
  have m: "sint (- (word_of_nat (min V (2 ^ 63)) :: u64)) = - int (min V (2 ^ 63))"
  proof -
    have "- (word_of_nat k :: u64) = word_of_int (- int k)" for k by simp
    then show ?thesis by (simp only: signed_of_int) (simp add: signed_take_bit_int_eq_self)
  qed
  have p: "sint (word_of_nat (min V (2 ^ 63 - 1)) :: u64) = int (min V (2 ^ 63 - 1))"
  proof -
    have "(word_of_nat k :: u64) = word_of_int (int k)" for k by simp
    then show ?thesis by (simp only: signed_of_int) (simp add: signed_take_bit_int_eq_self)
  qed
  show ?thesis
    using strtoxq_digits [OF assms, of n explicit neg True True] strtoxq_digits [OF assms, of n explicit neg True False] m p
    by (cases neg) (simp_all add: BC_strtoui64_def BC_strtoi64_def Let_def V_def)
qed

theorem strto64_value_witness:
  "BC_strtoi64 [32, 45, 49, 50, 0] True 10 = Some (- 12, 4) \<and>
   BC_strtoui64 [45, 70, 70, 70, 70, 70, 70, 70, 70, 70, 70, 70, 70, 70, 70, 70, 70, 70, 0] True 16 = Some (1, 18)"
proof
  show "BC_strtoi64 [32, 45, 49, 50, 0] True 10 = Some (- 12, 4)"
    using strto64_value [of 10 "[49, 50]" "[1, 2]" "[0]" 1 False True]
    by (simp add: is_digits_def digit_of_def digval_def sign_bytes_def Let_def)
  have d: "digit_of 16 0 = None" "digit_of 16 70 = Some 15" by code_simp+
  show "BC_strtoui64 [45, 70, 70, 70, 70, 70, 70, 70, 70, 70, 70, 70, 70, 70, 70, 70, 70, 70, 0] True 16 = Some (1, 18)"
    using strto64_value [of 16 "[70, 70, 70, 70, 70, 70, 70, 70, 70, 70, 70, 70, 70, 70, 70, 70, 70]"
        "[15, 15, 15, 15, 15, 15, 15, 15, 15, 15, 15, 15, 15, 15, 15, 15, 15]" "[0]" 0 False True]
    by (simp add: is_digits_def d sign_bytes_def Let_def)
qed

text \<open>
  C34: \<open>HexToString\<close> of a value of 1, 2, 4 or 8 bytes has two characters per byte, and parsing them
  in base 16 gives back the low bytes of the value.
\<close>

theorem hex_round_trip:
  assumes "sz \<in> {1, 2, 4, 8}"
  shows "length (HexToString hex sz) = 2 * sz \<and>
    BC_strtoui64 (HexToString hex sz @ [0]) True 16 = Some (word_of_nat (unat hex mod 256 ^ sz), 2 * sz)"
proof -
  obtain ds where ds: "is_digits 16 (HexToString hex sz) ds" "digits_value 16 ds 0 = bytes_value hex sz"
    "length (HexToString hex sz) = 2 * sz" using HexToString_digits [OF assms] by blast
  have "HexToString hex sz \<noteq> []" using ds(3) assms by auto
  moreover have "digit_of 16 0 = None" by code_simp
  moreover have "bytes_value hex sz \<le> 2 ^ 64 - 1"
  proof -
    have "unat hex mod 256 ^ sz \<le> unat hex" by simp
    moreover have "unat hex \<le> 2 ^ 64 - 1" using unat_less_length [of hex] by simp
    ultimately show ?thesis unfolding bytes_value_def by (rule order_trans)
  qed
  ultimately show ?thesis
    using strtoxq_digits [of 16 "HexToString hex sz" ds "[0]" 0 False False True True] ds
    by (auto simp: BC_strtoui64_def sign_bytes_def Let_def bytes_value_def min_absorb1)
qed

theorem hex_round_trip_witness:
  "BC_strtoui64 (HexToString 0xFFFFF80012345678 8 @ [0]) True 16 = Some (0xFFFFF80012345678, 16)"
  using hex_round_trip [of 8 "0xFFFFF80012345678"] by simp

end
