(* ===== verification/X86Step.thy ===== *)
theory X86Step
  imports Utils
begin

text \<open>
  The step calculator of \<open>BugChecker/X86Step.cpp\<close> (64-bit build): from the registers and a decoded
  instruction, where execution goes next. What the disassembler library reports about an instruction
  is a record of the fields the code reads; the flags an instruction tests, which the library takes
  from its tables, are one of them. The calculator is shown to agree with the jump conditions of the
  processor, and register names to be read regardless of case.
\<close>

section \<open>The model\<close>

datatype ZydisRegister =
    ZYDIS_REGISTER_NONE
  | RAX | RBX | RCX | RDX | RSI | RDI | RSP | RBP
  | R8 | R9 | R10 | R11 | R12 | R13 | R14 | R15 | RIP
  | EAX | EBX | ECX | EDX | ESI | EDI | ESP | EBP | EIP
  | CS | DS | ES | SS
  | OtherRegister nat

record CONTEXT =
  Rax :: u64
  Rbx :: u64
  Rcx :: u64
  Rdx :: u64
  Rsi :: u64
  Rdi :: u64
  Rsp :: u64
  Rbp :: u64
  C_R8 :: u64
  C_R9 :: u64
  C_R10 :: u64
  C_R11 :: u64
  C_R12 :: u64
  C_R13 :: u64
  C_R14 :: u64
  C_R15 :: u64
  Rip :: u64
  EFlags :: u32

text \<open>The pointer to a register in the context is the field it points to.\<close>

fun ZydisRegToCtxRegValuePtr :: "ZydisRegister \<Rightarrow> (CONTEXT \<Rightarrow> u64) option \<times> nat" where
  "ZydisRegToCtxRegValuePtr RAX = (Some Rax, 8)"
| "ZydisRegToCtxRegValuePtr RBX = (Some Rbx, 8)"
| "ZydisRegToCtxRegValuePtr RCX = (Some Rcx, 8)"
| "ZydisRegToCtxRegValuePtr RDX = (Some Rdx, 8)"
| "ZydisRegToCtxRegValuePtr RSI = (Some Rsi, 8)"
| "ZydisRegToCtxRegValuePtr RDI = (Some Rdi, 8)"
| "ZydisRegToCtxRegValuePtr RSP = (Some Rsp, 8)"
| "ZydisRegToCtxRegValuePtr RBP = (Some Rbp, 8)"
| "ZydisRegToCtxRegValuePtr R8 = (Some C_R8, 8)"
| "ZydisRegToCtxRegValuePtr R9 = (Some C_R9, 8)"
| "ZydisRegToCtxRegValuePtr R10 = (Some C_R10, 8)"
| "ZydisRegToCtxRegValuePtr R11 = (Some C_R11, 8)"
| "ZydisRegToCtxRegValuePtr R12 = (Some C_R12, 8)"
| "ZydisRegToCtxRegValuePtr R13 = (Some C_R13, 8)"
| "ZydisRegToCtxRegValuePtr R14 = (Some C_R14, 8)"
| "ZydisRegToCtxRegValuePtr R15 = (Some C_R15, 8)"
| "ZydisRegToCtxRegValuePtr RIP = (Some Rip, 8)"
| "ZydisRegToCtxRegValuePtr EAX = (Some Rax, 4)"
| "ZydisRegToCtxRegValuePtr EBX = (Some Rbx, 4)"
| "ZydisRegToCtxRegValuePtr ECX = (Some Rcx, 4)"
| "ZydisRegToCtxRegValuePtr EDX = (Some Rdx, 4)"
| "ZydisRegToCtxRegValuePtr ESI = (Some Rsi, 4)"
| "ZydisRegToCtxRegValuePtr EDI = (Some Rdi, 4)"
| "ZydisRegToCtxRegValuePtr ESP = (Some Rsp, 4)"
| "ZydisRegToCtxRegValuePtr EBP = (Some Rbp, 4)"
| "ZydisRegToCtxRegValuePtr EIP = (Some Rip, 4)"
| "ZydisRegToCtxRegValuePtr reg = (None, 0)"

definition ascii :: "string \<Rightarrow> byte list" where
  "ascii s = map of_char s"

definition reg_names :: "(byte list \<times> ZydisRegister) list" where
  "reg_names =
     map (\<lambda>(s, r). (ascii s, r))
       [(''RAX'', RAX), (''RBX'', RBX), (''RCX'', RCX), (''RDX'', RDX), (''RSI'', RSI), (''RDI'', RDI),
        (''RSP'', RSP), (''RBP'', RBP), (''R8'', R8), (''R9'', R9), (''R10'', R10), (''R11'', R11),
        (''R12'', R12), (''R13'', R13), (''R14'', R14), (''R15'', R15), (''RIP'', RIP), (''EAX'', EAX),
        (''EBX'', EBX), (''ECX'', ECX), (''EDX'', EDX), (''ESI'', ESI), (''EDI'', EDI), (''ESP'', ESP),
        (''EBP'', EBP), (''EIP'', EIP)]"

definition compare_reg :: "byte list \<Rightarrow> byte list \<Rightarrow> bool option" where
  "compare_reg str regName =
     (case (strlen (regName @ [0]), strlen str) of
        (Some a, Some b) \<Rightarrow>
          if a = b then map_option (\<lambda>r. r \<noteq> None) (stristr (regName @ [0]) str) else Some False
      | _ \<Rightarrow> None)"

fun first_reg :: "byte list \<Rightarrow> (byte list \<times> ZydisRegister) list \<Rightarrow> ZydisRegister option" where
  "first_reg str [] = Some ZYDIS_REGISTER_NONE"
| "first_reg str ((n, r) # rs) =
     (case compare_reg str n of None \<Rightarrow> None | Some b \<Rightarrow> if b then Some r else first_reg str rs)"

definition StringToZydisReg :: "byte list \<Rightarrow> ZydisRegister option" where
  "StringToZydisReg str = first_reg str reg_names"

datatype mnemonic =
    RET | CALL | JMP
  | JNB | JNBE | JNL | JNLE | JNO | JNP | JNS | JNZ
  | JB | JBE | JL | JLE | JO | JP | JS | JZ
  | JCXZ | JECXZ | JRCXZ
  | LOOP | LOOPE | LOOPNE
  | OtherMnemonic nat

record mem_operand =
  mem_is_mem :: bool
  mem_segment :: ZydisRegister
  mem_base :: ZydisRegister
  mem_index :: ZydisRegister
  mem_scale :: byte
  mem_disp :: "u64 option"

datatype operand = Immediate u64 | Register ZydisRegister | Memory mem_operand | OtherOperand

record ZydisDecodedInstruction =
  i_mnemonic :: mnemonic
  i_branch_near :: bool
  i_operand_count_visible :: nat
  i_length :: byte
  i_tested :: "u32 option"
  i_address_width :: nat
  i_op0 :: operand

datatype JumpInstrType = JumpNone | NotJumping | Jumping

record step =
  stepAddrImm :: u64
  stepAddrPtr :: u64
  stepAddrPtrSize :: u64

definition no_step :: step where
  "no_step = \<lparr>stepAddrImm = 0, stepAddrPtr = 0, stepAddrPtrSize = 0\<rparr>"

definition CPUFLAG_CF :: u32 where "CPUFLAG_CF = 1"
definition CPUFLAG_PF :: u32 where "CPUFLAG_PF = 4"
definition CPUFLAG_ZF :: u32 where "CPUFLAG_ZF = 64"
definition CPUFLAG_SF :: u32 where "CPUFLAG_SF = 128"
definition CPUFLAG_OF :: u32 where "CPUFLAG_OF = 2048"

definition flag :: "CONTEXT \<Rightarrow> u32 \<Rightarrow> bool" where
  "flag ctx f \<longleftrightarrow> EFlags ctx AND f \<noteq> 0"

definition relative_step :: "CONTEXT \<Rightarrow> ZydisDecodedInstruction \<Rightarrow> step" where
  "relative_step ctx i =
     (case i_op0 i of
        Immediate s \<Rightarrow> no_step\<lparr>stepAddrImm := Rip ctx + ucast (i_length i) + s\<rparr>
      | _ \<Rightarrow> no_step)"

definition read_reg :: "CONTEXT \<Rightarrow> (CONTEXT \<Rightarrow> u64) \<Rightarrow> nat \<Rightarrow> u64" where
  "read_reg ctx f sz = (if sz = 8 then f ctx else ucast (ucast (f ctx) :: u32))"

definition pointer_step :: "bool \<Rightarrow> u64 \<Rightarrow> step" where
  "pointer_step is32bitCompat v =
     no_step\<lparr>stepAddrPtr := (if is32bitCompat then ucast (ucast v :: u32) else v),
             stepAddrPtrSize := (if is32bitCompat then 4 else 8)\<rparr>"

definition step_RET :: "CONTEXT \<Rightarrow> ZydisDecodedInstruction \<Rightarrow> bool \<Rightarrow> step" where
  "step_RET ctx i is32bitCompat = (if i_branch_near i then pointer_step is32bitCompat (Rsp ctx) else no_step)"

definition memory_address :: "CONTEXT \<Rightarrow> ZydisDecodedInstruction \<Rightarrow> mem_operand \<Rightarrow> u64" where
  "memory_address ctx i m =
     (let (pBase, szBase) = ZydisRegToCtxRegValuePtr (mem_base m);
          (pIndex, szIndex) = ZydisRegToCtxRegValuePtr (mem_index m);
          v = (case pBase of
                 None \<Rightarrow> 0
               | Some f \<Rightarrow> read_reg ctx f szBase + (if mem_base m = EIP \<or> mem_base m = RIP then ucast (i_length i) else 0));
          v = v + (case pIndex of None \<Rightarrow> 0 | Some f \<Rightarrow> read_reg ctx f szIndex * ucast (mem_scale m))
      in v + (case mem_disp m of None \<Rightarrow> 0 | Some d \<Rightarrow> d))"

definition step_memory :: "CONTEXT \<Rightarrow> ZydisDecodedInstruction \<Rightarrow> bool \<Rightarrow> mem_operand \<Rightarrow> step" where
  "step_memory ctx i is32bitCompat m =
     (if mem_is_mem m \<and> mem_segment m \<in> {CS, DS, ES, SS} then
        (let (pBase, szBase) = ZydisRegToCtxRegValuePtr (mem_base m);
             (pIndex, szIndex) = ZydisRegToCtxRegValuePtr (mem_index m)
         in
           if (Option.is_none pBase \<or> szBase = 8 \<or> szBase = 4) \<and> (Option.is_none pIndex \<or> szIndex = 8 \<or> szIndex = 4) then
             (let v = memory_address ctx i m in if v \<noteq> 0 then pointer_step is32bitCompat v else no_step)
           else no_step)
      else no_step)"

definition step_CALL_JMP :: "CONTEXT \<Rightarrow> ZydisDecodedInstruction \<Rightarrow> bool \<Rightarrow> step" where
  "step_CALL_JMP ctx i is32bitCompat =
     (if i_operand_count_visible i = 1 then
        (case i_op0 i of
           Immediate s \<Rightarrow> relative_step ctx i
         | Register reg \<Rightarrow>
             (case ZydisRegToCtxRegValuePtr reg of
                (Some f, sz) \<Rightarrow> if sz = 8 \<or> sz = 4 then no_step\<lparr>stepAddrImm := read_reg ctx f sz\<rparr> else no_step
              | _ \<Rightarrow> no_step)
         | Memory m \<Rightarrow> step_memory ctx i is32bitCompat m
         | OtherOperand \<Rightarrow> no_step)
      else no_step)"

definition tests_negated :: "mnemonic \<Rightarrow> bool" where
  "tests_negated m \<longleftrightarrow> m \<in> {JNB, JNBE, JNL, JNLE, JNO, JNP, JNS, JNZ}"

definition jcc_taken :: "CONTEXT \<Rightarrow> ZydisDecodedInstruction \<Rightarrow> bool" where
  "jcc_taken ctx i \<longleftrightarrow>
     (case i_mnemonic i of
        JBE \<Rightarrow> flag ctx CPUFLAG_CF \<or> flag ctx CPUFLAG_ZF
      | JL \<Rightarrow> (\<not> flag ctx CPUFLAG_SF) \<noteq> (\<not> flag ctx CPUFLAG_OF)
      | JNL \<Rightarrow> (\<not> flag ctx CPUFLAG_SF) = (\<not> flag ctx CPUFLAG_OF)
      | JLE \<Rightarrow> flag ctx CPUFLAG_ZF \<or> (\<not> flag ctx CPUFLAG_SF) \<noteq> (\<not> flag ctx CPUFLAG_OF)
      | JNLE \<Rightarrow> \<not> flag ctx CPUFLAG_ZF \<and> (\<not> flag ctx CPUFLAG_SF) = (\<not> flag ctx CPUFLAG_OF)
      | m \<Rightarrow>
          (case i_tested i of
             None \<Rightarrow> False
           | Some tested \<Rightarrow>
               tested \<noteq> 0 \<and>
               (let cond = EFlags ctx AND tested in
                (\<not> tests_negated m \<and> cond = tested) \<or> (tests_negated m \<and> cond = 0))))"

definition step_JCC :: "CONTEXT \<Rightarrow> ZydisDecodedInstruction \<Rightarrow> step" where
  "step_JCC ctx i = (if jcc_taken ctx i then relative_step ctx i else no_step)"

definition step_JCXZ :: "CONTEXT \<Rightarrow> ZydisDecodedInstruction \<Rightarrow> step" where
  "step_JCXZ ctx i =
     (let v = (case i_mnemonic i of
                 JCXZ \<Rightarrow> ucast (ucast (Rcx ctx) :: u16)
               | JECXZ \<Rightarrow> ucast (ucast (Rcx ctx) :: u32)
               | JRCXZ \<Rightarrow> Rcx ctx
               | _ \<Rightarrow> 1)
      in if v = 0 then relative_step ctx i else no_step)"

definition loop_count :: "CONTEXT \<Rightarrow> ZydisDecodedInstruction \<Rightarrow> u64" where
  "loop_count ctx i =
     (if i_address_width i = 16 then ucast (ucast (Rcx ctx) :: u16)
      else if i_address_width i = 32 then ucast (ucast (Rcx ctx) :: u32)
      else if i_address_width i = 64 then Rcx ctx
      else 1)"

definition step_LOOP :: "CONTEXT \<Rightarrow> ZydisDecodedInstruction \<Rightarrow> step" where
  "step_LOOP ctx i =
     (let v = loop_count ctx i;
          jump = (case i_mnemonic i of
                    LOOP \<Rightarrow> v \<noteq> 1
                  | LOOPE \<Rightarrow> v \<noteq> 1 \<and> flag ctx CPUFLAG_ZF
                  | LOOPNE \<Rightarrow> v \<noteq> 1 \<and> \<not> flag ctx CPUFLAG_ZF
                  | _ \<Rightarrow> False)
      in if jump then relative_step ctx i else no_step)"

definition step_of :: "CONTEXT \<Rightarrow> ZydisDecodedInstruction \<Rightarrow> bool \<Rightarrow> (bool \<times> step)" where
  "step_of ctx i is32bitCompat =
     (case i_mnemonic i of
        RET \<Rightarrow> (True, step_RET ctx i is32bitCompat)
      | CALL \<Rightarrow> (True, step_CALL_JMP ctx i is32bitCompat)
      | JMP \<Rightarrow> (True, step_CALL_JMP ctx i is32bitCompat)
      | JCXZ \<Rightarrow> (True, step_JCXZ ctx i)
      | JECXZ \<Rightarrow> (True, step_JCXZ ctx i)
      | JRCXZ \<Rightarrow> (True, step_JCXZ ctx i)
      | LOOP \<Rightarrow> (True, step_LOOP ctx i)
      | LOOPE \<Rightarrow> (True, step_LOOP ctx i)
      | LOOPNE \<Rightarrow> (True, step_LOOP ctx i)
      | OtherMnemonic n \<Rightarrow> (False, no_step)
      | _ \<Rightarrow> (True, step_JCC ctx i))"

definition CalculateStepDestination :: "CONTEXT \<Rightarrow> ZydisDecodedInstruction \<Rightarrow> bool \<Rightarrow> JumpInstrType \<times> step" where
  "CalculateStepDestination ctx i is32bitCompat =
     (case step_of ctx i is32bitCompat of
        (isJumpInstr, st) \<Rightarrow>
          if stepAddrImm st = 0 \<and> stepAddrPtr st = 0 \<and> stepAddrPtrSize st = 0
          then (if isJumpInstr then NotJumping else JumpNone, st\<lparr>stepAddrImm := Rip ctx + ucast (i_length i)\<rparr>)
          else (if isJumpInstr then Jumping else JumpNone, st))"


section \<open>Flags and conditions of the processor\<close>

text \<open>
  The reference: the condition of each conditional jump in terms of the bits of the flags register,
  and the flags a conditional jump tests according to the documentation.
\<close>

fun jump_condition :: "mnemonic \<Rightarrow> u32 \<Rightarrow> bool" where
  "jump_condition JB f = bit f 0"
| "jump_condition JNB f = (\<not> bit f 0)"
| "jump_condition JP f = bit f 2"
| "jump_condition JNP f = (\<not> bit f 2)"
| "jump_condition JZ f = bit f 6"
| "jump_condition JNZ f = (\<not> bit f 6)"
| "jump_condition JS f = bit f 7"
| "jump_condition JNS f = (\<not> bit f 7)"
| "jump_condition JO f = bit f 11"
| "jump_condition JNO f = (\<not> bit f 11)"
| "jump_condition JBE f = (bit f 0 \<or> bit f 6)"
| "jump_condition JNBE f = (\<not> bit f 0 \<and> \<not> bit f 6)"
| "jump_condition JL f = (bit f 7 \<noteq> bit f 11)"
| "jump_condition JNL f = (bit f 7 = bit f 11)"
| "jump_condition JLE f = (bit f 6 \<or> bit f 7 \<noteq> bit f 11)"
| "jump_condition JNLE f = (\<not> bit f 6 \<and> bit f 7 = bit f 11)"
| "jump_condition m f = False"

definition conditional :: "mnemonic \<Rightarrow> bool" where
  "conditional m \<longleftrightarrow> m \<in> {JB, JNB, JP, JNP, JZ, JNZ, JS, JNS, JO, JNO, JBE, JNBE, JL, JNL, JLE, JNLE}"

fun documented_flags :: "mnemonic \<Rightarrow> u32" where
  "documented_flags JB = CPUFLAG_CF"
| "documented_flags JNB = CPUFLAG_CF"
| "documented_flags JP = CPUFLAG_PF"
| "documented_flags JNP = CPUFLAG_PF"
| "documented_flags JZ = CPUFLAG_ZF"
| "documented_flags JNZ = CPUFLAG_ZF"
| "documented_flags JS = CPUFLAG_SF"
| "documented_flags JNS = CPUFLAG_SF"
| "documented_flags JO = CPUFLAG_OF"
| "documented_flags JNO = CPUFLAG_OF"
| "documented_flags JBE = CPUFLAG_CF OR CPUFLAG_ZF"
| "documented_flags JNBE = CPUFLAG_CF OR CPUFLAG_ZF"
| "documented_flags JL = CPUFLAG_SF OR CPUFLAG_OF"
| "documented_flags JNL = CPUFLAG_SF OR CPUFLAG_OF"
| "documented_flags JLE = CPUFLAG_ZF OR CPUFLAG_SF OR CPUFLAG_OF"
| "documented_flags JNLE = CPUFLAG_ZF OR CPUFLAG_SF OR CPUFLAG_OF"
| "documented_flags m = 0"

lemma and_single: "(x :: u32) AND 2 ^ k = (if bit x k then 2 ^ k else 0)"
  by (intro bit_word_eqI) (auto simp: bit_and_iff bit_exp_iff)

lemma flag_bits:
  "CPUFLAG_CF = 2 ^ 0" "CPUFLAG_PF = 2 ^ 2" "CPUFLAG_ZF = 2 ^ 6" "CPUFLAG_SF = 2 ^ 7" "CPUFLAG_OF = 2 ^ 11"
  by (simp_all add: CPUFLAG_CF_def CPUFLAG_PF_def CPUFLAG_ZF_def CPUFLAG_SF_def CPUFLAG_OF_def)

lemma single_flag:
  "k < 32 \<Longrightarrow> (x :: u32) AND 2 ^ k = 0 \<longleftrightarrow> \<not> bit x k" "k < 32 \<Longrightarrow> (x :: u32) AND 2 ^ k = 2 ^ k \<longleftrightarrow> bit x k"
  "k < 32 \<Longrightarrow> (2 :: u32) ^ k \<noteq> 0"
proof -
  have nz: "k < 32 \<Longrightarrow> (2 :: u32) ^ k \<noteq> 0" by (simp add: exp_eq_zero_iff)
  then show "k < 32 \<Longrightarrow> (2 :: u32) ^ k \<noteq> 0" .
  show "k < 32 \<Longrightarrow> (x :: u32) AND 2 ^ k = 0 \<longleftrightarrow> \<not> bit x k" "k < 32 \<Longrightarrow> (x :: u32) AND 2 ^ k = 2 ^ k \<longleftrightarrow> bit x k"
    using nz by (auto simp: and_single)
qed


lemma flag_iff:
  "flag ctx CPUFLAG_CF \<longleftrightarrow> bit (EFlags ctx) 0" "flag ctx CPUFLAG_PF \<longleftrightarrow> bit (EFlags ctx) 2"
  "flag ctx CPUFLAG_ZF \<longleftrightarrow> bit (EFlags ctx) 6" "flag ctx CPUFLAG_SF \<longleftrightarrow> bit (EFlags ctx) 7"
  "flag ctx CPUFLAG_OF \<longleftrightarrow> bit (EFlags ctx) 11"
  unfolding flag_def flag_bits by (simp_all only: single_flag(1)) simp_all

lemma tested_set:
  assumes "k < 32"
  shows "((2 :: u32) ^ k \<noteq> 0 \<and> (let cond = (x :: u32) AND 2 ^ k in cond = 2 ^ k)) = bit x k"
  unfolding Let_def using single_flag(1,2) [OF assms, of x] single_flag(3) [OF assms] by simp

lemma tested_clear:
  assumes "k < 32"
  shows "((2 :: u32) ^ k \<noteq> 0 \<and> (let cond = (x :: u32) AND 2 ^ k in cond = 0)) = (\<not> bit x k)"
  unfolding Let_def using single_flag(1,2) [OF assms, of x] single_flag(3) [OF assms] by simp

lemma tested_pair:
  "((2 ^ 0 OR 2 ^ 6 :: u32) \<noteq> 0 \<and> (let cond = x AND (2 ^ 0 OR 2 ^ 6) in cond = 0))
   = (\<not> bit (x :: u32) 0 \<and> \<not> bit x 6)"
proof -
  have "x AND (2 ^ 0 OR 2 ^ 6) = (x AND 2 ^ 0) OR (x AND 2 ^ 6)" by (rule bit.conj_disj_distrib)
  then have "x AND (2 ^ 0 OR 2 ^ 6) = 0 \<longleftrightarrow> x AND 2 ^ 0 = 0 \<and> x AND 2 ^ 6 = 0" by (simp only: or_eq_0_iff)
  also have "\<dots> \<longleftrightarrow> \<not> bit x 0 \<and> \<not> bit x 6" using single_flag(1) [of 0 x] single_flag(1) [of 6 x] by simp
  finally have e: "x AND (2 ^ 0 OR 2 ^ 6) = 0 \<longleftrightarrow> \<not> bit x 0 \<and> \<not> bit x 6" .
  have "(2 ^ 0 OR 2 ^ 6 :: u32) \<noteq> 0" by simp
  then show ?thesis unfolding Let_def e by blast
qed

lemma tests_negated_simps:
  "\<not> tests_negated JB" "\<not> tests_negated JP" "\<not> tests_negated JZ" "\<not> tests_negated JS" "\<not> tests_negated JO"
  "tests_negated JNB" "tests_negated JNP" "tests_negated JNZ" "tests_negated JNS" "tests_negated JNO" "tests_negated JNBE"
  by (simp_all add: tests_negated_def)

lemma small_bits: "(0::nat) < 32" "(2::nat) < 32" "(6::nat) < 32" "(7::nat) < 32" "(11::nat) < 32"
  by simp_all

lemmas tested_simps =
  tested_set [OF small_bits(1)] tested_set [OF small_bits(2)] tested_set [OF small_bits(3)]
  tested_set [OF small_bits(4)] tested_set [OF small_bits(5)]
  tested_clear [OF small_bits(1)] tested_clear [OF small_bits(2)] tested_clear [OF small_bits(3)]
  tested_clear [OF small_bits(4)] tested_clear [OF small_bits(5)] tested_pair

lemma jcc_taken_condition:
  assumes "conditional (i_mnemonic i)" "i_tested i = Some (documented_flags (i_mnemonic i))"
  shows "jcc_taken ctx i \<longleftrightarrow> jump_condition (i_mnemonic i) (EFlags ctx)"
proof -
  have f: "\<not> b \<Longrightarrow> b = False" "b \<Longrightarrow> b = True" for b by simp_all
  note neg = tests_negated_simps(1-5) [THEN f(1)] tests_negated_simps(6-11) [THEN f(2)]
  show ?thesis
    using assms
    unfolding conditional_def insert_iff empty_iff jcc_taken_def flag_iff
    by (elim disjE) (simp_all only: mnemonic.case option.case documented_flags.simps flag_bits neg
        tested_simps jump_condition.simps simp_thms)
qed

text \<open>
  When a jump on the counter or on the flags is taken, by the processor's rules: the loop instructions
  decrement the counter at the address width first and test the result.
\<close>

fun branch_taken :: "mnemonic \<Rightarrow> nat \<Rightarrow> u64 \<Rightarrow> u32 \<Rightarrow> bool" where
  "branch_taken JCXZ aw rcx f = (take_bit 16 rcx = 0)"
| "branch_taken JECXZ aw rcx f = (take_bit 32 rcx = 0)"
| "branch_taken JRCXZ aw rcx f = (rcx = 0)"
| "branch_taken LOOP aw rcx f = (take_bit aw (rcx - 1) \<noteq> 0)"
| "branch_taken LOOPE aw rcx f = (take_bit aw (rcx - 1) \<noteq> 0 \<and> bit f 6)"
| "branch_taken LOOPNE aw rcx f = (take_bit aw (rcx - 1) \<noteq> 0 \<and> \<not> bit f 6)"
| "branch_taken m aw rcx f = jump_condition m f"

definition counted :: "mnemonic \<Rightarrow> bool" where
  "counted m \<longleftrightarrow> m \<in> {JCXZ, JECXZ, JRCXZ, LOOP, LOOPE, LOOPNE}"

lemma narrow: "ucast (ucast (x :: u64) :: u16) = take_bit 16 x" "ucast (ucast (x :: u64) :: u32) = take_bit 32 x"
  by (simp_all add: unsigned_ucast_eq)

lemma take_bit_pred_int:
  assumes "0 < n"
  shows "take_bit n (x - 1 :: int) = 0 \<longleftrightarrow> take_bit n x = 1"
proof -
  have "(1 :: int) < 2 ^ n" using assms by (simp add: one_less_power)
  then have "(1 :: int) mod 2 ^ n = 1" by (simp only: mod_pos_pos_trivial zero_le_one)
  then have "take_bit n x = 1 \<longleftrightarrow> x mod 2 ^ n = 1 mod 2 ^ n" by (simp only: take_bit_eq_mod)
  also have "\<dots> \<longleftrightarrow> 2 ^ n dvd x - 1" by (rule mod_eq_dvd_iff)
  finally show ?thesis by (simp only: take_bit_eq_mod mod_eq_0_iff_dvd)
qed

lemma take_bit_pred:
  assumes "0 < n" "n \<le> 64"
  shows "take_bit n (x - 1 :: u64) = 0 \<longleftrightarrow> take_bit n x = 1"
proof -
  have "uint (take_bit n y) = take_bit n (uint y)" for y :: u64 by (simp add: unsigned_take_bit_eq)
  moreover have "take_bit n (uint (x - 1)) = take_bit n (uint x - 1)"
  proof -
    have "uint (x - 1) = (uint x - 1) mod 2 ^ 64" by (simp add: uint_word_ariths)
    then show ?thesis using assms(2) by (simp only: take_bit_eq_mod mod_mod_cancel le_imp_power_dvd)
  qed
  ultimately show ?thesis using take_bit_pred_int [OF assms(1), of "uint x"] by (simp add: word_uint_eq_iff)
qed

lemma loop_count_one:
  assumes "i_address_width i \<in> {16, 32, 64}"
  shows "loop_count ctx i \<noteq> 1 \<longleftrightarrow> take_bit (i_address_width i) (Rcx ctx - 1) \<noteq> 0"
proof -
  have "loop_count ctx i = take_bit (i_address_width i) (Rcx ctx)"
    using assms take_bit_word_eq_self [of 64 "Rcx ctx"] by (auto simp: loop_count_def narrow)
  then show ?thesis using assms take_bit_pred [of "i_address_width i" "Rcx ctx"] by auto
qed

lemma step_of_branch:
  assumes "conditional (i_mnemonic i) \<and> i_tested i = Some (documented_flags (i_mnemonic i)) \<or>
           counted (i_mnemonic i) \<and> i_address_width i \<in> {16, 32, 64}"
  shows "step_of ctx i c =
           (True, if branch_taken (i_mnemonic i) (i_address_width i) (Rcx ctx) (EFlags ctx) then relative_step ctx i else no_step)"
proof (cases "conditional (i_mnemonic i)")
  case True
  then have "step_of ctx i c = (True, step_JCC ctx i)"
    "branch_taken (i_mnemonic i) aw rcx f = jump_condition (i_mnemonic i) f" for aw rcx f
    by (auto simp: conditional_def step_of_def)
  moreover have "i_tested i = Some (documented_flags (i_mnemonic i))"
    using assms True by (auto simp: conditional_def counted_def)
  ultimately show ?thesis using jcc_taken_condition [OF True] by (simp add: step_JCC_def)
next
  case False
  then have "counted (i_mnemonic i)" "i_address_width i \<in> {16, 32, 64}" using assms by auto
  then show ?thesis
    using loop_count_one [of i ctx]
    by (auto simp: counted_def step_of_def step_JCXZ_def step_LOOP_def narrow flag_iff Let_def)
qed


section \<open>The kinds of destination\<close>

definition well_formed_step :: "bool \<Rightarrow> step \<Rightarrow> bool \<Rightarrow> bool" where
  "well_formed_step c st indirect \<longleftrightarrow>
     stepAddrPtrSize st = 0 \<and> stepAddrPtr st = 0 \<or>
     indirect \<and> stepAddrImm st = 0 \<and> stepAddrPtrSize st = (if c then 4 else 8) \<and> (c \<longrightarrow> stepAddrPtr st < 2 ^ 32)"

lemma low_word_less: "ucast (ucast (v :: u64) :: u32) < (2 ^ 32 :: u64)"
proof -
  have "uint (ucast (ucast v :: u32) :: u64) = take_bit 32 (uint v)" unfolding narrow by transfer simp
  then show ?thesis using take_bit_int_less_exp [of 32 "uint v"] by (simp add: word_less_alt)
qed

lemma well_formed_simps:
  "well_formed_step c no_step ind" "well_formed_step c (no_step\<lparr>stepAddrImm := v\<rparr>) ind"
  "well_formed_step c (pointer_step c v) True" "well_formed_step c (relative_step ctx i) ind"
  using low_word_less [of v]
  by (auto simp: well_formed_step_def no_step_def pointer_step_def relative_step_def split: operand.split)

lemma step_of_well_formed:
  "well_formed_step c (snd (step_of ctx i c)) (i_mnemonic i \<in> {RET, CALL, JMP})"
  "fst (step_of ctx i c) \<longleftrightarrow> (\<nexists>n. i_mnemonic i = OtherMnemonic n)"
  "i_mnemonic i = OtherMnemonic n \<Longrightarrow> snd (step_of ctx i c) = no_step"
proof -
  have "well_formed_step c (step_memory ctx i c m) True" for m
    by (simp add: step_memory_def Let_def well_formed_simps split: prod.split)
  then have "well_formed_step c (step_CALL_JMP ctx i c) True"
    by (simp add: step_CALL_JMP_def well_formed_simps split: operand.split prod.split option.split)
  moreover have "well_formed_step c (step_RET ctx i c) True" by (simp add: step_RET_def well_formed_simps)
  moreover have "well_formed_step c (step_JCC ctx i) ind" "well_formed_step c (step_JCXZ ctx i) ind"
    "well_formed_step c (step_LOOP ctx i) ind" for ind
    by (simp_all add: step_JCC_def step_JCXZ_def step_LOOP_def Let_def well_formed_simps)
  ultimately show "well_formed_step c (snd (step_of ctx i c)) (i_mnemonic i \<in> {RET, CALL, JMP})"
    by (simp add: step_of_def well_formed_simps split: mnemonic.split)
  show "fst (step_of ctx i c) \<longleftrightarrow> (\<nexists>n. i_mnemonic i = OtherMnemonic n)"
    by (simp add: step_of_def split: mnemonic.split)
  show "i_mnemonic i = OtherMnemonic n \<Longrightarrow> snd (step_of ctx i c) = no_step" by (simp add: step_of_def)
qed


section \<open>Names of registers\<close>

lemma compare_reg_spec:
  assumes "cstr str x" "length x < 2 ^ 32" "0 \<notin> set n"
  shows "compare_reg str n = Some (lower n = lower x)"
proof -
  have c: "cstr (n @ [0]) n" using assms(3) by (auto simp: cstr_def)
  obtain r where r: "stristr (n @ [0]) str = Some r" "first_occurrence n x r"
    using stristr_spec [OF c assms(1,2)] by blast
  have "lower n = lower x \<Longrightarrow> length n = length x" by (metis lower_def length_map)
  moreover have "occurs_at n x i \<longleftrightarrow> i = 0 \<and> lower n = lower x" if "length n = length x" for i
    using that by (auto simp: occurs_at_def)
  then have "length n = length x \<Longrightarrow> r \<noteq> None \<longleftrightarrow> lower n = lower x"
    using r(2) by (cases r) (auto simp: first_occurrence_def)
  ultimately show ?thesis
    using r(1) by (auto simp: compare_reg_def strlen_cstr [OF c] strlen_cstr [OF assms(1)])
qed

lemma first_reg_spec:
  assumes "cstr str x" "length x < 2 ^ 32" "\<forall>(n, r) \<in> set rs. 0 \<notin> set n"
  shows "first_reg str rs =
           Some (case find (\<lambda>(n, r). lower n = lower x) rs of None \<Rightarrow> ZYDIS_REGISTER_NONE | Some (n, r) \<Rightarrow> r)"
  using assms(3) by (induction rs) (auto simp: compare_reg_spec [OF assms(1,2)])

lemma reg_names_good: "\<forall>(n, r) \<in> set reg_names. 0 \<notin> set n" "distinct (map (\<lambda>(n, r). lower n) reg_names)"
  by (code_simp, code_simp)

lemma find_distinct:
  assumes "distinct (map f xs)" "x \<in> set xs"
  shows "find (\<lambda>y. f y = f x) xs = Some x"
  using assms by (induction xs) (auto simp: image_iff)

lemma named_registers:
  "(n, r) \<in> set reg_names \<Longrightarrow> r \<noteq> ZYDIS_REGISTER_NONE \<and> fst (ZydisRegToCtxRegValuePtr r) \<noteq> None"
  by (auto simp: reg_names_def)


section \<open>Properties\<close>

text \<open>
  C35: for every conditional jump whose tested flags are the documented ones, and for the jumps and
  loops on the counter, with an immediate operand and a target that is not address zero, the step
  calculator agrees with the processor: it reports \<open>Jumping\<close> with the target exactly when the
  condition on the flags, or on the (decremented) counter at the address width, holds, and otherwise
  \<open>NotJumping\<close> with the address of the next instruction.
\<close>

theorem conditional_step_agrees:
  assumes "conditional (i_mnemonic i) \<and> i_tested i = Some (documented_flags (i_mnemonic i)) \<or>
           counted (i_mnemonic i) \<and> i_address_width i \<in> {16, 32, 64}"
    and "i_op0 i = Immediate s" and "Rip ctx + ucast (i_length i) + s \<noteq> 0"
  shows "CalculateStepDestination ctx i c =
           (if branch_taken (i_mnemonic i) (i_address_width i) (Rcx ctx) (EFlags ctx)
            then (Jumping, no_step\<lparr>stepAddrImm := Rip ctx + ucast (i_length i) + s\<rparr>)
            else (NotJumping, no_step\<lparr>stepAddrImm := Rip ctx + ucast (i_length i)\<rparr>))"
  using assms(2,3) by (simp add: CalculateStepDestination_def step_of_branch [OF assms(1)] relative_step_def no_step_def)

theorem conditional_step_agrees_witness:
  "\<exists>ctx i. i_mnemonic i = LOOPNE \<and>
     CalculateStepDestination ctx i False = (Jumping, no_step\<lparr>stepAddrImm := 0x1000\<rparr>)"
proof -
  define ctx where "ctx = \<lparr>Rax = 0, Rbx = 0, Rcx = 0xFFFF00000005, Rdx = 0, Rsi = 0, Rdi = 0, Rsp = 0, Rbp = 0,
    C_R8 = 0, C_R9 = 0, C_R10 = 0, C_R11 = 0, C_R12 = 0, C_R13 = 0, C_R14 = 0, C_R15 = 0, Rip = 0x1010, EFlags = 0x81\<rparr>"
  define i where "i = \<lparr>i_mnemonic = LOOPNE, i_branch_near = True, i_operand_count_visible = 1, i_length = 2,
    i_tested = None, i_address_width = 32, i_op0 = Immediate (- 18)\<rparr>"
  have "counted (i_mnemonic i) \<and> i_address_width i \<in> {16, 32, 64}" by (simp add: i_def counted_def)
  then have "CalculateStepDestination ctx i False = (Jumping, no_step\<lparr>stepAddrImm := 0x1000\<rparr>)"
    using conditional_step_agrees [of i "- 18" ctx False] by (simp add: i_def ctx_def)
  then show ?thesis by (intro exI [of _ ctx] exI [of _ i]) (simp add: i_def)
qed

text \<open>
  C36: the name of a register is read regardless of the case of its letters: a C string names a
  register exactly when it equals one of the names up to case, the register is then the one with this
  name, every register found has a field in the context, and any other string gives
  \<open>ZYDIS_REGISTER_NONE\<close>.
\<close>

theorem StringToZydisReg_reads_names:
  assumes "cstr str x" and "length x < 2 ^ 32"
  shows "\<exists>r. StringToZydisReg str = Some r \<and>
           (\<forall>r'. r' \<noteq> ZYDIS_REGISTER_NONE \<longrightarrow> (r = r' \<longleftrightarrow> (\<exists>n. (n, r') \<in> set reg_names \<and> lower n = lower x))) \<and>
           (r \<noteq> ZYDIS_REGISTER_NONE \<longrightarrow> fst (ZydisRegToCtxRegValuePtr r) \<noteq> None)"
proof (cases "\<exists>n r. (n, r) \<in> set reg_names \<and> lower n = lower x")
  case True
  then obtain n r where nr: "(n, r) \<in> set reg_names" "lower n = lower x" by blast
  have uniq: "r' = r" if "(n', r') \<in> set reg_names" "lower n' = lower x" for n' r'
  proof -
    have "inj_on (\<lambda>(n, r). lower n) (set reg_names)" using reg_names_good(2) by (simp add: distinct_map)
    then have "(n', r') = (n, r)" by (rule inj_onD) (use nr that in simp_all)
    then show ?thesis by simp
  qed
  have "find (\<lambda>(n, r). lower n = lower x) reg_names = Some (n, r)"
    using find_distinct [OF reg_names_good(2) nr(1)] nr(2) by (simp add: case_prod_unfold)
  then have "StringToZydisReg str = Some r"
    by (simp add: StringToZydisReg_def first_reg_spec [OF assms reg_names_good(1)])
  then show ?thesis using nr uniq named_registers [OF nr(1)] by blast
next
  case False
  then have "find (\<lambda>(n, r). lower n = lower x) reg_names = None" by (auto simp: find_None_iff)
  then have "StringToZydisReg str = Some ZYDIS_REGISTER_NONE"
    by (simp add: StringToZydisReg_def first_reg_spec [OF assms reg_names_good(1)])
  then show ?thesis using False by blast
qed

theorem StringToZydisReg_reads_names_witness: "StringToZydisReg (ascii ''eBx'' @ [0]) = Some EBX"
proof -
  have "cstr (ascii ''eBx'' @ [0]) (ascii ''eBx'')" by (auto simp: cstr_def ascii_def)
  note c = this [THEN StringToZydisReg_reads_names]
  have "(ascii ''EBX'', EBX) \<in> set reg_names" "lower (ascii ''EBX'') = lower (ascii ''eBx'')" by (code_simp, code_simp)
  then show ?thesis using c by (force simp: ascii_def)
qed

text \<open>
  C37: a step has one kind of destination: an address, or a pointer to read it from, which has four
  bytes and a 32-bit address in the 32-bit mode and eight bytes otherwise and which only returns,
  calls and jumps have. The result is \<open>JumpNone\<close> exactly for the other instructions, and then the
  destination is the next instruction.
\<close>

theorem step_destination_kind:
  "\<exists>t st. CalculateStepDestination ctx i c = (t, st) \<and>
     (stepAddrPtrSize st = 0 \<and> stepAddrPtr st = 0 \<or>
      stepAddrImm st = 0 \<and> stepAddrPtrSize st = (if c then 4 else 8) \<and>
      (c \<longrightarrow> stepAddrPtr st < 2 ^ 32) \<and> i_mnemonic i \<in> {RET, CALL, JMP}) \<and>
     (t = JumpNone \<longleftrightarrow> (\<exists>n. i_mnemonic i = OtherMnemonic n)) \<and>
     (t \<noteq> Jumping \<longrightarrow> stepAddrImm st = Rip ctx + ucast (i_length i) \<and> stepAddrPtrSize st = 0)"
proof -
  obtain j st where so: "step_of ctx i c = (j, st)" by (cases "step_of ctx i c")
  have "well_formed_step c st (i_mnemonic i \<in> {RET, CALL, JMP})" "j \<longleftrightarrow> (\<nexists>n. i_mnemonic i = OtherMnemonic n)"
    "i_mnemonic i = OtherMnemonic n \<Longrightarrow> st = no_step" for n
    using step_of_well_formed [where ctx = ctx and i = i and c = c] so by simp_all
  then show ?thesis
    by (auto simp: CalculateStepDestination_def so well_formed_step_def no_step_def)
qed

theorem step_destination_kind_witness:
  "\<exists>ctx i. i_mnemonic i = OtherMnemonic 7 \<and> Rip ctx = 0x1000 \<and> i_length i = 3 \<and>
     stepAddrImm (snd (CalculateStepDestination ctx i True)) = 0x1003"
proof -
  obtain ctx :: CONTEXT where ctx: "Rip ctx = 0x1000" by (metis CONTEXT.select_convs(17))
  obtain i :: ZydisDecodedInstruction where i: "i_mnemonic i = OtherMnemonic 7" "i_length i = 3"
    by (metis ZydisDecodedInstruction.select_convs(1,4))
  obtain t st where st: "CalculateStepDestination ctx i True = (t, st)"
    "t = JumpNone \<longleftrightarrow> (\<exists>n. i_mnemonic i = OtherMnemonic n)" "t \<noteq> Jumping \<longrightarrow> stepAddrImm st = Rip ctx + ucast (i_length i)"
    using step_destination_kind [of ctx i True] by blast
  then have "t = JumpNone" using i(1) by blast
  then have "stepAddrImm (snd (CalculateStepDestination ctx i True)) = 0x1003" using st(1,3) ctx i(2) by simp
  then show ?thesis using ctx i by blast
qed

end
