(* ===== verification/Ps2Keyb.thy ===== *)
theory Ps2Keyb
  imports Utils
begin

text \<open>
  The PS/2 keyboard of \<open>BugChecker/Ps2Keyb.cpp\<close>: the scancode tables of the two layouts, as the
  source has them, and \<open>ReadAscii\<close>, which keeps the state of the modifier keys. The byte that \<open>Read\<close>
  takes from the keyboard port is an argument. A table ends with a zero entry; a scan that runs off
  its end gives None. The layout is the string behind the pointer \<open>Layout\<close>, None for a null pointer.
\<close>

section \<open>The model\<close>

definition MACRO_SCANCODE_1 :: u16 where "MACRO_SCANCODE_1 = 0x02"
definition MACRO_SCANCODE_2 :: u16 where "MACRO_SCANCODE_2 = 0x03"
definition MACRO_SCANCODE_3 :: u16 where "MACRO_SCANCODE_3 = 0x04"
definition MACRO_SCANCODE_4 :: u16 where "MACRO_SCANCODE_4 = 0x05"
definition MACRO_SCANCODE_5 :: u16 where "MACRO_SCANCODE_5 = 0x06"
definition MACRO_SCANCODE_6 :: u16 where "MACRO_SCANCODE_6 = 0x07"
definition MACRO_SCANCODE_7 :: u16 where "MACRO_SCANCODE_7 = 0x08"
definition MACRO_SCANCODE_8 :: u16 where "MACRO_SCANCODE_8 = 0x09"
definition MACRO_SCANCODE_9 :: u16 where "MACRO_SCANCODE_9 = 0x0A"
definition MACRO_SCANCODE_0 :: u16 where "MACRO_SCANCODE_0 = 0x0B"
definition MACRO_SCANCODE_Minus :: u16 where "MACRO_SCANCODE_Minus = 0x0C"
definition MACRO_SCANCODE_Equal :: u16 where "MACRO_SCANCODE_Equal = 0x0D"
definition MACRO_SCANCODE_Q :: u16 where "MACRO_SCANCODE_Q = 0x10"
definition MACRO_SCANCODE_W :: u16 where "MACRO_SCANCODE_W = 0x11"
definition MACRO_SCANCODE_E :: u16 where "MACRO_SCANCODE_E = 0x12"
definition MACRO_SCANCODE_R :: u16 where "MACRO_SCANCODE_R = 0x13"
definition MACRO_SCANCODE_T :: u16 where "MACRO_SCANCODE_T = 0x14"
definition MACRO_SCANCODE_Y :: u16 where "MACRO_SCANCODE_Y = 0x15"
definition MACRO_SCANCODE_U :: u16 where "MACRO_SCANCODE_U = 0x16"
definition MACRO_SCANCODE_I :: u16 where "MACRO_SCANCODE_I = 0x17"
definition MACRO_SCANCODE_O :: u16 where "MACRO_SCANCODE_O = 0x18"
definition MACRO_SCANCODE_P :: u16 where "MACRO_SCANCODE_P = 0x19"
definition MACRO_SCANCODE_OpBrac :: u16 where "MACRO_SCANCODE_OpBrac = 0x1A"
definition MACRO_SCANCODE_ClBrac :: u16 where "MACRO_SCANCODE_ClBrac = 0x1B"
definition MACRO_SCANCODE_CTRL :: u16 where "MACRO_SCANCODE_CTRL = 0x1D"
definition MACRO_SCANCODE_A :: u16 where "MACRO_SCANCODE_A = 0x1E"
definition MACRO_SCANCODE_S :: u16 where "MACRO_SCANCODE_S = 0x1F"
definition MACRO_SCANCODE_D :: u16 where "MACRO_SCANCODE_D = 0x20"
definition MACRO_SCANCODE_F :: u16 where "MACRO_SCANCODE_F = 0x21"
definition MACRO_SCANCODE_G :: u16 where "MACRO_SCANCODE_G = 0x22"
definition MACRO_SCANCODE_H :: u16 where "MACRO_SCANCODE_H = 0x23"
definition MACRO_SCANCODE_J :: u16 where "MACRO_SCANCODE_J = 0x24"
definition MACRO_SCANCODE_K :: u16 where "MACRO_SCANCODE_K = 0x25"
definition MACRO_SCANCODE_L :: u16 where "MACRO_SCANCODE_L = 0x26"
definition MACRO_SCANCODE_SemiCl :: u16 where "MACRO_SCANCODE_SemiCl = 0x27"
definition MACRO_SCANCODE_Acc0 :: u16 where "MACRO_SCANCODE_Acc0 = 0x28"
definition MACRO_SCANCODE_Acc1 :: u16 where "MACRO_SCANCODE_Acc1 = 0x29"
definition MACRO_SCANCODE_LShift :: u16 where "MACRO_SCANCODE_LShift = 0x2A"
definition MACRO_SCANCODE_BSlash :: u16 where "MACRO_SCANCODE_BSlash = 0x2B"
definition MACRO_SCANCODE_Z :: u16 where "MACRO_SCANCODE_Z = 0x2C"
definition MACRO_SCANCODE_X :: u16 where "MACRO_SCANCODE_X = 0x2D"
definition MACRO_SCANCODE_C :: u16 where "MACRO_SCANCODE_C = 0x2E"
definition MACRO_SCANCODE_V :: u16 where "MACRO_SCANCODE_V = 0x2F"
definition MACRO_SCANCODE_B :: u16 where "MACRO_SCANCODE_B = 0x30"
definition MACRO_SCANCODE_N :: u16 where "MACRO_SCANCODE_N = 0x31"
definition MACRO_SCANCODE_M :: u16 where "MACRO_SCANCODE_M = 0x32"
definition MACRO_SCANCODE_Comma :: u16 where "MACRO_SCANCODE_Comma = 0x33"
definition MACRO_SCANCODE_Dot :: u16 where "MACRO_SCANCODE_Dot = 0x34"
definition MACRO_SCANCODE_Slash :: u16 where "MACRO_SCANCODE_Slash = 0x35"
definition MACRO_SCANCODE_RShift :: u16 where "MACRO_SCANCODE_RShift = 0x36"
definition MACRO_SCANCODE_AstrP :: u16 where "MACRO_SCANCODE_AstrP = 0x37"
definition MACRO_SCANCODE_Alt :: u16 where "MACRO_SCANCODE_Alt = 0x38"
definition MACRO_SCANCODE_Space :: u16 where "MACRO_SCANCODE_Space = 0x39"
definition MACRO_SCANCODE_MinusP :: u16 where "MACRO_SCANCODE_MinusP = 0x4A"
definition MACRO_SCANCODE_PlusP :: u16 where "MACRO_SCANCODE_PlusP = 0x4E"
definition MACRO_ASCIICONVERSION_RETVAL_CHECK_SCANCODE :: u16 where "MACRO_ASCIICONVERSION_RETVAL_CHECK_SCANCODE = 0xFF"

text \<open>An entry of a table: the scancode in the high byte, the character in the low byte.\<close>

definition key :: "u16 \<Rightarrow> u16 \<Rightarrow> u16" where
  "key scancode c = push_bit 8 scancode OR c"

definition g_vwScancodeToAsciiMap_EN :: "u16 list" where
  "g_vwScancodeToAsciiMap_EN =
     [key MACRO_SCANCODE_1 0x31, key MACRO_SCANCODE_2 0x32, key MACRO_SCANCODE_3 0x33, key MACRO_SCANCODE_4 0x34,
      key MACRO_SCANCODE_5 0x35, key MACRO_SCANCODE_6 0x36, key MACRO_SCANCODE_7 0x37, key MACRO_SCANCODE_8 0x38,
      key MACRO_SCANCODE_9 0x39, key MACRO_SCANCODE_0 0x30, key MACRO_SCANCODE_Minus 0x2D, key MACRO_SCANCODE_Equal 0x3D,
      key MACRO_SCANCODE_Q 0x71, key MACRO_SCANCODE_W 0x77, key MACRO_SCANCODE_E 0x65, key MACRO_SCANCODE_R 0x72,
      key MACRO_SCANCODE_T 0x74, key MACRO_SCANCODE_Y 0x79, key MACRO_SCANCODE_U 0x75, key MACRO_SCANCODE_I 0x69,
      key MACRO_SCANCODE_O 0x6F, key MACRO_SCANCODE_P 0x70, key MACRO_SCANCODE_OpBrac 0x5B, key MACRO_SCANCODE_ClBrac 0x5D,
      key MACRO_SCANCODE_A 0x61, key MACRO_SCANCODE_S 0x73, key MACRO_SCANCODE_D 0x64, key MACRO_SCANCODE_F 0x66,
      key MACRO_SCANCODE_G 0x67, key MACRO_SCANCODE_H 0x68, key MACRO_SCANCODE_J 0x6A, key MACRO_SCANCODE_K 0x6B,
      key MACRO_SCANCODE_L 0x6C, key MACRO_SCANCODE_SemiCl 0x3B, key MACRO_SCANCODE_Acc0 0x27, key MACRO_SCANCODE_Acc1 0x60,
      key MACRO_SCANCODE_BSlash 0x5C, key MACRO_SCANCODE_Z 0x7A, key MACRO_SCANCODE_X 0x78, key MACRO_SCANCODE_C 0x63,
      key MACRO_SCANCODE_V 0x76, key MACRO_SCANCODE_B 0x62, key MACRO_SCANCODE_N 0x6E, key MACRO_SCANCODE_M 0x6D,
      key MACRO_SCANCODE_Comma 0x2C, key MACRO_SCANCODE_Dot 0x2E, key MACRO_SCANCODE_Slash 0x2F, key MACRO_SCANCODE_AstrP 0x2A,
      key MACRO_SCANCODE_Space 0x20, key MACRO_SCANCODE_MinusP 0x2D, key MACRO_SCANCODE_PlusP 0x2B, 0]"

definition g_vwScancodeToAsciiMap_ShiftPressed_EN :: "u16 list" where
  "g_vwScancodeToAsciiMap_ShiftPressed_EN =
     [key MACRO_SCANCODE_1 0x21, key MACRO_SCANCODE_2 0x40, key MACRO_SCANCODE_3 0x23, key MACRO_SCANCODE_4 0x24,
      key MACRO_SCANCODE_5 0x25, key MACRO_SCANCODE_6 0x5E, key MACRO_SCANCODE_7 0x26, key MACRO_SCANCODE_8 0x2A,
      key MACRO_SCANCODE_9 0x28, key MACRO_SCANCODE_0 0x29, key MACRO_SCANCODE_Minus 0x5F, key MACRO_SCANCODE_Equal 0x2B,
      key MACRO_SCANCODE_Q 0x51, key MACRO_SCANCODE_W 0x57, key MACRO_SCANCODE_E 0x45, key MACRO_SCANCODE_R 0x52,
      key MACRO_SCANCODE_T 0x54, key MACRO_SCANCODE_Y 0x59, key MACRO_SCANCODE_U 0x55, key MACRO_SCANCODE_I 0x49,
      key MACRO_SCANCODE_O 0x4F, key MACRO_SCANCODE_P 0x50, key MACRO_SCANCODE_OpBrac 0x7B, key MACRO_SCANCODE_ClBrac 0x7D,
      key MACRO_SCANCODE_A 0x41, key MACRO_SCANCODE_S 0x53, key MACRO_SCANCODE_D 0x44, key MACRO_SCANCODE_F 0x46,
      key MACRO_SCANCODE_G 0x47, key MACRO_SCANCODE_H 0x48, key MACRO_SCANCODE_J 0x4A, key MACRO_SCANCODE_K 0x4B,
      key MACRO_SCANCODE_L 0x4C, key MACRO_SCANCODE_SemiCl 0x3A, key MACRO_SCANCODE_Acc0 0x22, key MACRO_SCANCODE_BSlash 0x7C,
      key MACRO_SCANCODE_Z 0x5A, key MACRO_SCANCODE_X 0x58, key MACRO_SCANCODE_C 0x43, key MACRO_SCANCODE_V 0x56,
      key MACRO_SCANCODE_B 0x42, key MACRO_SCANCODE_N 0x4E, key MACRO_SCANCODE_M 0x4D, key MACRO_SCANCODE_Comma 0x3C,
      key MACRO_SCANCODE_Dot 0x3E, key MACRO_SCANCODE_Slash 0x3F, 0]"

definition g_vwScancodeToAsciiMap_AltPressed_EN :: "u16 list" where
  "g_vwScancodeToAsciiMap_AltPressed_EN =
     [0]"

definition g_vwScancodeToAsciiMap_ShiftAltPressed_EN :: "u16 list" where
  "g_vwScancodeToAsciiMap_ShiftAltPressed_EN =
     [0]"

definition g_vwScancodeToAsciiMap_IT :: "u16 list" where
  "g_vwScancodeToAsciiMap_IT =
     [key MACRO_SCANCODE_1 0x31, key MACRO_SCANCODE_2 0x32, key MACRO_SCANCODE_3 0x33, key MACRO_SCANCODE_4 0x34,
      key MACRO_SCANCODE_5 0x35, key MACRO_SCANCODE_6 0x36, key MACRO_SCANCODE_7 0x37, key MACRO_SCANCODE_8 0x38,
      key MACRO_SCANCODE_9 0x39, key MACRO_SCANCODE_0 0x30, key MACRO_SCANCODE_Minus 0x27, key MACRO_SCANCODE_Q 0x71,
      key MACRO_SCANCODE_W 0x77, key MACRO_SCANCODE_E 0x65, key MACRO_SCANCODE_R 0x72, key MACRO_SCANCODE_T 0x74,
      key MACRO_SCANCODE_Y 0x79, key MACRO_SCANCODE_U 0x75, key MACRO_SCANCODE_I 0x69, key MACRO_SCANCODE_O 0x6F,
      key MACRO_SCANCODE_P 0x70, key MACRO_SCANCODE_ClBrac 0x2B, key MACRO_SCANCODE_A 0x61, key MACRO_SCANCODE_S 0x73,
      key MACRO_SCANCODE_D 0x64, key MACRO_SCANCODE_F 0x66, key MACRO_SCANCODE_G 0x67, key MACRO_SCANCODE_H 0x68,
      key MACRO_SCANCODE_J 0x6A, key MACRO_SCANCODE_K 0x6B, key MACRO_SCANCODE_L 0x6C, key MACRO_SCANCODE_Acc1 0x5C,
      key 0x56 0x3C, key MACRO_SCANCODE_Z 0x7A, key MACRO_SCANCODE_X 0x78, key MACRO_SCANCODE_C 0x63,
      key MACRO_SCANCODE_V 0x76, key MACRO_SCANCODE_B 0x62, key MACRO_SCANCODE_N 0x6E, key MACRO_SCANCODE_M 0x6D,
      key MACRO_SCANCODE_Comma 0x2C, key MACRO_SCANCODE_Dot 0x2E, key MACRO_SCANCODE_Slash 0x2D, key MACRO_SCANCODE_AstrP 0x2A,
      key MACRO_SCANCODE_Space 0x20, key MACRO_SCANCODE_MinusP 0x2D, key MACRO_SCANCODE_PlusP 0x2B, 0]"

definition g_vwScancodeToAsciiMap_ShiftPressed_IT :: "u16 list" where
  "g_vwScancodeToAsciiMap_ShiftPressed_IT =
     [key MACRO_SCANCODE_1 0x21, key MACRO_SCANCODE_2 0x22, key MACRO_SCANCODE_4 0x24, key MACRO_SCANCODE_5 0x25,
      key MACRO_SCANCODE_6 0x26, key MACRO_SCANCODE_7 0x2F, key MACRO_SCANCODE_8 0x28, key MACRO_SCANCODE_9 0x29,
      key MACRO_SCANCODE_0 0x3D, key MACRO_SCANCODE_Minus 0x3F, key MACRO_SCANCODE_Equal 0x5E, key MACRO_SCANCODE_Q 0x51,
      key MACRO_SCANCODE_W 0x57, key MACRO_SCANCODE_E 0x45, key MACRO_SCANCODE_R 0x52, key MACRO_SCANCODE_T 0x54,
      key MACRO_SCANCODE_Y 0x59, key MACRO_SCANCODE_U 0x55, key MACRO_SCANCODE_I 0x49, key MACRO_SCANCODE_O 0x4F,
      key MACRO_SCANCODE_P 0x50, key MACRO_SCANCODE_ClBrac 0x2A, key MACRO_SCANCODE_A 0x41, key MACRO_SCANCODE_S 0x53,
      key MACRO_SCANCODE_D 0x44, key MACRO_SCANCODE_F 0x46, key MACRO_SCANCODE_G 0x47, key MACRO_SCANCODE_H 0x48,
      key MACRO_SCANCODE_J 0x4A, key MACRO_SCANCODE_K 0x4B, key MACRO_SCANCODE_L 0x4C, key MACRO_SCANCODE_Acc1 0x7C,
      key 0x56 0x3E, key MACRO_SCANCODE_Z 0x5A, key MACRO_SCANCODE_X 0x58, key MACRO_SCANCODE_C 0x43,
      key MACRO_SCANCODE_V 0x56, key MACRO_SCANCODE_B 0x42, key MACRO_SCANCODE_N 0x4E, key MACRO_SCANCODE_M 0x4D,
      key MACRO_SCANCODE_Comma 0x3B, key MACRO_SCANCODE_Dot 0x3A, key MACRO_SCANCODE_Slash 0x5F, 0]"

definition g_vwScancodeToAsciiMap_AltPressed_IT :: "u16 list" where
  "g_vwScancodeToAsciiMap_AltPressed_IT =
     [key MACRO_SCANCODE_OpBrac 0x5B, key MACRO_SCANCODE_ClBrac 0x5D, key MACRO_SCANCODE_SemiCl 0x40, key MACRO_SCANCODE_Acc0 0x23, 0]"

definition g_vwScancodeToAsciiMap_ShiftAltPressed_IT :: "u16 list" where
  "g_vwScancodeToAsciiMap_ShiftAltPressed_IT =
     [key MACRO_SCANCODE_OpBrac 0x7B, key MACRO_SCANCODE_ClBrac 0x7D, 0]"

record keyb =
  shiftState :: bool
  ctrlState :: bool
  altState :: bool

fun scan_map :: "u16 list \<Rightarrow> byte \<Rightarrow> u16 option" where
  "scan_map [] s = None"
| "scan_map (p # ps) s =
     (if p = 0 then Some (push_bit 8 (ucast s AND 0xFF) OR MACRO_ASCIICONVERSION_RETVAL_CHECK_SCANCODE)
      else if drop_bit 8 p = ucast s then Some p
      else scan_map ps s)"

definition layout_maps :: "byte list option \<Rightarrow> u16 list \<times> u16 list \<times> u16 list \<times> u16 list" where
  "layout_maps Layout =
     (if Layout = Some [0x49, 0x54]
      then (g_vwScancodeToAsciiMap_IT, g_vwScancodeToAsciiMap_ShiftPressed_IT,
            g_vwScancodeToAsciiMap_AltPressed_IT, g_vwScancodeToAsciiMap_ShiftAltPressed_IT)
      else (g_vwScancodeToAsciiMap_EN, g_vwScancodeToAsciiMap_ShiftPressed_EN,
            g_vwScancodeToAsciiMap_AltPressed_EN, g_vwScancodeToAsciiMap_ShiftAltPressed_EN))"

definition select_map :: "byte list option \<Rightarrow> keyb \<Rightarrow> u16 list" where
  "select_map Layout k =
     (case layout_maps Layout of
        (m, mapShift, mapAlt, mapShiftAlt) \<Rightarrow>
          if shiftState k then (if altState k then mapShiftAlt else mapShift)
          else if altState k then mapAlt
          else m)"

definition ReadAscii :: "byte list option \<Rightarrow> byte \<Rightarrow> keyb \<Rightarrow> (u16 \<times> keyb) option" where
  "ReadAscii Layout s k =
     (if ucast s = MACRO_SCANCODE_LShift \<or> ucast s = MACRO_SCANCODE_RShift then Some (0, k\<lparr>shiftState := True\<rparr>)
      else if ucast s = MACRO_SCANCODE_LShift OR 0x80 \<or> ucast s = MACRO_SCANCODE_RShift OR 0x80
      then Some (0, k\<lparr>shiftState := False\<rparr>)
      else if ucast s = MACRO_SCANCODE_CTRL then Some (0, k\<lparr>ctrlState := True\<rparr>)
      else if ucast s = MACRO_SCANCODE_CTRL OR 0x80 then Some (0, k\<lparr>ctrlState := False\<rparr>)
      else if ucast s = MACRO_SCANCODE_Alt then Some (0, k\<lparr>altState := True\<rparr>)
      else if ucast s = MACRO_SCANCODE_Alt OR 0x80 then Some (0, k\<lparr>altState := False\<rparr>)
      else if s = 0 \<or> s \<ge> 0x80 then Some (0, k)
      else map_option (\<lambda>r. (r, k)) (scan_map (select_map Layout k) s))"


section \<open>The tables\<close>

definition all_maps :: "u16 list list" where
  "all_maps =
     [g_vwScancodeToAsciiMap_EN, g_vwScancodeToAsciiMap_ShiftPressed_EN,
      g_vwScancodeToAsciiMap_AltPressed_EN, g_vwScancodeToAsciiMap_ShiftAltPressed_EN,
      g_vwScancodeToAsciiMap_IT, g_vwScancodeToAsciiMap_ShiftPressed_IT,
      g_vwScancodeToAsciiMap_AltPressed_IT, g_vwScancodeToAsciiMap_ShiftAltPressed_IT]"

text \<open>Bytes that never give a key: none, the release codes and the modifier keys.\<close>

definition silent :: "byte \<Rightarrow> bool" where
  "silent s \<longleftrightarrow> s = 0 \<or> s \<ge> 0x80 \<or> s \<in> {0x2A, 0x36, 0x1D, 0x38}"

definition good_entry :: "u16 \<Rightarrow> bool" where
  "good_entry p \<longleftrightarrow> p \<noteq> 0 \<and> 0x20 \<le> p AND 0xFF \<and> p AND 0xFF < 0x7F \<and>
     drop_bit 8 p < 0x80 \<and> \<not> silent (ucast (drop_bit 8 p))"

definition good_map :: "u16 list \<Rightarrow> bool" where
  "good_map m \<longleftrightarrow> m \<noteq> [] \<and> last m = 0 \<and> list_all good_entry (butlast m) \<and> distinct (map (drop_bit 8) (butlast m))"

lemmas scancode_defs =
  MACRO_SCANCODE_1_def MACRO_SCANCODE_2_def MACRO_SCANCODE_3_def MACRO_SCANCODE_4_def MACRO_SCANCODE_5_def
  MACRO_SCANCODE_6_def MACRO_SCANCODE_7_def MACRO_SCANCODE_8_def MACRO_SCANCODE_9_def MACRO_SCANCODE_0_def
  MACRO_SCANCODE_Minus_def MACRO_SCANCODE_Equal_def MACRO_SCANCODE_Q_def MACRO_SCANCODE_W_def MACRO_SCANCODE_E_def
  MACRO_SCANCODE_R_def MACRO_SCANCODE_T_def MACRO_SCANCODE_Y_def MACRO_SCANCODE_U_def MACRO_SCANCODE_I_def
  MACRO_SCANCODE_O_def MACRO_SCANCODE_P_def MACRO_SCANCODE_OpBrac_def MACRO_SCANCODE_ClBrac_def
  MACRO_SCANCODE_CTRL_def MACRO_SCANCODE_A_def MACRO_SCANCODE_S_def MACRO_SCANCODE_D_def MACRO_SCANCODE_F_def
  MACRO_SCANCODE_G_def MACRO_SCANCODE_H_def MACRO_SCANCODE_J_def MACRO_SCANCODE_K_def MACRO_SCANCODE_L_def
  MACRO_SCANCODE_SemiCl_def MACRO_SCANCODE_Acc0_def MACRO_SCANCODE_Acc1_def MACRO_SCANCODE_LShift_def
  MACRO_SCANCODE_BSlash_def MACRO_SCANCODE_Z_def MACRO_SCANCODE_X_def MACRO_SCANCODE_C_def MACRO_SCANCODE_V_def
  MACRO_SCANCODE_B_def MACRO_SCANCODE_N_def MACRO_SCANCODE_M_def MACRO_SCANCODE_Comma_def MACRO_SCANCODE_Dot_def
  MACRO_SCANCODE_Slash_def MACRO_SCANCODE_RShift_def MACRO_SCANCODE_AstrP_def MACRO_SCANCODE_Alt_def
  MACRO_SCANCODE_Space_def MACRO_SCANCODE_MinusP_def MACRO_SCANCODE_PlusP_def

lemma key_parts:
  assumes "sc < 0x80" "c < 0x80"
  shows "drop_bit 8 (key sc c) = sc" "key sc c AND 0xFF = c"
proof -
  have m: "(0xFF :: u16) = mask 8" by (simp add: mask_eq_exp_minus_1)
  have b: "n < 8" if "w < 0x80" "bit w n" for w :: u16 and n
  proof -
    have "uint w < 2 ^ 8" using that(1) by (simp add: word_less_alt)
    then have "take_bit 8 (uint w) = uint w" by (simp add: take_bit_int_eq_self)
    then show ?thesis using that(2) by (metis bit_take_bit_iff bit_uint_iff bit_imp_le_length)
  qed
  show "drop_bit 8 (key sc c) = sc" "key sc c AND 0xFF = c"
    unfolding m key_def using b [OF assms(1)] b [OF assms(2)] by (intro bit_word_eqI; auto simp: bit_simps)+
qed

lemma good_entry_key:
  assumes "sc < 0x80" "c < 0x80"
  shows "good_entry (key sc c) \<longleftrightarrow> sc \<noteq> 0 \<and> 0x20 \<le> c \<and> c < 0x7F \<and> \<not> silent (ucast sc)"
proof -
  have "key sc c \<noteq> 0" if "sc \<noteq> 0" using key_parts(1) [OF assms] that by auto
  then show ?thesis using assms by (auto simp: good_entry_def key_parts silent_def)
qed

lemma scan_map_key:
  assumes "sc < 0x80" "c < 0x80" "sc \<noteq> 0"
  shows "scan_map (key sc c # ps) s = (if sc = ucast s then Some (key sc c) else scan_map ps s)"
proof -
  have "key sc c \<noteq> 0" using key_parts(1) [OF assms(1,2)] assms(3) by auto
  then show ?thesis using key_parts(1) [OF assms(1,2)] by simp
qed

lemma g_vwScancodeToAsciiMap_EN_good: "good_map g_vwScancodeToAsciiMap_EN"
  by (simp add: good_map_def g_vwScancodeToAsciiMap_EN_def scancode_defs good_entry_key key_parts silent_def)

lemma g_vwScancodeToAsciiMap_ShiftPressed_EN_good: "good_map g_vwScancodeToAsciiMap_ShiftPressed_EN"
  by (simp add: good_map_def g_vwScancodeToAsciiMap_ShiftPressed_EN_def scancode_defs good_entry_key key_parts silent_def)

lemma g_vwScancodeToAsciiMap_AltPressed_EN_good: "good_map g_vwScancodeToAsciiMap_AltPressed_EN"
  by (simp add: good_map_def g_vwScancodeToAsciiMap_AltPressed_EN_def scancode_defs good_entry_key key_parts silent_def)

lemma g_vwScancodeToAsciiMap_ShiftAltPressed_EN_good: "good_map g_vwScancodeToAsciiMap_ShiftAltPressed_EN"
  by (simp add: good_map_def g_vwScancodeToAsciiMap_ShiftAltPressed_EN_def scancode_defs good_entry_key key_parts silent_def)

lemma g_vwScancodeToAsciiMap_IT_good: "good_map g_vwScancodeToAsciiMap_IT"
  by (simp add: good_map_def g_vwScancodeToAsciiMap_IT_def scancode_defs good_entry_key key_parts silent_def)

lemma g_vwScancodeToAsciiMap_ShiftPressed_IT_good: "good_map g_vwScancodeToAsciiMap_ShiftPressed_IT"
  by (simp add: good_map_def g_vwScancodeToAsciiMap_ShiftPressed_IT_def scancode_defs good_entry_key key_parts silent_def)

lemma g_vwScancodeToAsciiMap_AltPressed_IT_good: "good_map g_vwScancodeToAsciiMap_AltPressed_IT"
  by (simp add: good_map_def g_vwScancodeToAsciiMap_AltPressed_IT_def scancode_defs good_entry_key key_parts silent_def)

lemma g_vwScancodeToAsciiMap_ShiftAltPressed_IT_good: "good_map g_vwScancodeToAsciiMap_ShiftAltPressed_IT"
  by (simp add: good_map_def g_vwScancodeToAsciiMap_ShiftAltPressed_IT_def scancode_defs good_entry_key key_parts silent_def)

lemmas maps_good =
  g_vwScancodeToAsciiMap_EN_good
  g_vwScancodeToAsciiMap_ShiftPressed_EN_good
  g_vwScancodeToAsciiMap_AltPressed_EN_good
  g_vwScancodeToAsciiMap_ShiftAltPressed_EN_good
  g_vwScancodeToAsciiMap_IT_good
  g_vwScancodeToAsciiMap_ShiftPressed_IT_good
  g_vwScancodeToAsciiMap_AltPressed_IT_good
  g_vwScancodeToAsciiMap_ShiftAltPressed_IT_good

lemma all_maps_good: "list_all good_map all_maps"
  by (simp add: all_maps_def maps_good)

lemma select_map_good: "good_map (select_map L k)"
proof -
  have "select_map L k \<in> set all_maps" by (simp add: select_map_def layout_maps_def all_maps_def)
  then show ?thesis using all_maps_good by (simp add: list_all_iff)
qed

lemma scan_map_spec:
  assumes "\<forall>p \<in> set es. p \<noteq> 0"
  shows "scan_map (es @ [0]) s =
           Some (case find (\<lambda>p. drop_bit 8 p = ucast s) es of None \<Rightarrow> push_bit 8 (ucast s) OR 0xFF | Some p \<Rightarrow> p)"
proof -
  have m: "(0xFF :: u16) = mask 8" by (simp add: mask_eq_exp_minus_1)
  have "ucast s AND (0xFF :: u16) = ucast s"
    unfolding m by (intro bit_word_eqI) (auto simp: bit_simps dest: bit_imp_le_length)
  then show ?thesis
    using assms by (induction es) (simp_all add: MACRO_ASCIICONVERSION_RETVAL_CHECK_SCANCODE_def)
qed

text \<open>What a byte that is not silent must be translated to by a table.\<close>

definition translates :: "u16 list \<Rightarrow> byte \<Rightarrow> u16 \<Rightarrow> bool" where
  "translates m s r \<longleftrightarrow>
     (if silent s then r = 0
      else drop_bit 8 r = ucast s \<and>
        (if r AND 0xFF = 0xFF then \<forall>p \<in> set m. p = 0 \<or> drop_bit 8 p \<noteq> ucast s
         else r \<in> set m \<and> 0x20 \<le> r AND 0xFF \<and> r AND 0xFF < 0x7F))"

lemma unlisted_code:
  "drop_bit 8 (push_bit 8 (ucast (s :: byte)) OR 0xFF :: u16) = ucast s"
  "(push_bit 8 (ucast (s :: byte)) OR 0xFF :: u16) AND 0xFF = 0xFF"
proof -
  have m: "(0xFF :: u16) = mask 8" by (simp add: mask_eq_exp_minus_1)
  show "drop_bit 8 (push_bit 8 (ucast s) OR 0xFF :: u16) = ucast s" "(push_bit 8 (ucast s) OR 0xFF :: u16) AND 0xFF = 0xFF"
    unfolding m by (intro bit_word_eqI; auto simp: bit_simps dest: bit_imp_le_length)+
qed

lemma scan_map_translates:
  assumes "good_map m" "\<not> silent s"
  shows "\<exists>r. scan_map m s = Some r \<and> translates m s r"
proof -
  define es where "es = butlast m"
  have m: "m = es @ [0]" using assms(1) unfolding good_map_def es_def by (metis append_butlast_last_id)
  then have setm: "set m = insert 0 (set es)" by simp
  have good: "good_entry p" if "p \<in> set es" for p using that assms(1) by (auto simp: good_map_def es_def list_all_iff)
  then have "\<forall>p \<in> set es. p \<noteq> 0" by (auto simp: good_entry_def)
  note sm = scan_map_spec [OF this, of s, folded m]
  show ?thesis
  proof (cases "find (\<lambda>p. drop_bit 8 p = ucast s) es")
    case None
    then have "drop_bit 8 p \<noteq> ucast s" if "p \<in> set es" for p using that by (auto simp: find_None_iff)
    moreover define r where "r = (push_bit 8 (ucast s) OR 0xFF :: u16)"
    moreover have "drop_bit 8 r = ucast s" "r AND 0xFF = 0xFF" unfolding r_def by (rule unlisted_code)+
    ultimately show ?thesis using None assms(2) by (auto simp: sm translates_def setm)
  next
    case (Some p)
    then have p: "p \<in> set es" "drop_bit 8 p = ucast s" by (auto simp: find_Some_iff)
    then show ?thesis using Some assms(2) good [OF p(1)] by (auto simp: sm translates_def good_entry_def setm)
  qed
qed


section \<open>Modifier keys\<close>

text \<open>A modifier is on when the last byte that concerns it is a press; without one it keeps its state.\<close>

definition latch :: "byte set \<Rightarrow> byte list \<Rightarrow> bool \<Rightarrow> bool" where
  "latch keys bs b =
     (case find (\<lambda>s. s \<in> keys \<or> s - 0x80 \<in> keys) (rev bs) of None \<Rightarrow> b | Some s \<Rightarrow> s \<in> keys)"

definition modifiers :: "byte list \<Rightarrow> keyb \<Rightarrow> keyb" where
  "modifiers bs k =
     \<lparr>shiftState = latch {0x2A, 0x36} bs (shiftState k), ctrlState = latch {0x1D} bs (ctrlState k),
      altState = latch {0x38} bs (altState k)\<rparr>"

lemma latch_snoc:
  "latch keys (bs @ [s]) b = (if s \<in> keys then True else if s - 0x80 \<in> keys then False else latch keys bs b)"
  by (simp add: latch_def)

lemma modifiers_Nil: "modifiers [] k = k"
  by (simp add: modifiers_def latch_def)

text \<open>A sequence of calls, as the main loop makes them.\<close>

fun read_all :: "byte list option \<Rightarrow> byte list \<Rightarrow> keyb \<Rightarrow> (u16 list \<times> keyb) option" where
  "read_all L [] k = Some ([], k)"
| "read_all L (s # bs) k =
     (case ReadAscii L s k of
        None \<Rightarrow> None
      | Some (r, k) \<Rightarrow> map_option (\<lambda>(rs, k). (r # rs, k)) (read_all L bs k))"

lemma scancode_bytes:
  "ucast (s :: byte) = MACRO_SCANCODE_LShift \<longleftrightarrow> s = 0x2A" "ucast s = MACRO_SCANCODE_RShift \<longleftrightarrow> s = 0x36"
  "ucast s = MACRO_SCANCODE_LShift OR 0x80 \<longleftrightarrow> s = 0xAA" "ucast s = MACRO_SCANCODE_RShift OR 0x80 \<longleftrightarrow> s = 0xB6"
  "ucast s = MACRO_SCANCODE_CTRL \<longleftrightarrow> s = 0x1D" "ucast s = MACRO_SCANCODE_CTRL OR 0x80 \<longleftrightarrow> s = 0x9D"
  "ucast s = MACRO_SCANCODE_Alt \<longleftrightarrow> s = 0x38" "ucast s = MACRO_SCANCODE_Alt OR 0x80 \<longleftrightarrow> s = 0xB8"
proof -
  have e: "ucast s = (ucast t :: u16) \<longleftrightarrow> s = t" for t :: byte
    by (simp add: word_uint_eq_iff uint_up_ucast is_up)
  note defs = MACRO_SCANCODE_LShift_def MACRO_SCANCODE_RShift_def MACRO_SCANCODE_CTRL_def MACRO_SCANCODE_Alt_def
  show "ucast (s :: byte) = MACRO_SCANCODE_LShift \<longleftrightarrow> s = 0x2A" "ucast s = MACRO_SCANCODE_RShift \<longleftrightarrow> s = 0x36"
    "ucast s = MACRO_SCANCODE_LShift OR 0x80 \<longleftrightarrow> s = 0xAA" "ucast s = MACRO_SCANCODE_RShift OR 0x80 \<longleftrightarrow> s = 0xB6"
    "ucast s = MACRO_SCANCODE_CTRL \<longleftrightarrow> s = 0x1D" "ucast s = MACRO_SCANCODE_CTRL OR 0x80 \<longleftrightarrow> s = 0x9D"
    "ucast s = MACRO_SCANCODE_Alt \<longleftrightarrow> s = 0x38" "ucast s = MACRO_SCANCODE_Alt OR 0x80 \<longleftrightarrow> s = 0xB8"
    using e [of "0x2A"] e [of "0x36"] e [of "0xAA"] e [of "0xB6"] e [of "0x1D"] e [of "0x9D"] e [of "0x38"] e [of "0xB8"]
    by (simp_all add: defs)
qed

lemma release_byte: "s - 0x80 = c \<longleftrightarrow> s = c + (0x80 :: byte)"
  by (simp add: diff_eq_eq)

lemma ReadAscii_step:
  "\<exists>r. ReadAscii L s k = Some (r, modifiers [s] k) \<and> translates (select_map L k) s r"
proof (cases "silent s")
  case True
  then have "ReadAscii L s k = Some (0, modifiers [s] k)"
    by (auto simp: ReadAscii_def scancode_bytes silent_def modifiers_def latch_def release_byte)
  then show ?thesis using True by (simp add: translates_def)
next
  case False
  then have "s < 0x80" "s \<notin> {0, 0x2A, 0x36, 0x1D, 0x38}" by (auto simp: silent_def)
  moreover from this have "s \<notin> {0xAA, 0xB6, 0x9D, 0xB8}" by auto
  ultimately have "ReadAscii L s k = map_option (\<lambda>r. (r, k)) (scan_map (select_map L k) s)" "modifiers [s] k = k"
    by (auto simp: ReadAscii_def scancode_bytes modifiers_def latch_def release_byte)
  then show ?thesis using scan_map_translates [OF select_map_good False, of L k] by auto
qed

lemma modifiers_append: "modifiers (as @ bs) k = modifiers bs (modifiers as k)"
  by (induction bs rule: rev_induct) (simp_all add: modifiers_Nil, simp add: modifiers_def latch_snoc flip: append_assoc)

lemma read_all_spec:
  "\<exists>rs. read_all L bs k = Some (rs, modifiers bs k) \<and> length rs = length bs \<and>
     (\<forall>i < length bs. translates (select_map L (modifiers (take i bs) k)) (bs ! i) (rs ! i))"
proof (induction bs arbitrary: k)
  case Nil
  then show ?case by (simp add: modifiers_Nil)
next
  case (Cons s bs)
  obtain r where r: "ReadAscii L s k = Some (r, modifiers [s] k)" "translates (select_map L k) s r"
    using ReadAscii_step by blast
  obtain rs where rs: "read_all L bs (modifiers [s] k) = Some (rs, modifiers bs (modifiers [s] k))" "length rs = length bs"
    "\<forall>i < length bs. translates (select_map L (modifiers (take i bs) (modifiers [s] k))) (bs ! i) (rs ! i)"
    using Cons.IH by blast
  have m: "modifiers (s # xs) k = modifiers xs (modifiers [s] k)" for xs using modifiers_append [of "[s]" xs k] by simp
  have "translates (select_map L (modifiers (take i (s # bs)) k)) ((s # bs) ! i) ((r # rs) ! i)" if "i < Suc (length bs)" for i
    using that r(2) rs(3) by (cases i) (simp_all add: modifiers_Nil m [of "take _ bs"])
  then show ?case using r(1) rs(1,2) m [of bs] by (intro exI [of _ "r # rs"]) auto
qed

section \<open>The characters of a layout\<close>

definition typable :: "byte list option \<Rightarrow> u16 set" where
  "typable L = {c. \<exists>s k r k'. ReadAscii L s k = Some (r, k') \<and> c = r AND 0xFF \<and> 0x20 \<le> c \<and> c < 0x80}"

definition characters :: "u16 list \<Rightarrow> u16 list" where
  "characters m = map (\<lambda>p. p AND 0xFF) (butlast m)"

lemma ReadAscii_characters:
  assumes "ReadAscii L s k = Some (r, k')" "0x20 \<le> r AND 0xFF" "r AND 0xFF < 0x80"
  shows "r AND 0xFF \<in> set (characters (select_map L k))"
proof -
  obtain r' where r': "ReadAscii L s k = Some (r', modifiers [s] k)" "translates (select_map L k) s r'"
    using ReadAscii_step by blast
  then have r: "translates (select_map L k) s r" using assms(1) by simp
  then have nz: "r \<noteq> 0" "r AND 0xFF \<noteq> 0xFF" using assms(2,3) by auto
  then have "r \<in> set (select_map L k)" using r by (auto simp: translates_def split: if_splits)
  moreover have "select_map L k = butlast (select_map L k) @ [0]"
    using select_map_good [of L k] unfolding good_map_def by (metis append_butlast_last_id)
  ultimately have "r \<in> set (butlast (select_map L k))" using nz(1) by (metis in_set_butlast_appendI rotate1.simps(2) set_ConsD set_rotate1)
  then show ?thesis by (simp add: characters_def)
qed

lemma ucast_byte_zero: "ucast (s :: byte) = (0 :: u16) \<longleftrightarrow> s = 0"
  by (simp add: word_uint_eq_iff uint_up_ucast is_up)

lemma ucast_byte:
  assumes "(q :: u16) < 0x80"
  shows "ucast (ucast q :: byte) = q"
proof -
  have "uint q < 2 ^ 8" using assms by (simp add: word_less_alt)
  then have "take_bit 8 (uint q) = uint q" by (simp add: take_bit_int_eq_self)
  then show ?thesis by (simp add: word_uint_eq_iff unsigned_ucast_eq unsigned_take_bit_eq)
qed

lemma characters_typable:
  assumes "c \<in> set (characters (select_map L k))"
  shows "c \<in> typable L"
proof -
  define m where "m = select_map L k"
  obtain p where p: "p \<in> set (butlast m)" "c = p AND 0xFF" using assms by (auto simp: characters_def m_def)
  have good: "good_map m" unfolding m_def by (rule select_map_good)
  then have gp: "good_entry p" using p(1) by (simp add: good_map_def list_all_iff)
  define s where "s = (ucast (drop_bit 8 p) :: byte)"
  have s: "ucast s = drop_bit 8 p" "\<not> silent s"
    using gp ucast_byte [of "drop_bit 8 p"] by (auto simp: s_def good_entry_def)
  obtain r where r: "ReadAscii L s k = Some (r, modifiers [s] k)" "translates m s r"
    using ReadAscii_step m_def by blast
  have "m \<noteq> []" "last m = 0" using good by (auto simp: good_map_def)
  then have mem: "set m = insert 0 (set (butlast m))" by (metis append_butlast_last_id list.simps(15) rotate1.simps(2) set_rotate1)
  have "p \<noteq> 0" "p \<in> set m" using gp p(1) mem by (auto simp: good_entry_def)
  then have rm: "r \<in> set m" "drop_bit 8 r = drop_bit 8 p" using r(2) s unfolding translates_def by (auto split: if_splits)
  then have "r \<noteq> 0" using s ucast_byte_zero [of s] by (auto simp: silent_def)
  then have "r \<in> set (butlast m)" using rm(1) unfolding mem by simp
  moreover have "inj_on (drop_bit 8) (set (butlast m))" using good by (simp add: good_map_def distinct_map)
  ultimately have "r = p" using p(1) rm(2) by (auto dest: inj_onD)
  then have "ReadAscii L s k = Some (p, modifiers [s] k)" using r(1) by simp
  moreover have "0x20 \<le> c" "c < 0x7F" using gp p(2) by (auto simp: good_entry_def)
  moreover from this have "c < 0x80" by (simp add: word_less_nat_alt)
  ultimately show ?thesis using p(2) unfolding typable_def by blast
qed

definition kb :: "bool \<Rightarrow> bool \<Rightarrow> keyb" where
  "kb shift alt = \<lparr>shiftState = shift, ctrlState = False, altState = alt\<rparr>"

lemma typable_maps:
  assumes "layout_maps L = (a, b, c, d)"
  shows "typable L = set (characters a) \<union> set (characters b) \<union> set (characters c) \<union> set (characters d)"
proof -
  have sel: "select_map L k = (if shiftState k then if altState k then d else b else if altState k then c else a)" for k
    by (simp add: select_map_def assms)
  have kb: "select_map L (kb False False) = a" "select_map L (kb True False) = b" "select_map L (kb False True) = c"
    "select_map L (kb True True) = d"
    by (simp_all add: sel kb_def)
  show ?thesis
  proof (intro equalityI subsetI)
    fix x assume "x \<in> typable L"
    then obtain k where "x \<in> set (characters (select_map L k))" unfolding typable_def using ReadAscii_characters by blast
    then show "x \<in> set (characters a) \<union> set (characters b) \<union> set (characters c) \<union> set (characters d)"
      by (auto simp: sel split: if_splits)
  next
    fix x assume "x \<in> set (characters a) \<union> set (characters b) \<union> set (characters c) \<union> set (characters d)"
    then show "x \<in> typable L" using characters_typable [of x L] by (auto simp flip: kb)
  qed
qed

lemma word_range:
  assumes "(c :: u16) < 0x7E" "0x20 \<le> c"
  shows "c \<in> set (map word_of_nat [32..<126])"
proof -
  have "unat c < 126" "32 \<le> unat c" using assms by (simp_all add: word_less_nat_alt word_le_nat_alt)
  then have "unat c \<in> set [32..<126]" by (simp only: set_upt atLeastLessThan_iff)
  then have "(word_of_nat (unat c) :: u16) \<in> word_of_nat ` set [32..<126]" by (rule imageI)
  moreover have "(word_of_nat (unat c) :: u16) = c" by simp
  ultimately show ?thesis by (simp only: list.set_map)
qed

lemmas EN_maps = g_vwScancodeToAsciiMap_EN_def g_vwScancodeToAsciiMap_ShiftPressed_EN_def
  g_vwScancodeToAsciiMap_AltPressed_EN_def g_vwScancodeToAsciiMap_ShiftAltPressed_EN_def

lemmas IT_maps = g_vwScancodeToAsciiMap_IT_def g_vwScancodeToAsciiMap_ShiftPressed_IT_def
  g_vwScancodeToAsciiMap_AltPressed_IT_def g_vwScancodeToAsciiMap_ShiftAltPressed_IT_def

lemma EN_typable:
  assumes "L \<noteq> Some [0x49, 0x54]"
  shows "typable L = {c. 0x20 \<le> c \<and> c < 0x7E}"
proof (intro equalityI subsetI)
  have t: "typable L = set (characters g_vwScancodeToAsciiMap_EN) \<union> set (characters g_vwScancodeToAsciiMap_ShiftPressed_EN) \<union>
      set (characters g_vwScancodeToAsciiMap_AltPressed_EN) \<union> set (characters g_vwScancodeToAsciiMap_ShiftAltPressed_EN)"
    using assms by (intro typable_maps) (simp add: layout_maps_def)
  fix c :: u16
  show "c \<in> {c. 0x20 \<le> c \<and> c < 0x7E}" if "c \<in> typable L"
    using that unfolding t by (auto simp: characters_def EN_maps scancode_defs key_parts)
  have "set (map word_of_nat [32..<126]) \<subseteq> typable L"
    unfolding t by (simp add: characters_def EN_maps scancode_defs key_parts upt_conv_Cons)
  then show "c \<in> typable L" if "c \<in> {c. 0x20 \<le> c \<and> c < 0x7E}" using that word_range by blast
qed

lemma IT_typable: "typable (Some [0x49, 0x54]) = {c. 0x20 \<le> c \<and> c < 0x7E \<and> c \<noteq> 0x60}"
proof (intro equalityI subsetI)
  have t: "typable (Some [0x49, 0x54]) = set (characters g_vwScancodeToAsciiMap_IT) \<union> set (characters g_vwScancodeToAsciiMap_ShiftPressed_IT) \<union>
      set (characters g_vwScancodeToAsciiMap_AltPressed_IT) \<union> set (characters g_vwScancodeToAsciiMap_ShiftAltPressed_IT)"
    by (intro typable_maps) (simp add: layout_maps_def)
  fix c :: u16
  show "c \<in> {c. 0x20 \<le> c \<and> c < 0x7E \<and> c \<noteq> 0x60}" if "c \<in> typable (Some [0x49, 0x54])"
    using that unfolding t by (auto simp: characters_def IT_maps scancode_defs key_parts)
  have "set (map word_of_nat [32..<126]) \<subseteq> insert 0x60 (typable (Some [0x49, 0x54]))"
    unfolding t by (simp add: characters_def IT_maps scancode_defs key_parts upt_conv_Cons)
  then show "c \<in> typable (Some [0x49, 0x54])" if "c \<in> {c. 0x20 \<le> c \<and> c < 0x7E \<and> c \<noteq> 0x60}"
    using that word_range by blast
qed


section \<open>Properties\<close>

text \<open>
  C38: reading a sequence of bytes from the keyboard never leaves a table and keeps the state of the
  three modifiers: each is on exactly when the last byte that concerns it was a press. A release, a
  modifier and an empty port give no key; any other scancode gives a key whose high byte is the
  scancode and whose low byte is the printable character that the table selected by the modifiers of
  this moment has for it, or \<open>0xFF\<close> exactly when the table has none.
\<close>

theorem ReadAscii_session:
  "\<exists>rs. read_all L bs k = Some (rs, modifiers bs k) \<and> length rs = length bs \<and>
     (\<forall>i < length bs. translates (select_map L (modifiers (take i bs) k)) (bs ! i) (rs ! i))"
  by (rule read_all_spec)

lemma scan_shift_A: "scan_map g_vwScancodeToAsciiMap_ShiftPressed_EN 0x1E = Some (key MACRO_SCANCODE_A 0x41)"
  by (simp add: g_vwScancodeToAsciiMap_ShiftPressed_EN_def scancode_defs scan_map_key del: scan_map.simps)

lemma scan_A: "scan_map g_vwScancodeToAsciiMap_EN 0x1E = Some (key MACRO_SCANCODE_A 0x61)"
  by (simp add: g_vwScancodeToAsciiMap_EN_def scancode_defs scan_map_key del: scan_map.simps)

lemma read_A_session:
  defines "k \<equiv> \<lparr>shiftState = False, ctrlState = False, altState = False\<rparr>"
  shows "read_all None [0x2A, 0x1E, 0xAA, 0x1E] k = Some ([0, key MACRO_SCANCODE_A 0x41, 0, key MACRO_SCANCODE_A 0x61], k)"
proof -
  let ?u = "k\<lparr>shiftState := True\<rparr>"
  have "select_map None k = g_vwScancodeToAsciiMap_EN" "select_map None ?u = g_vwScancodeToAsciiMap_ShiftPressed_EN"
    by (simp_all add: select_map_def layout_maps_def k_def)
  then have "ReadAscii None 0x2A k = Some (0, ?u)" "ReadAscii None 0x1E ?u = Some (key MACRO_SCANCODE_A 0x41, ?u)"
    "ReadAscii None 0xAA ?u = Some (0, k)" "ReadAscii None 0x1E k = Some (key MACRO_SCANCODE_A 0x61, k)"
    unfolding ReadAscii_def scancode_bytes by (simp_all add: scan_shift_A scan_A k_def)
  then show ?thesis by simp
qed

theorem ReadAscii_session_witness:
  "fst (the (read_all None [0x2A, 0x1E, 0xAA, 0x1E] \<lparr>shiftState = False, ctrlState = False, altState = False\<rparr>)) ! 1 =
   key MACRO_SCANCODE_A 0x41"
proof -
  let ?bs = "[0x2A, 0x1E, 0xAA, 0x1E] :: byte list" and ?k = "\<lparr>shiftState = False, ctrlState = False, altState = False\<rparr>"
  obtain rs where "read_all None ?bs ?k = Some (rs, modifiers ?bs ?k)"
    using ReadAscii_session [of None ?bs ?k] by blast
  with read_A_session show ?thesis by (simp only: option.sel prod.sel option.inject prod.inject) simp
qed


text \<open>
  What can be typed: with the English layout, which is also used when no layout or an unknown one
  is set, the keys give exactly the printable ASCII characters but the tilde; with the Italian layout
  the same but the backquote, all as characters that the main loop accepts.
\<close>

theorem typable_characters:
  "typable (Some [0x49, 0x54]) = {c. 0x20 \<le> c \<and> c \<le> 0x7D \<and> c \<noteq> 0x60} \<and>
   (\<forall>L. L \<noteq> Some [0x49, 0x54] \<longrightarrow> typable L = {c. 0x20 \<le> c \<and> c \<le> 0x7D})"
proof -
  have "c < 0x7E \<longleftrightarrow> c \<le> 0x7D" for c :: u16 by (simp add: word_less_nat_alt word_le_nat_alt) arith
  then show ?thesis using EN_typable IT_typable by simp
qed

theorem typable_characters_witness: "0x7B \<in> typable (Some [0x49, 0x54]) \<and> 0x60 \<in> typable None"
  using typable_characters by simp

end
