(* ===== verification/Wnd.thy ===== *)
theory Wnd
  imports Utils
begin

text \<open>
  What the windows of \<open>BugChecker/Wnd.cpp\<close> share: colour tags inside lines of text, the cursor, and
  the dimensions of the screen. A line is the list of its bytes; a colour tag in it is a newline and
  two hexadecimal digits. \<open>ULONG\<close>, \<open>LONG\<close> and \<open>size_t\<close> values are integers, and the conversions
  between them, where values wrap, are written out.
\<close>

section \<open>The model\<close>

subsection \<open>Integers\<close>

definition ULONG :: "int \<Rightarrow> int" where
  "ULONG x = x mod 2 ^ 32"

definition LONG :: "int \<Rightarrow> int" where
  "LONG x = (x + 2 ^ 31) mod 2 ^ 32 - 2 ^ 31"

definition SIZE_T :: "int \<Rightarrow> int" where
  "SIZE_T x = x mod 2 ^ 64"

subsection \<open>Colour tags\<close>

definition IsHex :: "byte \<Rightarrow> bool" where
  "IsHex c \<longleftrightarrow> (c \<ge> 0x30 \<and> c \<le> 0x39) \<or> (c \<ge> 0x41 \<and> c \<le> 0x46)"

definition ToHex :: "byte \<Rightarrow> byte" where
  "ToHex c =
     (if c \<ge> 0x30 \<and> c \<le> 0x39 then c - 0x30
      else if c \<ge> 0x41 \<and> c \<le> 0x46 then (c - 0x41) + 10
      else 0)"

text \<open>The string a pointer points to ends with its list or with a zero.\<close>

fun skip_tags :: "byte list \<Rightarrow> byte list" where
  "skip_tags (c # a # b # ptr) = (if c = 0x0A \<and> IsHex a \<and> IsHex b then skip_tags ptr else c # a # b # ptr)"
| "skip_tags ptr = ptr"

lemma length_skip_tags: "length (skip_tags ptr) \<le> length ptr"
  by (induction ptr rule: skip_tags.induct) auto

function StrLen_loop :: "byte list \<Rightarrow> byte list \<Rightarrow> int \<Rightarrow> byte list \<times> int" where
  "StrLen_loop ptr pOut ret =
     (case skip_tags ptr of
        [] \<Rightarrow> (pOut, ret)
      | c # ptr \<Rightarrow> if c \<noteq> 0 then StrLen_loop ptr (pOut @ [c]) (ULONG (ret + 1)) else (pOut, ret))"
  by pat_completeness auto
termination
proof (relation "measure (\<lambda>(ptr, pOut, ret). length ptr)", goal_cases)
  case (2 ptr pOut ret c ptr')
  then show ?case using length_skip_tags [of ptr] by simp
qed simp

declare StrLen_loop.simps [simp del]

text \<open>The string without its tags, and its length.\<close>

definition StrLen_out :: "byte list \<Rightarrow> byte list" where
  "StrLen_out ptr = fst (StrLen_loop ptr [] 0)"

definition StrLen :: "byte list \<Rightarrow> int" where
  "StrLen ptr = snd (StrLen_loop ptr [] 0)"

fun StrCount :: "byte list \<Rightarrow> nat \<Rightarrow> byte list option" where
  "StrCount ptr 0 = Some ptr"
| "StrCount ptr (Suc c) =
     (case skip_tags ptr of
        [] \<Rightarrow> None
      | x # ptr \<Rightarrow> if x \<noteq> 0 then StrCount ptr c else None)"

definition GetColor :: "byte \<Rightarrow> byte list" where
  "GetColor clr = HexToString (ucast clr) 1"

definition GetColorSpecial :: "byte \<Rightarrow> byte \<Rightarrow> byte list" where
  "GetColorSpecial nrmClr clr =
     (let clr = (if clr AND 0xF0 = 0 then clr OR (nrmClr AND 0xF0)
                 else if clr AND 0xF0 = nrmClr AND 0xF0 then (NOT clr AND 0xF0) OR (clr AND 0x0F)
                 else clr);
          clr = (if clr = nrmClr \<or> drop_bit 4 clr = clr AND 0x0F then (clr AND 0xF0) OR (NOT clr AND 0x0F) else clr)
      in HexToString (ucast clr) 1)"

subsection \<open>The cursor\<close>

datatype CursorFocus = FocusLog | FocusCode

text \<open>
  The fields of \<open>Root\<close> that the input line and the code window use. The front buffer only caches
  what was drawn: of the writes to it the model keeps whether they are inside the buffer.
\<close>

record ui =
  WndWidth :: int
  WndHeight :: int
  CursorX :: int
  CursorY :: int
  CursorDisplayX :: int
  CursorDisplayY :: int
  LogCursorX :: int
  LogCursorY :: int
  CodeCursorX :: int
  CodeCursorY :: int
  CursorFocus :: CursorFocus
  nrmClr :: byte
  hrzClr :: byte

definition TextBuffersDim :: int where
  "TextBuffersDim = 128 * 128"

definition front_buffer_write :: "ui \<Rightarrow> unit option" where
  "front_buffer_write u =
     (if ULONG (CursorY u * WndWidth u + CursorX u) < TextBuffersDim then Some () else None)"

definition ChangeCursorX :: "int \<Rightarrow> int \<Rightarrow> ui \<Rightarrow> ui option" where
  "ChangeCursorX newX newY u =
     (case front_buffer_write u of
        None \<Rightarrow> None
      | Some _ \<Rightarrow>
          (let u = u\<lparr>CursorX := newX\<rparr>;
               u = (if CursorDisplayX u \<ge> 0 then u\<lparr>CursorDisplayX := CursorX u\<rparr> else u);
               u = (if newY \<ge> 0 then
                      (let u = u\<lparr>CursorY := newY\<rparr>
                       in if CursorDisplayY u \<ge> 0 then u\<lparr>CursorDisplayY := CursorY u\<rparr> else u)
                    else u)
           in case front_buffer_write u of None \<Rightarrow> None | Some _ \<Rightarrow> Some u))"

text \<open>
  \<open>SwitchBetweenLogCode\<close> with a visible code window; a hidden one is first made visible, which
  lays out the screen anew.
\<close>

definition SwitchBetweenLogCode :: "ui \<Rightarrow> ui option" where
  "SwitchBetweenLogCode u =
     (case CursorFocus u of
        FocusLog \<Rightarrow>
          (let u = u\<lparr>LogCursorX := CursorX u, LogCursorY := CursorY u\<rparr>
           in map_option (\<lambda>u. u\<lparr>CursorFocus := FocusCode\<rparr>) (ChangeCursorX (CodeCursorX u) (CodeCursorY u) u))
      | FocusCode \<Rightarrow>
          (let u = u\<lparr>CodeCursorX := CursorX u, CodeCursorY := CursorY u\<rparr>
           in map_option (\<lambda>u. u\<lparr>CursorFocus := FocusLog\<rparr>) (ChangeCursorX (LogCursorX u) (LogCursorY u) u)))"

record window =
  contents :: "byte list list"
  destY0 :: int
  destY1 :: int
  posX :: int
  posY :: int


section \<open>Conversions\<close>

definition small :: "int \<Rightarrow> bool" where
  "small x \<longleftrightarrow> 0 \<le> x \<and> x < 2 ^ 31"

lemma conversions:
  assumes "small x"
  shows "ULONG x = x" "LONG x = x" "SIZE_T x = x"
  using assms by (simp_all add: small_def ULONG_def LONG_def SIZE_T_def)

lemma LONG_small: "- (2 ^ 31) \<le> x \<Longrightarrow> x < 2 ^ 31 \<Longrightarrow> LONG x = x"
  by (simp add: LONG_def)

lemma SIZE_T_neg: "- (2 ^ 31) \<le> x \<Longrightarrow> x < 0 \<Longrightarrow> SIZE_T x \<ge> 2 ^ 63"
proof -
  assume "- (2 ^ 31) \<le> x" "x < 0"
  then have "(x + 2 ^ 64) mod 2 ^ 64 = x + 2 ^ 64" by (intro mod_pos_pos_trivial) simp_all
  then have "x mod 2 ^ 64 = x + 2 ^ 64" by (simp only: mod_add_self2)
  then show ?thesis using \<open>- (2 ^ 31) \<le> x\<close> by (simp add: SIZE_T_def)
qed


lemma front_buffer_ok:
  assumes "0 \<le> x" "x < W" "0 \<le> y" "y < H" "W * H \<le> TextBuffersDim"
  shows "ULONG (y * W + x) < TextBuffersDim"
proof -
  have "(y + 1) * W \<le> H * W" using assms by (intro mult_right_mono) auto
  then have "y * W + x < W * H" using assms by (simp add: algebra_simps)
  moreover have "0 \<le> y * W" using assms by (intro mult_nonneg_nonneg) auto
  ultimately have "0 \<le> y * W + x" "y * W + x < TextBuffersDim" using assms by auto
  then show ?thesis by (simp add: ULONG_def TextBuffersDim_def)
qed

section \<open>Colour tags do not count\<close>

text \<open>The text of a line: what is left without the tags, up to a zero.\<close>

fun strip :: "byte list \<Rightarrow> byte list" where
  "strip (c # a # b # ptr) =
     (if c = 0x0A \<and> IsHex a \<and> IsHex b then strip ptr
      else if c = 0 then [] else c # strip (a # b # ptr))"
| "strip (c # ptr) = (if c = 0 then [] else c # strip ptr)"
| "strip [] = []"

lemma strip_skip_tags: "strip (skip_tags ptr) = strip ptr"
  by (induction ptr rule: skip_tags.induct) auto

lemma strip_skipped:
  "skip_tags ptr = c # p \<Longrightarrow> strip ptr = (if c = 0 then [] else c # strip p)"
  by (induction ptr rule: skip_tags.induct) (auto split: if_splits)

lemma strip_skipped_Nil: "skip_tags ptr = [] \<Longrightarrow> strip ptr = []"
  using strip_skip_tags [of ptr] by simp

lemma StrLen_loop_strip:
  "StrLen_loop ptr pOut ret = (pOut @ strip ptr, if strip ptr = [] then ret else ULONG (ret + int (length (strip ptr))))"
proof (induction ptr pOut ret rule: StrLen_loop.induct)
  case (1 ptr pOut ret)
  show ?case
  proof (cases "skip_tags ptr")
    case Nil
    then show ?thesis by (subst StrLen_loop.simps) (simp add: strip_skipped_Nil)
  next
    case (Cons c p)
    then show ?thesis using "1.IH" [OF Cons] strip_skipped [OF Cons]
      by (subst StrLen_loop.simps) (auto simp: ULONG_def mod_simps algebra_simps)
  qed
qed

lemma StrLen_strip: "StrLen_out ptr = strip ptr" "StrLen ptr = ULONG (int (length (strip ptr)))"
  by (simp_all add: StrLen_out_def StrLen_def StrLen_loop_strip) (simp add: ULONG_def)


text \<open>Text whose newlines all start a tag, and which contains no zero.\<close>

fun tagged :: "byte list \<Rightarrow> bool" where
  "tagged (c # a # b # ptr) =
     (if c = 0x0A then IsHex a \<and> IsHex b \<and> tagged ptr else c \<noteq> 0 \<and> tagged (a # b # ptr))"
| "tagged (c # ptr) = (c \<noteq> 0x0A \<and> c \<noteq> 0 \<and> tagged ptr)"
| "tagged [] = True"

definition plain :: "byte list \<Rightarrow> bool" where
  "plain t \<longleftrightarrow> 0x0A \<notin> set t \<and> 0 \<notin> set t"

lemma tagged_char: "c \<noteq> 0x0A \<Longrightarrow> tagged (c # t) \<longleftrightarrow> c \<noteq> 0 \<and> tagged t"
  by (cases "c # t" rule: tagged.cases) auto

lemma strip_char: "c \<noteq> 0x0A \<Longrightarrow> strip (c # t) = (if c = 0 then [] else c # strip t)"
  by (cases "c # t" rule: strip.cases) auto

lemma IsHex_nonzero: "\<not> IsHex 0" "\<not> IsHex 0x0A"
  by (simp_all add: IsHex_def)

lemma tagged_append: "tagged us \<Longrightarrow> tagged (us @ vs) = tagged vs \<and> strip (us @ vs) = strip us @ strip vs"
proof (induction us rule: tagged.induct)
  case (1 c a b ptr)
  then show ?case by (auto simp: tagged_char strip_char split: if_splits)
qed (auto simp: tagged_char strip_char)

lemma plain_tagged: "plain t \<Longrightarrow> tagged t \<and> strip t = t"
  by (induction t) (auto simp: plain_def tagged_char strip_char)

lemma strip_plain: "tagged t \<Longrightarrow> plain (strip t)"
  by (induction t rule: tagged.induct) (auto simp: plain_def IsHex_nonzero split: if_splits)

lemma tagged_split:
  assumes "tagged t" "p < length t" "\<not> IsHex (t ! p)"
  shows "tagged (take p t) \<and> tagged (drop p t)"
  using assms
proof (induction t arbitrary: p rule: tagged.induct)
  case (1 c a b ptr)
  show ?case
  proof (cases "c = 0x0A")
    case True
    consider "p = 0" | "p = 1" | "p = 2" | q where "p = q + 3"
      by atomize_elim presburger
    then show ?thesis using 1 True by cases (auto simp: numeral_3_eq_3)
  next
    case False
    then show ?thesis using "1.IH"(2) [OF False, of "p - 1"] "1.prems" by (cases p) (auto simp: tagged_char)
  qed
qed (auto simp: tagged_char less_Suc_eq_0_disj)

lemma tagged_split_Suc:
  assumes "tagged t" "p < length t" "\<not> IsHex (t ! p)" "t ! p \<noteq> 0x0A"
  shows "tagged (take (p + 1) t) \<and> tagged (drop (p + 1) t)"
proof -
  have "drop p t = t ! p # drop (p + 1) t" using assms(2) by (simp add: Cons_nth_drop_Suc)
  moreover have "take (p + 1) t = take p t @ [t ! p]" using assms(2) by (simp add: take_Suc_conv_app_nth)
  moreover have "tagged (take p t)" "tagged (drop p t)" using tagged_split [OF assms(1-3)] by auto
  ultimately show ?thesis using assms(4) tagged_append [of "take p t" "[t ! p]"] by (auto simp: tagged_char)
qed

definition is_tag :: "byte list \<Rightarrow> bool" where
  "is_tag g \<longleftrightarrow> (\<exists>a b. g = [0x0A, a, b] \<and> IsHex a \<and> IsHex b)"

lemma tagged_insert:
  assumes "tagged (take p t) \<and> tagged (drop p t)" "is_tag g"
  shows "tagged (take p t @ g @ drop p t) \<and> strip (take p t @ g @ drop p t) = strip t"
proof -
  have g: "tagged (g @ v) = tagged v" "strip (g @ v) = strip v" for v using assms(2) by (auto simp: is_tag_def)
  then show ?thesis
    using tagged_append [of "take p t" "g @ drop p t"] tagged_append [of "take p t" "drop p t"] assms(1) by simp
qed

lemma IsHex_hex_digit: "d < 16 \<Longrightarrow> IsHex (hex_digit d)"
proof -
  assume "d < 16"
  then have "d \<in> {0..<16}" by simp
  then show ?thesis by (simp add: atLeastLessThan_upt upt_conv_Cons) (auto simp: hex_digit_def IsHex_def)
qed

lemma color_tags:
  "is_tag (0x0A # GetColor c)" "is_tag (0x0A # GetColorSpecial n c)"
  by (auto simp: is_tag_def GetColor_def GetColorSpecial_def HexToString_def Let_def numeral_2_eq_2 IsHex_hex_digit)

lemma length_tag: "is_tag g \<Longrightarrow> length g = 3"
  by (auto simp: is_tag_def)

end
