(* ===== verification/CodeWnd.thy ===== *)
theory CodeWnd
  imports Wnd "HOL-Library.Monad_Syntax"
begin

text \<open>
  The script editor of \<open>BugChecker/CodeWnd.cpp\<close>: a window of coloured lines with a cursor. The state
  is the cursor (\<open>ui\<close>) and the window; an operation is \<open>None\<close> when it writes outside a buffer of the
  screen. Drawing is not part of the model. A reference into the vector of lines is the number of the
  line.
\<close>

section \<open>The model\<close>

subsection \<open>Lines\<close>

type_synonym code_state = "ui \<times> window"

definition pad_lines :: "byte list list \<Rightarrow> nat \<Rightarrow> byte list list" where
  "pad_lines cs y = cs @ replicate (Suc y - length cs) []"

text \<open>\<open>GetLine(y)\<close>, \<open>GetLine(y, TRUE)\<close> and \<open>GetLine(y, FALSE, &deletedStr)\<close>.\<close>

definition GetLine :: "byte list list \<Rightarrow> nat \<Rightarrow> byte list list" where
  "GetLine cs y = (let cs = pad_lines cs y in cs[y := StrLen_out (cs ! y)])"

definition GetLine_add :: "byte list list \<Rightarrow> nat \<Rightarrow> byte list list" where
  "GetLine_add cs y = (let cs = pad_lines cs y; y = Suc y; cs = take y cs @ [[]] @ drop y cs in cs[y := StrLen_out (cs ! y)])"

definition GetLine_del :: "byte list list \<Rightarrow> nat \<Rightarrow> byte list list \<times> byte list" where
  "GetLine_del cs y = (let cs = pad_lines cs y; del = cs ! y in (take y cs @ drop (Suc y) cs, StrLen_out del))"

definition GetCurrentLineId :: "code_state \<Rightarrow> int" where
  "GetCurrentLineId s = (case s of (u, w) \<Rightarrow> ULONG (posY w + ULONG (CursorY u - destY0 w)))"

subsection \<open>Syntax colours\<close>

definition insert_at :: "nat \<Rightarrow> byte list \<Rightarrow> byte list \<Rightarrow> byte list" where
  "insert_at p str text = take p text @ str @ drop p text"

definition erase_at :: "nat \<Rightarrow> nat \<Rightarrow> byte list \<Rightarrow> byte list" where
  "erase_at p n text = take p text @ drop (p + n) text"

definition indexToPos :: "byte list \<Rightarrow> int \<Rightarrow> int" where
  "indexToPos text index = StrLen (take (nat (SIZE_T index)) text)"

definition exAdd :: "byte list \<Rightarrow> int \<Rightarrow> int \<Rightarrow> (int \<times> int) list \<Rightarrow> (int \<times> int) list" where
  "exAdd text start end exclusion =
     filter (\<lambda>p. \<not> snd p < 0) exclusion @
     [(LONG (indexToPos text start), if end \<ge> 0 then LONG (indexToPos text end) else end)]"

definition exCheck :: "byte list \<Rightarrow> (int \<times> int) list \<Rightarrow> int \<Rightarrow> bool" where
  "exCheck text exclusion index =
     (let index = LONG (indexToPos text index) in list_ex (\<lambda>p. index > fst p \<and> (snd p < 0 \<or> index < snd p)) exclusion)"

text \<open>The loop over the characters; \<open>strIndex\<close> is \<open>None\<close> for the value \<open>-1\<close>.\<close>

function color_loop ::
  "ui \<Rightarrow> byte list \<Rightarrow> nat \<Rightarrow> nat option \<Rightarrow> nat \<Rightarrow> (int \<times> int) list \<Rightarrow> byte list \<times> (int \<times> int) list" where
  "color_loop u text i strIndex slashCn exclusion =
     (if i < length text then
        if text ! i = 0x2F \<and> strIndex = None \<and> i > 0 \<and> text ! (i - 1) = 0x2F
        then (insert_at (i - 1) (0x0A # GetColor (hrzClr u)) text, exAdd text (int (i - 1)) (-1) exclusion)
        else if text ! i \<in> {0x27, 0x22, 0x60} then
          (case strIndex of
             None \<Rightarrow>
               color_loop u (insert_at i (0x0A # GetColorSpecial (nrmClr u) 0x04) text) (i + 4) (Some (i + 3)) 0
                 (exAdd text (int i) (-1) exclusion)
           | Some j \<Rightarrow>
               if text ! j = text ! i \<and> slashCn mod 2 = 0
               then color_loop u (insert_at (i + 1) (0x0A # GetColor (nrmClr u)) text) (i + 4) None 0
                      (exAdd text (int j) (int i) exclusion)
               else color_loop u text (i + 1) strIndex 0 exclusion)
        else color_loop u text (i + 1) strIndex (if text ! i = 0x5C \<and> strIndex \<noteq> None then slashCn + 1 else 0) exclusion
      else (text, exclusion))"
  by pat_completeness auto
termination
proof (relation "measure (\<lambda>(u, text, i, strIndex, slashCn, exclusion). length text - i)", goal_cases)
  case (2 u t i strIndex slashCn exclusion)
  then show ?case using color_tags(2) [THEN length_tag] by (simp add: insert_at_def)
next
  case (3 u t i strIndex slashCn exclusion)
  then show ?case using color_tags(1) [THEN length_tag] by (simp add: insert_at_def)
qed auto

declare color_loop.simps [simp del]


definition js_keywords :: "byte list list" where
  "js_keywords =
     map (map of_char)
       [''break'', ''case'', ''catch'', ''continue'', ''debugger'', ''default'', ''delete'', ''do'', ''else'',
        ''finally'', ''for'', ''function'', ''if'', ''in'', ''instanceof'', ''new'', ''return'', ''switch'',
        ''this'', ''throw'', ''try'', ''typeof'', ''while'', ''with'', ''class'', ''const'', ''enum'', ''import'',
        ''export'', ''extends'', ''super'', ''implements'', ''interface'', ''let'', ''package'', ''private'',
        ''protected'', ''public'', ''static'', ''yield'', ''undefined'', ''null'', ''true'', ''false'',
        ''Infinity'', ''NaN'', ''eval'', ''arguments'', ''await'', ''async'', ''void'', ''var'']"

definition isIdChar :: "byte list \<Rightarrow> byte list \<Rightarrow> nat \<Rightarrow> int \<Rightarrow> bool" where
  "isIdChar text textUnc pos offset \<longleftrightarrow>
     pos < length text \<and>
     (let posUnc = ULONG (indexToPos text (int pos) + offset) in
      posUnc < int (length textUnc) \<and>
      (let c = textUnc ! nat posUnc in
       (c \<ge> 0x30 \<and> c \<le> 0x39) \<or> (c \<ge> 0x61 \<and> c \<le> 0x7A) \<or> (c \<ge> 0x41 \<and> c \<le> 0x5A)))"

text \<open>\<open>text.find(keyword, pos)\<close>\<close>

definition find_from :: "byte list \<Rightarrow> byte list \<Rightarrow> nat \<Rightarrow> nat option" where
  "find_from text keyword pos =
     (if pos \<le> length text then map_option (\<lambda>q. pos + q) (string_find (drop pos text) keyword) else None)"

lemma find_from_bounds:
  "find_from text keyword pos = Some p \<Longrightarrow> pos \<le> p \<and> p + length keyword \<le> length text \<and>
     take (length keyword) (drop p text) = keyword"
  using string_find_spec [where s = "drop pos text" and d = keyword]
  by (auto simp: find_from_def add.commute split: if_splits option.splits)

function keyword_loop :: "ui \<Rightarrow> byte list \<Rightarrow> (int \<times> int) list \<Rightarrow> byte list \<Rightarrow> byte list \<Rightarrow> nat \<Rightarrow> byte list" where
  "keyword_loop u textUnc exclusion keyword text pos =
     (if keyword = [] then text
      else
        (case find_from text keyword pos of
           None \<Rightarrow> text
         | Some pos \<Rightarrow>
             if \<not> isIdChar text textUnc pos (-1) \<and> \<not> isIdChar text textUnc pos (int (length keyword)) \<and>
                \<not> exCheck text exclusion (int pos)
             then keyword_loop u textUnc exclusion keyword
                    (insert_at pos (0x0A # GetColorSpecial (nrmClr u) 0x03)
                      (insert_at (pos + length keyword) (0x0A # GetColor (nrmClr u)) text))
                    (pos + 3 + 3 + length keyword)
             else keyword_loop u textUnc exclusion keyword text (pos + length keyword)))"
  by pat_completeness auto
termination
proof (relation "measure (\<lambda>(u, textUnc, exclusion, keyword, t, pos). length t - pos)", goal_cases)
  case (2 u textUnc exclusion keyword t pos p)
  then show ?case
    using color_tags(2) [THEN length_tag] color_tags(1) [THEN length_tag] find_from_bounds [of t keyword pos p]
    by (cases keyword) (auto simp: insert_at_def)
next
  case (3 u textUnc exclusion keyword t pos p)
  then show ?case using find_from_bounds [of t keyword pos p] by (cases keyword) auto
qed simp

declare keyword_loop.simps [simp del]

definition color_text :: "ui \<Rightarrow> byte list \<Rightarrow> byte list" where
  "color_text u textUnc =
     (case color_loop u textUnc 0 None 0 [] of
        (text, exclusion) \<Rightarrow> fold (\<lambda>keyword text. keyword_loop u textUnc exclusion keyword text 0) js_keywords text)"

definition SyntaxColor :: "nat \<Rightarrow> code_state \<Rightarrow> code_state" where
  "SyntaxColor y s =
     (case s of (u, w) \<Rightarrow>
        let cs = GetLine (contents w) y in (u, w\<lparr>contents := cs[y := color_text u (cs ! y)]\<rparr>))"

definition SyntaxColorAll :: "code_state \<Rightarrow> code_state" where
  "SyntaxColorAll s = fold SyntaxColor [0..<length (contents (snd s))] s"


subsection \<open>Editing\<close>

definition current_line :: "code_state \<Rightarrow> nat" where
  "current_line s = nat (GetCurrentLineId s)"

definition Finalize :: "code_state \<Rightarrow> code_state" where
  "Finalize s = SyntaxColor (current_line s) s"

text \<open>The position of the cursor in its line.\<close>

definition cursor_pos :: "code_state \<Rightarrow> int" where
  "cursor_pos s = (case s of (u, w) \<Rightarrow> LONG (CursorX u - 2 + posX w))"

definition move_cursor :: "int \<Rightarrow> int \<Rightarrow> code_state \<Rightarrow> code_state option" where
  "move_cursor x y s = (case s of (u, w) \<Rightarrow> map_option (\<lambda>u. (u, w)) (ChangeCursorX x y u))"

text \<open>
  Where a column of the screen is shown and how far the line is scrolled: \<open>x\<close> and the new \<open>posX\<close>, for
  a line of \<open>textSize\<close> characters.
\<close>

definition scroll_x :: "ui \<Rightarrow> int \<Rightarrow> int \<Rightarrow> int \<times> int" where
  "scroll_x u textSize x =
     (if ULONG x > ULONG (WndWidth u - 2)
      then (LONG (ULONG (WndWidth u - 2)), ULONG (textSize - ULONG (WndWidth u - 4)))
      else (x, 0))"

definition Add :: "byte list \<Rightarrow> code_state \<Rightarrow> code_state option" where
  "Add str s =
     (case s of (u, w) \<Rightarrow>
        let y = current_line s;
            cs = GetLine (contents w) y;
            w = w\<lparr>contents := cs\<rparr>;
            pos = cursor_pos s
        in
          if pos < 0 \<or> SIZE_T pos > int (length (cs ! y)) then Some (u, w)
          else
            (let w = w\<lparr>contents := cs[y := insert_at (nat pos) str (cs ! y)]\<rparr> in
             if SIZE_T (CursorX u) < SIZE_T (ULONG (WndWidth u - 1) - int (length str))
             then map_option Finalize (move_cursor (LONG (CursorX u + int (length str))) (-1) (u, w))
             else Some (Finalize (u, w\<lparr>posX := ULONG (posX w + int (length str))\<rparr>))))"

definition Enter :: "code_state \<Rightarrow> code_state option" where
  "Enter s =
     (case s of (u, w) \<Rightarrow>
        let y = current_line s;
            cs = GetLine (contents w) y;
            w = w\<lparr>contents := cs\<rparr>;
            pos = cursor_pos s
        in
          if pos < 0 \<or> SIZE_T pos > int (length (cs ! y)) then Some (u, w)
          else
            (let text2 = drop (nat pos) (cs ! y);
                 cs = cs[y := take (nat pos) (cs ! y)];
                 cs = GetLine_add cs y;
                 w = w\<lparr>contents := cs[Suc y := text2], posX := 0\<rparr>;
                 cursorY = CursorY u + 1;
                 (cursorY, w) = (if ULONG cursorY > destY1 w then (cursorY - 1, w\<lparr>posY := ULONG (posY w + 1)\<rparr>) else (cursorY, w))
             in map_option (\<lambda>s. Finalize (SyntaxColor (nat (ULONG (GetCurrentLineId s - 1))) s)) (move_cursor 2 cursorY (u, w))))"

text \<open>The cursor goes to column \<open>x\<close> of the line above, of \<open>textSize\<close> characters.\<close>

definition to_line_above :: "int \<Rightarrow> int \<Rightarrow> code_state \<Rightarrow> code_state option" where
  "to_line_above textSize x s =
     (case s of (u, w) \<Rightarrow>
        let (x, px) = scroll_x u textSize x;
            w = w\<lparr>posX := px\<rparr>;
            cursorY = CursorY u - 1;
            (cursorY, w) = (if ULONG cursorY < destY0 w then (cursorY + 1, w\<lparr>posY := ULONG (posY w - 1)\<rparr>) else (cursorY, w))
        in move_cursor x cursorY (u, w))"

definition BackSpace :: "code_state \<Rightarrow> code_state option" where
  "BackSpace s =
     (case s of (u, w) \<Rightarrow>
        let y = current_line s;
            pos = LONG (CursorX u - 2 + posX w - 1)
        in
          if pos \<ge> 0 then
            (let cs = GetLine (contents w) y;
                 w = w\<lparr>contents := cs\<rparr>
             in
               if cs ! y = [] \<or> SIZE_T pos \<ge> int (length (cs ! y)) then Some (u, w)
               else
                 (let w = w\<lparr>contents := cs[y := erase_at (nat pos) 1 (cs ! y)]\<rparr> in
                  if CursorX u > 2 then map_option Finalize (move_cursor (CursorX u - 1) (-1) (u, w))
                  else if posX w > 0 then Some (Finalize (u, w\<lparr>posX := posX w - 1\<rparr>))
                  else Some (Finalize (u, w))))
          else if y = 0 then Some s
          else
            (case GetLine_del (contents w) y of
               (cs, del) \<Rightarrow>
                 let cs = GetLine cs (y - 1);
                     textSize = int (length (cs ! (y - 1)));
                     w = w\<lparr>contents := cs[y - 1 := cs ! (y - 1) @ del]\<rparr>
                 in map_option Finalize (to_line_above textSize (LONG (textSize + 2)) (u, w))))"

definition Del :: "code_state \<Rightarrow> code_state option" where
  "Del s =
     (case s of (u, w) \<Rightarrow>
        let y = current_line s;
            cs = GetLine (contents w) y;
            w = w\<lparr>contents := cs\<rparr>;
            pos = cursor_pos s
        in
          if pos < 0 then Some (u, w)
          else if SIZE_T pos < int (length (cs ! y)) then
            Some (Finalize (u, w\<lparr>contents := cs[y := erase_at (nat pos) 1 (cs ! y)]\<rparr>))
          else
            (let id = nat (ULONG (GetCurrentLineId s + 1)) in
             if id \<ge> length cs then Some (u, w)
             else
               (case GetLine_del cs id of
                  (cs, del) \<Rightarrow> Some (Finalize (u, w\<lparr>contents := cs[y := cs ! y @ del]\<rparr>)))))"


subsection \<open>Moving the cursor\<close>

definition Left :: "code_state \<Rightarrow> code_state option" where
  "Left s =
     (case s of (u, w) \<Rightarrow>
        if CursorX u > 2 then map_option Finalize (move_cursor (CursorX u - 1) (-1) s)
        else if posX w > 0 then Some (Finalize (u, w\<lparr>posX := posX w - 1\<rparr>))
        else if current_line s = 0 then Some s
        else
          (let y = current_line s - 1;
               cs = GetLine (contents w) y;
               textSize = int (length (cs ! y))
           in map_option Finalize (to_line_above textSize (LONG (textSize + 2)) (u, w\<lparr>contents := cs\<rparr>))))"

text \<open>The cursor goes to column \<open>x\<close> of the line below.\<close>

definition to_line_below :: "int \<Rightarrow> int \<Rightarrow> code_state \<Rightarrow> code_state option" where
  "to_line_below px x s =
     (case s of (u, w) \<Rightarrow>
        let w = w\<lparr>posX := px\<rparr>;
            cursorY = CursorY u + 1;
            (cursorY, w) = (if ULONG cursorY > destY1 w then (cursorY - 1, w\<lparr>posY := ULONG (posY w + 1)\<rparr>) else (cursorY, w))
        in move_cursor x cursorY (u, w))"

definition Right :: "code_state \<Rightarrow> code_state option" where
  "Right s =
     (case s of (u, w) \<Rightarrow>
        let y = current_line s;
            cs = GetLine (contents w) y;
            w = w\<lparr>contents := cs\<rparr>;
            pos = cursor_pos s
        in
          if pos < 0 then Some (u, w)
          else if SIZE_T pos < int (length (cs ! y)) then
            (if ULONG (CursorX u) < ULONG (WndWidth u - 2)
             then map_option Finalize (move_cursor (CursorX u + 1) (-1) (u, w))
             else Some (Finalize (u, w\<lparr>posX := ULONG (posX w + 1)\<rparr>)))
          else if ULONG (GetCurrentLineId s + 1) \<ge> int (length cs) then Some (u, w)
          else map_option (\<lambda>s. Finalize (SyntaxColor y s)) (to_line_below 0 2 (u, w)))"

definition min_x :: "ui \<Rightarrow> int \<Rightarrow> int" where
  "min_x u textSize = LONG (if SIZE_T (textSize + 2) < SIZE_T (CursorX u) then textSize + 2 else CursorX u)"

definition Up :: "code_state \<Rightarrow> code_state option" where
  "Up s =
     (case s of (u, w) \<Rightarrow>
        if current_line s = 0 then Some s
        else
          (let y = current_line s - 1;
               cs = GetLine (contents w) y;
               textSize = int (length (cs ! y))
           in map_option Finalize (to_line_above textSize (min_x u textSize) (u, w\<lparr>contents := cs\<rparr>))))"

definition Down :: "code_state \<Rightarrow> code_state option" where
  "Down s =
     (case s of (u, w) \<Rightarrow>
        if ULONG (GetCurrentLineId s + 1) \<ge> int (length (contents w)) then Some s
        else
          (let y = nat (ULONG (GetCurrentLineId s + 1));
               cs = GetLine (contents w) y;
               textSize = int (length (cs ! y));
               (x, px) = scroll_x u textSize (min_x u textSize)
           in map_option Finalize (to_line_below px x (u, w\<lparr>contents := cs\<rparr>))))"

definition Home :: "code_state \<Rightarrow> code_state option" where
  "Home s = (case s of (u, w) \<Rightarrow> map_option Finalize (move_cursor 2 (-1) (u, w\<lparr>posX := 0\<rparr>)))"

definition End :: "code_state \<Rightarrow> code_state option" where
  "End s =
     (case s of (u, w) \<Rightarrow>
        let y = current_line s;
            cs = GetLine (contents w) y;
            textSize = int (length (cs ! y));
            (x, px) = scroll_x u textSize (LONG (textSize + 2))
        in map_option Finalize (move_cursor x (-1) (u, w\<lparr>contents := cs, posX := px\<rparr>)))"

text \<open>The remainder of a negative position has its sign, as in C.\<close>

definition Tab :: "code_state \<Rightarrow> code_state option" where
  "Tab s =
     (let pos = cursor_pos s;
          pos = 4 - (if pos < 0 then - ((- pos) mod 4) else pos mod 4)
      in if pos \<le> 0 \<or> pos > 4 then Some s else Add (replicate (nat pos) 0x20) s)"

definition PgUp :: "code_state \<Rightarrow> code_state option" where
  "PgUp s =
     (case s of (u, w) \<Rightarrow>
        let id = LONG (GetCurrentLineId s) in
          if id = 0 then Some s
          else
            (let winDim = LONG (ULONG (destY1 w - destY0 w + 1));
                 id = (if LONG (id - winDim) < 0 then 0 else LONG (id - winDim));
                 y = nat (ULONG id);
                 cs = GetLine (contents w) y;
                 textSize = int (length (cs ! y));
                 (x, px) = scroll_x u textSize (min_x u textSize);
                 w = w\<lparr>contents := cs, posX := px\<rparr>;
                 (cursorY, w) = (if posY w \<ge> ULONG winDim then (CursorY u, w\<lparr>posY := ULONG (posY w - winDim)\<rparr>)
                                 else (LONG (destY0 w + id), w\<lparr>posY := 0\<rparr>))
             in map_option Finalize (move_cursor x cursorY (u, w))))"

text \<open>The second half of \<open>PgDn\<close>, with the line to go to.\<close>

definition PgDn_to :: "int \<Rightarrow> int \<Rightarrow> code_state \<Rightarrow> code_state option" where
  "PgDn_to winDim line s =
     (case s of (u, w) \<Rightarrow>
        let y = nat (ULONG line);
            cs = GetLine (contents w) y;
            textSize = int (length (cs ! y));
            (x, px) = scroll_x u textSize (min_x u textSize);
            w = w\<lparr>contents := cs, posX := px\<rparr>;
            w = (if ULONG (posY w + winDim) < int (length cs) then w\<lparr>posY := ULONG (posY w + winDim)\<rparr> else w)
        in map_option Finalize (move_cursor x (LONG (destY0 w + (line - LONG (posY w)))) (u, w)))"

definition PgDn :: "code_state \<Rightarrow> code_state option" where
  "PgDn s =
     (case s of (u, w) \<Rightarrow>
        let id = LONG (GetCurrentLineId s);
            n = int (length (contents w))
        in
          if SIZE_T (LONG (id + 1)) \<ge> n then Some s
          else
            (let winDim = LONG (ULONG (destY1 w - destY0 w + 1))
             in PgDn_to winDim (if SIZE_T (LONG (id + winDim)) \<ge> n then LONG (n - 1) else LONG (id + winDim)) s))"

text \<open>The script that \<open>Eval\<close> hands to the engine: the lines without colours, each with a newline.\<close>

definition Eval_text :: "window \<Rightarrow> byte list" where
  "Eval_text w = concat (map (\<lambda>line. StrLen_out line @ [0x0A]) (contents w))"

end
