(* ===== verification/CodeWnd_Correct.thy ===== *)
theory CodeWnd_Correct
  imports CodeWnd
begin

text \<open>
  The script editor of \<open>CodeWnd\<close> implements a text editor: colouring never changes the text, and every
  key acts on the lines and the position of the cursor as on a plain list of lines, whatever the
  window shows of them.
\<close>

section \<open>Colouring keeps the text\<close>

lemma quotes: "c \<in> {0x27, 0x22, 0x60} \<Longrightarrow> \<not> IsHex c \<and> c \<noteq> 0x0A" "\<not> IsHex 0x2F"
  by (auto simp: IsHex_def)

lemma color_loop_strip:
  "tagged t \<Longrightarrow> tagged (fst (color_loop u t i strIndex slashCn ex)) \<and> strip (fst (color_loop u t i strIndex slashCn ex)) = strip t"
proof (induction u t i strIndex slashCn ex rule: color_loop.induct)
  case (1 u t i strIndex slashCn ex)
  show ?case
  proof (cases "i < length t")
    case False
    then show ?thesis using "1.prems" by (subst (1 2) color_loop.simps) simp
  next
    case i: True
    show ?thesis
    proof (cases "t ! i = 0x2F \<and> strIndex = None \<and> i > 0 \<and> t ! (i - 1) = 0x2F")
      case True
      then have "tagged (take (i - 1) t) \<and> tagged (drop (i - 1) t)"
        using tagged_split [OF "1.prems", of "i - 1"] i quotes(2) by simp
      from tagged_insert [OF this color_tags(1)] show ?thesis
        using i True by (subst (1 2) color_loop.simps) (simp add: insert_at_def)
    next
      case nocomment: False
      show ?thesis
      proof (cases "t ! i \<in> {0x27, 0x22, 0x60}")
        case False
        then show ?thesis using "1.IH"(4) [OF i nocomment False "1.prems"] i nocomment
          by (subst (1 2) color_loop.simps) (simp only: if_True if_False simp_thms)
      next
        case q: True
        have split: "tagged (take i t) \<and> tagged (drop i t)" "tagged (take (i + 1) t) \<and> tagged (drop (i + 1) t)"
          using tagged_split [OF "1.prems" i] tagged_split_Suc [OF "1.prems" i] quotes(1) [OF q] by auto
        note ins = tagged_insert [OF split(1) color_tags(2) [of "nrmClr u" "0x04"], folded insert_at_def]
          tagged_insert [OF split(2) color_tags(1) [of "nrmClr u"], folded insert_at_def]
        show ?thesis
        proof (cases strIndex)
          case None
          then show ?thesis using "1.IH"(1) [OF i nocomment q None conjunct1 [OF ins(1)]] ins(1) i nocomment q
            by (subst (1 2) color_loop.simps) auto
        next
          case (Some j)
          show ?thesis
          proof (cases "t ! j = t ! i \<and> slashCn mod 2 = 0")
            case True
            then show ?thesis using "1.IH"(2) [OF i nocomment q Some True conjunct1 [OF ins(2)]] ins(2) i q Some
              by (subst (1 2) color_loop.simps) simp
          next
            case False
            then show ?thesis using "1.IH"(3) [OF i nocomment q Some False "1.prems"] i q Some
              by (subst (1 2) color_loop.simps) (auto simp del: One_nat_def)
          qed
        qed
      qed
    qed
  qed
qed

definition keyword_like :: "byte list \<Rightarrow> bool" where
  "keyword_like k \<longleftrightarrow> k \<noteq> [] \<and> list_all (\<lambda>c. \<not> IsHex c \<and> c \<noteq> 0x0A) k"

lemma js_keywords_like: "list_all keyword_like js_keywords"
  by code_simp

lemma keyword_insert:
  assumes "tagged t" "keyword_like k" "p + length k \<le> length t" "take (length k) (drop p t) = k" "is_tag g" "is_tag g'"
  shows "tagged (insert_at p g (insert_at (p + length k) g' t)) \<and> strip (insert_at p g (insert_at (p + length k) g' t)) = strip t"
proof -
  have k: "k \<noteq> []" "\<And>i. i < length k \<Longrightarrow> \<not> IsHex (k ! i) \<and> k ! i \<noteq> 0x0A"
    using assms(2) by (auto simp: keyword_like_def list_all_length)
  have nth: "t ! (p + i) = k ! i" if "i < length k" for i
    using that assms(3,4) by (metis add_leD1 nth_drop nth_take)
  obtain m where m: "length k = Suc m" using k(1) by (cases k) auto
  define q where "q = p + m"
  have q: "q < length t" "q + 1 = p + length k" "t ! q = k ! m"
    using assms(3) nth [of m] m by (auto simp: q_def)
  have "tagged (take (q + 1) t) \<and> tagged (drop (q + 1) t)"
    using k q m by (intro tagged_split_Suc [OF assms(1)]) simp_all
  from tagged_insert [OF this assms(6)]
  have t1: "tagged (insert_at (p + length k) g' t)" "strip (insert_at (p + length k) g' t) = strip t"
    unfolding insert_at_def q(2) by blast+
  have "insert_at (p + length k) g' t ! p = k ! 0" "p < length (insert_at (p + length k) g' t)"
    using assms(3) m nth [of 0] by (auto simp: insert_at_def nth_append)
  then have "tagged (take p (insert_at (p + length k) g' t)) \<and> tagged (drop p (insert_at (p + length k) g' t))"
    using k by (intro tagged_split [OF t1(1)]) simp_all
  from tagged_insert [OF this assms(5)] show ?thesis by (simp add: insert_at_def [of p] t1(2))
qed

lemma keyword_loop_strip:
  assumes "keyword_like k"
  shows "tagged t \<Longrightarrow> tagged (keyword_loop u unc ex k t pos) \<and> strip (keyword_loop u unc ex k t pos) = strip t"
proof (induction "length t - pos" arbitrary: t pos rule: less_induct)
  case less
  have k: "k \<noteq> []" using assms by (simp add: keyword_like_def)
  show ?case
  proof (cases "find_from t k pos")
    case None
    then show ?thesis using less.prems by (subst (1 2) keyword_loop.simps) simp
  next
    case (Some p)
    have p: "pos \<le> p" "p + length k \<le> length t" "take (length k) (drop p t) = k"
      using find_from_bounds [OF Some] by auto
    let ?t = "insert_at p (0x0A # GetColorSpecial (nrmClr u) 0x03) (insert_at (p + length k) (0x0A # GetColor (nrmClr u)) t)"
    have ins: "tagged ?t \<and> strip ?t = strip t"
      by (rule keyword_insert [OF less.prems assms p(2,3) color_tags(2,1)])
    have len: "length ?t = length t + 6"
      using p(2) color_tags(2) [THEN length_tag] color_tags(1) [THEN length_tag] by (simp add: insert_at_def)
    have kl: "0 < length k" using k by simp
    have "length ?t - (p + 3 + 3 + length k) < length t - pos" "length t - (p + length k) < length t - pos"
      using p len kl by linarith+
    note ih = less.hyps [OF this(1) conjunct1 [OF ins]] less.hyps [OF this(2) less.prems]
    show ?thesis using ih ins k Some by (subst (1 2) keyword_loop.simps) (simp add: Let_def)
  qed
qed

lemma color_text_strip:
  assumes "plain t"
  shows "tagged (color_text u t) \<and> strip (color_text u t) = t"
proof -
  obtain t1 ex where t1: "color_loop u t 0 None 0 [] = (t1, ex)" by fastforce
  have t1': "tagged t1" "strip t1 = t" using color_loop_strip [of t u 0 None 0 "[]"] t1 plain_tagged [OF assms] by auto
  have "tagged (fold (\<lambda>k x. keyword_loop u t ex k x 0) ks x) \<and> strip (fold (\<lambda>k x. keyword_loop u t ex k x 0) ks x) = strip x"
    if "list_all keyword_like ks" "tagged x" for ks x
    using that by (induction ks arbitrary: x) (auto simp: keyword_loop_strip)
  from this [OF js_keywords_like t1'(1)] show ?thesis by (simp add: color_text_def t1 t1'(2))
qed


section \<open>Lines and their colours\<close>

text \<open>The document that the coloured lines stand for: a window with no line shows an empty one.\<close>

definition rep :: "byte list list \<Rightarrow> byte list list \<Rightarrow> bool" where
  "rep cs L \<longleftrightarrow> list_all tagged cs \<and> L = (if cs = [] then [[]] else map strip cs)"

lemma rep_plain: "rep cs L \<Longrightarrow> r < length L \<Longrightarrow> plain (L ! r)"
  by (auto simp: rep_def plain_def list_all_iff split: if_splits dest: strip_plain nth_mem)
    (metis in_set_conv_nth plain_def strip_plain)+

lemma rep_nonempty: "rep cs L \<Longrightarrow> L \<noteq> []"
  by (auto simp: rep_def)

lemma pad_lines_rep:
  assumes "rep cs L" "y < length L"
  shows "pad_lines cs y \<noteq> []" "list_all tagged (pad_lines cs y)" "map strip (pad_lines cs y) = L" "length (pad_lines cs y) = length L"
  using assms by (auto simp: rep_def pad_lines_def split: if_splits)

lemma GetLine_rep:
  assumes "rep cs L" "y < length L"
  shows "rep (GetLine cs y) L" "GetLine cs y ! y = L ! y" "length (GetLine cs y) = length L" "GetLine cs y \<noteq> []"
proof -
  note p = pad_lines_rep [OF assms]
  have y: "strip (pad_lines cs y ! y) = L ! y" using p(3,4) assms(2) by (metis nth_map)
  have pl: "tagged (L ! y)" "strip (L ! y) = L ! y" using plain_tagged [OF rep_plain [OF assms]] by auto
  have g: "GetLine cs y = (pad_lines cs y)[y := L ! y]" by (simp add: GetLine_def Let_def StrLen_strip y)
  have "map strip (GetLine cs y) = L" unfolding g map_update p(3) pl(2) by simp
  moreover have "list_all tagged (GetLine cs y)"
    unfolding g using p(2) pl(1) by (auto simp: list_all_iff dest!: set_update_subset_insert [THEN subsetD])
  moreover show ne: "GetLine cs y \<noteq> []" unfolding g using p(1) by simp
  ultimately show "rep (GetLine cs y) L" by (simp add: rep_def)
  show "GetLine cs y ! y = L ! y" "length (GetLine cs y) = length L" unfolding g using p(4) assms(2) by simp_all
qed

lemma rep_update:
  assumes "rep cs L" "cs \<noteq> []" "tagged t"
  shows "rep (cs[y := t]) (L[y := strip t])"
  using assms by (auto simp: rep_def map_update list_all_iff dest!: set_update_subset_insert [THEN subsetD])

lemma rep_update_plain:
  assumes "rep cs L" "cs \<noteq> []" "plain t"
  shows "rep (cs[y := t]) (L[y := t])"
  using rep_update [OF assms(1,2), of t] plain_tagged [OF assms(3)] by simp

definition join_line :: "nat \<Rightarrow> byte list list \<Rightarrow> byte list list" where
  "join_line y L = take y L @ [L ! y @ L ! Suc y] @ drop (Suc (Suc y)) L"

lemma GetLine_del_rep:
  assumes "rep cs L" "Suc y < length L"
  shows "\<exists>cs'. GetLine_del cs (Suc y) = (cs', L ! Suc y) \<and> cs' \<noteq> [] \<and> rep cs' (take (Suc y) L @ drop (Suc (Suc y)) L)"
proof -
  note p = pad_lines_rep [OF assms]
  let ?cs = "take (Suc y) (pad_lines cs (Suc y)) @ drop (Suc (Suc y)) (pad_lines cs (Suc y))"
  have "strip (pad_lines cs (Suc y) ! Suc y) = L ! Suc y" using p(3,4) assms(2) by (metis nth_map)
  then have "GetLine_del cs (Suc y) = (?cs, L ! Suc y)" by (simp add: GetLine_del_def Let_def StrLen_strip)
  moreover have "?cs \<noteq> []" using p(1) by auto
  moreover have "list_all tagged ?cs" using p(2) by (auto simp: list_all_iff dest: in_set_takeD in_set_dropD)
  moreover have "map strip ?cs = take (Suc y) L @ drop (Suc (Suc y)) L" using p(3) by (simp flip: take_map drop_map)
  ultimately show ?thesis by (simp add: rep_def)
qed

lemma SyntaxColor_rep:
  assumes "rep (contents w) L" "y < length L"
  shows "\<exists>cs. SyntaxColor y (u, w) = (u, w\<lparr>contents := cs\<rparr>) \<and> rep cs L"
proof -
  note g = GetLine_rep [OF assms]
  have "tagged (color_text u (L ! y)) \<and> strip (color_text u (L ! y)) = L ! y"
    by (rule color_text_strip [OF rep_plain [OF assms]])
  then have "rep ((GetLine (contents w) y)[y := color_text u (L ! y)]) L"
    using rep_update [OF g(1,4), of "color_text u (L ! y)" y] by simp
  then show ?thesis by (auto simp: SyntaxColor_def Let_def g(2))
qed


section \<open>The editor state\<close>

definition geometry :: "code_state \<Rightarrow> bool" where
  "geometry s \<longleftrightarrow>
     (case s of (u, w) \<Rightarrow>
        8 \<le> WndWidth u \<and> 1 \<le> WndHeight u \<and> WndWidth u * WndHeight u \<le> TextBuffersDim \<and>
        1 \<le> destY0 w \<and> destY0 w \<le> destY1 w \<and> destY1 w < WndHeight u \<and>
        2 \<le> CursorX u \<and> CursorX u \<le> WndWidth u - 2 \<and> destY0 w \<le> CursorY u \<and> CursorY u \<le> destY1 w \<and>
        0 \<le> posX w \<and> 0 \<le> posY w)"

text \<open>The window stands for the document \<open>L\<close> with the cursor in line \<open>r\<close> at column \<open>c\<close>.\<close>

definition editing :: "code_state \<Rightarrow> byte list list \<Rightarrow> nat \<Rightarrow> nat \<Rightarrow> bool" where
  "editing s L r c \<longleftrightarrow>
     geometry s \<and>
     (case s of (u, w) \<Rightarrow>
        rep (contents w) L \<and> int r = posY w + (CursorY u - destY0 w) \<and> int c = CursorX u - 2 + posX w) \<and>
     r < length L \<and> c \<le> length (L ! r)"

definition fits :: "byte list list \<Rightarrow> bool" where
  "fits L \<longleftrightarrow> length L + sum_list (map length L) < 2 ^ 30"

lemma fits_line: "fits L \<Longrightarrow> r < length L \<Longrightarrow> int (length (L ! r)) < 2 ^ 30 \<and> int r < 2 ^ 30 \<and> int (length L) < 2 ^ 30"
proof -
  assume "fits L" "r < length L"
  moreover have "length (L ! r) \<le> sum_list (map length L)" if "r < length L"
    by (rule member_le_sum_list) (use that in auto)
  ultimately show ?thesis by (auto simp: fits_def)
qed

lemma geometry_small:
  assumes "geometry (u, w)"
  shows "WndWidth u \<le> 16384" "WndHeight u \<le> 16384" "small (WndWidth u)" "small (WndWidth u - 2)" "small (WndWidth u - 4)"
    "small (CursorX u)" "small (CursorY u)" "small (destY0 w)" "small (destY1 w)" "small (CursorY u + 1)" "small (CursorX u + 1)"
proof -
  have area: "WndWidth u * WndHeight u \<le> 16384" using assms by (simp add: geometry_def TextBuffersDim_def)
  have "WndWidth u * 1 \<le> WndWidth u * WndHeight u" using assms by (intro mult_left_mono) (auto simp: geometry_def)
  from order_trans [OF this area] show w: "WndWidth u \<le> 16384" by simp
  have "1 * WndHeight u \<le> WndWidth u * WndHeight u" using assms by (intro mult_right_mono) (auto simp: geometry_def)
  from order_trans [OF this area] show h: "WndHeight u \<le> 16384" by simp
  show "small (WndWidth u)" "small (WndWidth u - 2)" "small (WndWidth u - 4)"
    "small (CursorX u)" "small (CursorY u)" "small (destY0 w)" "small (destY1 w)" "small (CursorY u + 1)" "small (CursorX u + 1)"
    using w h assms by (auto simp: small_def geometry_def)
qed

lemma move_cursor_ok:
  assumes "geometry (u, w)" "2 \<le> x" "x \<le> WndWidth u - 2" "y < 0 \<or> destY0 w \<le> y \<and> y \<le> destY1 w"
  shows "\<exists>u'. move_cursor x y (u, w) = Some (u', w) \<and> CursorX u' = x \<and> CursorY u' = (if y < 0 then CursorY u else y) \<and>
           WndWidth u' = WndWidth u \<and> WndHeight u' = WndHeight u"
proof -
  have "ULONG (CursorY u * WndWidth u + CursorX u) < TextBuffersDim" "ULONG (CursorY u * WndWidth u + x) < TextBuffersDim"
    "0 \<le> y \<Longrightarrow> ULONG (y * WndWidth u + x) < TextBuffersDim"
    using assms by (auto simp: geometry_def intro!: front_buffer_ok [where H = "WndHeight u"])
  then show ?thesis by (auto simp: move_cursor_def ChangeCursorX_def front_buffer_write_def Let_def)
qed


lemma editing_facts:
  assumes "editing (u, w) L r c" "fits L"
  shows "GetCurrentLineId (u, w) = int r" "current_line (u, w) = r" "cursor_pos (u, w) = int c"
    "small (int r)" "small (int c)" "small (int r + 1)" "small (posX w)" "small (posY w)" "SIZE_T (int c) = int c"
proof -
  have geo: "geometry (u, w)" and rc: "int r = posY w + (CursorY u - destY0 w)" "int c = CursorX u - 2 + posX w"
    "r < length L" "c \<le> length (L ! r)" using assms(1) by (auto simp: editing_def)
  have "int c \<le> int (length (L ! r))" using rc(4) by simp
  then have sm: "small (int r)" "small (int c)" "small (int r + 1)" using fits_line [OF assms(2) rc(3)] by (auto simp: small_def)
  then show "small (int r)" "small (int c)" "small (int r + 1)" .
  have "small (CursorY u - destY0 w)" using geometry_small [OF geo] geo by (auto simp: small_def geometry_def)
  then show id: "GetCurrentLineId (u, w) = int r"
    using sm(1) by (simp add: GetCurrentLineId_def conversions flip: rc(1))
  then show "current_line (u, w) = r" by (simp add: current_line_def)
  show "cursor_pos (u, w) = int c" using sm(2) by (simp add: cursor_pos_def conversions flip: rc(2))
  show "small (posX w)" "small (posY w)" using sm rc geo by (auto simp: small_def geometry_def)
  show "SIZE_T (int c) = int c" by (rule conversions(3) [OF sm(2)])
qed

lemma editing_rep: "editing (u, w) L r c \<Longrightarrow> rep (contents w) L \<and> r < length L \<and> c \<le> length (L ! r) \<and> geometry (u, w)"
  by (auto simp: editing_def)

lemma editing_contents:
  "editing (u, w) L r c \<Longrightarrow> rep cs L \<Longrightarrow> editing (u, w\<lparr>contents := cs\<rparr>) L r c"
  by (auto simp: editing_def geometry_def)

lemma editing_SyntaxColor:
  assumes "editing (u, w) L r c" "y < length L"
  shows "editing (SyntaxColor y (u, w)) L r c"
proof -
  obtain cs where "SyntaxColor y (u, w) = (u, w\<lparr>contents := cs\<rparr>)" "rep cs L"
    using SyntaxColor_rep [of w L y u] editing_rep [OF assms(1)] assms(2) by auto
  then show ?thesis using editing_contents [OF assms(1)] by simp
qed

lemma editing_Finalize:
  assumes "editing s L r c" "fits L"
  shows "editing (Finalize s) L r c"
proof (cases s)
  case (Pair u w)
  then show ?thesis
    using editing_SyntaxColor [of u w L r c r] editing_facts(2) [of u w L r c] editing_rep [of u w L r c] assms
    by (simp add: Finalize_def)
qed

text \<open>Moving the cursor inside the window, with the document already changed.\<close>

lemma editing_move:
  assumes "geometry (u, w)" "rep (contents w) L" "2 \<le> x" "x \<le> WndWidth u - 2" "y < 0 \<or> destY0 w \<le> y \<and> y \<le> destY1 w"
    "int r = posY w + ((if y < 0 then CursorY u else y) - destY0 w)" "int c = x - 2 + posX w" "r < length L" "c \<le> length (L ! r)"
  shows "\<exists>u'. move_cursor x y (u, w) = Some (u', w) \<and> editing (u', w) L r c"
  using move_cursor_ok [OF assms(1,3,4,5)] assms by (fastforce simp: editing_def geometry_def)

lemma editing_move_Finalize:
  assumes "geometry (u, w)" "rep (contents w) L" "2 \<le> x" "x \<le> WndWidth u - 2" "y < 0 \<or> destY0 w \<le> y \<and> y \<le> destY1 w"
    "int r = posY w + ((if y < 0 then CursorY u else y) - destY0 w)" "int c = x - 2 + posX w" "r < length L" "c \<le> length (L ! r)"
    "fits L"
  shows "\<exists>s'. map_option Finalize (move_cursor x y (u, w)) = Some s' \<and> editing s' L r c"
  using editing_move [OF assms(1-9)] editing_Finalize assms(10) by fastforce

lemma geometry_scroll:
  "geometry (u, w) \<Longrightarrow> 0 \<le> px \<Longrightarrow> 0 \<le> py \<Longrightarrow> geometry (u, w\<lparr>contents := cs, posX := px, posY := py\<rparr>)"
  "geometry (u, w) \<Longrightarrow> 0 \<le> px \<Longrightarrow> geometry (u, w\<lparr>posX := px\<rparr>)"
  "geometry (u, w) \<Longrightarrow> geometry (u, w\<lparr>contents := cs\<rparr>)"
  "geometry (u, w) \<Longrightarrow> 0 \<le> py \<Longrightarrow> geometry (u, w\<lparr>posY := py\<rparr>)"
  by (auto simp: geometry_def)


lemma scroll_end:
  assumes "geometry (u, w)" "0 \<le> ts" "ts < 2 ^ 30"
  shows "\<exists>x px. scroll_x u ts (LONG (ts + 2)) = (x, px) \<and> 2 \<le> x \<and> x \<le> WndWidth u - 2 \<and> 0 \<le> px \<and> x - 2 + px = ts"
proof -
  note gs = geometry_small [OF assms(1)]
  have sm: "small (ts + 2)" using assms by (auto simp: small_def)
  show ?thesis
  proof (cases "ts + 2 > WndWidth u - 2")
    case True
    then have "small (ts - (WndWidth u - 4))" using assms gs by (auto simp: small_def)
    then show ?thesis using True sm gs assms(1,2) by (auto simp: scroll_x_def conversions geometry_def)
  next
    case False
    then show ?thesis using sm gs assms(2) by (auto simp: scroll_x_def conversions)
  qed
qed

lemma scroll_min:
  assumes "geometry (u, w)" "0 \<le> ts" "ts < 2 ^ 30"
  shows "scroll_x u ts (min_x u ts) = (min (ts + 2) (CursorX u), 0)"
proof -
  note gs = geometry_small [OF assms(1)]
  have sm: "small (ts + 2)" using assms by (auto simp: small_def)
  have "min_x u ts = min (ts + 2) (CursorX u)" using sm gs by (simp add: min_x_def conversions min_def)
  moreover have "small (min (ts + 2) (CursorX u))" using sm gs by (auto simp: min_def)
  moreover have "min (ts + 2) (CursorX u) \<le> WndWidth u - 2" using assms(1) by (auto simp: geometry_def)
  ultimately show ?thesis using gs by (auto simp: scroll_x_def conversions)
qed

lemma to_line_below_ok:
  assumes "geometry (u, w)" "rep (contents w) L" "int r = posY w + (CursorY u - destY0 w)" "Suc r < length L"
    "2 \<le> x" "x \<le> WndWidth u - 2" "0 \<le> px" "int c = x - 2 + px" "c \<le> length (L ! Suc r)" "small (int r + 1)"
  shows "\<exists>s'. to_line_below px x (u, w) = Some s' \<and> editing s' L (Suc r) c"
proof -
  note gs = geometry_small [OF assms(1)]
  let ?w = "w\<lparr>posX := px\<rparr>"
  show ?thesis
  proof (cases "CursorY u + 1 > destY1 w")
    case True
    have "small (posY w + 1)" using assms(1,3,10) by (auto simp: small_def geometry_def)
    then have eq: "to_line_below px x (u, w) = move_cursor x (CursorY u) (u, ?w\<lparr>posY := posY w + 1\<rparr>)"
      using True gs by (simp add: to_line_below_def Let_def conversions)
    have "\<exists>u'. move_cursor x (CursorY u) (u, ?w\<lparr>posY := posY w + 1\<rparr>) = Some (u', ?w\<lparr>posY := posY w + 1\<rparr>) \<and>
        editing (u', ?w\<lparr>posY := posY w + 1\<rparr>) L (Suc r) c"
      by (rule editing_move) (use assms True in \<open>auto simp: geometry_def\<close>)
    then show ?thesis unfolding eq by blast
  next
    case False
    then have eq: "to_line_below px x (u, w) = move_cursor x (CursorY u + 1) (u, ?w)"
      using gs by (simp add: to_line_below_def Let_def conversions)
    have "\<exists>u'. move_cursor x (CursorY u + 1) (u, ?w) = Some (u', ?w) \<and> editing (u', ?w) L (Suc r) c"
      by (rule editing_move) (use assms False in \<open>auto simp: geometry_def\<close>)
    then show ?thesis unfolding eq by blast
  qed
qed

lemma to_line_above_ok:
  assumes "geometry (u, w)" "rep (contents w) L" "int (Suc r) = posY w + (CursorY u - destY0 w)" "r < length L"
    "scroll_x u ts x0 = (x, px)" "2 \<le> x" "x \<le> WndWidth u - 2" "0 \<le> px" "int c = x - 2 + px" "c \<le> length (L ! r)" "small (int r + 1)"
  shows "\<exists>s'. to_line_above ts x0 (u, w) = Some s' \<and> editing s' L r c"
proof -
  note gs = geometry_small [OF assms(1)]
  let ?w = "w\<lparr>posX := px\<rparr>"
  have sm: "small (CursorY u - 1)" using gs assms(1) by (auto simp: small_def geometry_def)
  show ?thesis
  proof (cases "CursorY u - 1 < destY0 w")
    case True
    then have cy: "CursorY u = destY0 w" using assms(1) by (auto simp: geometry_def)
    then have "small (posY w - 1)" using assms(3,11) by (auto simp: small_def)
    then have eq: "to_line_above ts x0 (u, w) = move_cursor x (CursorY u) (u, ?w\<lparr>posY := posY w - 1\<rparr>)"
      using True sm by (simp add: to_line_above_def Let_def conversions assms(5))
    have "\<exists>u'. move_cursor x (CursorY u) (u, ?w\<lparr>posY := posY w - 1\<rparr>) = Some (u', ?w\<lparr>posY := posY w - 1\<rparr>) \<and>
        editing (u', ?w\<lparr>posY := posY w - 1\<rparr>) L r c"
      by (rule editing_move) (use assms cy in \<open>auto simp: geometry_def\<close>)
    then show ?thesis unfolding eq by blast
  next
    case False
    then have eq: "to_line_above ts x0 (u, w) = move_cursor x (CursorY u - 1) (u, ?w)"
      using sm by (simp add: to_line_above_def Let_def conversions assms(5))
    have "\<exists>u'. move_cursor x (CursorY u - 1) (u, ?w) = Some (u', ?w) \<and> editing (u', ?w) L r c"
      by (rule editing_move) (use assms False in \<open>auto simp: geometry_def\<close>)
    then show ?thesis unfolding eq by blast
  qed
qed

section \<open>Editing\<close>

type_synonym editor = "byte list list \<times> nat \<times> nat"

definition ed_insert :: "byte list \<Rightarrow> editor \<Rightarrow> editor" where
  "ed_insert str e = (case e of (L, r, c) \<Rightarrow> (L[r := take c (L ! r) @ str @ drop c (L ! r)], r, c + length str))"

definition edited :: "code_state option \<Rightarrow> editor \<Rightarrow> bool" where
  "edited res e \<longleftrightarrow> (\<exists>s. res = Some s \<and> editing s (fst e) (fst (snd e)) (snd (snd e)))"

lemma edited_Some: "edited (Some s) (L, r, c) \<longleftrightarrow> editing s L r c"
  by (simp add: edited_def)

lemma editedI: "\<exists>s'. res = Some s' \<and> editing s' L r c \<Longrightarrow> edited res (L, r, c)"
  by (simp add: edited_def)

lemma edited_Finalize:
  "fits L \<Longrightarrow> \<exists>s'. res = Some s' \<and> editing s' L r c \<Longrightarrow> edited (map_option Finalize res) (L, r, c)"
  using editing_Finalize by (auto simp: edited_Some)

lemma fits_update:
  assumes "fits L" "r < length L" "length t \<le> length (L ! r) + n" "length L + sum_list (map length L) + n < 2 ^ 30"
  shows "fits (L[r := t])"
proof -
  have "sum_list (map length L) = sum_list (map length (take r L)) + (length (L ! r) + sum_list (map length (drop (Suc r) L)))"
    using assms(2) by (metis id_take_nth_drop list.simps(9) map_append sum_list.Cons sum_list.append)
  moreover have "sum_list (map length (L[r := t])) = sum_list (map length (take r L)) + (length t + sum_list (map length (drop (Suc r) L)))"
    using assms(2) by (simp add: upd_conv_take_nth_drop)
  ultimately show ?thesis using assms(3,4) by (simp add: fits_def)
qed

lemma Add_ok:
  assumes "editing s L r c" "length L + sum_list (map length L) + length str < 2 ^ 30" "plain str" "length str \<le> 4"
  shows "edited (Add str s) (ed_insert str (L, r, c))"
proof (cases s)
  case (Pair u w)
  have fits: "fits L" using assms(2) by (simp add: fits_def)
  note ed = assms(1) [unfolded Pair]
  note f = editing_facts [OF ed fits] and e = editing_rep [OF ed]
  note g = GetLine_rep [OF conjunct1 [OF e], of r]
  define t where "t = take c (L ! r) @ str @ drop c (L ! r)"
  have t: "insert_at c str (L ! r) = t" by (simp add: insert_at_def t_def)
  have "plain t" using rep_plain [of "contents w" L r] e assms(3)
    by (auto simp: t_def plain_def dest: in_set_takeD in_set_dropD)
  then have rep: "rep ((GetLine (contents w) r)[r := t]) (L[r := t])" using rep_update_plain g e by blast
  have fits': "fits (L[r := t])" by (rule fits_update [OF fits _ _ assms(2)]) (use e in \<open>auto simp: t_def\<close>)
  have geo: "geometry (u, w)" using e by blast
  note gs = geometry_small [OF geo]
  let ?n = "int (length str)" and ?w = "w\<lparr>contents := (GetLine (contents w) r)[r := t]\<rparr>"
  have n: "?n \<le> 4" using assms(4) by simp
  have cond: "SIZE_T (CursorX u) < SIZE_T (ULONG (WndWidth u - 1) - ?n) \<longleftrightarrow> CursorX u < WndWidth u - 1 - ?n"
    using gs n geo by (subst (1 2) conversions) (auto simp: small_def geometry_def conversions)
  have c: "int c = CursorX u - 2 + posX w" "int r = posY w + (CursorY u - destY0 w)" using ed by (auto simp: editing_def)
  have add: "Add str s =
      (if CursorX u < WndWidth u - 1 - ?n
       then map_option Finalize (move_cursor (LONG (CursorX u + ?n)) (-1) (u, ?w))
       else Some (Finalize (u, ?w\<lparr>posX := ULONG (posX w + ?n)\<rparr>)))"
    using e g by (simp add: Add_def Pair Let_def f cond t)
  show ?thesis
  proof (cases "CursorX u < WndWidth u - 1 - ?n")
    case True
    then have "LONG (CursorX u + ?n) = CursorX u + ?n" using gs geo by (intro conversions) (auto simp: small_def geometry_def)
    moreover have "\<exists>s'. map_option Finalize (move_cursor (CursorX u + ?n) (-1) (u, ?w)) = Some s' \<and> editing s' (L[r := t]) r (c + length str)"
      by (rule editing_move_Finalize) (use True geo c e rep fits' n in \<open>auto simp: geometry_def t_def\<close>)
    ultimately show ?thesis using True by (simp add: add edited_def ed_insert_def flip: t_def)
  next
    case False
    have "small (posX w + ?n)" using f(7) f(5) c n geo fits_line [OF fits, of r] e by (auto simp: small_def geometry_def)
    then have "ULONG (posX w + ?n) = posX w + ?n" by (rule conversions)
    moreover have "editing (u, ?w\<lparr>posX := posX w + ?n\<rparr>) (L[r := t]) r (c + length str)"
      using geo c e rep by (auto simp: editing_def geometry_def t_def)
    ultimately show ?thesis using False editing_Finalize [OF _ fits'] by (simp add: add edited_def ed_insert_def flip: t_def)
  qed
qed


definition ed_enter :: "editor \<Rightarrow> editor" where
  "ed_enter e = (case e of (L, r, c) \<Rightarrow> (take r L @ [take c (L ! r), drop c (L ! r)] @ drop (Suc r) L, Suc r, 0))"

lemma GetLine_add_rep:
  assumes "rep cs L" "y < length L"
  shows "rep (GetLine_add cs y) (take (Suc y) L @ [[]] @ drop (Suc y) L)" "GetLine_add cs y \<noteq> []"
proof -
  note p = pad_lines_rep [OF assms]
  let ?cs = "take (Suc y) (pad_lines cs y) @ [[]] @ drop (Suc y) (pad_lines cs y)"
  have "?cs ! Suc y = []" using p(4) assms(2) by (simp add: nth_append)
  moreover from this have "?cs[Suc y := []] = ?cs" by (metis list_update_id)
  ultimately have g: "GetLine_add cs y = ?cs" unfolding GetLine_add_def Let_def StrLen_strip by (simp only: strip.simps)
  have "list_all tagged ?cs" using p(2) by (auto simp: list_all_iff dest: in_set_takeD in_set_dropD)
  moreover have "map strip ?cs = take (Suc y) L @ [[]] @ drop (Suc y) L" using p(3) by (simp flip: take_map drop_map)
  ultimately show "rep (GetLine_add cs y) (take (Suc y) L @ [[]] @ drop (Suc y) L)" unfolding g by (simp add: rep_def)
  show "GetLine_add cs y \<noteq> []" unfolding g by simp
qed

lemma Enter_ok:
  assumes "editing s L r c" "length L + sum_list (map length L) + 1 < 2 ^ 30"
  shows "edited (Enter s) (ed_enter (L, r, c))"
proof (cases s)
  case (Pair u w)
  have fits: "fits L" using assms(2) by (simp add: fits_def)
  note ed = assms(1) [unfolded Pair]
  note f = editing_facts [OF ed fits] and e = editing_rep [OF ed]
  note g = GetLine_rep [OF conjunct1 [OF e], of r]
  define L' where "L' = take r L @ [take c (L ! r), drop c (L ! r)] @ drop (Suc r) L"
  have pl: "plain (take c (L ! r))" "plain (drop c (L ! r))"
    using rep_plain [of "contents w" L r] e by (auto simp: plain_def dest: in_set_takeD in_set_dropD)
  define cs1 where "cs1 = (GetLine (contents w) r)[r := take c (L ! r)]"
  have r1: "rep cs1 (L[r := take c (L ! r)])" unfolding cs1_def using rep_update_plain g e pl(1) by blast
  note a = GetLine_add_rep [OF r1, of r]
  define cs2 where "cs2 = (GetLine_add cs1 r)[Suc r := drop c (L ! r)]"
  have "rep cs2 ((take (Suc r) (L[r := take c (L ! r)]) @ [[]] @ drop (Suc r) (L[r := take c (L ! r)]))[Suc r := drop c (L ! r)])"
    unfolding cs2_def using rep_update_plain [OF a(1) a(2) pl(2)] e by simp
  also have "(take (Suc r) (L[r := take c (L ! r)]) @ [[]] @ drop (Suc r) (L[r := take c (L ! r)]))[Suc r := drop c (L ! r)] = L'"
    using e by (simp add: L'_def list_update_append take_Suc_conv_app_nth take_update_cancel)
  finally have rep: "rep cs2 L'" .
  have len: "length L' = length L + 1" using e by (auto simp: L'_def)
  have "sum_list (map length L) = sum_list (map length (take r L @ L ! r # drop (Suc r) L))"
    using e by (simp flip: id_take_nth_drop)
  then have sum: "sum_list (map length L') = sum_list (map length L)" using e by (simp add: L'_def)
  have fits': "fits L'" using assms(2) len sum by (simp add: fits_def)
  have geo: "geometry (u, w)" using e by blast
  let ?w = "w\<lparr>contents := cs2, posX := 0\<rparr>"
  have c: "int c = CursorX u - 2 + posX w" "int r = posY w + (CursorY u - destY0 w)" using ed by (auto simp: editing_def)
  have ent: "Enter s = map_option (\<lambda>s. Finalize (SyntaxColor (nat (ULONG (GetCurrentLineId s - 1))) s)) (to_line_below 0 2 (u, ?w))"
    using e g by (simp add: Enter_def Pair Let_def f to_line_below_def cs2_def cs1_def)
  have "L' ! Suc r = drop c (L ! r)" using e by (simp add: L'_def nth_append)
  then have "\<exists>s'. to_line_below 0 2 (u, ?w) = Some s' \<and> editing s' L' (Suc r) 0"
    by (intro to_line_below_ok) (use geo c e rep len f in \<open>auto simp: geometry_def\<close>)
  then obtain u' w' where s': "to_line_below 0 2 (u, ?w) = Some (u', w')" "editing (u', w') L' (Suc r) 0" by auto
  have "GetCurrentLineId (u', w') - 1 = int r" using editing_facts(1) [OF s'(2) fits'] by simp
  then have "nat (ULONG (GetCurrentLineId (u', w') - 1)) = r" using f(4) by (simp add: conversions)
  then have "Enter s = Some (Finalize (SyntaxColor r (u', w')))" using s'(1) by (simp add: ent)
  moreover have "editing (Finalize (SyntaxColor r (u', w'))) L' (Suc r) 0"
    using editing_Finalize [OF _ fits'] editing_SyntaxColor [OF s'(2), of r] e len by simp
  ultimately show ?thesis by (simp add: edited_def ed_enter_def L'_def)
qed


definition ed_backspace :: "editor \<Rightarrow> editor" where
  "ed_backspace e =
     (case e of (L, r, c) \<Rightarrow>
        if c > 0 then (L[r := take (c - 1) (L ! r) @ drop c (L ! r)], r, c - 1)
        else if r = 0 then e
        else (join_line (r - 1) L, r - 1, length (L ! (r - 1))))"

lemma join_line_sum: "Suc y < length L \<Longrightarrow> sum_list (map length (join_line y L)) = sum_list (map length L)"
proof -
  assume "Suc y < length L"
  then have L: "L = take y L @ L ! y # L ! Suc y # drop (Suc (Suc y)) L"
    by (metis Cons_nth_drop_Suc Suc_lessD append_take_drop_id)
  show ?thesis by (subst (2) L) (simp add: join_line_def)
qed

lemma fits_join:
  assumes "fits L" "Suc y < length L"
  shows "fits (join_line y L)" "length (join_line y L) + 1 = length L"
    "take y L @ [L ! y] @ drop (Suc (Suc y)) L = take (Suc y) L @ drop (Suc (Suc y)) L"
    "(take (Suc y) L @ drop (Suc (Suc y)) L)[y := L ! y @ L ! Suc y] = join_line y L"
    "y < length (take (Suc y) L @ drop (Suc (Suc y)) L)"
    "(take (Suc y) L @ drop (Suc (Suc y)) L) ! y = L ! y" "join_line y L ! y = L ! y @ L ! Suc y"
proof -
  show len: "length (join_line y L) + 1 = length L" using assms(2) by (simp add: join_line_def)
  then show "fits (join_line y L)" using assms join_line_sum by (simp add: fits_def)
  show t: "take y L @ [L ! y] @ drop (Suc (Suc y)) L = take (Suc y) L @ drop (Suc (Suc y)) L"
    using assms(2) by (simp add: take_Suc_conv_app_nth)
  show "(take (Suc y) L @ drop (Suc (Suc y)) L)[y := L ! y @ L ! Suc y] = join_line y L"
    unfolding t [symmetric] using assms(2) by (simp add: join_line_def list_update_append)
  show "y < length (take (Suc y) L @ drop (Suc (Suc y)) L)" using assms(2) by simp
  show "(take (Suc y) L @ drop (Suc (Suc y)) L) ! y = L ! y" "join_line y L ! y = L ! y @ L ! Suc y"
    using assms(2) by (simp_all add: nth_append join_line_def)
qed

text \<open>The state after the text of the current line changed and the cursor moved one column to the left.\<close>

lemma editing_left:
  assumes "geometry (u, w)" "rep (contents w) L" "int r = posY w + (CursorY u - destY0 w)" "int (Suc c) = CursorX u - 2 + posX w"
    "r < length L" "c \<le> length (L ! r)" "fits L"
  shows "edited (if CursorX u > 2 then map_option Finalize (move_cursor (CursorX u - 1) (-1) (u, w))
                 else if posX w > 0 then Some (Finalize (u, w\<lparr>posX := posX w - 1\<rparr>)) else x) (L, r, c)"
proof (cases "CursorX u > 2")
  case True
  have "\<exists>s'. map_option Finalize (move_cursor (CursorX u - 1) (-1) (u, w)) = Some s' \<and> editing s' L r c"
    by (rule editing_move_Finalize) (use True assms in \<open>auto simp: geometry_def\<close>)
  then show ?thesis using True by (simp add: edited_def)
next
  case False
  then have "CursorX u = 2" "posX w > 0" using assms(1,4) by (auto simp: geometry_def)
  moreover have "editing (u, w\<lparr>posX := posX w - 1\<rparr>) L r c"
    using calculation assms by (auto simp: editing_def geometry_def)
  ultimately show ?thesis using editing_Finalize assms(7) by (auto simp: edited_def)
qed

lemma BackSpace_ok:
  assumes "editing s L r c" "fits L"
  shows "edited (BackSpace s) (ed_backspace (L, r, c))"
proof (cases s)
  case (Pair u w)
  note ed = assms(1) [unfolded Pair]
  note f = editing_facts [OF ed assms(2)] and e = editing_rep [OF ed]
  have geo: "geometry (u, w)" using e by blast
  note gs = geometry_small [OF geo]
  have c: "int c = CursorX u - 2 + posX w" "int r = posY w + (CursorY u - destY0 w)" using ed by (auto simp: editing_def)
  have pos: "LONG (CursorX u - 2 + posX w - 1) = int c - 1" using f(5) c(1) by (subst LONG_small) (auto simp: small_def)
  show ?thesis
  proof (cases c)
    case (Suc d)
    note g = GetLine_rep [OF conjunct1 [OF e], of r]
    define t where "t = take d (L ! r) @ drop c (L ! r)"
    have "plain t" using rep_plain [of "contents w" L r] e by (auto simp: t_def plain_def dest: in_set_takeD in_set_dropD)
    then have rep: "rep ((GetLine (contents w) r)[r := t]) (L[r := t])" using rep_update_plain g e by blast
    have fits': "fits (L[r := t])"
      by (rule fits_update [OF assms(2), of _ _ 0]) (use e assms(2) Suc in \<open>auto simp: t_def fits_def\<close>)
    have "small (int d)" using f(5) Suc by (auto simp: small_def)
    then have sz: "SIZE_T (int d) = int d" by (rule conversions)
    let ?w = "w\<lparr>contents := (GetLine (contents w) r)[r := t]\<rparr>"
    have "BackSpace s = (if CursorX u > 2 then map_option Finalize (move_cursor (CursorX u - 1) (-1) (u, ?w))
                 else if posX ?w > 0 then Some (Finalize (u, ?w\<lparr>posX := posX ?w - 1\<rparr>)) else Some (Finalize (u, ?w)))"
      using e g Suc pos sz by (auto simp: BackSpace_def Pair Let_def f erase_at_def t_def)
    moreover have "edited (if CursorX u > 2 then map_option Finalize (move_cursor (CursorX u - 1) (-1) (u, ?w))
                 else if posX ?w > 0 then Some (Finalize (u, ?w\<lparr>posX := posX ?w - 1\<rparr>)) else Some (Finalize (u, ?w))) (L[r := t], r, d)"
      by (rule editing_left) (use geo e c rep fits' Suc in \<open>auto simp: geometry_def t_def\<close>)
    ultimately show ?thesis using Suc by (simp add: ed_backspace_def t_def)
  next
    case 0
    show ?thesis
    proof (cases r)
      case 0
      then show ?thesis using \<open>c = 0\<close> pos ed by (simp add: BackSpace_def Pair Let_def f ed_backspace_def edited_def)
    next
      case (Suc y)
      then have y: "Suc y < length L" using e by simp
      obtain cs where cs: "GetLine_del (contents w) (Suc y) = (cs, L ! Suc y)" "cs \<noteq> []"
        "rep cs (take (Suc y) L @ drop (Suc (Suc y)) L)" using GetLine_del_rep [OF conjunct1 [OF e] y] by blast
      note j = fits_join [OF assms(2) y]
      note g = GetLine_rep [OF cs(3) j(5)]
      have pl: "plain (L ! y @ L ! Suc y)"
        using rep_plain [OF conjunct1 [OF e], of y] rep_plain [OF conjunct1 [OF e], of "Suc y"] y by (auto simp: plain_def)
      define cs1 where "cs1 = (GetLine cs y)[y := L ! y @ L ! Suc y]"
      have rep: "rep cs1 (join_line y L)" unfolding cs1_def j(4) [symmetric] by (rule rep_update_plain [OF g(1,4) pl])
      define ts where "ts = int (length (L ! y))"
      have ts: "0 \<le> ts" "ts < 2 ^ 30" using fits_line [OF assms(2), of y] y by (auto simp: ts_def)
      obtain x px where sc: "scroll_x u ts (LONG (ts + 2)) = (x, px)" "2 \<le> x" "x \<le> WndWidth u - 2" "0 \<le> px" "x - 2 + px = ts"
        using scroll_end [OF geo ts] by blast
      have "BackSpace s = map_option Finalize (to_line_above ts (LONG (ts + 2)) (u, w\<lparr>contents := cs1\<rparr>))"
        using \<open>c = 0\<close> pos cs g j(6) Suc by (simp add: BackSpace_def Pair Let_def f cs1_def ts_def)
      moreover have smy: "small (int y + 1)" using f(4) Suc by (simp add: add.commute)
      moreover have "\<exists>s'. to_line_above ts (LONG (ts + 2)) (u, w\<lparr>contents := cs1\<rparr>) = Some s' \<and> editing s' (join_line y L) y (length (L ! y))"
        by (rule to_line_above_ok [OF _ _ _ _ sc(1)])
          (use geo rep c sc j y Suc smy in \<open>auto simp: geometry_def ts_def\<close>)
      ultimately show ?thesis using Suc \<open>c = 0\<close> edited_Finalize [OF j(1)] by (simp only: ed_backspace_def) simp
    qed
  qed
qed


definition ed_delete :: "editor \<Rightarrow> editor" where
  "ed_delete e =
     (case e of (L, r, c) \<Rightarrow>
        if c < length (L ! r) then (L[r := take c (L ! r) @ drop (Suc c) (L ! r)], r, c)
        else if Suc r < length L then (join_line r L, r, c)
        else e)"

lemma Del_ok:
  assumes "editing s L r c" "fits L"
  shows "edited (Del s) (ed_delete (L, r, c))"
proof (cases s)
  case (Pair u w)
  note ed = assms(1) [unfolded Pair]
  note f = editing_facts [OF ed assms(2)] and e = editing_rep [OF ed]
  note g = GetLine_rep [OF conjunct1 [OF e], of r]
  show ?thesis
  proof (cases "c < length (L ! r)")
    case True
    define t where "t = take c (L ! r) @ drop (Suc c) (L ! r)"
    have "plain t" using rep_plain [of "contents w" L r] e by (auto simp: t_def plain_def dest: in_set_takeD in_set_dropD)
    then have rep: "rep ((GetLine (contents w) r)[r := t]) (L[r := t])" using rep_update_plain g e by blast
    have fits': "fits (L[r := t])"
      by (rule fits_update [OF assms(2), of _ _ 0]) (use e assms(2) in \<open>auto simp: t_def fits_def\<close>)
    let ?w = "w\<lparr>contents := (GetLine (contents w) r)[r := t]\<rparr>"
    have "Del s = Some (Finalize (u, ?w))"
      using e g True by (simp add: Del_def Pair Let_def f erase_at_def t_def)
    moreover have "editing (u, ?w) (L[r := t]) r c"
      using ed rep e True by (auto simp: editing_def geometry_def t_def)
    ultimately show ?thesis using True editing_Finalize [OF _ fits'] by (auto simp: edited_def ed_delete_def simp flip: t_def)
  next
    case False
    then have c: "c = length (L ! r)" using e by simp
    have id: "nat (ULONG (int r + 1)) = Suc r" using f(6) by (simp add: conversions)
    have sz: "SIZE_T (int (length (L ! r))) = int (length (L ! r))" using f(9) by (simp add: c)
    let ?cs = "GetLine (contents w) r"
    show ?thesis
    proof (cases "Suc r < length L")
      case True
      obtain cs where cs: "GetLine_del ?cs (Suc r) = (cs, L ! Suc r)" "cs \<noteq> []"
        "rep cs (take (Suc r) L @ drop (Suc (Suc r)) L)" using GetLine_del_rep [of ?cs L r] g(1) e True by blast
      note j = fits_join [OF assms(2) True]
      have pl: "plain (L ! r @ L ! Suc r)"
        using rep_plain [OF conjunct1 [OF e], of r] rep_plain [OF conjunct1 [OF e], of "Suc r"] True e by (auto simp: plain_def)
      have csr: "cs ! r = L ! r"
        using cs(1) g(2) e by (auto simp: GetLine_del_def Let_def nth_append pad_lines_def g(3))
      have rep: "rep (cs[r := L ! r @ L ! Suc r]) (join_line r L)"
        unfolding j(4) [symmetric] by (rule rep_update_plain [OF cs(3,2) pl])
      have "Del s = Some (Finalize (u, w\<lparr>contents := cs[r := L ! r @ L ! Suc r]\<rparr>))"
        using e g True cs csr False by (simp add: Del_def Pair Let_def f id sz)
      moreover have "editing (u, w\<lparr>contents := cs[r := L ! r @ L ! Suc r]\<rparr>) (join_line r L) r c"
        using ed rep e True j c by (auto simp: editing_def geometry_def)
      ultimately show ?thesis using True False editing_Finalize [OF _ j(1)] by (auto simp: edited_def ed_delete_def)
    next
      case nolast: False
      have "Del s = Some (u, w\<lparr>contents := ?cs\<rparr>)"
        using e g nolast False by (simp add: Del_def Pair Let_def f id sz)
      then show ?thesis using False nolast editing_contents [OF ed g(1)] e by (simp add: edited_def ed_delete_def)
    qed
  qed
qed

definition ed_left :: "editor \<Rightarrow> editor" where
  "ed_left e =
     (case e of (L, r, c) \<Rightarrow> if c > 0 then (L, r, c - 1) else if r > 0 then (L, r - 1, length (L ! (r - 1))) else e)"

definition ed_right :: "editor \<Rightarrow> editor" where
  "ed_right e =
     (case e of (L, r, c) \<Rightarrow>
        if c < length (L ! r) then (L, r, c + 1) else if Suc r < length L then (L, Suc r, 0) else e)"

lemma Left_ok:
  assumes "editing s L r c" "fits L"
  shows "edited (Left s) (ed_left (L, r, c))"
proof (cases s)
  case (Pair u w)
  note ed = assms(1) [unfolded Pair]
  note f = editing_facts [OF ed assms(2)] and e = editing_rep [OF ed]
  have geo: "geometry (u, w)" using e by blast
  have c: "int c = CursorX u - 2 + posX w" "int r = posY w + (CursorY u - destY0 w)" using ed by (auto simp: editing_def)
  show ?thesis
  proof (cases c)
    case (Suc d)
    have "CursorX u > 2 \<or> posX w > 0" using c(1) Suc geo by (auto simp: geometry_def)
    then have "Left s = (if CursorX u > 2 then map_option Finalize (move_cursor (CursorX u - 1) (-1) (u, w))
                 else if posX w > 0 then Some (Finalize (u, w\<lparr>posX := posX w - 1\<rparr>)) else None)"
      by (auto simp: Left_def Pair)
    moreover have "edited (if CursorX u > 2 then map_option Finalize (move_cursor (CursorX u - 1) (-1) (u, w))
                 else if posX w > 0 then Some (Finalize (u, w\<lparr>posX := posX w - 1\<rparr>)) else None) (L, r, d)"
      by (rule editing_left) (use geo e c assms(2) Suc in auto)
    ultimately show ?thesis using Suc by (simp add: ed_left_def)
  next
    case 0
    then have cx: "CursorX u = 2" "posX w = 0" using c(1) geo by (auto simp: geometry_def)
    show ?thesis
    proof (cases r)
      case 0
      then show ?thesis using cx \<open>c = 0\<close> ed by (simp add: Left_def Pair f ed_left_def edited_def)
    next
      case (Suc y)
      then have y: "y < length L" using e by simp
      note g = GetLine_rep [OF conjunct1 [OF e] y]
      define ts where "ts = int (length (L ! y))"
      have ts: "0 \<le> ts" "ts < 2 ^ 30" using fits_line [OF assms(2), of y] y by (auto simp: ts_def)
      obtain x px where sc: "scroll_x u ts (LONG (ts + 2)) = (x, px)" "2 \<le> x" "x \<le> WndWidth u - 2" "0 \<le> px" "x - 2 + px = ts"
        using scroll_end [OF geo ts] by blast
      have "Left s = map_option Finalize (to_line_above ts (LONG (ts + 2)) (u, w\<lparr>contents := GetLine (contents w) y\<rparr>))"
        using cx Suc g by (simp add: Left_def Pair Let_def f ts_def)
      moreover have smy: "small (int y + 1)" using f(4) Suc by (simp add: add.commute)
      moreover have "\<exists>s'. to_line_above ts (LONG (ts + 2)) (u, w\<lparr>contents := GetLine (contents w) y\<rparr>) = Some s' \<and> editing s' L y (length (L ! y))"
        by (rule to_line_above_ok [OF _ _ _ _ sc(1)])
          (use geo g c sc y Suc smy in \<open>auto simp: geometry_def ts_def\<close>)
      ultimately show ?thesis using Suc \<open>c = 0\<close> edited_Finalize [OF assms(2)] by (simp only: ed_left_def) simp
    qed
  qed
qed

lemma Right_ok:
  assumes "editing s L r c" "fits L"
  shows "edited (Right s) (ed_right (L, r, c))"
proof (cases s)
  case (Pair u w)
  note ed = assms(1) [unfolded Pair]
  note f = editing_facts [OF ed assms(2)] and e = editing_rep [OF ed]
  note g = GetLine_rep [OF conjunct1 [OF e], of r]
  have geo: "geometry (u, w)" using e by blast
  note gs = geometry_small [OF geo]
  have c: "int c = CursorX u - 2 + posX w" "int r = posY w + (CursorY u - destY0 w)" using ed by (auto simp: editing_def)
  let ?w = "w\<lparr>contents := GetLine (contents w) r\<rparr>"
  have rep: "rep (contents ?w) L" using g e by simp
  show ?thesis
  proof (cases "c < length (L ! r)")
    case True
    have "small (posX w + 1)" using f(5,7) c(1) geo fits_line [OF assms(2), of r] e by (auto simp: small_def geometry_def)
    then have "Right s = (if CursorX u < WndWidth u - 2 then map_option Finalize (move_cursor (CursorX u + 1) (-1) (u, ?w))
        else Some (Finalize (u, ?w\<lparr>posX := posX w + 1\<rparr>)))"
      using e g True gs by (simp add: Right_def Pair Let_def f conversions)
    moreover have "CursorX u < WndWidth u - 2 \<Longrightarrow>
        \<exists>s'. map_option Finalize (move_cursor (CursorX u + 1) (-1) (u, ?w)) = Some s' \<and> editing s' L r (c + 1)"
      by (rule editing_move_Finalize) (use geo c e rep assms(2) True in \<open>auto simp: geometry_def\<close>)
    moreover have "editing (u, ?w\<lparr>posX := posX w + 1\<rparr>) L r (c + 1)"
      using geo c e rep True by (auto simp: editing_def geometry_def)
    ultimately show ?thesis using True editing_Finalize [OF _ assms(2)] editedI by (simp add: edited_Some ed_right_def)
  next
    case False
    then have "SIZE_T (int c) = int (length (L ! r))" using e f(9) by simp
    then have sz: "SIZE_T (int (length (L ! r))) = int (length (L ! r))" using False e by simp
    have id: "ULONG (int r + 1) = int r + 1" using f(6) by (simp add: conversions)
    show ?thesis
    proof (cases "Suc r < length L")
      case True
      then have "\<exists>s'. to_line_below 0 2 (u, ?w) = Some s' \<and> editing s' L (Suc r) 0"
        by (intro to_line_below_ok) (use geo c rep f in \<open>auto simp: geometry_def\<close>)
      then obtain u' w' where s': "to_line_below 0 2 (u, ?w) = Some (u', w')" "editing (u', w') L (Suc r) 0" by auto
      have "Right s = Some (Finalize (SyntaxColor r (u', w')))"
        using e g True False s'(1) id sz by (simp add: Right_def Pair Let_def f)
      then show ?thesis
        using False True editing_Finalize [OF _ assms(2)] editing_SyntaxColor [OF s'(2), of r] e
        by (simp add: edited_def ed_right_def)
    next
      case nolast: False
      have "Right s = Some (u, ?w)" using e g nolast False id sz by (simp add: Right_def Pair Let_def f)
      then show ?thesis using False nolast editing_contents [OF ed g(1)] e by (simp add: edited_def ed_right_def)
    qed
  qed
qed


text \<open>
  Moving by lines keeps the column \<open>sc\<close> of the screen, cut to the length of the new line; \<open>n\<close> is the
  height of the window.
\<close>

definition ed_goto :: "nat \<Rightarrow> nat \<Rightarrow> editor \<Rightarrow> editor" where
  "ed_goto sc r' e = (case e of (L, r, c) \<Rightarrow> (L, r', min sc (length (L ! r'))))"

definition ed_up :: "nat \<Rightarrow> editor \<Rightarrow> editor" where
  "ed_up sc e = (case e of (L, r, c) \<Rightarrow> if r > 0 then ed_goto sc (r - 1) e else e)"

definition ed_down :: "nat \<Rightarrow> editor \<Rightarrow> editor" where
  "ed_down sc e = (case e of (L, r, c) \<Rightarrow> if Suc r < length L then ed_goto sc (Suc r) e else e)"

definition ed_pgup :: "nat \<Rightarrow> nat \<Rightarrow> editor \<Rightarrow> editor" where
  "ed_pgup n sc e = (case e of (L, r, c) \<Rightarrow> if r > 0 then ed_goto sc (r - n) e else e)"

definition ed_pgdn :: "nat \<Rightarrow> nat \<Rightarrow> editor \<Rightarrow> editor" where
  "ed_pgdn n sc e = (case e of (L, r, c) \<Rightarrow> if Suc r < length L then ed_goto sc (min (r + n) (length L - 1)) e else e)"

definition screen_col :: "code_state \<Rightarrow> nat" where
  "screen_col s = nat (CursorX (fst s) - 2)"

definition win_dim :: "code_state \<Rightarrow> nat" where
  "win_dim s = nat (destY1 (snd s) - destY0 (snd s) + 1)"

lemma screen_col_int: "geometry (u, w) \<Longrightarrow> int (screen_col (u, w)) = CursorX u - 2"
  by (simp add: screen_col_def geometry_def)

lemma goto_col:
  assumes "geometry (u, w)" "int n = ts" "0 \<le> ts" "ts < 2 ^ 30"
  shows "scroll_x u ts (min_x u ts) = (int (min (screen_col (u, w)) n) + 2, 0)"
    "2 \<le> int (min (screen_col (u, w)) n) + 2" "int (min (screen_col (u, w)) n) + 2 \<le> WndWidth u - 2"
  using scroll_min [OF assms(1,3,4)] screen_col_int [OF assms(1)] assms by (auto simp: geometry_def min_def)

lemma Up_ok:
  assumes "editing s L r c" "fits L"
  shows "edited (Up s) (ed_up (screen_col s) (L, r, c))"
proof (cases s)
  case (Pair u w)
  note ed = assms(1) [unfolded Pair]
  note f = editing_facts [OF ed assms(2)] and e = editing_rep [OF ed]
  have geo: "geometry (u, w)" using e by blast
  have c: "int r = posY w + (CursorY u - destY0 w)" using ed by (auto simp: editing_def)
  show ?thesis
  proof (cases r)
    case 0
    then show ?thesis using ed by (simp add: Up_def Pair f ed_up_def edited_def)
  next
    case (Suc y)
    then have y: "y < length L" using e by simp
    note g = GetLine_rep [OF conjunct1 [OF e] y]
    define ts where "ts = int (length (L ! y))"
    have ts: "0 \<le> ts" "ts < 2 ^ 30" using fits_line [OF assms(2), of y] y by (auto simp: ts_def)
    note sc = goto_col [OF geo ts_def [symmetric] ts]
    have "Up s = map_option Finalize (to_line_above ts (min_x u ts) (u, w\<lparr>contents := GetLine (contents w) y\<rparr>))"
      using Suc g by (simp add: Up_def Pair Let_def f ts_def)
    moreover have smy: "small (int y + 1)" using f(4) Suc by (simp add: add.commute)
    moreover have "\<exists>s'. to_line_above ts (min_x u ts) (u, w\<lparr>contents := GetLine (contents w) y\<rparr>) = Some s' \<and>
        editing s' L y (min (screen_col s) (length (L ! y)))"
      by (rule to_line_above_ok [OF _ _ _ _ sc(1)]) (use geo g c sc y Suc smy Pair in \<open>auto simp: geometry_def\<close>)
    ultimately show ?thesis using Suc edited_Finalize [OF assms(2)] by (simp only: ed_up_def ed_goto_def) simp
  qed
qed

lemma Down_ok:
  assumes "editing s L r c" "fits L"
  shows "edited (Down s) (ed_down (screen_col s) (L, r, c))"
proof (cases s)
  case (Pair u w)
  note ed = assms(1) [unfolded Pair]
  note f = editing_facts [OF ed assms(2)] and e = editing_rep [OF ed]
  have geo: "geometry (u, w)" using e by blast
  have c: "int r = posY w + (CursorY u - destY0 w)" using ed by (auto simp: editing_def)
  have id: "ULONG (int r + 1) = int r + 1" "nat (int r + 1) = Suc r" using f(6) by (simp_all add: conversions)
  have len: "length (contents w) = length L \<or> contents w = [] \<and> length L = 1" using e by (auto simp: rep_def split: if_splits)
  show ?thesis
  proof (cases "Suc r < length L")
    case False
    then have "Down s = Some s" using len e by (auto simp: Down_def Pair f id)
    then show ?thesis using False ed by (simp add: ed_down_def edited_def Pair)
  next
    case y: True
    note g = GetLine_rep [OF conjunct1 [OF e] y]
    define ts where "ts = int (length (L ! Suc r))"
    have ts: "0 \<le> ts" "ts < 2 ^ 30" using fits_line [OF assms(2), of "Suc r"] y by (auto simp: ts_def)
    note sc = goto_col [OF geo ts_def [symmetric] ts]
    have "Down s = map_option Finalize
        (to_line_below 0 (int (min (screen_col s) (length (L ! Suc r))) + 2) (u, w\<lparr>contents := GetLine (contents w) (Suc r)\<rparr>))"
      using g y len sc(1) by (auto simp: Down_def Pair Let_def f id ts_def)
    moreover have "\<exists>s'. to_line_below 0 (int (min (screen_col s) (length (L ! Suc r))) + 2) (u, w\<lparr>contents := GetLine (contents w) (Suc r)\<rparr>) = Some s' \<and>
        editing s' L (Suc r) (min (screen_col s) (length (L ! Suc r)))"
      by (rule to_line_below_ok) (use geo g c sc y f(6) Pair in \<open>auto simp: geometry_def\<close>)
    ultimately show ?thesis using y edited_Finalize [OF assms(2)] by (simp only: ed_down_def ed_goto_def) simp
  qed
qed

definition ed_home :: "editor \<Rightarrow> editor" where
  "ed_home e = (case e of (L, r, c) \<Rightarrow> (L, r, 0))"

definition ed_end :: "editor \<Rightarrow> editor" where
  "ed_end e = (case e of (L, r, c) \<Rightarrow> (L, r, length (L ! r)))"

definition ed_tab :: "editor \<Rightarrow> editor" where
  "ed_tab e = (case e of (L, r, c) \<Rightarrow> ed_insert (replicate (4 - c mod 4) 0x20) e)"

lemma Home_ok:
  assumes "editing s L r c" "fits L"
  shows "edited (Home s) (ed_home (L, r, c))"
proof (cases s)
  case (Pair u w)
  note e = editing_rep [OF assms(1) [unfolded Pair]]
  have "\<exists>s'. move_cursor 2 (-1) (u, w\<lparr>posX := 0\<rparr>) = Some s' \<and> editing s' L r 0"
    using editing_move [of u "w\<lparr>posX := 0\<rparr>" L 2 "-1" r 0] e assms(1) Pair by (auto simp: geometry_def editing_def)
  from edited_Finalize [OF assms(2) this] show ?thesis by (simp add: Home_def Pair ed_home_def)
qed

lemma End_ok:
  assumes "editing s L r c" "fits L"
  shows "edited (End s) (ed_end (L, r, c))"
proof (cases s)
  case (Pair u w)
  note ed = assms(1) [unfolded Pair]
  note f = editing_facts [OF ed assms(2)] and e = editing_rep [OF ed]
  have geo: "geometry (u, w)" and r: "r < length L" using e by blast+
  note g = GetLine_rep [OF conjunct1 [OF e] r]
  define ts where "ts = int (length (L ! r))"
  have ts: "0 \<le> ts" "ts < 2 ^ 30" using fits_line [OF assms(2) r] by (auto simp: ts_def)
  obtain x px where sc: "scroll_x u ts (LONG (ts + 2)) = (x, px)" "2 \<le> x" "x \<le> WndWidth u - 2" "0 \<le> px" "x - 2 + px = ts"
    using scroll_end [OF geo ts] by blast
  let ?w = "w\<lparr>contents := GetLine (contents w) r, posX := px\<rparr>"
  have "End s = map_option Finalize (move_cursor x (-1) (u, ?w))"
    using g sc(1) by (simp add: End_def Pair Let_def f ts_def)
  moreover have "\<exists>u'. move_cursor x (-1) (u, ?w) = Some (u', ?w) \<and> editing (u', ?w) L r (length (L ! r))"
    by (rule editing_move) (use geo g sc ed r in \<open>auto simp: geometry_def editing_def ts_def\<close>)
  ultimately show ?thesis using edited_Finalize [OF assms(2), of "move_cursor x (-1) (u, ?w)" r "length (L ! r)"]
    by (auto simp: ed_end_def)
qed

lemma Tab_ok:
  assumes "editing s L r c" "length L + sum_list (map length L) + 4 < 2 ^ 30"
  shows "edited (Tab s) (ed_tab (L, r, c))"
proof -
  obtain u w where s: "s = (u, w)" by (cases s)
  have "fits L" using assms(2) by (simp add: fits_def)
  then have pos: "cursor_pos s = int c" using editing_facts(3) assms(1) s by blast
  obtain k where k: "c mod 4 = k" "k < 4" by simp
  have "int c mod 4 = int k" using k(1) by presburger
  then have "Tab s = Add (replicate (4 - c mod 4) 0x20) s"
    using k by (simp add: Tab_def pos Let_def nat_diff_distrib')
  moreover have "edited (Add (replicate (4 - c mod 4) 0x20) s) (ed_insert (replicate (4 - c mod 4) 0x20) (L, r, c))"
    by (rule Add_ok [OF assms(1)]) (use assms(2) in \<open>auto simp: plain_def\<close>)
  ultimately show ?thesis by (simp add: ed_tab_def)
qed


lemma win_dim_int:
  assumes "geometry (u, w)"
  shows "int (win_dim (u, w)) = destY1 w - destY0 w + 1" "small (int (win_dim (u, w)))" "0 < win_dim (u, w)"
  using assms geometry_small [OF assms] by (auto simp: win_dim_def geometry_def small_def)

lemma PgUp_ok:
  assumes "editing s L r c" "fits L"
  shows "edited (PgUp s) (ed_pgup (win_dim s) (screen_col s) (L, r, c))"
proof (cases s)
  case (Pair u w)
  note ed = assms(1) [unfolded Pair]
  note f = editing_facts [OF ed assms(2)] and e = editing_rep [OF ed]
  have geo: "geometry (u, w)" using e by blast
  have c: "int r = posY w + (CursorY u - destY0 w)" using ed by (auto simp: editing_def)
  define n where "n = win_dim (u, w)"
  note wd = win_dim_int [OF geo, folded n_def]
  have dim: "LONG (ULONG (destY1 w - destY0 w + 1)) = int n" "ULONG (int n) = int n" "LONG (int r) = int r"
    using wd f(4) by (simp_all add: conversions flip: wd(1))
  show ?thesis
  proof (cases "r = 0")
    case True
    then show ?thesis using ed dim by (simp add: PgUp_def Pair f ed_pgup_def edited_def Let_def)
  next
    case r0: False
    define y where "y = r - n"
    have y: "y < length L" using e by (auto simp: y_def)
    have sub: "LONG (int r - int n) = int r - int n" using f(4) wd(2) by (intro LONG_small) (auto simp: small_def)
    have smy: "small (int y)" using f(4) by (auto simp: small_def y_def)
    have id: "(if LONG (int r - int n) < 0 then 0 else LONG (int r - int n)) = int y" unfolding sub by (simp add: y_def of_nat_diff)
    note g = GetLine_rep [OF conjunct1 [OF e] y]
    define ts where "ts = int (length (L ! y))"
    have ts: "0 \<le> ts" "ts < 2 ^ 30" using fits_line [OF assms(2) y] by (auto simp: ts_def)
    note sc = goto_col [OF geo ts_def [symmetric] ts]
    define x where "x = int (min (screen_col s) (length (L ! y))) + 2"
    define w' where "w' = w\<lparr>contents := GetLine (contents w) y, posX := 0, posY := if posY w \<ge> int n then posY w - int n else 0\<rparr>"
    define cy where "cy = (if posY w \<ge> int n then CursorY u else destY0 w + int y)"
    have "small (destY0 w + int y)" if "\<not> posY w \<ge> int n"
      using that c wd(1) geo geometry_small [OF geo] by (auto simp: small_def y_def geometry_def)
    moreover have "small (posY w - int n)" if "posY w \<ge> int n" using that f(8) by (auto simp: small_def)
    ultimately have "PgUp s = map_option Finalize (move_cursor x cy (u, w'))"
      using g sc(1) r0 smy id
      by (simp add: PgUp_def Pair Let_def f dim conversions ts_def x_def [unfolded Pair] w'_def cy_def split: if_split_asm)
    moreover have "\<exists>u'. move_cursor x cy (u, w') = Some (u', w') \<and> editing (u', w') L y (min (screen_col s) (length (L ! y)))"
      by (rule editing_move) (use geo g sc c wd y Pair in \<open>auto simp: geometry_def x_def w'_def cy_def y_def of_nat_diff\<close>)
    ultimately show ?thesis
      using r0 edited_Finalize [OF assms(2), of "move_cursor x cy (u, w')" y "min (screen_col s) (length (L ! y))"]
      by (auto simp: ed_pgup_def ed_goto_def Pair y_def n_def)
  qed
qed

lemma PgDn_ok:
  assumes "editing s L r c" "fits L"
  shows "edited (PgDn s) (ed_pgdn (win_dim s) (screen_col s) (L, r, c))"
proof (cases s)
  case (Pair u w)
  note ed = assms(1) [unfolded Pair]
  note f = editing_facts [OF ed assms(2)] and e = editing_rep [OF ed]
  have geo: "geometry (u, w)" using e by blast
  have c: "int r = posY w + (CursorY u - destY0 w)" using ed by (auto simp: editing_def)
  define n where "n = win_dim (u, w)"
  note wd = win_dim_int [OF geo, folded n_def]
  have dim: "LONG (ULONG (destY1 w - destY0 w + 1)) = int n" "LONG (int r) = int r" "SIZE_T (LONG (int r + 1)) = int r + 1"
    using wd f(4,6) by (simp_all add: conversions flip: wd(1))
  have len: "length (contents w) = length L \<or> contents w = [] \<and> length L = 1" using e by (auto simp: rep_def split: if_splits)
  show ?thesis
  proof (cases "Suc r < length L")
    case False
    then have "PgDn s = Some s" using len e by (auto simp: PgDn_def Pair f dim Let_def)
    then show ?thesis using False ed by (simp add: ed_pgdn_def edited_def Pair)
  next
    case more: True
    then have len': "length (contents w) = length L" using len by auto
    define y where "y = min (r + n) (length L - 1)"
    have y: "y < length L" using more by (auto simp: y_def)
    have ln: "int (length L) < 2 ^ 30" using fits_line [OF assms(2) y] by simp
    have nb: "int n \<le> 16384" using wd(1) geo geometry_small [OF geo] by (auto simp: geometry_def)
    have sm: "small (int r + int n)" "small (int (length L) - 1)" "small (int y)" "small (posY w + int n)"
      using f(4,8) nb ln more y c geo by (auto simp: small_def geometry_def)
    have id: "(if SIZE_T (LONG (int r + int n)) \<ge> int (length L) then LONG (int (length L) - 1) else LONG (int r + int n)) = int y"
      using sm(1,2) more by (auto simp: conversions y_def min_def of_nat_diff)
    note g = GetLine_rep [OF conjunct1 [OF e] y]
    define ts where "ts = int (length (L ! y))"
    have ts: "0 \<le> ts" "ts < 2 ^ 30" using fits_line [OF assms(2) y] by (auto simp: ts_def)
    note sc = goto_col [OF geo ts_def [symmetric] ts]
    define x where "x = int (min (screen_col s) (length (L ! y))) + 2"
    define py where "py = (if posY w + int n < int (length L) then posY w + int n else posY w)"
    define w' where "w' = w\<lparr>contents := GetLine (contents w) y, posX := 0, posY := py\<rparr>"
    have py: "small py" using sm(4) f(8) by (simp add: py_def)
    have cy: "destY0 w \<le> destY0 w + (int y - py)" "destY0 w + (int y - py) \<le> destY1 w"
      using c wd geo more by (auto simp: py_def y_def geometry_def min_def of_nat_diff)
    have "small (destY0 w + (int y - py))" using cy geo geometry_small [OF geo] by (auto simp: small_def geometry_def)
    then have cyl: "LONG (destY0 w + (int y - LONG py)) = destY0 w + (int y - py)" using py by (simp add: conversions)
    have "PgDn s = map_option Finalize (move_cursor x (destY0 w + (int y - py)) (u, w'))"
    proof -
      have "PgDn s = PgDn_to (int n) (int y) s" using more id
        by (auto simp: PgDn_def Pair Let_def f dim len' split: if_split_asm)
      also have "\<dots> = map_option Finalize (move_cursor x (destY0 w + (int y - py)) (u, w'))"
      proof (cases "posY w + int n < int (length L)")
        case True
        then show ?thesis using g sc(1) sm cyl
          by (simp add: PgDn_to_def Pair Let_def conversions ts_def x_def [unfolded Pair] w'_def py_def)
      next
        case False
        then show ?thesis using g sc(1) sm cyl
          by (simp add: PgDn_to_def Pair Let_def conversions ts_def x_def [unfolded Pair] w'_def py_def)
      qed
      finally show ?thesis .
    qed
    moreover have "\<exists>u'. move_cursor x (destY0 w + (int y - py)) (u, w') = Some (u', w') \<and>
        editing (u', w') L y (min (screen_col s) (length (L ! y)))"
      by (rule editing_move) (use geo g sc cy y py Pair in \<open>auto simp: geometry_def x_def w'_def small_def\<close>)
    ultimately show ?thesis
      using more edited_Finalize [OF assms(2), of "move_cursor x (destY0 w + (int y - py)) (u, w')" y "min (screen_col s) (length (L ! y))"]
      by (auto simp: ed_pgdn_def ed_goto_def Pair y_def n_def)
  qed
qed



section \<open>Sessions\<close>

datatype code_key =
    KChar byte | KEnter | KBackSpace | KDel | KTab
  | KLeft | KRight | KUp | KDown | KHome | KEnd | KPgUp | KPgDn

text \<open>What the main loop calls for a key while the code window has the focus.\<close>

fun code_op :: "code_key \<Rightarrow> code_state \<Rightarrow> code_state option" where
  "code_op (KChar c) s = Add [c] s"
| "code_op KEnter s = Enter s"
| "code_op KBackSpace s = BackSpace s"
| "code_op KDel s = Del s"
| "code_op KTab s = Tab s"
| "code_op KLeft s = Left s"
| "code_op KRight s = Right s"
| "code_op KUp s = Up s"
| "code_op KDown s = Down s"
| "code_op KHome s = Home s"
| "code_op KEnd s = End s"
| "code_op KPgUp s = PgUp s"
| "code_op KPgDn s = PgDn s"

fun ed_op :: "nat \<Rightarrow> nat \<Rightarrow> code_key \<Rightarrow> editor \<Rightarrow> editor" where
  "ed_op n sc (KChar c) e = ed_insert [c] e"
| "ed_op n sc KEnter e = ed_enter e"
| "ed_op n sc KBackSpace e = ed_backspace e"
| "ed_op n sc KDel e = ed_delete e"
| "ed_op n sc KTab e = ed_tab e"
| "ed_op n sc KLeft e = ed_left e"
| "ed_op n sc KRight e = ed_right e"
| "ed_op n sc KUp e = ed_up sc e"
| "ed_op n sc KDown e = ed_down sc e"
| "ed_op n sc KHome e = ed_home e"
| "ed_op n sc KEnd e = ed_end e"
| "ed_op n sc KPgUp e = ed_pgup n sc e"
| "ed_op n sc KPgDn e = ed_pgdn n sc e"

definition typed :: "code_key \<Rightarrow> bool" where
  "typed k \<longleftrightarrow> (\<forall>c. k = KChar c \<longrightarrow> 0x20 \<le> c \<and> c < 0x80)"

definition text_total :: "byte list list \<Rightarrow> nat" where
  "text_total L = length L + sum_list (map length L)"

lemma plain_typed: "typed (KChar c) \<Longrightarrow> plain [c]"
  by (auto simp: typed_def plain_def)

lemma code_op_ok:
  assumes "editing s L r c" "text_total L + 4 < 2 ^ 30" "typed k"
  shows "edited (code_op k s) (ed_op (win_dim s) (screen_col s) k (L, r, c))"
proof -
  have fits: "fits L" and one: "length L + sum_list (map length L) + 1 < 2 ^ 30"
    and four: "length L + sum_list (map length L) + 4 < 2 ^ 30"
    using assms(2) by (auto simp: fits_def text_total_def)
  note ok = Enter_ok [OF assms(1) one] BackSpace_ok [OF assms(1) fits] Del_ok [OF assms(1) fits] Tab_ok [OF assms(1) four]
    Left_ok [OF assms(1) fits] Right_ok [OF assms(1) fits] Up_ok [OF assms(1) fits] Down_ok [OF assms(1) fits]
    Home_ok [OF assms(1) fits] End_ok [OF assms(1) fits] PgUp_ok [OF assms(1) fits] PgDn_ok [OF assms(1) fits]
  show ?thesis
  proof (cases k)
    case (KChar x)
    then show ?thesis using Add_ok [OF assms(1), of "[x]"] one plain_typed assms(3) by simp
  qed (use ok in simp_all)
qed

lemma total_update: "r < length L \<Longrightarrow> text_total (L[r := t]) + length (L ! r) = text_total L + length t"
proof -
  assume r: "r < length L"
  have "sum_list (map length L) = sum_list (map length (take r L)) + (length (L ! r) + sum_list (map length (drop (Suc r) L)))"
    using r by (metis id_take_nth_drop list.simps(9) map_append sum_list.Cons sum_list.append)
  moreover have "sum_list (map length (L[r := t])) = sum_list (map length (take r L)) + (length t + sum_list (map length (drop (Suc r) L)))"
    using r by (simp add: upd_conv_take_nth_drop)
  ultimately show ?thesis by (simp add: text_total_def)
qed

lemma total_join: "Suc y < length L \<Longrightarrow> text_total (join_line y L) \<le> text_total L"
  using join_line_sum [of y L] by (simp add: text_total_def) (simp add: join_line_def)

lemma total_op:
  assumes "r < length L" "c \<le> length (L ! r)" "ed_op n sc k (L, r, c) = (L', r', c')"
  shows "text_total L' \<le> text_total L + 4"
proof -
  have ins: "text_total (L[r := take c (L ! r) @ str @ drop c (L ! r)]) = text_total L + length str" for str
    using total_update [OF assms(1), of "take c (L ! r) @ str @ drop c (L ! r)"] assms(2) by simp
  have del: "text_total (L[r := t]) \<le> text_total L" if "length t \<le> length (L ! r)" for t
    using total_update [OF assms(1), of t] that by simp
  have enter: "text_total (take r L @ [take c (L ! r), drop c (L ! r)] @ drop (Suc r) L) = text_total L + 1"
  proof -
    have "sum_list (map length L) = sum_list (map length (take r L @ L ! r # drop (Suc r) L))"
      using assms(1) by (simp flip: id_take_nth_drop)
    then show ?thesis using assms(1,2) by (simp add: text_total_def)
  qed
  show ?thesis
  proof (cases k)
    case (KChar x)
    then show ?thesis using assms(3) ins [of "[x]"] by (auto simp: ed_insert_def)
  next
    case KTab
    then show ?thesis using assms(3) ins [of "replicate (4 - c mod 4) 0x20"] by (auto simp: ed_tab_def ed_insert_def)
  next
    case KEnter
    then show ?thesis using assms(3) enter by (auto simp: ed_enter_def)
  next
    case KBackSpace
    moreover have "text_total (L[r := take (c - 1) (L ! r) @ drop c (L ! r)]) \<le> text_total L"
      using assms(2) by (intro del) simp
    ultimately show ?thesis using assms total_join [of "r - 1" L] by (auto simp: ed_backspace_def split: if_splits)
  next
    case KDel
    moreover have "text_total (L[r := take c (L ! r) @ drop (Suc c) (L ! r)]) \<le> text_total L"
      using assms(2) by (intro del) simp
    ultimately show ?thesis using assms total_join [of r L] by (auto simp: ed_delete_def split: if_splits)
  qed (use assms(3) in \<open>auto simp: ed_left_def ed_right_def ed_up_def ed_down_def ed_home_def ed_end_def ed_pgup_def ed_pgdn_def
      ed_goto_def split: if_splits\<close>)
qed


definition dims :: "code_state \<Rightarrow> int \<times> int" where
  "dims s = (destY0 (snd s), destY1 (snd s))"

lemma dims_simps:
  "dims (SyntaxColor y s) = dims s" "dims (Finalize s) = dims s"
  "move_cursor x z s = Some s' \<Longrightarrow> dims s' = dims s"
  "dims (u, w\<lparr>contents := cs\<rparr>) = dims (u, w)" "dims (u, w\<lparr>posX := px\<rparr>) = dims (u, w)" "dims (u, w\<lparr>posY := py\<rparr>) = dims (u, w)"
  by (auto simp: dims_def SyntaxColor_def Finalize_def move_cursor_def Let_def split: prod.splits)

lemma dims_vertical:
  "to_line_above ts x s = Some s' \<Longrightarrow> dims s' = dims s" "to_line_below px x s = Some s' \<Longrightarrow> dims s' = dims s"
  by (auto simp: to_line_above_def to_line_below_def Let_def dims_simps split: prod.splits if_splits dest!: dims_simps(3))

lemma dims_edit:
  "Add str s = Some s' \<Longrightarrow> dims s' = dims s" "Enter s = Some s' \<Longrightarrow> dims s' = dims s"
  "BackSpace s = Some s' \<Longrightarrow> dims s' = dims s" "Del s = Some s' \<Longrightarrow> dims s' = dims s"
  by (auto simp: Add_def Enter_def BackSpace_def Del_def Let_def dims_simps split: prod.splits if_splits
      dest!: dims_simps(3) dims_vertical)

lemma dims_move:
  "Left s = Some s' \<Longrightarrow> dims s' = dims s" "Right s = Some s' \<Longrightarrow> dims s' = dims s"
  "Up s = Some s' \<Longrightarrow> dims s' = dims s" "Down s = Some s' \<Longrightarrow> dims s' = dims s"
  "Home s = Some s' \<Longrightarrow> dims s' = dims s" "End s = Some s' \<Longrightarrow> dims s' = dims s"
  "PgUp s = Some s' \<Longrightarrow> dims s' = dims s" "PgDn s = Some s' \<Longrightarrow> dims s' = dims s"
  by (auto simp: Left_def Right_def Up_def Down_def Home_def End_def PgUp_def PgDn_def PgDn_to_def Let_def dims_simps
      split: prod.splits if_splits dest!: dims_simps(3) dims_vertical)

lemma dims_op: "code_op k s = Some s' \<Longrightarrow> win_dim s' = win_dim s"
proof -
  assume "code_op k s = Some s'"
  then have "dims s' = dims s"
    using dims_edit dims_move by (cases k) (auto simp: Tab_def Let_def split: if_splits)
  then show ?thesis by (simp add: dims_def win_dim_def)
qed

text \<open>
  The reference: a run of the plain editor. When the cursor moves by lines it may be taken from a
  column \<open>sc\<close> left of its own, because the window may be scrolled sideways.
\<close>

inductive ed_run :: "nat \<Rightarrow> editor \<Rightarrow> code_key list \<Rightarrow> editor \<Rightarrow> bool" for n where
  ed_run_Nil: "ed_run n e [] e"
| ed_run_Cons: "sc \<le> snd (snd e) \<Longrightarrow> ed_run n (ed_op n sc k e) ks e' \<Longrightarrow> ed_run n e (k # ks) e'"

fun code_session :: "code_key list \<Rightarrow> code_state \<Rightarrow> code_state option" where
  "code_session [] s = Some s"
| "code_session (k # ks) s = (case code_op k s of None \<Rightarrow> None | Some s \<Rightarrow> code_session ks s)"

lemma code_session_ok:
  assumes "editing s L r c" "text_total L + 4 * length ks < 2 ^ 30" "list_all typed ks"
  shows "\<exists>s' L' r' c'. code_session ks s = Some s' \<and> editing s' L' r' c' \<and> ed_run (win_dim s) (L, r, c) ks (L', r', c')"
  using assms
proof (induction ks arbitrary: s L r c)
  case Nil
  then show ?case by (auto intro: ed_run_Nil)
next
  case (Cons k ks)
  have k: "typed k" "text_total L + 4 < 2 ^ 30" using Cons.prems by auto
  obtain L1 r1 c1 where op: "ed_op (win_dim s) (screen_col s) k (L, r, c) = (L1, r1, c1)" by (metis prod_cases3)
  obtain s1 where s1: "code_op k s = Some s1" "editing s1 L1 r1 c1"
    using code_op_ok [OF Cons.prems(1) k(2,1)] by (auto simp: edited_def op)
  have rc: "r < length L" "c \<le> length (L ! r)" "screen_col s \<le> c"
    using Cons.prems(1) by (auto simp: editing_def screen_col_def geometry_def split: prod.splits)
  have "text_total L1 \<le> text_total L + 4" by (rule total_op [OF rc(1,2) op])
  then have "text_total L1 + 4 * length ks < 2 ^ 30" using Cons.prems(2) by simp
  from Cons.IH [OF s1(2) this] obtain s' L' r' c' where
    "code_session ks s1 = Some s'" "editing s' L' r' c'" "ed_run (win_dim s1) (L1, r1, c1) ks (L', r', c')"
    using Cons.prems(3) by auto
  moreover from this(3) have "ed_run (win_dim s) (L, r, c) (k # ks) (L', r', c')"
    unfolding dims_op [OF s1(1)] by (intro ed_run_Cons [of "screen_col s"]) (simp_all add: op rc)
  ultimately show ?case using s1(1) by auto
qed



section \<open>Properties\<close>

text \<open>
  C5: the code window is a text editor. From a window that stands for a document with the cursor
  inside, every sequence of keys with printable characters ends without a write outside the screen
  buffer; the window then stands for the document and the cursor that the same keys give in a plain
  editor of lines, with the cursor inside the window and inside its line, whatever scrolling and
  colours the keys went through. The document must stay below \<open>2 ^ 30\<close> characters.
\<close>

theorem code_window_session:
  assumes "editing s L r c" and "text_total L + 4 * length ks < 2 ^ 30" and "list_all typed ks"
  shows "\<exists>s' L' r' c'. code_session ks s = Some s' \<and> editing s' L' r' c' \<and> ed_run (win_dim s) (L, r, c) ks (L', r', c')"
  by (rule code_session_ok [OF assms])

definition start_window :: code_state where
  "start_window =
     (\<lparr>WndWidth = 80, WndHeight = 25, CursorX = 2, CursorY = 14, CursorDisplayX = -1, CursorDisplayY = -1,
       LogCursorX = 2, LogCursorY = 22, CodeCursorX = 2, CodeCursorY = 14, CursorFocus = FocusCode, nrmClr = 0x07, hrzClr = 0x02\<rparr>,
      \<lparr>contents = [], destY0 = 14, destY1 = 16, posX = 0, posY = 0\<rparr>)"

lemma start_window_editing: "editing start_window [[]] 0 0"
  by (simp add: editing_def start_window_def geometry_def TextBuffersDim_def rep_def)

theorem code_window_session_witness:
  "\<exists>s' L' r' c'. code_session [KChar 0x69, KChar 0x66, KEnter, KUp] start_window = Some s' \<and> editing s' L' r' c'"
proof -
  have "text_total [[]] + 4 * length [KChar 0x69, KChar 0x66, KEnter, KUp] < 2 ^ 30" "list_all typed [KChar 0x69, KChar 0x66, KEnter, KUp]"
    by (simp_all add: text_total_def typed_def)
  from code_window_session [OF start_window_editing this] show ?thesis by blast
qed

text \<open>
  C39: colouring never changes the script: for lines whose newlines all belong to colour tags,
  colouring a line, or all of them, leaves the text of every line and therefore the script that is
  evaluated as it was, and keeps the lines of that form.
\<close>

theorem SyntaxColor_keeps_text:
  assumes "list_all tagged (contents w)" and "y < length (contents w)"
  shows "snd (SyntaxColor y (u, w)) = w\<lparr>contents := contents (snd (SyntaxColor y (u, w)))\<rparr> \<and>
     list_all tagged (contents (snd (SyntaxColor y (u, w)))) \<and>
     map StrLen_out (contents (snd (SyntaxColor y (u, w)))) = map StrLen_out (contents w) \<and>
     Eval_text (snd (SyntaxColor y (u, w))) = Eval_text w"
proof -
  define L where "L = map strip (contents w)"
  have L: "rep (contents w) L" "y < length L" using assms by (auto simp: rep_def L_def)
  obtain cs where cs: "SyntaxColor y (u, w) = (u, w\<lparr>contents := cs\<rparr>)" "rep cs L" using SyntaxColor_rep [OF L] by blast
  have "length (GetLine (contents w) y) = length L" by (rule GetLine_rep(3) [OF L])
  then have "length cs = length L"
    using arg_cong [where f = "\<lambda>s. contents (snd s)", OF cs(1)] by (auto simp: SyntaxColor_def Let_def)
  then have "cs \<noteq> []" using L(2) by auto
  then have t: "list_all tagged cs" "map strip cs = map strip (contents w)" using cs(2) by (auto simp: rep_def L_def)
  then have "map (\<lambda>l. strip l @ [0x0A]) cs = map (\<lambda>l. strip l @ [0x0A]) (contents w)"
    by (metis (no_types, lifting) length_map map_equality_iff nth_map)
  then show ?thesis using t by (simp add: cs(1) Eval_text_def StrLen_strip(1) cong: map_cong)
qed

theorem SyntaxColor_keeps_text_witness:
  "map StrLen_out (contents (snd (SyntaxColor 0 (fst start_window, (snd start_window)\<lparr>contents := [map of_char ''var x = new Date() // now'']\<rparr>)))) =
   [map of_char ''var x = new Date() // now'']"
proof -
  let ?l = "map of_char ''var x = new Date() // now'' :: byte list"
  have t: "list_all tagged [?l]" "StrLen_out ?l = ?l" by (code_simp, code_simp)
  show ?thesis
    using SyntaxColor_keeps_text [of "(snd start_window)\<lparr>contents := [?l]\<rparr>" 0 "fst start_window"] t by simp
qed

end
