(* ===== verification/Symbols.thy ===== *)
theory Symbols
  imports Cutils
begin

text \<open>
  The reader of symbol files, \<open>BugChecker/Symbols.cpp\<close> and \<open>SymbolFile.cpp\<close>: a file is the block of its
  bytes, a pointer into it is an offset, and a read outside the file is the outer \<open>None\<close>; a null
  pointer, as a result or as the file, is \<open>None\<close>.
\<close>

section \<open>The model\<close>

definition BCSFILE_HEADER_SIGNATURE :: u32 where
  "BCSFILE_HEADER_SIGNATURE = 0x00534342"

definition BCSFILE_HEADER_VERSION :: u32 where
  "BCSFILE_HEADER_VERSION = 2"

record BCSFILE_PUBLIC_SYMBOL =
  sym_name :: u32
  sym_address :: u32
  sym_length :: u32

record BCSFILE_DATATYPE =
  type_name :: u32
  type_kind :: u32
  type_length :: u32
  type_pdbIndex :: u32
  type_firstMember :: u32
  type_numOfMembers :: u32

record BCSFILE_DATATYPE_MEMBER =
  member_name :: u32
  member_datatype :: u32
  member_offset :: u32
  member_pdbDatatypeIndex :: u32

subsection \<open>The file\<close>

definition IsBcsValid :: "byte list option \<Rightarrow> bool option" where
  "IsBcsValid header =
     (case header of
        None \<Rightarrow> Some False
      | Some m \<Rightarrow>
          (case get_u32 m 0 of
             None \<Rightarrow> None
           | Some magic \<Rightarrow> if magic \<noteq> BCSFILE_HEADER_SIGNATURE then Some False
               else map_option (\<lambda>v. v = BCSFILE_HEADER_VERSION) (get_u32 m 4)))"

text \<open>The fields of the header, by their offsets in it.\<close>

definition hdr_publicSymbols :: "byte list \<Rightarrow> u32 option" where "hdr_publicSymbols m = get_u32 m 28"
definition hdr_publicSymbolsSize :: "byte list \<Rightarrow> u32 option" where "hdr_publicSymbolsSize m = get_u32 m 32"
definition hdr_datatypes :: "byte list \<Rightarrow> u32 option" where "hdr_datatypes m = get_u32 m 36"
definition hdr_datatypesSize :: "byte list \<Rightarrow> u32 option" where "hdr_datatypesSize m = get_u32 m 40"
definition hdr_datatypeMembers :: "byte list \<Rightarrow> u32 option" where "hdr_datatypeMembers m = get_u32 m 44"
definition hdr_datatypeMembersSize :: "byte list \<Rightarrow> u32 option" where "hdr_datatypeMembersSize m = get_u32 m 48"
definition hdr_names :: "byte list \<Rightarrow> u32 option" where "hdr_names m = get_u32 m 52"

definition pub_at :: "byte list \<Rightarrow> nat \<Rightarrow> nat \<Rightarrow> BCSFILE_PUBLIC_SYMBOL option" where
  "pub_at m pubs i =
     (case (get_u32 m (pubs + 12 * i), get_u32 m (pubs + 12 * i + 4), get_u32 m (pubs + 12 * i + 8)) of
        (Some n, Some a, Some l) \<Rightarrow> Some \<lparr>sym_name = n, sym_address = a, sym_length = l\<rparr>
      | _ \<Rightarrow> None)"

definition type_at :: "byte list \<Rightarrow> nat \<Rightarrow> nat \<Rightarrow> BCSFILE_DATATYPE option" where
  "type_at m dts i =
     (case (get_u32 m (dts + 24 * i), get_u32 m (dts + 24 * i + 4), get_u32 m (dts + 24 * i + 8)) of
        (Some n, Some k, Some l) \<Rightarrow>
          (case (get_u32 m (dts + 24 * i + 12), get_u32 m (dts + 24 * i + 16), get_u32 m (dts + 24 * i + 20)) of
             (Some x, Some f, Some c) \<Rightarrow>
               Some \<lparr>type_name = n, type_kind = k, type_length = l, type_pdbIndex = x, type_firstMember = f, type_numOfMembers = c\<rparr>
           | _ \<Rightarrow> None)
      | _ \<Rightarrow> None)"

definition member_at :: "byte list \<Rightarrow> nat \<Rightarrow> nat \<Rightarrow> BCSFILE_DATATYPE_MEMBER option" where
  "member_at m mbs i =
     (case (get_u32 m (mbs + 16 * i), get_u32 m (mbs + 16 * i + 4), get_u32 m (mbs + 16 * i + 8), get_u32 m (mbs + 16 * i + 12)) of
        (Some n, Some d, Some off, Some x) \<Rightarrow>
          Some \<lparr>member_name = n, member_datatype = d, member_offset = off, member_pdbDatatypeIndex = x\<rparr>
      | _ \<Rightarrow> None)"

text \<open>\<open>strcmp\<close> of the strings at the head of two blocks.\<close>

fun strcmp :: "byte list \<Rightarrow> byte list \<Rightarrow> int option" where
  "strcmp (a # x) (b # y) =
     (if a < b then Some (-1) else if a > b then Some 1 else if a = 0 then Some 0 else strcmp x y)"
| "strcmp x y = None"

subsection \<open>Binary search\<close>

text \<open>The table is given by what the predicate returns at an index.\<close>

function BinarySearch :: "(nat \<Rightarrow> int option) \<Rightarrow> int \<Rightarrow> int \<Rightarrow> nat option option" where
  "BinarySearch pred start_index end_index =
     (if start_index \<le> end_index then
        (let middle = start_index + (end_index - start_index) div 2 in
         case pred (nat middle) of
           None \<Rightarrow> None
         | Some cmp \<Rightarrow>
             if cmp = 0 then Some (Some (nat middle))
             else if cmp > 0 then BinarySearch pred (middle + 1) end_index
             else BinarySearch pred start_index (middle - 1))
      else Some None)"
  by pat_completeness auto
termination
  by (relation "measure (\<lambda>(pred, s, e). nat (e - s + 1))") auto

declare BinarySearch.simps [simp del]

subsection \<open>Public symbols\<close>

definition rva_pred :: "u32 \<Rightarrow> BCSFILE_PUBLIC_SYMBOL \<Rightarrow> int" where
  "rva_pred rva c =
     (if rva \<ge> sym_address c \<and> rva < sym_address c + sym_length c then 0
      else if rva > sym_address c then 1
      else -1)"

definition has_publics :: "byte list option \<Rightarrow> bool option" where
  "has_publics symbols =
     (case IsBcsValid symbols of
        None \<Rightarrow> None
      | Some valid \<Rightarrow> if \<not> valid then Some False else map_option (\<lambda>z. z \<noteq> 0) (hdr_publicSymbolsSize (the symbols)))"

text \<open>The symbol, by its index, and the pointer to its name.\<close>

definition GetNameOfPublic :: "byte list option \<Rightarrow> u32 \<Rightarrow> (nat \<times> nat) option option" where
  "GetNameOfPublic symbols rva =
     (case has_publics symbols of
        None \<Rightarrow> None
      | Some False \<Rightarrow> Some None
      | Some True \<Rightarrow>
          (let m = the symbols in
           case (hdr_publicSymbols m, hdr_publicSymbolsSize m, hdr_names m) of
             (Some pubs, Some sz, Some names) \<Rightarrow>
               (case BinarySearch (\<lambda>i. map_option (rva_pred rva) (pub_at m (unat pubs) i)) 0 (int (unat sz div 12) - 1) of
                  None \<Rightarrow> None
                | Some None \<Rightarrow> Some None
                | Some (Some i) \<Rightarrow>
                    (case pub_at m (unat pubs) i of
                       None \<Rightarrow> None
                     | Some s \<Rightarrow> Some (Some (i, unat names + unat (sym_name s)))))
           | _ \<Rightarrow> None))"

fun find_public :: "byte list \<Rightarrow> nat \<Rightarrow> nat \<Rightarrow> byte list \<Rightarrow> nat \<Rightarrow> nat \<Rightarrow> nat option option" where
  "find_public m pubs names name i 0 = Some None"
| "find_public m pubs names name i (Suc n) =
     (case pub_at m pubs i of
        None \<Rightarrow> None
      | Some s \<Rightarrow>
          (case strcmp (drop (names + unat (sym_name s)) m) name of
             None \<Rightarrow> None
           | Some r \<Rightarrow> if r = 0 then Some (Some i) else find_public m pubs names name (i + 1) n))"

definition GetPublicByName :: "byte list option \<Rightarrow> byte list \<Rightarrow> nat option option" where
  "GetPublicByName symbols name =
     (case has_publics symbols of
        None \<Rightarrow> None
      | Some False \<Rightarrow> Some None
      | Some True \<Rightarrow>
          (let m = the symbols in
           case (hdr_publicSymbols m, hdr_publicSymbolsSize m, hdr_names m) of
             (Some pubs, Some sz, Some names) \<Rightarrow> find_public m (unat pubs) (unat names) name 0 (unat sz div 12)
           | _ \<Rightarrow> None))"

text \<open>
  \<open>EnumPublics\<close>: the callback gets the block that starts with the name, the address and the length; it
  returns the new context and whether to go on, \<open>None\<close> when it reads outside the name.
\<close>

fun enum_publics ::
  "byte list \<Rightarrow> nat \<Rightarrow> nat \<Rightarrow> ('c \<Rightarrow> byte list \<Rightarrow> u32 \<Rightarrow> u32 \<Rightarrow> ('c \<times> bool) option) \<Rightarrow> nat \<Rightarrow> nat \<Rightarrow> 'c \<Rightarrow> 'c option" where
  "enum_publics m pubs names callback i 0 c = Some c"
| "enum_publics m pubs names callback i (Suc n) c =
     (case pub_at m pubs i of
        None \<Rightarrow> None
      | Some s \<Rightarrow>
          (case callback c (drop (names + unat (sym_name s)) m) (sym_address s) (sym_length s) of
             None \<Rightarrow> None
           | Some (c, continue) \<Rightarrow> if \<not> continue then Some c else enum_publics m pubs names callback (i + 1) n c))"

definition EnumPublics ::
  "byte list option \<Rightarrow> ('c \<Rightarrow> byte list \<Rightarrow> u32 \<Rightarrow> u32 \<Rightarrow> ('c \<times> bool) option) \<Rightarrow> 'c \<Rightarrow> 'c option" where
  "EnumPublics symbols callback c =
     (case has_publics symbols of
        None \<Rightarrow> None
      | Some False \<Rightarrow> Some c
      | Some True \<Rightarrow>
          (let m = the symbols in
           case (hdr_publicSymbols m, hdr_publicSymbolsSize m, hdr_names m) of
             (Some pubs, Some sz, Some names) \<Rightarrow> enum_publics m (unat pubs) (unat names) callback 0 (unat sz div 12) c
           | _ \<Rightarrow> None))"

subsection \<open>Data types\<close>

definition has_datatypes :: "byte list option \<Rightarrow> bool option" where
  "has_datatypes symbols =
     (case IsBcsValid symbols of
        None \<Rightarrow> None
      | Some valid \<Rightarrow>
          if \<not> valid then Some False
          else
            (case hdr_datatypesSize (the symbols) of
               None \<Rightarrow> None
             | Some z \<Rightarrow> if z = 0 then Some False else map_option (\<lambda>z. z \<noteq> 0) (hdr_datatypeMembersSize (the symbols))))"

definition type_cmp :: "byte list \<Rightarrow> nat \<Rightarrow> nat \<Rightarrow> byte list \<Rightarrow> nat \<Rightarrow> int option" where
  "type_cmp m dts names typeName i =
     (case type_at m dts i of None \<Rightarrow> None | Some t \<Rightarrow> strcmp typeName (drop (names + unat (type_name t)) m))"

text \<open>Back to the first type of that name: \<open>k\<close> types are before the one found.\<close>

fun type_back :: "byte list \<Rightarrow> nat \<Rightarrow> nat \<Rightarrow> byte list \<Rightarrow> nat \<Rightarrow> nat option" where
  "type_back m dts names typeName 0 = Some 0"
| "type_back m dts names typeName (Suc k) =
     (case type_cmp m dts names typeName k of
        None \<Rightarrow> None
      | Some r \<Rightarrow> if r \<noteq> 0 then Some (Suc k) else type_back m dts names typeName k)"

fun type_best :: "byte list \<Rightarrow> nat \<Rightarrow> nat \<Rightarrow> byte list \<Rightarrow> nat \<Rightarrow> nat \<Rightarrow> nat \<Rightarrow> nat option" where
  "type_best m dts names typeName i 0 search = Some search"
| "type_best m dts names typeName i (Suc n) search =
     (case type_cmp m dts names typeName i of
        None \<Rightarrow> None
      | Some r \<Rightarrow>
          if r \<noteq> 0 then Some search
          else
            (case (type_at m dts i, type_at m dts search) of
               (Some t, Some s) \<Rightarrow>
                 type_best m dts names typeName (i + 1) n (if type_length t > type_length s then i else search)
             | _ \<Rightarrow> None))"

definition GetDatatype :: "byte list option \<Rightarrow> byte list \<Rightarrow> nat option option" where
  "GetDatatype symbols typeName =
     (case has_datatypes symbols of
        None \<Rightarrow> None
      | Some False \<Rightarrow> Some None
      | Some True \<Rightarrow>
          (let m = the symbols in
           case (hdr_datatypes m, hdr_datatypesSize m, hdr_names m) of
             (Some dts, Some sz, Some names) \<Rightarrow>
               (let dtsNum = unat sz div 24 in
                case BinarySearch (type_cmp m (unat dts) (unat names) typeName) 0 (int dtsNum - 1) of
                  None \<Rightarrow> None
                | Some None \<Rightarrow> Some None
                | Some (Some search) \<Rightarrow>
                    (case type_back m (unat dts) (unat names) typeName search of
                       None \<Rightarrow> None
                     | Some i \<Rightarrow> map_option Some (type_best m (unat dts) (unat names) typeName i (dtsNum - i) search)))
           | _ \<Rightarrow> None))"

fun member_search ::
  "byte list \<Rightarrow> nat \<Rightarrow> nat \<Rightarrow> byte list \<Rightarrow> byte list option \<Rightarrow> nat \<Rightarrow> nat \<Rightarrow> nat option option" where
  "member_search m mbs names memberName expectedType i 0 = Some None"
| "member_search m mbs names memberName expectedType i (Suc n) =
     (case member_at m mbs i of
        None \<Rightarrow> None
      | Some e \<Rightarrow>
          (case strcmp memberName (drop (names + unat (member_name e)) m) of
             None \<Rightarrow> None
           | Some r \<Rightarrow>
               if r = 0 then
                 (case expectedType of
                    None \<Rightarrow> Some (Some i)
                  | Some ty \<Rightarrow>
                      (case strcmp ty (drop (names + unat (member_datatype e)) m) of
                         None \<Rightarrow> None
                       | Some r \<Rightarrow> if r = 0 then Some (Some i) else member_search m mbs names memberName expectedType (i + 1) n))
               else member_search m mbs names memberName expectedType (i + 1) n))"

text \<open>The data type is its index; the result is the index of the member in the table of all members.\<close>

definition GetDatatypeMember ::
  "byte list option \<Rightarrow> nat option \<Rightarrow> byte list \<Rightarrow> byte list option \<Rightarrow> nat option option" where
  "GetDatatypeMember symbols datatype memberName expectedType =
     (case datatype of
        None \<Rightarrow> Some None
      | Some d \<Rightarrow>
          (case has_datatypes symbols of
             None \<Rightarrow> None
           | Some False \<Rightarrow> Some None
           | Some True \<Rightarrow>
               (let m = the symbols in
                case (hdr_datatypeMembers m, hdr_names m, hdr_datatypes m) of
                  (Some mbs, Some names, Some dts) \<Rightarrow>
                    (case type_at m (unat dts) d of
                       None \<Rightarrow> None
                     | Some t \<Rightarrow>
                         member_search m (unat mbs) (unat names) memberName expectedType
                           (unat (type_firstMember t)) (unat (type_numOfMembers t)))
                | _ \<Rightarrow> None)))"

definition GetNameFromOffset :: "byte list \<Rightarrow> u32 \<Rightarrow> nat option" where
  "GetNameFromOffset symbols offset = map_option (\<lambda>names. unat names + unat offset) (hdr_names symbols)"

subsection \<open>Symbol files\<close>

definition IsValid :: "byte list option \<Rightarrow> bool option" where
  "IsValid m_contents = (case m_contents of None \<Rightarrow> Some False | Some m \<Rightarrow> IsBcsValid (Some m))"

definition GetHeader :: "byte list option \<Rightarrow> byte list option option" where
  "GetHeader m_contents = map_option (\<lambda>v. if v then m_contents else None) (IsValid m_contents)"

end
