(* ===== verification/Bcs_File.thy ===== *)
theory Bcs_File
  imports Symbols
begin

text \<open>
  The writer of symbol files, \<open>pdb/cpp/bcs.cpp\<close>: names without duplicates, public symbols, data types
  and their members are collected and written with offsets from the start of the file. \<open>std::sort\<close> is
  a parameter, a function that puts a list into the order of a comparison, since it leaves the order
  of equal elements open; the file is the list of its bytes.
\<close>

section \<open>The model\<close>

record PublicSymbol =
  ps_name :: nat
  ps_address :: u32
  ps_length :: u32

record DataType =
  dt_name :: nat
  dt_kind :: nat
  dt_length :: u32
  dt_pdbIndex :: u32
  dt_firstMember :: u32
  dt_numOfMembers :: u32

record DataTypeMember =
  dm_name :: nat
  dm_datatype :: nat
  dm_offset :: u32
  dm_pdbDatatypeIndex :: u32

record bcs =
  Names :: "byte list list"
  PublicSymbols :: "PublicSymbol list"
  DataTypes :: "DataType list"
  DataTypeMembers :: "DataTypeMember list"
  Guid :: "byte list"
  Age :: u32

definition bcs_empty :: bcs where
  "bcs_empty = \<lparr>Names = [], PublicSymbols = [], DataTypes = [], DataTypeMembers = [], Guid = replicate 16 0, Age = 0\<rparr>"

definition BCS_SavePdbInfo :: "byte list \<Rightarrow> u32 \<Rightarrow> bcs \<Rightarrow> bcs" where
  "BCS_SavePdbInfo guid age b = b\<lparr>Guid := guid, Age := age\<rparr>"

fun find_name :: "byte list \<Rightarrow> byte list list \<Rightarrow> nat option" where
  "find_name name [] = None"
| "find_name name (n # ns) = (if n = name then Some 0 else map_option Suc (find_name name ns))"

definition AddName :: "byte list \<Rightarrow> bcs \<Rightarrow> nat \<times> bcs" where
  "AddName name b =
     (case find_name name (Names b) of
        Some i \<Rightarrow> (i, b)
      | None \<Rightarrow> (length (Names b), b\<lparr>Names := Names b @ [name]\<rparr>))"

definition BCS_AddPublicSymbol :: "byte list \<Rightarrow> u32 \<Rightarrow> u32 \<Rightarrow> bcs \<Rightarrow> bcs" where
  "BCS_AddPublicSymbol name address len b =
     (if length name = 0 then b
      else
        (case AddName name b of
           (i, b) \<Rightarrow> b\<lparr>PublicSymbols := PublicSymbols b @ [\<lparr>ps_name = i, ps_address = address, ps_length = len\<rparr>]\<rparr>))"

definition BCS_AddDataType :: "byte list \<Rightarrow> byte list \<Rightarrow> u32 \<Rightarrow> u32 \<Rightarrow> bcs \<Rightarrow> bool \<times> bcs" where
  "BCS_AddDataType name kind len index b =
     (if length name = 0 \<or> length kind = 0 then (False, b)
      else
        (case AddName name b of
           (i, b) \<Rightarrow>
             (case AddName kind b of
                (k, b) \<Rightarrow>
                  (True, b\<lparr>DataTypes := DataTypes b @
                     [\<lparr>dt_name = i, dt_kind = k, dt_length = len, dt_pdbIndex = index,
                       dt_firstMember = word_of_nat (length (DataTypeMembers b)), dt_numOfMembers = 0\<rparr>]\<rparr>))))"

text \<open>A member without a data type before it is \<open>None\<close>: \<open>DataTypes.back()\<close> of an empty vector.\<close>

definition BCS_AddDataTypeMember :: "byte list \<Rightarrow> byte list \<Rightarrow> u32 \<Rightarrow> u32 \<Rightarrow> bcs \<Rightarrow> bcs option" where
  "BCS_AddDataTypeMember name datatype offset index b =
     (if length name = 0 \<or> length datatype = 0 then Some b
      else
        (case AddName name b of
           (i, b) \<Rightarrow>
             (case AddName datatype b of
                (d, b) \<Rightarrow>
                  if DataTypes b = [] then None
                  else
                    (let t = last (DataTypes b) in
                     Some (b\<lparr>DataTypeMembers := DataTypeMembers b @
                               [\<lparr>dm_name = i, dm_datatype = d, dm_offset = offset, dm_pdbDatatypeIndex = index\<rparr>],
                             DataTypes := butlast (DataTypes b) @ [t\<lparr>dt_numOfMembers := dt_numOfMembers t + 1\<rparr>]\<rparr>)))))"

text \<open>\<open>std::string::operator<\<close>: lexicographic, by unsigned characters.\<close>

fun string_less :: "byte list \<Rightarrow> byte list \<Rightarrow> bool" where
  "string_less s [] = False"
| "string_less [] (b # t) = True"
| "string_less (a # s) (b # t) = (a < b \<or> a = b \<and> string_less s t)"

text \<open>The buffer of names and the position of every name in it.\<close>

fun name_positions :: "nat \<Rightarrow> byte list list \<Rightarrow> u32 list" where
  "name_positions n [] = []"
| "name_positions n (s # ss) = word_of_nat n # name_positions (n + length s + 1) ss"

definition names_buffer :: "byte list list \<Rightarrow> byte list" where
  "names_buffer ns = concat (map (\<lambda>s. s @ [0]) ns)"

definition words_bytes :: "u32 list \<Rightarrow> byte list" where
  "words_bytes ws = concat (map (\<lambda>w. le_bytes 4 (unat w)) ws)"

definition symbol_words :: "u32 list \<Rightarrow> PublicSymbol \<Rightarrow> u32 list" where
  "symbol_words pos s = [pos ! ps_name s, ps_address s, ps_length s]"

definition datatype_words :: "u32 list \<Rightarrow> DataType \<Rightarrow> u32 list" where
  "datatype_words pos t =
     [pos ! dt_name t, pos ! dt_kind t, dt_length t, dt_pdbIndex t, dt_firstMember t, dt_numOfMembers t]"

definition member_words :: "u32 list \<Rightarrow> DataTypeMember \<Rightarrow> u32 list" where
  "member_words pos m = [pos ! dm_name m, pos ! dm_datatype m, dm_offset m, dm_pdbDatatypeIndex m]"

definition header_tail :: "bcs \<Rightarrow> u32 list" where
  "header_tail b =
     (let publicSymbols = 60;
          publicSymbolsSize = word_of_nat (12 * length (PublicSymbols b));
          datatypes = publicSymbols + publicSymbolsSize;
          datatypesSize = word_of_nat (24 * length (DataTypes b));
          datatypeMembers = datatypes + datatypesSize;
          datatypeMembersSize = word_of_nat (16 * length (DataTypeMembers b));
          names = datatypeMembers + datatypeMembersSize
      in [Age b, publicSymbols, publicSymbolsSize, datatypes, datatypesSize, datatypeMembers, datatypeMembersSize, names,
          word_of_nat (length (names_buffer (Names b)))])"

type_synonym sorter = "(nat \<Rightarrow> nat \<Rightarrow> bool) \<Rightarrow> nat list \<Rightarrow> nat list"

text \<open>
  The sorter works on the positions of the elements, so that it is one function for both vectors:
  \<open>lt i j\<close> compares the elements at positions \<open>i\<close> and \<open>j\<close>.
\<close>

definition std_sort :: "sorter \<Rightarrow> ('a \<Rightarrow> 'a \<Rightarrow> bool) \<Rightarrow> 'a list \<Rightarrow> 'a list" where
  "std_sort srt lt xs = map ((!) xs) (srt (\<lambda>i j. lt (xs ! i) (xs ! j)) [0..<length xs])"

definition BCS_sorted :: "sorter \<Rightarrow> bcs \<Rightarrow> bcs" where
  "BCS_sorted srt b =
     b\<lparr>PublicSymbols := std_sort srt (\<lambda>ls rs. ps_address ls < ps_address rs) (PublicSymbols b),
       DataTypes := std_sort srt (\<lambda>ls rs. string_less (Names b ! dt_name ls) (Names b ! dt_name rs)) (DataTypes b)\<rparr>"

definition file_bytes :: "bcs \<Rightarrow> byte list" where
  "file_bytes b =
     (let pos = name_positions 0 (Names b) in
      words_bytes [BCSFILE_HEADER_SIGNATURE, BCSFILE_HEADER_VERSION] @ Guid b @ words_bytes (header_tail b) @
      words_bytes (concat (map (symbol_words pos) (PublicSymbols b))) @
      words_bytes (concat (map (datatype_words pos) (DataTypes b))) @
      words_bytes (concat (map (member_words pos) (DataTypeMembers b))) @
      names_buffer (Names b))"

text \<open>\<open>fp\<close> says whether \<open>fopen\<close> opens the file: when it does not, only the sorting is done.\<close>

definition BCS_WriteFile :: "sorter \<Rightarrow> bool \<Rightarrow> bcs \<Rightarrow> bcs \<times> byte list option" where
  "BCS_WriteFile srt fp b = (let b = BCS_sorted srt b in (b, if fp then Some (file_bytes b) else None))"

end
