(* ===== verification/Symbols_Correct.thy ===== *)
theory Symbols_Correct
  imports Bcs_File "HOL-Library.Multiset" "HOL-Library.List_Lexorder"
begin

text \<open>
  Symbol files written by the converter and read by the debugger: the tables and names are found at the
  offsets of the header, the binary searches are complete on the sorted tables, and the queries answer
  from the symbols, types and members that were added.
\<close>

section \<open>Words and names in the file\<close>

lemma length_words_bytes [simp]: "length (words_bytes ws) = 4 * length ws"
  by (induction ws) (auto simp: words_bytes_def)

lemma words_bytes_append: "words_bytes (xs @ ys) = words_bytes xs @ words_bytes ys"
  by (simp add: words_bytes_def)

lemma get_u32_bytes: "get_u32 (xs @ le_bytes 4 (unat w) @ ys) (length xs) = Some w"
  using unat_less_length [of w] by (simp add: get_u32_def read_block_def le_value_le_bytes)

lemma get_words:
  assumes "i < length ws"
  shows "get_u32 (xs @ words_bytes ws @ ys) (length xs + 4 * i) = Some (ws ! i)"
proof -
  have "ws = take i ws @ ws ! i # drop (Suc i) ws" using assms by (rule id_take_nth_drop)
  then have "words_bytes ws = words_bytes (take i ws) @ le_bytes 4 (unat (ws ! i)) @ words_bytes (drop (Suc i) ws)"
    by (metis append_Cons append_Nil words_bytes_append words_bytes_def concat.simps list.map append_Nil2)
  then show ?thesis
    using get_u32_bytes [of "xs @ words_bytes (take i ws)" "ws ! i" "words_bytes (drop (Suc i) ws) @ ys"] assms
    by (simp add: min_def)
qed

lemma length_concat_const:
  "(\<And>x. length (f x) = k) \<Longrightarrow> length (concat (map f xs)) = k * length xs"
  by (induction xs) auto

lemma nth_concat_const:
  assumes "\<And>x. length (f x) = k" "i < length xs" "j < k"
  shows "concat (map f xs) ! (k * i + j) = f (xs ! i) ! j"
  using assms(2)
proof (induction xs arbitrary: i)
  case (Cons x xs)
  then show ?case using assms(1,3) by (cases i) (auto simp: nth_append algebra_simps)
qed simp

lemma names_split:
  assumes "i < length ns"
  shows "\<exists>u v. names_buffer ns = u @ ns ! i @ 0 # v \<and> name_positions n ns ! i = word_of_nat (n + length u)"
  using assms
proof (induction ns arbitrary: n i)
  case (Cons s ns)
  show ?case
  proof (cases i)
    case 0
    then show ?thesis by (intro exI [of _ "[]"] exI [of _ "names_buffer ns"]) (simp add: names_buffer_def)
  next
    case (Suc j)
    with Cons.prems have "j < length ns" by simp
    from Cons.IH [OF this, of "n + length s + 1"] obtain u v where
      "names_buffer ns = u @ ns ! j @ 0 # v" "name_positions (n + length s + 1) ns ! j = word_of_nat (n + length s + 1 + length u)"
      by blast
    with Suc have "names_buffer (s # ns) = (s @ 0 # u) @ (s # ns) ! i @ 0 # v \<and>
        name_positions n (s # ns) ! i = word_of_nat (n + length (s @ 0 # u))"
      by (simp add: names_buffer_def add.commute add.left_commute)
    then show ?thesis by blast
  qed
qed simp

lemma strcmp_strings:
  assumes "0 \<notin> set x" "0 \<notin> set y"
  shows "strcmp (x @ 0 # u) (y @ 0 # v) = Some (if x = y then 0 else if string_less x y then -1 else 1)"
  using assms
proof (induction x y rule: string_less.induct)
  case (1 s)
  then show ?case by (cases s) (auto simp: word_neq_0_conv)
next
  case (2 b t)
  then show ?case by (auto simp: word_neq_0_conv)
qed auto

lemma strcmp_cstr:
  "cstr p x \<Longrightarrow> cstr q y \<Longrightarrow> strcmp p q = Some (if x = y then 0 else if string_less x y then -1 else 1)"
  by (auto simp: cstr_def strcmp_strings)

section \<open>Binary search\<close>

lemma BinarySearch_correct:
  assumes "\<And>i. i < n \<Longrightarrow> pred i = Some (c i)"
    and below: "\<And>i j. i < j \<Longrightarrow> j < n \<Longrightarrow> c i < 0 \<Longrightarrow> c j < 0"
    and above: "\<And>i j. i < j \<Longrightarrow> j < n \<Longrightarrow> c j > 0 \<Longrightarrow> c i > 0"
    and "0 \<le> s" "e < int n"
  shows "\<exists>r. BinarySearch pred s e = Some r \<and>
    (case r of Some i \<Rightarrow> i < n \<and> c i = 0 | None \<Rightarrow> \<forall>i. s \<le> int i \<and> int i \<le> e \<longrightarrow> c i \<noteq> 0)"
  using assms(1,4,5)
proof (induction pred s e rule: BinarySearch.induct)
  case (1 pred s e)
  show ?case
  proof (cases "s \<le> e")
    case False
    then show ?thesis by (simp add: BinarySearch.simps [of pred s e])
  next
    case True
    define mid where "mid = s + (e - s) div 2"
    have mid: "s \<le> mid" "mid \<le> e" "0 \<le> mid" "nat mid < n" using True 1(4,5) by (auto simp: mid_def)
    then have p: "pred (nat mid) = Some (c (nat mid))" using 1(3) by blast
    consider "c (nat mid) = 0" | "c (nat mid) > 0" | "c (nat mid) < 0" by linarith
    then show ?thesis
    proof cases
      case 1
      then show ?thesis using p mid True by (simp add: BinarySearch.simps [of pred s e] Let_def flip: mid_def)
    next
      case 2
      then have eq: "BinarySearch pred s e = BinarySearch pred (mid + 1) e"
        using p True by (simp add: BinarySearch.simps [of pred s e] Let_def flip: mid_def)
      have "c i \<noteq> 0" if "int i \<le> mid" for i
      proof -
        have "i = nat mid \<or> i < nat mid" using that by linarith
        then show ?thesis using above [of i "nat mid"] 2 mid(4) by fastforce
      qed
      moreover obtain r where "BinarySearch pred (mid + 1) e = Some r"
        "case r of Some i \<Rightarrow> i < n \<and> c i = 0 | None \<Rightarrow> \<forall>i. mid + 1 \<le> int i \<and> int i \<le> e \<longrightarrow> c i \<noteq> 0"
        using "1.IH"(1) [OF True mid_def p] 2 mid "1.prems" by auto
      ultimately show ?thesis unfolding eq by (cases r) (auto, metis add1_zle_eq not_le)
    next
      case 3
      then have eq: "BinarySearch pred s e = BinarySearch pred s (mid - 1)"
        using p True by (simp add: BinarySearch.simps [of pred s e] Let_def flip: mid_def)
      have "c i \<noteq> 0" if "mid \<le> int i" "int i \<le> e" for i
      proof -
        have "i < n" "i = nat mid \<or> nat mid < i" using that "1.prems" by linarith+
        then show ?thesis using below [of "nat mid" i] 3 by fastforce
      qed
      moreover obtain r where "BinarySearch pred s (mid - 1) = Some r"
        "case r of Some i \<Rightarrow> i < n \<and> c i = 0 | None \<Rightarrow> \<forall>i. s \<le> int i \<and> int i \<le> mid - 1 \<longrightarrow> c i \<noteq> 0"
        using "1.IH"(2) [OF True mid_def p] 3 mid "1.prems" by auto
      ultimately show ?thesis unfolding eq by (cases r) (auto, metis zle_diff1_eq not_le)
    qed
  qed
qed

section \<open>What was added\<close>

text \<open>The operations of a session of the converter and the symbols they describe.\<close>

datatype bcs_op =
    PdbInfo "byte list" u32
  | AddPublic "byte list" u32 u32
  | AddType "byte list" "byte list" u32 u32
  | AddMember "byte list" "byte list" u32 u32

fun bcs_step :: "bcs_op \<Rightarrow> bcs \<Rightarrow> bcs option" where
  "bcs_step (PdbInfo guid age) b = Some (BCS_SavePdbInfo guid age b)"
| "bcs_step (AddPublic name address len) b = Some (BCS_AddPublicSymbol name address len b)"
| "bcs_step (AddType name kind len index) b = Some (snd (BCS_AddDataType name kind len index b))"
| "bcs_step (AddMember name dt offset index) b = BCS_AddDataTypeMember name dt offset index b"

fun bcs_run :: "bcs_op list \<Rightarrow> bcs \<Rightarrow> bcs option" where
  "bcs_run [] b = Some b"
| "bcs_run (x # xs) b = (case bcs_step x b of None \<Rightarrow> None | Some b \<Rightarrow> bcs_run xs b)"

fun strings_ok :: "bcs_op \<Rightarrow> bool" where
  "strings_ok (PdbInfo guid age) = (length guid = 16)"
| "strings_ok (AddPublic name address len) = (0 \<notin> set name)"
| "strings_ok (AddType name kind len index) = (0 \<notin> set name \<and> 0 \<notin> set kind)"
| "strings_ok (AddMember name dt offset index) = (0 \<notin> set name \<and> 0 \<notin> set dt)"

type_synonym member_desc = "byte list \<times> byte list \<times> u32 \<times> u32"
type_synonym type_desc = "byte list \<times> byte list \<times> u32 \<times> u32 \<times> member_desc list"

fun publics_of :: "bcs_op list \<Rightarrow> (byte list \<times> u32 \<times> u32) list" where
  "publics_of [] = []"
| "publics_of (AddPublic name address len # xs) =
     (if name = [] then publics_of xs else (name, address, len) # publics_of xs)"
| "publics_of (x # xs) = publics_of xs"

fun add_member :: "member_desc \<Rightarrow> type_desc list \<Rightarrow> type_desc list" where
  "add_member x [] = []"
| "add_member x [(n, k, l, i, ms)] = [(n, k, l, i, ms @ [x])]"
| "add_member x (t # ts) = t # add_member x ts"

fun types_step :: "bcs_op \<Rightarrow> type_desc list \<Rightarrow> type_desc list" where
  "types_step (AddType name kind len index) ts =
     (if name = [] \<or> kind = [] then ts else ts @ [(name, kind, len, index, [])])"
| "types_step (AddMember name dt offset index) ts =
     (if name = [] \<or> dt = [] then ts else add_member (name, dt, offset, index) ts)"
| "types_step x ts = ts"

definition types_of :: "bcs_op list \<Rightarrow> type_desc list" where
  "types_of xs = fold types_step xs []"

subsection \<open>The collected tables\<close>

definition public_desc :: "byte list list \<Rightarrow> PublicSymbol \<Rightarrow> byte list \<times> u32 \<times> u32" where
  "public_desc ns s = (ns ! ps_name s, ps_address s, ps_length s)"

definition member_desc :: "byte list list \<Rightarrow> DataTypeMember \<Rightarrow> member_desc" where
  "member_desc ns d = (ns ! dm_name d, ns ! dm_datatype d, dm_offset d, dm_pdbDatatypeIndex d)"

definition type_desc :: "byte list list \<Rightarrow> DataTypeMember list \<Rightarrow> DataType \<Rightarrow> type_desc" where
  "type_desc ns ds t =
     (ns ! dt_name t, ns ! dt_kind t, dt_length t, dt_pdbIndex t,
      map (member_desc ns) (take (unat (dt_numOfMembers t)) (drop (unat (dt_firstMember t)) ds)))"

definition publics :: "bcs \<Rightarrow> (byte list \<times> u32 \<times> u32) list" where
  "publics b = map (public_desc (Names b)) (PublicSymbols b)"

definition types :: "bcs \<Rightarrow> type_desc list" where
  "types b = map (type_desc (Names b) (DataTypeMembers b)) (DataTypes b)"

definition indices_ok :: "bcs \<Rightarrow> bool" where
  "indices_ok b \<longleftrightarrow>
     (\<forall>n \<in> set (Names b). 0 \<notin> set n) \<and> length (Guid b) = 16 \<and>
     (\<forall>s \<in> set (PublicSymbols b). ps_name s < length (Names b)) \<and>
     (\<forall>t \<in> set (DataTypes b). dt_name t < length (Names b) \<and> dt_kind t < length (Names b)) \<and>
     (\<forall>d \<in> set (DataTypeMembers b). dm_name d < length (Names b) \<and> dm_datatype d < length (Names b))"

text \<open>The members of the types lie one after the other.\<close>

fun laid_out :: "nat \<Rightarrow> DataType list \<Rightarrow> nat \<Rightarrow> bool" where
  "laid_out k [] n \<longleftrightarrow> k = n"
| "laid_out k (t # ts) n \<longleftrightarrow> unat (dt_firstMember t) = k \<and> laid_out (k + unat (dt_numOfMembers t)) ts n"

definition bcs_inv :: "bcs \<Rightarrow> bool" where
  "bcs_inv b \<longleftrightarrow> indices_ok b \<and> laid_out 0 (DataTypes b) (length (DataTypeMembers b))"

lemma find_name_Some: "find_name n ns = Some i \<Longrightarrow> i < length ns \<and> ns ! i = n"
  by (induction ns arbitrary: i) (auto split: if_splits)

lemma AddName_spec:
  "AddName n b = (i, b') \<Longrightarrow>
     \<exists>ms. b' = b\<lparr>Names := Names b @ ms\<rparr> \<and> i < length (Names b @ ms) \<and> (Names b @ ms) ! i = n \<and> set ms \<subseteq> {n}"
proof (cases "find_name n (Names b)")
  case None
  then show "AddName n b = (i, b') \<Longrightarrow> ?thesis" by (auto simp: AddName_def intro!: exI [of _ "[n]"])
next
  case (Some j)
  then show "AddName n b = (i, b') \<Longrightarrow> ?thesis"
    using find_name_Some [OF Some] by (auto simp: AddName_def intro!: exI [of _ "[]"])
qed

lemma more_names:
  assumes "indices_ok b" "\<forall>n \<in> set ms. 0 \<notin> set n"
  shows "indices_ok (b\<lparr>Names := Names b @ ms\<rparr>) \<and> publics (b\<lparr>Names := Names b @ ms\<rparr>) = publics b \<and>
    types (b\<lparr>Names := Names b @ ms\<rparr>) = types b"
proof -
  have "map (member_desc (Names b @ ms)) (take k (drop j (DataTypeMembers b))) =
      map (member_desc (Names b)) (take k (drop j (DataTypeMembers b)))" for k j
    using assms(1) by (auto simp: indices_ok_def member_desc_def nth_append dest!: in_set_takeD in_set_dropD)
  then show ?thesis
    using assms by (auto simp: indices_ok_def publics_def types_def public_desc_def type_desc_def nth_append)
qed

lemma AddName_inv:
  assumes "AddName n b = (i, b')" "bcs_inv b" "0 \<notin> set n"
  shows "bcs_inv b' \<and> publics b' = publics b \<and> types b' = types b \<and> i < length (Names b') \<and> Names b' ! i = n \<and>
    (\<exists>ms. b' = b\<lparr>Names := Names b @ ms\<rparr>)"
proof -
  obtain ms where "b' = b\<lparr>Names := Names b @ ms\<rparr>" "i < length (Names b @ ms)" "(Names b @ ms) ! i = n" "set ms \<subseteq> {n}"
    using AddName_spec [OF assms(1)] by blast
  moreover have "\<forall>n \<in> set ms. 0 \<notin> set n" using assms(3) calculation(4) by auto
  ultimately show ?thesis using more_names [of b ms] assms(2) by (auto simp: bcs_inv_def)
qed


lemma laid_out_append: "laid_out k (ts @ us) n \<longleftrightarrow> (\<exists>j. laid_out k ts j \<and> laid_out j us n)"
  by (induction ts arbitrary: k) auto

lemma laid_out_bounds:
  "laid_out k ts n \<Longrightarrow> k \<le> n \<and> (\<forall>t \<in> set ts. unat (dt_firstMember t) + unat (dt_numOfMembers t) \<le> n)"
  by (induction ts arbitrary: k) fastforce+

lemma add_member_snoc: "add_member x (ts @ [(n, k, l, i, ms)]) = ts @ [(n, k, l, i, ms @ [x])]"
  by (induction x ts rule: add_member.induct) auto

lemma type_desc_more:
  "unat (dt_firstMember t) + unat (dt_numOfMembers t) \<le> length ds \<Longrightarrow> type_desc ns (ds @ [d]) t = type_desc ns ds t"
  by (simp add: type_desc_def)

lemma AddPublicSymbol_inv:
  fixes address len :: u32
  assumes "bcs_inv b" "0 \<notin> set name"
  defines "b' \<equiv> BCS_AddPublicSymbol name address len b"
  shows "bcs_inv b' \<and> publics b' = publics b @ (if name = [] then [] else [(name, address, len)]) \<and> types b' = types b"
proof -
  obtain i c where c: "AddName name b = (i, c)" by fastforce
  show ?thesis
    using AddName_inv [OF c assms(1,2)] c assms(1)
    by (auto simp: b'_def BCS_AddPublicSymbol_def bcs_inv_def indices_ok_def publics_def types_def public_desc_def)
qed

lemma AddDataType_inv:
  fixes len index :: u32
  assumes "bcs_inv b" "0 \<notin> set name" "0 \<notin> set kind" "length (DataTypeMembers b) < 2 ^ 32"
  defines "b' \<equiv> snd (BCS_AddDataType name kind len index b)"
  shows "bcs_inv b' \<and> publics b' = publics b \<and> types b' = types_step (AddType name kind len index) (types b)"
proof (cases "name = [] \<or> kind = []")
  case True
  then show ?thesis using assms(1) by (auto simp: b'_def BCS_AddDataType_def)
next
  case False
  obtain i c where c: "AddName name b = (i, c)" by fastforce
  note inv_c = AddName_inv [OF c assms(1,2)]
  obtain k d where d: "AddName kind c = (k, d)" by fastforce
  have inv_d: "bcs_inv d" "publics d = publics c" "types d = types c" "k < length (Names d)" "Names d ! k = kind"
    "\<exists>ms. d = c\<lparr>Names := Names c @ ms\<rparr>"
    using AddName_inv [OF d _ assms(3)] inv_c by blast+
  then have "Names d ! i = name" "i < length (Names d)" "DataTypeMembers d = DataTypeMembers b"
    using inv_c by (auto simp: nth_append)
  moreover have "unat (word_of_nat (length (DataTypeMembers b)) :: u32) = length (DataTypeMembers b)"
    using assms(4) by (simp add: unat_of_nat)
  ultimately show ?thesis
    using False inv_c inv_d c d
    by (auto simp: b'_def BCS_AddDataType_def bcs_inv_def indices_ok_def publics_def types_def type_desc_def laid_out_append)
qed

lemma AddDataTypeMember_inv:
  assumes "BCS_AddDataTypeMember name dt offset index b = Some b'" "bcs_inv b" "0 \<notin> set name" "0 \<notin> set dt"
    "length (DataTypeMembers b') < 2 ^ 32"
  shows "bcs_inv b' \<and> publics b' = publics b \<and> types b' = types_step (AddMember name dt offset index) (types b)"
proof (cases "name = [] \<or> dt = []")
  case True
  then show ?thesis using assms(1,2) by (auto simp: BCS_AddDataTypeMember_def)
next
  case False
  obtain i c where c: "AddName name b = (i, c)" by fastforce
  note inv_c = AddName_inv [OF c assms(2,3)]
  obtain k d where d: "AddName dt c = (k, d)" by fastforce
  have inv_d: "bcs_inv d" "publics d = publics c" "types d = types c" "k < length (Names d)" "Names d ! k = dt"
    "\<exists>ms. d = c\<lparr>Names := Names c @ ms\<rparr>"
    using AddName_inv [OF d _ assms(4)] inv_c by blast+
  then have i: "Names d ! i = name" "i < length (Names d)"
    using inv_c by (auto simp: nth_append)
  obtain ts t where ts: "DataTypes d = ts @ [t]"
    using assms(1) False c d by (cases "DataTypes d" rule: rev_cases) (auto simp: BCS_AddDataTypeMember_def)
  define e where "e = \<lparr>dm_name = i, dm_datatype = k, dm_offset = offset, dm_pdbDatatypeIndex = index\<rparr>"
  define t' where "t' = t\<lparr>dt_numOfMembers := dt_numOfMembers t + 1\<rparr>"
  have b': "b' = d\<lparr>DataTypeMembers := DataTypeMembers d @ [e], DataTypes := ts @ [t']\<rparr>"
    using assms(1) False c d ts by (auto simp: BCS_AddDataTypeMember_def e_def t'_def)
  obtain j where j: "laid_out 0 ts j" "unat (dt_firstMember t) = j" "j + unat (dt_numOfMembers t) = length (DataTypeMembers d)"
    using inv_d(1) ts by (auto simp: bcs_inv_def laid_out_append)
  then have n: "unat (dt_numOfMembers t + 1) = unat (dt_numOfMembers t) + 1"
    using assms(5) b' by (subst unat_plus_simple [THEN iffD1]) (auto simp: no_olen_add_nat)
  have "map (type_desc (Names d) (DataTypeMembers d @ [e])) ts = map (type_desc (Names d) (DataTypeMembers d)) ts"
    using laid_out_bounds [OF j(1)] j(3) by (auto intro!: type_desc_more)
  moreover have "type_desc (Names d) (DataTypeMembers d @ [e]) t' =
      (Names d ! dt_name t, Names d ! dt_kind t, dt_length t, dt_pdbIndex t,
       map (member_desc (Names d)) (take (unat (dt_numOfMembers t)) (drop j (DataTypeMembers d))) @ [(name, dt, offset, index)])"
    using j n i inv_d by (simp add: type_desc_def t'_def e_def member_desc_def)
  ultimately have "types b' = types_step (AddMember name dt offset index) (types d)"
    using False j(2) b' ts by (simp add: types_def add_member_snoc) (simp add: type_desc_def add_member_snoc)
  moreover have "bcs_inv b'"
    using inv_d(1,4) i j n b' ts by (auto simp: bcs_inv_def indices_ok_def laid_out_append t'_def e_def)
  ultimately show ?thesis using b' inv_c inv_d by (auto simp: publics_def)
qed

lemma members_grow: "bcs_step x b = Some b' \<Longrightarrow> length (DataTypeMembers b) \<le> length (DataTypeMembers b')"
proof -
  have AddName: "AddName n b = (i, b') \<Longrightarrow> DataTypeMembers b' = DataTypeMembers b" for n b i b'
    using AddName_spec [of n b i b'] by auto
  show "bcs_step x b = Some b' \<Longrightarrow> ?thesis"
    by (cases x) (auto simp: BCS_SavePdbInfo_def BCS_AddPublicSymbol_def BCS_AddDataType_def BCS_AddDataTypeMember_def Let_def
        dest!: AddName split: prod.splits if_splits)
qed

lemma run_members_grow: "bcs_run xs b = Some b' \<Longrightarrow> length (DataTypeMembers b) \<le> length (DataTypeMembers b')"
proof (induction xs arbitrary: b)
  case (Cons x xs)
  then obtain c where c: "bcs_step x b = Some c" "bcs_run xs c = Some b'" by (auto split: option.splits)
  then show ?case using Cons.IH [OF c(2)] members_grow [OF c(1)] by simp
qed simp

lemma step_inv:
  assumes "bcs_step x b = Some b'" "bcs_inv b" "strings_ok x" "length (DataTypeMembers b') < 2 ^ 32"
  shows "bcs_inv b' \<and> publics b' = publics b @ publics_of [x] \<and> types b' = types_step x (types b)"
proof (cases x)
  case (PdbInfo g a)
  then show ?thesis using assms by (auto simp: BCS_SavePdbInfo_def bcs_inv_def indices_ok_def publics_def types_def)
next
  case (AddPublic n a l)
  then show ?thesis using assms AddPublicSymbol_inv [of b n a l] by auto
next
  case (AddType n k l i)
  then show ?thesis using assms AddDataType_inv [of b n k l i] members_grow [OF assms(1)] by auto
next
  case (AddMember n d off i)
  then show ?thesis using assms AddDataTypeMember_inv [of n d off i b b'] by auto
qed

lemma publics_of_Cons: "publics_of (x # xs) = publics_of [x] @ publics_of xs"
  by (cases x) auto

lemma run_inv:
  assumes "bcs_run xs b = Some b'" "bcs_inv b" "list_all strings_ok xs" "length (DataTypeMembers b') < 2 ^ 32"
  shows "bcs_inv b' \<and> publics b' = publics b @ publics_of xs \<and> types b' = fold types_step xs (types b)"
  using assms
proof (induction xs arbitrary: b)
  case (Cons x xs)
  then obtain c where c: "bcs_step x b = Some c" "bcs_run xs c = Some b'" by (auto split: option.splits)
  then have "length (DataTypeMembers c) < 2 ^ 32" using run_members_grow [OF c(2)] Cons.prems(4) by simp
  with step_inv [OF c(1)] Cons.IH [OF c(2)] Cons.prems show ?case
    using publics_of_Cons [of x xs] by auto
qed simp

lemma run_empty:
  assumes "bcs_run xs bcs_empty = Some b" "list_all strings_ok xs" "length (DataTypeMembers b) < 2 ^ 32"
  shows "bcs_inv b \<and> publics b = publics_of xs \<and> types b = types_of xs"
  using run_inv [OF assms(1) _ assms(2,3)]
  by (simp add: bcs_empty_def bcs_inv_def indices_ok_def publics_def types_def types_of_def)

section \<open>Sorting\<close>

text \<open>What \<open>std::sort\<close> promises: for a strict weak order, an ordered permutation.\<close>

definition strict_weak :: "(nat \<Rightarrow> nat \<Rightarrow> bool) \<Rightarrow> nat set \<Rightarrow> bool" where
  "strict_weak lt A \<longleftrightarrow>
     (\<forall>x \<in> A. \<not> lt x x) \<and>
     (\<forall>x \<in> A. \<forall>y \<in> A. \<forall>z \<in> A. lt x y \<longrightarrow> lt y z \<longrightarrow> lt x z) \<and>
     (\<forall>x \<in> A. \<forall>y \<in> A. \<forall>z \<in> A. \<not> lt x y \<longrightarrow> \<not> lt y z \<longrightarrow> \<not> lt x z)"

definition sorts :: "sorter \<Rightarrow> bool" where
  "sorts srt \<longleftrightarrow>
     (\<forall>lt xs. strict_weak lt (set xs) \<longrightarrow> mset (srt lt xs) = mset xs \<and> sorted_wrt (\<lambda>i j. \<not> lt j i) (srt lt xs))"

lemma std_sort_key:
  fixes key :: "'a \<Rightarrow> 'k::linorder"
  assumes "sorts srt"
  shows "mset (std_sort srt (\<lambda>x y. key x < key y) xs) = mset xs \<and> sorted (map key (std_sort srt (\<lambda>x y. key x < key y) xs))"
proof -
  let ?p = "srt (\<lambda>i j. key (xs ! i) < key (xs ! j)) [0..<length xs]"
  have "strict_weak (\<lambda>i j. key (xs ! i) < key (xs ! j)) (set [0..<length xs])"
    by (auto simp: strict_weak_def)
  with assms have p: "mset ?p = mset [0..<length xs]" "sorted_wrt (\<lambda>i j. \<not> key (xs ! j) < key (xs ! i)) ?p"
    by (auto simp: sorts_def)
  then have "mset (map ((!) xs) ?p) = mset (map ((!) xs) [0..<length xs])" by (metis mset_map)
  with p(2) show ?thesis by (simp add: std_sort_def map_nth sorted_wrt_map not_less)
qed

lemma string_less_lexorder: "string_less s t = (s < t)"
  by (induction s t rule: string_less.induct) auto

lemma sorted_tables:
  assumes "sorts srt"
  shows "mset (PublicSymbols (BCS_sorted srt b)) = mset (PublicSymbols b)"
    "sorted (map ps_address (PublicSymbols (BCS_sorted srt b)))"
    "mset (DataTypes (BCS_sorted srt b)) = mset (DataTypes b)"
    "sorted (map (\<lambda>t. Names b ! dt_name t) (DataTypes (BCS_sorted srt b)))"
    "Names (BCS_sorted srt b) = Names b" "DataTypeMembers (BCS_sorted srt b) = DataTypeMembers b"
    "Guid (BCS_sorted srt b) = Guid b"
  using std_sort_key [OF assms, of ps_address "PublicSymbols b"]
    std_sort_key [OF assms, of "\<lambda>t. Names b ! dt_name t" "DataTypes b"]
  by (auto simp: BCS_sorted_def string_less_lexorder)

section \<open>Reading the file\<close>

definition readable :: "bcs \<Rightarrow> bool" where
  "readable b \<longleftrightarrow> indices_ok b \<and> length (file_bytes b) < 2 ^ 32"

lemma length_file_bytes:
  assumes "indices_ok b"
  shows "length (file_bytes b) =
    60 + 12 * length (PublicSymbols b) + 24 * length (DataTypes b) + 16 * length (DataTypeMembers b) + length (names_buffer (Names b))"
  using assms
  by (simp add: file_bytes_def Let_def header_tail_def indices_ok_def
      length_concat_const [of "symbol_words pos" 3 for pos] length_concat_const [of "datatype_words pos" 6 for pos]
      length_concat_const [of "member_words pos" 4 for pos] symbol_words_def datatype_words_def member_words_def)

lemma sorted_readable:
  assumes "sorts srt" "indices_ok b" "length (file_bytes (BCS_sorted srt b)) < 2 ^ 32"
  shows "readable (BCS_sorted srt b)"
  using assms(2,3) sorted_tables(1,3,5,6,7) [OF assms(1), of b]
  by (auto simp: readable_def indices_ok_def dest: mset_eq_setD)

definition pubs_off :: nat where "pubs_off = 60"
definition types_off :: "bcs \<Rightarrow> nat" where "types_off b = 60 + 12 * length (PublicSymbols b)"
definition members_off :: "bcs \<Rightarrow> nat" where "members_off b = types_off b + 24 * length (DataTypes b)"
definition names_off :: "bcs \<Rightarrow> nat" where "names_off b = members_off b + 16 * length (DataTypeMembers b)"

lemmas offsets = pubs_off_def types_off_def members_off_def names_off_def

text \<open>The layout, as the block before a table, the table and the rest.\<close>

definition name_pos :: "bcs \<Rightarrow> nat \<Rightarrow> u32" where
  "name_pos b i = name_positions 0 (Names b) ! i"

lemma file_parts:
  assumes "indices_ok b"
  shows "\<exists>xs ys. file_bytes b = words_bytes [BCSFILE_HEADER_SIGNATURE, BCSFILE_HEADER_VERSION] @ xs @ ys \<and> length xs = 16"
    "\<exists>xs ys. file_bytes b = xs @ words_bytes (header_tail b) @ ys \<and> length xs = 24"
    "\<exists>xs ys. file_bytes b = xs @ words_bytes (concat (map (symbol_words (name_positions 0 (Names b))) (PublicSymbols b))) @ ys \<and>
       length xs = pubs_off"
    "\<exists>xs ys. file_bytes b = xs @ words_bytes (concat (map (datatype_words (name_positions 0 (Names b))) (DataTypes b))) @ ys \<and>
       length xs = types_off b"
    "\<exists>xs ys. file_bytes b = xs @ words_bytes (concat (map (member_words (name_positions 0 (Names b))) (DataTypeMembers b))) @ ys \<and>
       length xs = members_off b"
    "\<exists>xs. file_bytes b = xs @ names_buffer (Names b) \<and> length xs = names_off b"
proof -
  let ?pos = "name_positions 0 (Names b)"
  let ?h = "words_bytes [BCSFILE_HEADER_SIGNATURE, BCSFILE_HEADER_VERSION]"
  let ?t = "words_bytes (header_tail b)"
  let ?p = "words_bytes (concat (map (symbol_words ?pos) (PublicSymbols b)))"
  let ?d = "words_bytes (concat (map (datatype_words ?pos) (DataTypes b)))"
  let ?e = "words_bytes (concat (map (member_words ?pos) (DataTypeMembers b)))"
  have eq: "file_bytes b = ?h @ Guid b @ ?t @ ?p @ ?d @ ?e @ names_buffer (Names b)"
    by (simp add: file_bytes_def Let_def)
  have g: "length (Guid b) = 16" using assms by (simp add: indices_ok_def)
  have len: "length ?t = 36" "length ?p = 12 * length (PublicSymbols b)" "length ?d = 24 * length (DataTypes b)"
    "length ?e = 16 * length (DataTypeMembers b)"
    by (simp_all add: header_tail_def Let_def
      length_concat_const [of "symbol_words pos" 3 for pos] length_concat_const [of "datatype_words pos" 6 for pos]
      length_concat_const [of "member_words pos" 4 for pos] symbol_words_def datatype_words_def member_words_def)
  show "\<exists>xs ys. file_bytes b = ?h @ xs @ ys \<and> length xs = 16" using eq g by blast
  show "\<exists>xs ys. file_bytes b = xs @ ?t @ ys \<and> length xs = 24"
    by (rule exI [of _ "?h @ Guid b"]) (simp add: eq g)
  show "\<exists>xs ys. file_bytes b = xs @ ?p @ ys \<and> length xs = pubs_off"
    by (rule exI [of _ "?h @ Guid b @ ?t"]) (simp add: eq g len offsets del: length_words_bytes, simp)
  show "\<exists>xs ys. file_bytes b = xs @ ?d @ ys \<and> length xs = types_off b"
    by (rule exI [of _ "?h @ Guid b @ ?t @ ?p"]) (simp add: eq g len offsets del: length_words_bytes, simp)
  show "\<exists>xs ys. file_bytes b = xs @ ?e @ ys \<and> length xs = members_off b"
    by (rule exI [of _ "?h @ Guid b @ ?t @ ?p @ ?d"]) (simp add: eq g len offsets del: length_words_bytes, simp)
  show "\<exists>xs. file_bytes b = xs @ names_buffer (Names b) \<and> length xs = names_off b"
    by (rule exI [of _ "?h @ Guid b @ ?t @ ?p @ ?d @ ?e"]) (simp add: eq g len offsets del: length_words_bytes, simp)
qed

lemma header_words:
  assumes "indices_ok b" "i < 9"
  shows "get_u32 (file_bytes b) (24 + 4 * i) = Some (header_tail b ! i)"
proof -
  obtain xs ys where "file_bytes b = xs @ words_bytes (header_tail b) @ ys" "length xs = 24"
    using file_parts(2) [OF assms(1)] by blast
  then show ?thesis using get_words [of i "header_tail b" xs ys] assms(2) by (simp add: header_tail_def Let_def)
qed

lemma file_valid:
  assumes "indices_ok b"
  shows "IsBcsValid (Some (file_bytes b)) = Some True"
proof -
  obtain xs ys where "file_bytes b = words_bytes [BCSFILE_HEADER_SIGNATURE, BCSFILE_HEADER_VERSION] @ xs @ ys"
    using file_parts(1) [OF assms] by blast
  then show ?thesis
    using get_words [of 0 "[BCSFILE_HEADER_SIGNATURE, BCSFILE_HEADER_VERSION]" "[]" "xs @ ys"]
      get_words [of 1 "[BCSFILE_HEADER_SIGNATURE, BCSFILE_HEADER_VERSION]" "[]" "xs @ ys"]
    by (simp add: IsBcsValid_def)
qed

lemma header_fields:
  assumes "readable b"
  shows "\<exists>w. hdr_publicSymbols (file_bytes b) = Some w \<and> unat w = pubs_off"
    "\<exists>w. hdr_publicSymbolsSize (file_bytes b) = Some w \<and> unat w = 12 * length (PublicSymbols b)"
    "\<exists>w. hdr_datatypes (file_bytes b) = Some w \<and> unat w = types_off b"
    "\<exists>w. hdr_datatypesSize (file_bytes b) = Some w \<and> unat w = 24 * length (DataTypes b)"
    "\<exists>w. hdr_datatypeMembers (file_bytes b) = Some w \<and> unat w = members_off b"
    "\<exists>w. hdr_datatypeMembersSize (file_bytes b) = Some w \<and> unat w = 16 * length (DataTypeMembers b)"
    "\<exists>w. hdr_names (file_bytes b) = Some w \<and> unat w = names_off b"
proof -
  have i: "indices_ok b" and small: "names_off b < 2 ^ 32"
    using assms length_file_bytes [of b] by (auto simp: readable_def offsets)
  have nat: "60 + (word_of_nat n :: u32) = word_of_nat (60 + n)" "(word_of_nat n :: u32) + word_of_nat k = word_of_nat (n + k)" for n k
    by simp_all
  have tail: "header_tail b = [Age b, word_of_nat pubs_off, word_of_nat (12 * length (PublicSymbols b)), word_of_nat (types_off b),
      word_of_nat (24 * length (DataTypes b)), word_of_nat (members_off b), word_of_nat (16 * length (DataTypeMembers b)),
      word_of_nat (names_off b), word_of_nat (length (names_buffer (Names b)))]"
    by (simp only: header_tail_def Let_def offsets nat of_nat_numeral)
  have n: "unat (word_of_nat k :: u32) = k" if "k \<le> names_off b" for k
    using that small by (simp add: unat_of_nat)
  note h = header_words [OF i, unfolded tail]
  show "\<exists>w. hdr_publicSymbols (file_bytes b) = Some w \<and> unat w = pubs_off"
    using h [of 1] n [of pubs_off] by (simp add: hdr_publicSymbols_def offsets)
  show "\<exists>w. hdr_publicSymbolsSize (file_bytes b) = Some w \<and> unat w = 12 * length (PublicSymbols b)"
    using h [of 2] n [of "12 * length (PublicSymbols b)"] by (simp add: hdr_publicSymbolsSize_def offsets)
  show "\<exists>w. hdr_datatypes (file_bytes b) = Some w \<and> unat w = types_off b"
    using h [of 3] n [of "types_off b"] by (simp add: hdr_datatypes_def members_off_def names_off_def)
  show "\<exists>w. hdr_datatypesSize (file_bytes b) = Some w \<and> unat w = 24 * length (DataTypes b)"
    using h [of 4] n [of "24 * length (DataTypes b)"] by (simp add: hdr_datatypesSize_def offsets)
  show "\<exists>w. hdr_datatypeMembers (file_bytes b) = Some w \<and> unat w = members_off b"
    using h [of 5] n [of "members_off b"] by (simp add: hdr_datatypeMembers_def names_off_def)
  show "\<exists>w. hdr_datatypeMembersSize (file_bytes b) = Some w \<and> unat w = 16 * length (DataTypeMembers b)"
    using h [of 6] n [of "16 * length (DataTypeMembers b)"] by (simp add: hdr_datatypeMembersSize_def offsets)
  show "\<exists>w. hdr_names (file_bytes b) = Some w \<and> unat w = names_off b"
    using h [of 7] n [of "names_off b"] by (simp add: hdr_names_def)
qed

lemma table_word:
  assumes "m = xs @ words_bytes (concat (map f rs)) @ ys" "\<And>x. length (f x) = k" "i < length rs" "j < k"
  shows "get_u32 m (length xs + 4 * k * i + 4 * j) = Some (f (rs ! i) ! j)"
proof -
  have "k * i + j < k * length rs"
    using assms(3,4) by (metis add.commute add_less_le_mono mult_le_mono2 mult_Suc_right Suc_leI less_le_trans nat_add_left_cancel_less)
  then show ?thesis
    using get_words [of "k * i + j" "concat (map f rs)" xs ys] nth_concat_const [of f k i rs j] assms
      length_concat_const [of f k rs] by (simp add: algebra_simps)
qed

lemma pub_at_file:
  assumes "indices_ok b" "i < length (PublicSymbols b)"
  defines "s \<equiv> PublicSymbols b ! i"
  shows "pub_at (file_bytes b) pubs_off i =
    Some \<lparr>sym_name = name_pos b (ps_name s), sym_address = ps_address s, sym_length = ps_length s\<rparr>"
proof -
  obtain xs ys where f: "file_bytes b =
      xs @ words_bytes (concat (map (symbol_words (name_positions 0 (Names b))) (PublicSymbols b))) @ ys" "length xs = pubs_off"
    using file_parts(3) [OF assms(1)] by blast
  note t = table_word [OF f(1), of 3, OF _ assms(2)]
  show ?thesis
    using t [of 0] t [of 1] t [of 2] f(2)
    by (simp add: pub_at_def symbol_words_def name_pos_def s_def add.assoc)
qed

lemma type_at_file:
  assumes "indices_ok b" "i < length (DataTypes b)"
  defines "t \<equiv> DataTypes b ! i"
  shows "type_at (file_bytes b) (types_off b) i =
    Some \<lparr>type_name = name_pos b (dt_name t), type_kind = name_pos b (dt_kind t), type_length = dt_length t,
      type_pdbIndex = dt_pdbIndex t, type_firstMember = dt_firstMember t, type_numOfMembers = dt_numOfMembers t\<rparr>"
proof -
  obtain xs ys where f: "file_bytes b =
      xs @ words_bytes (concat (map (datatype_words (name_positions 0 (Names b))) (DataTypes b))) @ ys" "length xs = types_off b"
    using file_parts(4) [OF assms(1)] by blast
  note t = table_word [OF f(1), of 6, OF _ assms(2)]
  show ?thesis
    using t [of 0] t [of 1] t [of 2] t [of 3] t [of 4] t [of 5] f(2)
    by (simp add: type_at_def datatype_words_def name_pos_def t_def add.assoc)
qed

lemma member_at_file:
  assumes "indices_ok b" "i < length (DataTypeMembers b)"
  defines "d \<equiv> DataTypeMembers b ! i"
  shows "member_at (file_bytes b) (members_off b) i =
    Some \<lparr>member_name = name_pos b (dm_name d), member_datatype = name_pos b (dm_datatype d), member_offset = dm_offset d,
      member_pdbDatatypeIndex = dm_pdbDatatypeIndex d\<rparr>"
proof -
  obtain xs ys where f: "file_bytes b =
      xs @ words_bytes (concat (map (member_words (name_positions 0 (Names b))) (DataTypeMembers b))) @ ys" "length xs = members_off b"
    using file_parts(5) [OF assms(1)] by blast
  note t = table_word [OF f(1), of 4, OF _ assms(2)]
  show ?thesis
    using t [of 0] t [of 1] t [of 2] t [of 3] f(2)
    by (simp add: member_at_def member_words_def name_pos_def d_def add.assoc)
qed

lemma name_at_file:
  assumes "readable b" "i < length (Names b)"
  shows "cstr (drop (names_off b + unat (name_pos b i)) (file_bytes b)) (Names b ! i)"
proof -
  have ok: "indices_ok b" and small: "length (file_bytes b) < 2 ^ 32" using assms(1) by (auto simp: readable_def)
  obtain xs where f: "file_bytes b = xs @ names_buffer (Names b)" "length xs = names_off b"
    using file_parts(6) [OF ok] by blast
  obtain u v where uv: "names_buffer (Names b) = u @ Names b ! i @ 0 # v" "name_pos b i = word_of_nat (length u)"
    using names_split [OF assms(2), of 0] by (auto simp: name_pos_def)
  have "length u < 2 ^ 32" using small f(1) uv(1) by simp
  then have "unat (name_pos b i) = length u" using uv(2) by (simp add: unat_of_nat)
  moreover have "0 \<notin> set (Names b ! i)" using ok assms(2) by (simp add: indices_ok_def)
  ultimately show ?thesis using f uv(1) by (simp add: cstr_def flip: f(2))
qed

lemma u32_zero_iff: "(w :: u32) = 0 \<longleftrightarrow> unat w = 0"
  by (simp add: unat_eq_zero)

lemma file_has_publics:
  "readable b \<Longrightarrow> has_publics (Some (file_bytes b)) = Some (PublicSymbols b \<noteq> [])"
  using header_fields(2) [of b] file_valid [of b]
  by (auto simp: has_publics_def readable_def u32_zero_iff)

lemma file_has_datatypes:
  "readable b \<Longrightarrow> has_datatypes (Some (file_bytes b)) = Some (DataTypes b \<noteq> [] \<and> DataTypeMembers b \<noteq> [])"
  using header_fields(4,6) [of b] file_valid [of b]
  by (auto simp: has_datatypes_def readable_def u32_zero_iff)

section \<open>Looking up public symbols\<close>

definition inside :: "u32 \<Rightarrow> byte list \<times> u32 \<times> u32 \<Rightarrow> bool" where
  "inside rva = (\<lambda>(n, a, l). a \<le> rva \<and> rva < a + l)"

text \<open>
  The symbols do not wrap around the address space and end in the order in which they start; symbols
  at one address may have several names but have one length.
\<close>

definition ordered_ends :: "(byte list \<times> u32 \<times> u32) set \<Rightarrow> bool" where
  "ordered_ends A \<longleftrightarrow>
     (\<forall>(n, a, l) \<in> A. unat a + unat l < 2 ^ 32) \<and>
     (\<forall>(n, a, l) \<in> A. \<forall>(n', a', l') \<in> A. a \<le> a' \<longrightarrow> a + l \<le> a' + l')"

lemma u32_no_wrap: "unat (a :: u32) + unat l < 2 ^ 32 \<Longrightarrow> a \<le> a + l"
  by (simp add: no_olen_add_nat)

lemma rva_pred_order:
  assumes "sym_address s \<le> sym_address s + sym_length s" "sym_address t \<le> sym_address t + sym_length t"
    and "sym_address s \<le> sym_address t" "sym_address s + sym_length s \<le> sym_address t + sym_length t"
    "sym_address t \<le> sym_address s \<Longrightarrow> sym_address t + sym_length t \<le> sym_address s + sym_length s"
  shows "rva_pred rva s < 0 \<Longrightarrow> rva_pred rva t < 0" "rva_pred rva t > 0 \<Longrightarrow> rva_pred rva s > 0"
proof -
  have "rva_pred rva t < 0" if "rva \<le> sym_address s" "rva < sym_address s \<or> sym_address s + sym_length s \<le> rva"
  proof (cases "rva < sym_address t")
    case False
    with that assms(3) have "rva = sym_address t" "sym_address t = sym_address s" by auto
    with that assms(5) show ?thesis by (auto simp: rva_pred_def)
  qed (auto simp: rva_pred_def)
  moreover have "rva_pred rva s < 0 \<Longrightarrow> rva \<le> sym_address s \<and> (rva < sym_address s \<or> sym_address s + sym_length s \<le> rva)"
    by (auto simp: rva_pred_def not_less not_le split: if_splits)
  ultimately show "rva_pred rva s < 0 \<Longrightarrow> rva_pred rva t < 0" by blast
  show "rva_pred rva t > 0 \<Longrightarrow> rva_pred rva s > 0" using assms(3,4) by (auto simp: rva_pred_def split: if_splits)
qed

lemma public_lookup:
  assumes "readable b" "sorted (map ps_address (PublicSymbols b))" "ordered_ends (set (publics b))"
  shows "\<exists>r. GetNameOfPublic (Some (file_bytes b)) rva = Some r \<and>
    (case r of
       Some (i, p) \<Rightarrow> \<exists>n a l. (n, a, l) \<in> set (publics b) \<and> inside rva (n, a, l) \<and> cstr (drop p (file_bytes b)) n
     | None \<Rightarrow> \<forall>s \<in> set (publics b). \<not> inside rva s)"
proof (cases "PublicSymbols b = []")
  case True
  then show ?thesis using file_has_publics [OF assms(1)] by (simp add: GetNameOfPublic_def publics_def)
next
  case False
  let ?m = "file_bytes b" and ?n = "length (PublicSymbols b)"
  have ok: "indices_ok b" using assms(1) by (simp add: readable_def)
  define sym where "sym i = \<lparr>sym_name = name_pos b (ps_name (PublicSymbols b ! i)),
      sym_address = ps_address (PublicSymbols b ! i), sym_length = ps_length (PublicSymbols b ! i)\<rparr>" for i
  have at: "pub_at ?m pubs_off i = Some (sym i)" if "i < ?n" for i
    using pub_at_file [OF ok that] by (simp add: sym_def)
  have mem: "public_desc (Names b) (PublicSymbols b ! i) \<in> set (publics b)" if "i < ?n" for i
    using that by (simp add: publics_def)
  have ends: "unat (sym_address (sym i)) + unat (sym_length (sym i)) < 2 ^ 32"
    "sym_address (sym i) \<le> sym_address (sym j) \<Longrightarrow>
       sym_address (sym i) + sym_length (sym i) \<le> sym_address (sym j) + sym_length (sym j)" if "i < ?n" "j < ?n" for i j
    using assms(3) mem [OF that(1)] mem [OF that(2)]
    by (fastforce simp: ordered_ends_def public_desc_def sym_def)+
  have le: "sym_address (sym i) \<le> sym_address (sym j)" if "i < j" "j < ?n" for i j
    using assms(2) that by (simp add: sorted_iff_nth_mono_less sym_def)
  have ord: "rva_pred rva (sym i) < 0 \<Longrightarrow> rva_pred rva (sym j) < 0" "rva_pred rva (sym j) > 0 \<Longrightarrow> rva_pred rva (sym i) > 0"
    if "i < j" "j < ?n" for i j
    using rva_pred_order [of "sym i" "sym j" rva] ends [of i j] ends [of j i] le [OF that] that u32_no_wrap by auto
  have in_iff: "rva_pred rva (sym i) = 0 \<longleftrightarrow> inside rva (public_desc (Names b) (PublicSymbols b ! i))" for i
    by (auto simp: rva_pred_def inside_def public_desc_def sym_def)
  obtain r where r: "BinarySearch (\<lambda>i. map_option (rva_pred rva) (pub_at ?m pubs_off i)) 0 (int ?n - 1) = Some r"
    "case r of Some i \<Rightarrow> i < ?n \<and> rva_pred rva (sym i) = 0 | None \<Rightarrow> \<forall>i. 0 \<le> int i \<and> int i \<le> int ?n - 1 \<longrightarrow> rva_pred rva (sym i) \<noteq> 0"
    using BinarySearch_correct [of ?n "\<lambda>i. map_option (rva_pred rva) (pub_at ?m pubs_off i)" "\<lambda>i. rva_pred rva (sym i)" 0 "int ?n - 1"]
      at ord by auto
  obtain p z w where h: "hdr_publicSymbols ?m = Some p" "unat p = pubs_off" "hdr_publicSymbolsSize ?m = Some z" "unat z = 12 * ?n"
    "hdr_names ?m = Some w" "unat w = names_off b"
    using header_fields(1,2,7) [OF assms(1)] by blast
  have g: "GetNameOfPublic (Some ?m) rva = (case r of None \<Rightarrow> Some None
      | Some i \<Rightarrow> (case pub_at ?m pubs_off i of None \<Rightarrow> None | Some s \<Rightarrow> Some (Some (i, names_off b + unat (sym_name s)))))"
    using file_has_publics [OF assms(1)] False h r(1) by (simp add: GetNameOfPublic_def split: option.split)
  show ?thesis
  proof (cases r)
    case None
    then show ?thesis using g r(2) in_iff by (fastforce simp: publics_def in_set_conv_nth)
  next
    case (Some i)
    then have i: "i < ?n" "inside rva (public_desc (Names b) (PublicSymbols b ! i))" using r(2) in_iff by auto
    have "ps_name (PublicSymbols b ! i) < length (Names b)" using ok i(1) by (simp add: indices_ok_def)
    then show ?thesis
      using g Some at [OF i(1)] mem [OF i(1)] i(2) name_at_file [OF assms(1), of "ps_name (PublicSymbols b ! i)"]
      by (auto simp: public_desc_def sym_def)
  qed
qed

lemma find_public_first:
  assumes "\<And>k. i \<le> k \<Longrightarrow> k < i + n \<Longrightarrow> \<exists>s. pub_at m pubs k = Some s \<and> cstr (drop (names + unat (sym_name s)) m) (nm k)"
    and "cstr q x"
  shows "\<exists>r. find_public m pubs names q i n = Some r \<and>
    (case r of Some j \<Rightarrow> i \<le> j \<and> j < i + n \<and> nm j = x | None \<Rightarrow> \<forall>k. i \<le> k \<and> k < i + n \<longrightarrow> nm k \<noteq> x)"
  using assms(1)
proof (induction n arbitrary: i)
  case (Suc n)
  obtain s where s: "pub_at m pubs i = Some s" "cstr (drop (names + unat (sym_name s)) m) (nm i)"
    using Suc.prems [of i] by auto
  note c = strcmp_cstr [OF s(2) assms(2)]
  show ?case
  proof (cases "nm i = x")
    case True
    then show ?thesis using s c by simp
  next
    case False
    obtain r where "find_public m pubs names q (i + 1) n = Some r"
      "case r of Some j \<Rightarrow> i + 1 \<le> j \<and> j < i + 1 + n \<and> nm j = x | None \<Rightarrow> \<forall>k. i + 1 \<le> k \<and> k < i + 1 + n \<longrightarrow> nm k \<noteq> x"
      using Suc.IH [of "i + 1"] Suc.prems by force
    then show ?thesis using s c False by (cases r) (auto simp: Suc_le_eq, metis nat_less_le)
  qed
qed auto

lemma public_by_name:
  assumes "readable b" "cstr q x"
  shows "\<exists>r. GetPublicByName (Some (file_bytes b)) q = Some r \<and>
    (case r of
       Some i \<Rightarrow> \<exists>s. pub_at (file_bytes b) pubs_off i = Some s \<and> (x, sym_address s, sym_length s) \<in> set (publics b)
     | None \<Rightarrow> \<forall>(n, a, l) \<in> set (publics b). n \<noteq> x)"
proof (cases "PublicSymbols b = []")
  case True
  then show ?thesis using file_has_publics [OF assms(1)] by (simp add: GetPublicByName_def publics_def)
next
  case False
  let ?m = "file_bytes b" and ?n = "length (PublicSymbols b)"
  have ok: "indices_ok b" using assms(1) by (simp add: readable_def)
  define nm where "nm k = Names b ! ps_name (PublicSymbols b ! k)" for k
  have "\<exists>s. pub_at ?m pubs_off k = Some s \<and> cstr (drop (names_off b + unat (sym_name s)) ?m) (nm k)" if "k < ?n" for k
  proof -
    have "ps_name (PublicSymbols b ! k) < length (Names b)" using ok that by (simp add: indices_ok_def)
    then show ?thesis using pub_at_file [OF ok that] name_at_file [OF assms(1)] by (simp add: nm_def)
  qed
  then obtain r where r: "find_public ?m pubs_off (names_off b) q 0 ?n = Some r"
    "case r of Some j \<Rightarrow> 0 \<le> j \<and> j < 0 + ?n \<and> nm j = x | None \<Rightarrow> \<forall>k. 0 \<le> k \<and> k < 0 + ?n \<longrightarrow> nm k \<noteq> x"
    using find_public_first [of 0 ?n ?m pubs_off "names_off b" nm q x] assms(2) by auto
  obtain p z w where h: "hdr_publicSymbols ?m = Some p" "unat p = pubs_off" "hdr_publicSymbolsSize ?m = Some z" "unat z = 12 * ?n"
    "hdr_names ?m = Some w" "unat w = names_off b"
    using header_fields(1,2,7) [OF assms(1)] by blast
  have g: "GetPublicByName (Some ?m) q = Some r"
    using file_has_publics [OF assms(1)] False h r(1) by (simp add: GetPublicByName_def)
  show ?thesis
  proof (cases r)
    case None
    then show ?thesis using g r(2) by (fastforce simp: publics_def in_set_conv_nth public_desc_def nm_def)
  next
    case (Some i)
    then have "public_desc (Names b) (PublicSymbols b ! i) \<in> set (publics b)" using r(2) by (simp add: publics_def)
    then show ?thesis using g Some r(2) pub_at_file [OF ok, of i] by (auto simp: public_desc_def nm_def)
  qed
qed

section \<open>Looking up data types\<close>

lemma type_back_first:
  assumes "\<And>k. k < i \<Longrightarrow> \<exists>r. type_cmp m dts names q k = Some r \<and> (r = 0 \<longleftrightarrow> nm k = x)"
  shows "\<exists>j. type_back m dts names q i = Some j \<and> j \<le> i \<and> (\<forall>k. j \<le> k \<and> k < i \<longrightarrow> nm k = x) \<and> (0 < j \<longrightarrow> nm (j - 1) \<noteq> x)"
  using assms
proof (induction i)
  case (Suc i)
  obtain r where r: "type_cmp m dts names q i = Some r" "r = 0 \<longleftrightarrow> nm i = x" using Suc.prems [of i] by auto
  show ?case
  proof (cases "r = 0")
    case True
    obtain j where "type_back m dts names q i = Some j \<and> j \<le> i \<and> (\<forall>k. j \<le> k \<and> k < i \<longrightarrow> nm k = x) \<and> (0 < j \<longrightarrow> nm (j - 1) \<noteq> x)"
      using Suc.IH Suc.prems by fastforce
    then show ?thesis using r True by (auto simp: less_Suc_eq)
  next
    case False
    then show ?thesis using r by auto
  qed
qed auto

lemma type_best_longest:
  assumes "\<And>k. i \<le> k \<Longrightarrow> k < i + n \<Longrightarrow> \<exists>r. type_cmp m dts names q k = Some r \<and> (r = 0 \<longleftrightarrow> nm k = x)"
    and at: "\<And>k. k < N \<Longrightarrow> \<exists>t. type_at m dts k = Some t \<and> type_length t = len k"
    and "i + n = N" "search < N" "nm search = x"
  shows "\<exists>j. type_best m dts names q i n search = Some j \<and> j < N \<and> nm j = x \<and> len search \<le> len j \<and>
    (\<forall>k. i \<le> k \<and> k < N \<and> (\<forall>k'. i \<le> k' \<and> k' \<le> k \<longrightarrow> nm k' = x) \<longrightarrow> len k \<le> len j)"
  using assms(1,3,4,5)
proof (induction n arbitrary: i search)
  case 0
  then show ?case by (intro exI [of _ search]) (simp, metis not_le)
next
  case (Suc n)
  obtain r where r: "type_cmp m dts names q i = Some r" "r = 0 \<longleftrightarrow> nm i = x" using Suc.prems(1) [of i] by auto
  obtain t s where ts: "type_at m dts i = Some t" "type_length t = len i" "type_at m dts search = Some s" "type_length s = len search"
    using at [of i] at [of search] Suc.prems(2,3) by auto
  show ?case
  proof (cases "nm i = x")
    case False
    then have "type_best m dts names q i (Suc n) search = Some search" using r by simp
    then show ?thesis using False Suc.prems(3,4) by (intro exI [of _ search]) auto
  next
    case True
    let ?s = "if len i > len search then i else search"
    have "?s < N" "nm ?s = x" using True Suc.prems by auto
    moreover have "\<exists>r. type_cmp m dts names q k = Some r \<and> (r = 0 \<longleftrightarrow> nm k = x)" if "i + 1 \<le> k" "k < i + 1 + n" for k
      using Suc.prems(1) [of k] that by simp
    moreover have "i + 1 + n = N" using Suc.prems(2) by simp
    ultimately obtain j where j: "type_best m dts names q (i + 1) n ?s = Some j" "j < N" "nm j = x"
      "len ?s \<le> len j" "\<forall>k. i + 1 \<le> k \<and> k < N \<and> (\<forall>k'. i + 1 \<le> k' \<and> k' \<le> k \<longrightarrow> nm k' = x) \<longrightarrow> len k \<le> len j"
      using Suc.IH [of "i + 1" ?s] by blast
    have len: "len i \<le> len j" "len search \<le> len j" using j(4) by (simp_all split: if_splits)
    moreover
    have "len k \<le> len j" if "i \<le> k" "k < N" "\<forall>k'. i \<le> k' \<and> k' \<le> k \<longrightarrow> nm k' = x" for k
    proof (cases "k = i")
      case False
      then have "i + 1 \<le> k" "\<forall>k'. i + 1 \<le> k' \<and> k' \<le> k \<longrightarrow> nm k' = x" using that by auto
      then show ?thesis using j(5) that(2) by blast
    qed (simp add: len)
    moreover have "type_best m dts names q i (Suc n) search = Some j" using r True ts j(1) by simp
    ultimately show ?thesis using j(2,3) by blast
  qed
qed

lemma datatype_lookup:
  assumes "readable b" "sorted (map (\<lambda>t. Names b ! dt_name t) (DataTypes b))" "cstr q x"
  shows "\<exists>r. GetDatatype (Some (file_bytes b)) q = Some r \<and>
    (case r of
       Some i \<Rightarrow> i < length (DataTypes b) \<and> DataTypeMembers b \<noteq> [] \<and> Names b ! dt_name (DataTypes b ! i) = x \<and>
         (\<forall>t \<in> set (DataTypes b). Names b ! dt_name t = x \<longrightarrow> dt_length t \<le> dt_length (DataTypes b ! i))
     | None \<Rightarrow> DataTypeMembers b = [] \<or> (\<forall>t \<in> set (DataTypes b). Names b ! dt_name t \<noteq> x))"
proof (cases "DataTypes b = [] \<or> DataTypeMembers b = []")
  case True
  then show ?thesis using file_has_datatypes [OF assms(1)] by (auto simp: GetDatatype_def)
next
  case False
  let ?m = "file_bytes b" and ?n = "length (DataTypes b)"
  have ok: "indices_ok b" using assms(1) by (simp add: readable_def)
  define nm where "nm k = Names b ! dt_name (DataTypes b ! k)" for k
  define c where "c k = (if x = nm k then 0 else if x < nm k then -1 else 1 :: int)" for k
  have cmp: "type_cmp ?m (types_off b) (names_off b) q k = Some (c k)" if "k < ?n" for k
  proof -
    have "dt_name (DataTypes b ! k) < length (Names b)" using ok that by (simp add: indices_ok_def)
    from strcmp_cstr [OF assms(3) name_at_file [OF assms(1) this]] show ?thesis
      using type_at_file [OF ok that] by (simp add: type_cmp_def c_def nm_def string_less_lexorder)
  qed
  have c0: "c k = 0 \<longleftrightarrow> nm k = x" for k by (auto simp: c_def)
  have mono: "nm j \<le> nm k" if "j \<le> k" "k < ?n" for j k
    using assms(2) that sorted_nth_mono [of "map (\<lambda>t. Names b ! dt_name t) (DataTypes b)" j k] by (simp add: nm_def)
  have ord: "c j < 0 \<Longrightarrow> c k < 0" "c k > 0 \<Longrightarrow> c j > 0" if "j < k" "k < ?n" for j k
    using mono [of j k] that by (auto simp: c_def split: if_splits)
  obtain r where r: "BinarySearch (type_cmp ?m (types_off b) (names_off b) q) 0 (int ?n - 1) = Some r"
    "case r of Some i \<Rightarrow> i < ?n \<and> c i = 0 | None \<Rightarrow> \<forall>i. 0 \<le> int i \<and> int i \<le> int ?n - 1 \<longrightarrow> c i \<noteq> 0"
    using BinarySearch_correct [of ?n "type_cmp ?m (types_off b) (names_off b) q" c 0 "int ?n - 1"] cmp ord by auto
  obtain p z w where h: "hdr_datatypes ?m = Some p" "unat p = types_off b" "hdr_datatypesSize ?m = Some z" "unat z = 24 * ?n"
    "hdr_names ?m = Some w" "unat w = names_off b"
    using header_fields(3,4,7) [OF assms(1)] by blast
  have g: "GetDatatype (Some ?m) q = (case r of None \<Rightarrow> Some None
      | Some search \<Rightarrow> (case type_back ?m (types_off b) (names_off b) q search of None \<Rightarrow> None
          | Some i \<Rightarrow> map_option Some (type_best ?m (types_off b) (names_off b) q i (?n - i) search)))"
    using file_has_datatypes [OF assms(1)] False h r(1) by (simp add: GetDatatype_def split: option.split)
  show ?thesis
  proof (cases r)
    case None
    then show ?thesis using g r(2) c0 by (fastforce simp: in_set_conv_nth nm_def)
  next
    case (Some search)
    then have search: "search < ?n" "nm search = x" using r(2) c0 by auto
    obtain i where i: "type_back ?m (types_off b) (names_off b) q search = Some i" "i \<le> search"
      "\<forall>k. i \<le> k \<and> k < search \<longrightarrow> nm k = x" "0 < i \<longrightarrow> nm (i - 1) \<noteq> x"
      using type_back_first [of search ?m "types_off b" "names_off b" q nm x] cmp c0 search(1) by auto
    have "\<exists>j. type_best ?m (types_off b) (names_off b) q i (?n - i) search = Some j \<and> j < ?n \<and> nm j = x \<and>
        dt_length (DataTypes b ! search) \<le> dt_length (DataTypes b ! j) \<and>
        (\<forall>k. i \<le> k \<and> k < ?n \<and> (\<forall>k'. i \<le> k' \<and> k' \<le> k \<longrightarrow> nm k' = x) \<longrightarrow> dt_length (DataTypes b ! k) \<le> dt_length (DataTypes b ! j))"
      using type_best_longest [of i "?n - i" ?m "types_off b" "names_off b" q nm x ?n "\<lambda>k. dt_length (DataTypes b ! k)" search]
        cmp c0 search i(2) type_at_file [OF ok] by auto
    then obtain j where j: "type_best ?m (types_off b) (names_off b) q i (?n - i) search = Some j" "j < ?n" "nm j = x"
      "\<And>k. i \<le> k \<Longrightarrow> k < ?n \<Longrightarrow> \<forall>k'. i \<le> k' \<and> k' \<le> k \<longrightarrow> nm k' = x \<Longrightarrow> dt_length (DataTypes b ! k) \<le> dt_length (DataTypes b ! j)"
      by blast
    have "dt_length (DataTypes b ! k) \<le> dt_length (DataTypes b ! j)" if k: "k < ?n" "nm k = x" for k
    proof -
      have ni: "nm i = x" using i(2,3) search(2) by (cases "i = search") auto
      have "i \<le> k"
      proof (rule ccontr)
        assume "\<not> i \<le> k"
        then have "nm k \<le> nm (i - 1)" "nm (i - 1) \<le> nm i" "0 < i" using mono [of k "i - 1"] mono [of "i - 1" i] i(2) search(1) by auto
        then show False using k(2) ni i(4) by auto
      qed
      moreover have "nm k' = x" if "i \<le> k'" "k' \<le> k" for k'
        using mono [of i k'] mono [of k' k] that k ni by auto
      ultimately show ?thesis using j(4) k(1) by blast
    qed
    then show ?thesis using g Some i(1) j(1,2,3) False by (auto simp: in_set_conv_nth nm_def)
  qed
qed

definition member_matches :: "byte list \<Rightarrow> byte list option \<Rightarrow> member_desc \<Rightarrow> bool" where
  "member_matches y et = (\<lambda>(n, d, off, i). n = y \<and> (case et of None \<Rightarrow> True | Some t \<Rightarrow> d = t))"

lemma member_search_first:
  assumes "\<And>k. i \<le> k \<Longrightarrow> k < i + n \<Longrightarrow> \<exists>e. member_at m mbs k = Some e \<and>
      cstr (drop (names + unat (member_name e)) m) (fst (ds ! k)) \<and>
      cstr (drop (names + unat (member_datatype e)) m) (fst (snd (ds ! k)))"
    and "cstr p y" "rel_option cstr ep et" "i + n \<le> length ds"
  shows "\<exists>r. member_search m mbs names p ep i n = Some r \<and>
    (case r of
       Some j \<Rightarrow> i \<le> j \<and> j < i + n \<and> find (member_matches y et) (take n (drop i ds)) = Some (ds ! j)
     | None \<Rightarrow> find (member_matches y et) (take n (drop i ds)) = None)"
  using assms(1,4)
proof (induction n arbitrary: i)
  case (Suc n)
  obtain e where e: "member_at m mbs i = Some e" "cstr (drop (names + unat (member_name e)) m) (fst (ds ! i))"
    "cstr (drop (names + unat (member_datatype e)) m) (fst (snd (ds ! i)))"
    using Suc.prems(1) [of i] by auto
  have head: "take (Suc n) (drop i ds) = ds ! i # take n (drop (i + 1) ds)"
    using Suc.prems(2) by (simp flip: Cons_nth_drop_Suc)
  note c = strcmp_cstr [OF assms(2) e(2)]
  have step: "member_search m mbs names p ep i (Suc n) =
      (if member_matches y et (ds ! i) then Some (Some i) else member_search m mbs names p ep (i + 1) n)"
  proof (cases ep)
    case None
    with assms(3) have "et = None" by (cases et) auto
    then show ?thesis using e c None by (auto simp: member_matches_def split: prod.splits)
  next
    case (Some q)
    with assms(3) obtain t where "et = Some t" "cstr q t" by (cases et) auto
    then show ?thesis using e c Some strcmp_cstr [of q t] by (auto simp: member_matches_def split: prod.splits)
  qed
  show ?case
  proof (cases "member_matches y et (ds ! i)")
    case True
    then show ?thesis by (simp add: step head del: member_search.simps)
  next
    case False
    have "\<exists>r. member_search m mbs names p ep (i + 1) n = Some r \<and>
      (case r of
         Some j \<Rightarrow> i + 1 \<le> j \<and> j < i + 1 + n \<and> find (member_matches y et) (take n (drop (i + 1) ds)) = Some (ds ! j)
       | None \<Rightarrow> find (member_matches y et) (take n (drop (i + 1) ds)) = None)"
      using Suc.prems by (intro Suc.IH) simp_all
    then obtain r where "member_search m mbs names p ep (i + 1) n = Some r"
      "case r of
         Some j \<Rightarrow> i + 1 \<le> j \<and> j < i + 1 + n \<and> find (member_matches y et) (take n (drop (i + 1) ds)) = Some (ds ! j)
       | None \<Rightarrow> find (member_matches y et) (take n (drop (i + 1) ds)) = None" by blast
    then show ?thesis using False by (cases r) (simp_all add: step head del: member_search.simps)
  qed
qed simp

lemma member_lookup:
  assumes "readable b" "i < length (DataTypes b)" "DataTypeMembers b \<noteq> []" "cstr p y" "rel_option cstr ep et"
    and range: "\<forall>t \<in> set (DataTypes b). unat (dt_firstMember t) + unat (dt_numOfMembers t) \<le> length (DataTypeMembers b)"
  defines "t \<equiv> DataTypes b ! i"
  defines "ms \<equiv> map (member_desc (Names b)) (take (unat (dt_numOfMembers t)) (drop (unat (dt_firstMember t)) (DataTypeMembers b)))"
  shows "\<exists>r. GetDatatypeMember (Some (file_bytes b)) (Some i) p ep = Some r \<and>
    (case r of
       Some j \<Rightarrow> \<exists>e d. member_at (file_bytes b) (members_off b) j = Some e \<and>
         find (member_matches y et) ms = Some (y, d, member_offset e, member_pdbDatatypeIndex e)
     | None \<Rightarrow> find (member_matches y et) ms = None)"
proof -
  let ?m = "file_bytes b" and ?ds = "map (member_desc (Names b)) (DataTypeMembers b)"
  have ok: "indices_ok b" using assms(1) by (simp add: readable_def)
  let ?f = "unat (dt_firstMember t)" and ?n = "unat (dt_numOfMembers t)"
  have fn: "?f + ?n \<le> length (DataTypeMembers b)" using range assms(2) by (simp add: t_def)
  have ms: "ms = take ?n (drop ?f ?ds)" by (simp add: ms_def take_map drop_map)
  have "\<exists>e. member_at ?m (members_off b) k = Some e \<and> cstr (drop (names_off b + unat (member_name e)) ?m) (fst (?ds ! k)) \<and>
      cstr (drop (names_off b + unat (member_datatype e)) ?m) (fst (snd (?ds ! k)))" if "k < length (DataTypeMembers b)" for k
  proof -
    have "dm_name (DataTypeMembers b ! k) < length (Names b)" "dm_datatype (DataTypeMembers b ! k) < length (Names b)"
      using ok that by (simp_all add: indices_ok_def)
    then show ?thesis using member_at_file [OF ok that] name_at_file [OF assms(1)] that by (simp add: member_desc_def)
  qed
  then obtain r where r: "member_search ?m (members_off b) (names_off b) p ep ?f ?n = Some r"
    "case r of Some j \<Rightarrow> ?f \<le> j \<and> j < ?f + ?n \<and> find (member_matches y et) (take ?n (drop ?f ?ds)) = Some (?ds ! j)
     | None \<Rightarrow> find (member_matches y et) (take ?n (drop ?f ?ds)) = None"
    using member_search_first [of ?f ?n ?m "members_off b" "names_off b" ?ds p y ep et] assms(4,5) fn by auto
  obtain u v w where h: "hdr_datatypeMembers ?m = Some u" "unat u = members_off b" "hdr_names ?m = Some v" "unat v = names_off b"
    "hdr_datatypes ?m = Some w" "unat w = types_off b"
    using header_fields(5,7,3) [OF assms(1)] by blast
  have ne: "DataTypes b \<noteq> []" using assms(2) by auto
  have g: "GetDatatypeMember (Some ?m) (Some i) p ep = Some r"
    using file_has_datatypes [OF assms(1)] ne assms(3) h r(1) type_at_file [OF ok assms(2)] by (simp add: GetDatatypeMember_def t_def)
  show ?thesis
  proof (cases r)
    case None
    then show ?thesis using g r(2) ms by simp
  next
    case (Some j)
    then have j: "j < length (DataTypeMembers b)" "find (member_matches y et) ms = Some (?ds ! j)" using r(2) fn ms by auto
    then have "member_matches y et (?ds ! j)" by (metis (mono_tags, lifting) find_Some_iff)
    then have "fst (?ds ! j) = y" by (auto simp: member_matches_def)
    then show ?thesis using g Some j member_at_file [OF ok j(1)] by (auto simp: member_desc_def)
  qed
qed

section \<open>From the converter to the debugger\<close>

lemma members_in_file: "16 * length (DataTypeMembers b) \<le> length (file_bytes b)"
  by (simp add: file_bytes_def Let_def length_concat_const [of "member_words pos" 4 for pos] member_words_def)

lemma written_file:
  assumes "sorts srt" "list_all strings_ok ops" "bcs_run ops bcs_empty = Some b" "BCS_WriteFile srt True b = (b', Some m)"
    "length m < 2 ^ 32"
  shows "m = file_bytes b' \<and> readable b' \<and> sorted (map ps_address (PublicSymbols b')) \<and>
    sorted (map (\<lambda>t. Names b' ! dt_name t) (DataTypes b')) \<and> mset (publics b') = mset (publics_of ops) \<and>
    mset (types b') = mset (types_of ops) \<and>
    (\<forall>t \<in> set (DataTypes b'). unat (dt_firstMember t) + unat (dt_numOfMembers t) \<le> length (DataTypeMembers b'))"
proof -
  have b': "b' = BCS_sorted srt b" "m = file_bytes b'" using assms(4) by (auto simp: BCS_WriteFile_def Let_def)
  note s = sorted_tables [OF assms(1), of b, folded b'(1)]
  have "length (DataTypeMembers b) < 2 ^ 32" using members_in_file [of b'] assms(5) b'(2) s(6) by simp
  then have inv: "bcs_inv b" "publics b = publics_of ops" "types b = types_of ops"
    using run_empty [OF assms(3,2)] by auto
  then have "readable b'" using sorted_readable [OF assms(1), of b] assms(5) b' by (simp add: bcs_inv_def)
  moreover have "mset (publics b') = mset (publics b)" "mset (types b') = mset (types b)"
    using s by (simp_all add: publics_def types_def)
  moreover have "\<forall>t \<in> set (DataTypes b'). unat (dt_firstMember t) + unat (dt_numOfMembers t) \<le> length (DataTypeMembers b')"
    using inv(1) laid_out_bounds [of 0 "DataTypes b" "length (DataTypeMembers b)"] s(3,6)
    by (auto simp: bcs_inv_def dest: mset_eq_setD)
  ultimately show ?thesis using s b'(2) inv by simp
qed

text \<open>
  C3: A public symbol is found again by address. The converter collects symbols, types and members,
  \<open>BCS_WriteFile\<close> sorts and writes them with any sorting function that keeps the promise of
  \<open>std::sort\<close>, and \<open>Symbols::GetNameOfPublic\<close> reads the file: it always returns, with the name of an
  added symbol that contains the address when there is one, and with a null pointer only when there is
  none, provided that the file is smaller than four gigabytes and the symbols end in the order in
  which they start.
\<close>

theorem public_symbol_roundtrip:
  assumes "sorts srt" "list_all strings_ok ops" "bcs_run ops bcs_empty = Some b" "BCS_WriteFile srt True b = (b', Some m)"
    "length m < 2 ^ 32" "ordered_ends (set (publics_of ops))"
  shows "\<exists>r. GetNameOfPublic (Some m) rva = Some r \<and>
    (case r of
       Some (i, p) \<Rightarrow> \<exists>n a l. (n, a, l) \<in> set (publics_of ops) \<and> inside rva (n, a, l) \<and> cstr (drop p m) n
     | None \<Rightarrow> \<forall>s \<in> set (publics_of ops). \<not> inside rva s)"
proof -
  note w = written_file [OF assms(1-5)]
  then have eq: "set (publics b') = set (publics_of ops)" by (metis mset_eq_setD)
  show ?thesis using public_lookup [of b' rva, unfolded eq] w assms(6) by (simp cong: option.case_cong)
qed

text \<open>
  A public symbol is found again by name: \<open>Symbols::GetPublicByName\<close> on a written file returns an
  entry with the address and the length of an added symbol of that name, and a null pointer only when
  no symbol of that name was added.
\<close>

theorem public_by_name_roundtrip:
  assumes "sorts srt" "list_all strings_ok ops" "bcs_run ops bcs_empty = Some b" "BCS_WriteFile srt True b = (b', Some m)"
    "length m < 2 ^ 32" "cstr q x"
  shows "\<exists>r. GetPublicByName (Some m) q = Some r \<and>
    (case r of
       Some i \<Rightarrow> \<exists>s. pub_at m 60 i = Some s \<and> (x, sym_address s, sym_length s) \<in> set (publics_of ops)
     | None \<Rightarrow> \<forall>(n, a, l) \<in> set (publics_of ops). n \<noteq> x)"
proof -
  note w = written_file [OF assms(1-5)]
  then have eq: "set (publics b') = set (publics_of ops)" by (metis mset_eq_setD)
  show ?thesis using public_by_name [of b' q x, unfolded eq pubs_off_def] w assms(6) by (simp cong: option.case_cong)
qed

text \<open>
  C4: Structure members are found again. \<open>Symbols::GetDatatype\<close> on a written file returns the longest
  added type of the name, and \<open>Symbols::GetDatatypeMember\<close> on it returns the offset and the type index
  of the first member of the name (and of the expected type, when one is given) that was added to that
  type, or a null pointer when it has no such member. \<open>GetDatatype\<close> returns a null pointer when
  no type of the name was added and when no type has members.
\<close>

theorem datatype_roundtrip:
  assumes "sorts srt" "list_all strings_ok ops" "bcs_run ops bcs_empty = Some b" "BCS_WriteFile srt True b = (b', Some m)"
    "length m < 2 ^ 32" "cstr q x" "cstr p y" "rel_option cstr ep et"
  shows "\<exists>r. GetDatatype (Some m) q = Some r \<and>
    (case r of
       None \<Rightarrow> (\<forall>(n, k, l, i, ms) \<in> set (types_of ops). n \<noteq> x) \<or> (\<forall>(n, k, l, i, ms) \<in> set (types_of ops). ms = [])
     | Some t \<Rightarrow>
         \<exists>k l i ms. (x, k, l, i, ms) \<in> set (types_of ops) \<and>
           (\<forall>(n', k', l', i', ms') \<in> set (types_of ops). n' = x \<longrightarrow> l' \<le> l) \<and>
           (\<exists>r. GetDatatypeMember (Some m) (Some t) p ep = Some r \<and>
             (case r of
                None \<Rightarrow> find (member_matches y et) ms = None
              | Some j \<Rightarrow> \<exists>e d off. hdr_datatypeMembers m = Some off \<and> member_at m (unat off) j = Some e \<and>
                  find (member_matches y et) ms = Some (y, d, member_offset e, member_pdbDatatypeIndex e))))"
proof -
  note w = written_file [OF assms(1-5)]
  then have ts: "set (types_of ops) = type_desc (Names b') (DataTypeMembers b') ` set (DataTypes b')"
    by (metis mset_eq_setD list.set_map types_def)
  obtain r where r: "GetDatatype (Some m) q = Some r"
    "case r of
       Some i \<Rightarrow> i < length (DataTypes b') \<and> DataTypeMembers b' \<noteq> [] \<and> Names b' ! dt_name (DataTypes b' ! i) = x \<and>
         (\<forall>t \<in> set (DataTypes b'). Names b' ! dt_name t = x \<longrightarrow> dt_length t \<le> dt_length (DataTypes b' ! i))
     | None \<Rightarrow> DataTypeMembers b' = [] \<or> (\<forall>t \<in> set (DataTypes b'). Names b' ! dt_name t \<noteq> x)"
    using datatype_lookup [of b' q x] w assms(6) by auto
  show ?thesis
  proof (cases r)
    case None
    then show ?thesis using r ts by (auto simp: type_desc_def)
  next
    case (Some t)
    then have t: "t < length (DataTypes b')" "DataTypeMembers b' \<noteq> []" "Names b' ! dt_name (DataTypes b' ! t) = x"
      "\<forall>t' \<in> set (DataTypes b'). Names b' ! dt_name t' = x \<longrightarrow> dt_length t' \<le> dt_length (DataTypes b' ! t)"
      using r(2) by auto
    let ?t = "DataTypes b' ! t"
    let ?ms = "map (member_desc (Names b')) (take (unat (dt_numOfMembers ?t)) (drop (unat (dt_firstMember ?t)) (DataTypeMembers b')))"
    have "(x, Names b' ! dt_kind ?t, dt_length ?t, dt_pdbIndex ?t, ?ms) \<in> set (types_of ops)"
      using ts t(1,3) by (force simp: type_desc_def)
    moreover have "\<forall>(n', k', l', i', ms') \<in> set (types_of ops). n' = x \<longrightarrow> l' \<le> dt_length ?t"
      using ts t(4) by (auto simp: type_desc_def)
    moreover have "\<exists>r. GetDatatypeMember (Some m) (Some t) p ep = Some r \<and>
        (case r of
           None \<Rightarrow> find (member_matches y et) ?ms = None
         | Some j \<Rightarrow> \<exists>e d off. hdr_datatypeMembers m = Some off \<and> member_at m (unat off) j = Some e \<and>
             find (member_matches y et) ?ms = Some (y, d, member_offset e, member_pdbDatatypeIndex e))"
    proof -
      obtain off where "hdr_datatypeMembers m = Some off" "unat off = members_off b'"
        using header_fields(5) [of b'] w by auto
      then show ?thesis using member_lookup [of b' t p y ep et] t(1,2) w assms(7,8) by (simp cong: option.case_cong)
    qed
    ultimately show ?thesis using r(1) unfolding Some by (intro exI [of _ "Some t"] conjI) (simp_all only: option.case, blast)
  qed
qed


section \<open>Witnesses\<close>

fun insert_by :: "(nat \<Rightarrow> nat \<Rightarrow> bool) \<Rightarrow> nat \<Rightarrow> nat list \<Rightarrow> nat list" where
  "insert_by lt x [] = [x]"
| "insert_by lt x (y # ys) = (if lt y x then y # insert_by lt x ys else x # y # ys)"

definition example_sort :: sorter where
  "example_sort lt xs = foldr (insert_by lt) xs []"

lemma mset_insert_by [simp]: "mset (insert_by lt x ys) = add_mset x (mset ys)"
  by (induction ys) auto

lemma set_insert_by [simp]: "set (insert_by lt x ys) = insert x (set ys)"
  by (induction ys) auto

lemma sorted_insert_by:
  assumes "strict_weak lt A" "x \<in> A" "set ys \<subseteq> A" "sorted_wrt (\<lambda>i j. \<not> lt j i) ys"
  shows "sorted_wrt (\<lambda>i j. \<not> lt j i) (insert_by lt x ys)"
  using assms(3,4)
proof (induction ys)
  case (Cons y ys)
  have "\<not> lt x y" if "lt y x" using assms(1,2) Cons.prems(1) that unfolding strict_weak_def by (meson list.set_intros(1) subsetD)
  moreover have "\<not> lt z x" if "\<not> lt y x" "z \<in> set ys" for z
  proof -
    have "\<not> lt z y" "z \<in> A" "y \<in> A" using Cons.prems that by auto
    then show ?thesis using assms(1,2) that(1) unfolding strict_weak_def by blast
  qed
  ultimately show ?case using Cons by simp
qed simp

lemma example_sort_sorts: "sorts example_sort"
proof -
  have "mset (example_sort lt xs) = mset xs \<and> sorted_wrt (\<lambda>i j. \<not> lt j i) (example_sort lt xs)"
    if "strict_weak lt (set xs)" for lt xs
  proof -
    have "set ys \<subseteq> set xs \<Longrightarrow> mset (foldr (insert_by lt) ys []) = mset ys \<and> sorted_wrt (\<lambda>i j. \<not> lt j i) (foldr (insert_by lt) ys [])" for ys
    proof (induction ys)
      case (Cons y ys)
      moreover have "set (foldr (insert_by lt) ys []) = set ys" using Cons by (metis mset_eq_setD set_subset_Cons subset_trans)
      ultimately show ?case using sorted_insert_by [OF that, of y "foldr (insert_by lt) ys []"] by simp
    qed simp
    then show ?thesis by (simp add: example_sort_def)
  qed
  then show ?thesis by (simp add: sorts_def)
qed

definition example_ops :: "bcs_op list" where
  "example_ops =
     [AddPublic [0x62] 0x2000 0x10, AddPublic [0x61] 0x1000 0x20, AddPublic [] 0 0,
      AddType [0x54] [0x53] 8 1, AddMember [0x78] [0x69] 0 2, AddMember [0x79] [0x69] 4 2, AddType [0x53] [0x53] 4 3]"

definition example_bcs :: bcs where
  "example_bcs = the (bcs_run example_ops bcs_empty)"

definition example_file :: "byte list" where
  "example_file = the (snd (BCS_WriteFile example_sort True example_bcs))"

lemma words_bytes_code [code]: "words_bytes ws = concat (map (word_bytes 4) ws)"
  by (induction ws) (simp_all add: words_bytes_def word_bytes_le_bytes)

lemma example_session:
  "list_all strings_ok example_ops" "bcs_run example_ops bcs_empty = Some example_bcs"
  "BCS_WriteFile example_sort True example_bcs = (BCS_sorted example_sort example_bcs, Some example_file)"
  "length example_file = 178" "publics_of example_ops = [([0x62], 0x2000, 0x10), ([0x61], 0x1000, 0x20)]"
  by code_simp+


theorem public_symbol_roundtrip_witness:
  "\<exists>i p. GetNameOfPublic (Some example_file) 0x1004 = Some (Some (i, p)) \<and> cstr (drop p example_file) [0x61]"
proof -
  have "ordered_ends (set (publics_of example_ops))" by (simp add: example_session ordered_ends_def)
  from public_symbol_roundtrip [OF example_sort_sorts example_session(1-3) _ this, where rva = "0x1004"] example_session(4)
  obtain r where r: "GetNameOfPublic (Some example_file) 0x1004 = Some r"
    "case r of
       Some (i, p) \<Rightarrow> \<exists>n a l. (n, a, l) \<in> set (publics_of example_ops) \<and> inside 0x1004 (n, a, l) \<and> cstr (drop p example_file) n
     | None \<Rightarrow> \<forall>s \<in> set (publics_of example_ops). \<not> inside 0x1004 s" by auto
  then show ?thesis by (cases r) (auto simp: example_session inside_def)
qed

theorem public_by_name_roundtrip_witness:
  "\<exists>i s. GetPublicByName (Some example_file) [0x62, 0] = Some (Some i) \<and> pub_at example_file 60 i = Some s \<and>
     sym_address s = 0x2000"
proof -
  have "cstr [0x62, 0] [0x62]" by (simp add: cstr_def)
  from public_by_name_roundtrip [OF example_sort_sorts example_session(1-3) _ this] example_session(4)
  obtain r where r: "GetPublicByName (Some example_file) [0x62, 0] = Some r"
    "case r of
       Some i \<Rightarrow> \<exists>s. pub_at example_file 60 i = Some s \<and> ([0x62], sym_address s, sym_length s) \<in> set (publics_of example_ops)
     | None \<Rightarrow> \<forall>(n, a, l) \<in> set (publics_of example_ops). n \<noteq> [0x62]" by auto
  then show ?thesis by (cases r) (auto simp: example_session)
qed

lemma example_types:
  "types_of example_ops = [([0x54], [0x53], 8, 1, [([0x78], [0x69], 0, 2), ([0x79], [0x69], 4, 2)]), ([0x53], [0x53], 4, 3, [])]"
  by code_simp

theorem datatype_roundtrip_witness:
  "\<exists>t j e off. GetDatatype (Some example_file) [0x54, 0] = Some (Some t) \<and>
     GetDatatypeMember (Some example_file) (Some t) [0x79, 0] None = Some (Some j) \<and>
     hdr_datatypeMembers example_file = Some off \<and> member_at example_file (unat off) j = Some e \<and> member_offset e = 4"
proof -
  have c: "cstr [0x54, 0] [0x54]" "cstr [0x79, 0] [0x79]" "rel_option cstr None None" by (simp_all add: cstr_def)
  show ?thesis
    using datatype_roundtrip [OF example_sort_sorts example_session(1-3) _ c] example_session(4)
    by (auto simp: example_types member_matches_def split: option.splits)
qed

end
