(* ===== verification/Session.thy ===== *)
theory Session
  imports Main
begin

text \<open>
  Sequences of operations on a state: the interface between a component whose operations may fail and
  an abstract machine that it simulates. The invariant has a budget, which every operation may use by
  one, for bounds that grow with the number of operations.
\<close>

fun run_steps :: "('k \<Rightarrow> 's \<Rightarrow> 's option) \<Rightarrow> 'k list \<Rightarrow> 's \<Rightarrow> 's option" where
  "run_steps step [] s = Some s"
| "run_steps step (k # ks) s = (case step k s of None \<Rightarrow> None | Some s \<Rightarrow> run_steps step ks s)"

locale session =
  fixes step :: "'k \<Rightarrow> 's \<Rightarrow> 's option"
    and astep :: "'k \<Rightarrow> 'a \<Rightarrow> 'a"
    and abst :: "'s \<Rightarrow> 'a"
    and inv :: "nat \<Rightarrow> 's \<Rightarrow> bool"
    and admissible :: "'k \<Rightarrow> bool"
  assumes simulates: "admissible k \<Longrightarrow> inv (Suc n) s \<Longrightarrow> \<exists>s'. step k s = Some s' \<and> inv n s' \<and> abst s' = astep k (abst s)"
begin

lemma run:
  assumes "list_all admissible ks" and "inv (length ks + n) s"
  shows "\<exists>s'. run_steps step ks s = Some s' \<and> inv n s' \<and> abst s' = fold astep ks (abst s)"
  using assms
proof (induction ks arbitrary: s)
  case (Cons k ks)
  then obtain s' where "step k s = Some s'" "inv (length ks + n) s'" "abst s' = astep k (abst s)"
    using simulates [of k "length ks + n" s] by auto
  with Cons show ?case by fastforce
qed simp

lemma run_prefix:
  assumes "list_all admissible (ks @ ls)" and "inv (length (ks @ ls) + n) s"
  shows "\<exists>t. run_steps step ks s = Some t \<and> inv (length ls + n) t \<and> run_steps step (ks @ ls) s = run_steps step ls t"
proof -
  obtain t where t: "run_steps step ks s = Some t" "inv (length ls + n) t"
    using run [of ks "length ls + n" s] assms by (auto simp: add.assoc)
  have "run_steps step (ks @ ls) s = (case run_steps step ks s of None \<Rightarrow> None | Some t \<Rightarrow> run_steps step ls t)" for s
    by (induction ks arbitrary: s) (auto split: option.split)
  with t show ?thesis by auto
qed

end

end
