(* ===== verification/LogWnd.thy ===== *)
theory LogWnd
  imports Wnd Session
begin

text \<open>
  The log window, \<open>BugChecker/LogWnd.cpp\<close>. The size of the contents is what the allocator measures:
  the change of its counter while a string is added, which depends on the contents before and after,
  and while the first line is erased, are parameters. Drawing is left out.
\<close>

section \<open>The model\<close>

record log_window = window +
  newLine :: bool
  allocSize :: int
  GoToEnd_Pending :: bool

record measured =
  added_size :: "byte list list \<Rightarrow> byte list list \<Rightarrow> int"
  erased_size :: "byte list list \<Rightarrow> int"

definition LOG_WINDOW_CONTENTS_MAX_SIZE :: int where
  "LOG_WINDOW_CONTENTS_MAX_SIZE = 1 * 1024 * 1024"

definition winDim :: "('a window_scheme) \<Rightarrow> int" where
  "winDim w = ULONG (destY1 w - destY0 w + 1)"

definition GoToEnd :: "log_window \<Rightarrow> log_window" where
  "GoToEnd w =
     (if destY0 w = 0 \<and> destY1 w = 0 then w\<lparr>GoToEnd_Pending := True\<rparr>
      else if int (length (contents w)) \<ge> winDim w then w\<lparr>posY := ULONG (int (length (contents w)) - winDim w)\<rparr>
      else w)"

fun pop_blank :: "byte list list \<Rightarrow> byte list list" where
  "pop_blank [] = []"
| "pop_blank (l # ls) = (case pop_blank ls of [] \<Rightarrow> if l = [] then [] else [l] | r \<Rightarrow> l # r)"

definition printable :: "byte \<Rightarrow> byte" where
  "printable c = (if c \<noteq> 0x0A \<and> c \<noteq> 0x08 \<and> (c < 32 \<or> c \<ge> 128) then 0x3F else c)"

definition unescape :: "byte \<Rightarrow> byte" where
  "unescape c = (if c = 0x08 then 0x0A else c)"

fun append_lines :: "byte list list \<Rightarrow> bool \<Rightarrow> bool \<Rightarrow> byte list list \<Rightarrow> bool \<times> byte list list" where
  "append_lines [] isFirst nl cs = (nl, cs)"
| "append_lines (l # v) isFirst nl cs =
     (let (l, cs) = (if \<not> nl \<and> isFirst \<and> cs \<noteq> [] then (last cs @ l, butlast cs) else (l, cs))
      in append_lines v False False (cs @ [map unescape l]))"

definition AddString_contents :: "byte list \<Rightarrow> bool \<Rightarrow> bool \<times> byte list list \<Rightarrow> (bool \<times> byte list list) option" where
  "AddString_contents s doAppend nc =
     (case nc of (nl, cs) \<Rightarrow>
        if \<not> doAppend then
          (let cs = (if \<not> nl then pop_blank cs else cs);
               cs = (if length s \<noteq> 0 then cs @ [s] else cs)
           in Some (True, cs))
        else
          (case Tokenize (map printable s) [0x0A] of
             None \<Rightarrow> None
           | Some v \<Rightarrow> Some (append_lines v True nl cs)))"

fun evict :: "measured \<Rightarrow> int \<Rightarrow> byte list list \<Rightarrow> int \<times> byte list list" where
  "evict m a [] = (a, [])"
| "evict m a (l # cs) =
     (if a > LOG_WINDOW_CONTENTS_MAX_SIZE then evict m (a + erased_size m (l # cs)) cs else (a, l # cs))"

definition AddString :: "measured \<Rightarrow> byte list \<Rightarrow> bool \<Rightarrow> log_window \<Rightarrow> log_window option" where
  "AddString m s doAppend w =
     (case AddString_contents s doAppend (newLine w, contents w) of
        None \<Rightarrow> None
      | Some (nl, cs) \<Rightarrow>
          (case evict m (allocSize w + added_size m (contents w) cs) cs of
             (a, cs) \<Rightarrow> Some (GoToEnd (w\<lparr>newLine := nl, contents := cs, allocSize := a\<rparr>))))"

definition AddUserCmd :: "measured \<Rightarrow> byte list \<Rightarrow> log_window \<Rightarrow> log_window option" where
  "AddUserCmd m psz w = AddString m ([0x0D, 0x3A] @ psz) False w"

definition Home :: "log_window \<Rightarrow> log_window" where
  "Home w = w\<lparr>posY := 0\<rparr>"

definition Clear :: "log_window \<Rightarrow> log_window" where
  "Clear w = Home (w\<lparr>contents := [], allocSize := 0\<rparr>)"

definition GetLineToDraw :: "log_window \<Rightarrow> nat \<Rightarrow> byte list option" where
  "GetLineToDraw w index =
     (if index < length (contents w)
      then (let s = contents w ! index in Some (if length s \<noteq> 0 \<and> s ! 0 = 0x0D then drop 1 s else s))
      else None)"

definition Left :: "log_window \<Rightarrow> log_window" where
  "Left w = (if posX w > 0 then w\<lparr>posX := posX w - 1\<rparr> else w)"

definition Right :: "log_window \<Rightarrow> log_window" where
  "Right w = w\<lparr>posX := ULONG (posX w + 1)\<rparr>"

definition Up :: "log_window \<Rightarrow> log_window" where
  "Up w = (if posY w > 0 then w\<lparr>posY := posY w - 1\<rparr> else w)"

definition maxPosY :: "log_window \<Rightarrow> int" where
  "maxPosY w = (if int (length (contents w)) > winDim w then ULONG (int (length (contents w)) - winDim w) else 0)"

definition Down :: "log_window \<Rightarrow> log_window" where
  "Down w =
     (let w = w\<lparr>posY := ULONG (posY w + 1)\<rparr>
      in if posY w > maxPosY w then w\<lparr>posY := maxPosY w\<rparr> else w)"

definition PgUp :: "log_window \<Rightarrow> log_window" where
  "PgUp w = (if posY w > winDim w then w\<lparr>posY := posY w - winDim w\<rparr> else w\<lparr>posY := 0\<rparr>)"

definition PgDn :: "log_window \<Rightarrow> log_window" where
  "PgDn w =
     (let w = w\<lparr>posY := ULONG (posY w + winDim w)\<rparr>
      in if posY w > maxPosY w then w\<lparr>posY := maxPosY w\<rparr> else w)"

definition End :: "log_window \<Rightarrow> log_window" where
  "End w = GoToEnd w"

section \<open>Text as a stream\<close>

lemma tokens_newline:
  "\<exists>ts. Tokenize s [0x0A] = Some ts \<and> ts \<noteq> [] \<and> join [0x0A] ts = s \<and> (\<forall>t \<in> set ts. 0x0A \<notin> set t)"
proof -
  obtain ts where ts: "Tokenize s [0x0A] = Some ts" "ts \<noteq> []" "join [0x0A] ts = s" "\<forall>t \<in> set ts. \<not> contains t [0x0A]"
    using tokenize_loop_spec [of "[0x0A]" s "[]"] by (auto simp: Tokenize_def)
  moreover have "0x0A \<notin> set t" if "\<not> contains t [0x0A]" for t :: "byte list"
  proof
    assume "0x0A \<in> set t"
    then obtain i where "i < length t" "t ! i = 0x0A" by (auto simp: in_set_conv_nth)
    then have "contains t [0x0A]" by (auto simp: contains_def take_Suc_conv_app_nth hd_drop_conv_nth take_Suc Suc_le_eq intro!: exI [of _ i])
    with that show False by simp
  qed
  ultimately show ?thesis by blast
qed

text \<open>The lines of a text.\<close>

fun lines_of :: "byte list \<Rightarrow> byte list list" where
  "lines_of [] = [[]]"
| "lines_of (c # s) = (if c = 0x0A then [] # lines_of s else (c # hd (lines_of s)) # tl (lines_of s))"

lemma lines_of_nonempty: "lines_of s \<noteq> []"
  by (cases s) auto

lemma lines_of_append:
  "lines_of (s @ t) = butlast (lines_of s) @ (last (lines_of s) @ hd (lines_of t)) # tl (lines_of t)"
proof (induction s)
  case Nil
  then show ?case using lines_of_nonempty [of t] by simp
next
  case (Cons c s)
  then show ?case using lines_of_nonempty [of s] by (cases "lines_of s") (auto split: if_splits)
qed

lemma lines_of_single: "0x0A \<notin> set t \<Longrightarrow> lines_of t = [t]"
  by (induction t) auto

lemma lines_of_join: "ts \<noteq> [] \<Longrightarrow> \<forall>t \<in> set ts. 0x0A \<notin> set t \<Longrightarrow> lines_of (join [0x0A] ts) = ts"
proof (induction "[0x0A :: byte]" ts rule: join.induct)
  case (3 t u ts)
  then show ?case using lines_of_append [of t "[0x0A] @ join [0x0A] (u # ts)"] by (simp add: lines_of_single)
qed (simp_all add: lines_of_single)

lemma Tokenize_lines: "Tokenize s [0x0A] = Some (lines_of s)"
  using tokens_newline [of s] lines_of_join by metis

lemma append_lines_rest: "append_lines v False nl cs = (nl \<and> v = [], cs @ map (map unescape) v)"
  by (induction v arbitrary: nl cs) auto

lemma append_lines_first:
  "append_lines (l # v) True nl cs =
     (False, (if nl \<or> cs = [] then cs @ [map unescape l] else butlast cs @ [map unescape (last cs @ l)]) @ map (map unescape) v)"
  by (simp add: append_lines_rest Let_def)

lemma unescape_unescape [simp]: "unescape (unescape c) = unescape c"
  by (simp add: unescape_def)

lemma append_contents:
  "AddString_contents s True (nl, cs) =
     (let ls = lines_of (map printable s) in
      Some (False, (if nl \<or> cs = [] then cs @ [map unescape (hd ls)] else butlast cs @ [map unescape (last cs @ hd ls)]) @
        map (map unescape) (tl ls)))"
  using lines_of_nonempty [of "map printable s"]
  by (cases "lines_of (map printable s)") (simp_all add: AddString_contents_def Tokenize_lines append_lines_first del: append_lines.simps)

lemma map_unescape_append: "map unescape (map unescape x @ y) = map unescape (x @ y)"
  by simp

lemma append_contents_twice:
  assumes "AddString_contents s True nc = Some nc'"
  shows "AddString_contents t True nc' = AddString_contents (s @ t) True nc"
proof -
  obtain nl cs where nc: "nc = (nl, cs)" by fastforce
  obtain x xs where x: "lines_of (map printable s) = x # xs"
    using lines_of_nonempty [of "map printable s"] by (cases "lines_of (map printable s)") auto
  obtain y ys where y: "lines_of (map printable t) = y # ys"
    using lines_of_nonempty [of "map printable t"] by (cases "lines_of (map printable t)") auto
  show ?thesis
  proof (cases xs rule: rev_cases)
    case Nil
    then show ?thesis using assms x y nc by (auto simp: append_contents lines_of_append Let_def butlast_append)
  next
    case (snoc zs z)
    then have "butlast (x # xs) = x # zs" "last (x # xs) = z" by simp_all
    with snoc show ?thesis using assms x y nc by (auto simp: append_contents lines_of_append Let_def butlast_append)
  qed
qed

fun AddStrings_contents :: "byte list list \<Rightarrow> bool \<times> byte list list \<Rightarrow> (bool \<times> byte list list) option" where
  "AddStrings_contents [] nc = Some nc"
| "AddStrings_contents (s # ss) nc = (case AddString_contents s True nc of None \<Rightarrow> None | Some nc \<Rightarrow> AddStrings_contents ss nc)"

lemma append_contents_concat: "AddStrings_contents (s # ss) nc = AddString_contents (concat (s # ss)) True nc"
proof (induction ss arbitrary: s nc)
  case Nil
  then show ?case by (simp split: option.split)
next
  case (Cons t ss)
  obtain nl cs where "nc = (nl, cs)" by fastforce
  then obtain nc' where nc': "AddString_contents s True nc = Some nc'" by (simp add: append_contents Let_def)
  then have "AddStrings_contents (s # t # ss) nc = AddStrings_contents ((s @ t) # ss) nc"
    using append_contents_twice [OF nc'] by simp
  then show ?case using Cons [of "s @ t" nc] by simp
qed

text \<open>Lines without blank lines at the end.\<close>

lemma pop_blank_snoc: "pop_blank (ls @ [l]) = (if l = [] then pop_blank ls else ls @ [l])"
  by (induction ls) (auto split: list.splits)

lemma pop_blank_append: "pop_blank (cs @ ls) = (if pop_blank ls = [] then pop_blank cs else cs @ pop_blank ls)"
  by (induction ls arbitrary: cs rule: rev_induct) (auto simp: pop_blank_snoc simp flip: append_assoc)

section \<open>Eviction and scrolling\<close>

text \<open>The measured size when the first \<open>k\<close> lines have been erased one after the other.\<close>

definition size_after :: "measured \<Rightarrow> int \<Rightarrow> byte list list \<Rightarrow> nat \<Rightarrow> int" where
  "size_after m a cs k = a + (\<Sum>i<k. erased_size m (drop i cs))"

lemma size_after_0 [simp]: "size_after m a cs 0 = a"
  by (simp add: size_after_def)

lemma size_after_Suc: "size_after m a (l # cs) (Suc k) = size_after m (a + erased_size m (l # cs)) cs k"
  by (simp add: size_after_def sum.lessThan_Suc_shift del: sum.lessThan_Suc)

lemma evict_spec:
  "\<exists>k \<le> length cs. evict m a cs = (size_after m a cs k, drop k cs) \<and>
     (\<forall>i < k. size_after m a cs i > LOG_WINDOW_CONTENTS_MAX_SIZE) \<and>
     (k = length cs \<or> size_after m a cs k \<le> LOG_WINDOW_CONTENTS_MAX_SIZE)"
proof (induction m a cs rule: evict.induct)
  case (2 m a l cs)
  show ?case
  proof (cases "a > LOG_WINDOW_CONTENTS_MAX_SIZE")
    case True
    then obtain k where k: "k \<le> length cs" "evict m a (l # cs) = (size_after m a (l # cs) (Suc k), drop k cs)"
      "\<forall>i < k. size_after m a (l # cs) (Suc i) > LOG_WINDOW_CONTENTS_MAX_SIZE"
      "k = length cs \<or> size_after m a (l # cs) (Suc k) \<le> LOG_WINDOW_CONTENTS_MAX_SIZE"
      using 2 by (auto simp: size_after_Suc)
    have "size_after m a (l # cs) i > LOG_WINDOW_CONTENTS_MAX_SIZE" if "i < Suc k" for i
      using that True k(3) by (cases i) simp_all
    then show ?thesis using k by (intro exI [of _ "Suc k"]) simp
  next
    case False
    then show ?thesis by (intro exI [of _ 0]) simp
  qed
qed simp

lemma evict_suffix:
  "\<exists>k. k \<le> length cs \<and> snd (evict m a cs) = drop k cs \<and>
     (snd (evict m a cs) = [] \<or> fst (evict m a cs) \<le> LOG_WINDOW_CONTENTS_MAX_SIZE) \<and>
     (a \<le> LOG_WINDOW_CONTENTS_MAX_SIZE \<longrightarrow> k = 0 \<and> fst (evict m a cs) = a)"
proof -
  obtain k where k: "k \<le> length cs" "evict m a cs = (size_after m a cs k, drop k cs)"
    "\<forall>i < k. size_after m a cs i > LOG_WINDOW_CONTENTS_MAX_SIZE"
    "k = length cs \<or> size_after m a cs k \<le> LOG_WINDOW_CONTENTS_MAX_SIZE" using evict_spec [of cs m a] by blast
  have "k = 0" if "a \<le> LOG_WINDOW_CONTENTS_MAX_SIZE" using k(3) that by (cases k) auto
  then show ?thesis using k by (intro exI [of _ k]) auto
qed

definition laid :: "log_window \<Rightarrow> bool" where
  "laid w \<longleftrightarrow> 0 < destY0 w \<and> destY0 w \<le> destY1 w \<and> destY1 w < 128"

definition scroll_ok :: "log_window \<Rightarrow> bool" where
  "scroll_ok w \<longleftrightarrow> laid w \<and> length (contents w) < 2 ^ 31 \<and> 0 \<le> posY w \<and> posY w \<le> maxPosY w"

lemma winDim_laid: "laid w \<Longrightarrow> winDim w = destY1 w - destY0 w + 1 \<and> 0 < winDim w \<and> winDim w < 128"
  by (simp add: laid_def winDim_def ULONG_def)

lemma maxPosY_laid:
  "laid w \<Longrightarrow> length (contents w) < 2 ^ 31 \<Longrightarrow>
     maxPosY w = max 0 (int (length (contents w)) - winDim w) \<and> maxPosY w < 2 ^ 31"
  using winDim_laid [of w] by (auto simp: maxPosY_def ULONG_def)

datatype log_key = KeyUp | KeyDown | KeyPgUp | KeyPgDn | KeyHome | KeyEnd | KeyLeft | KeyRight

fun log_step :: "log_key \<Rightarrow> log_window \<Rightarrow> log_window" where
  "log_step KeyUp w = Up w"
| "log_step KeyDown w = Down w"
| "log_step KeyPgUp w = PgUp w"
| "log_step KeyPgDn w = PgDn w"
| "log_step KeyHome w = Home w"
| "log_step KeyEnd w = End w"
| "log_step KeyLeft w = Left w"
| "log_step KeyRight w = Right w"

text \<open>What the keys do to the first visible line.\<close>

fun scrolled :: "log_key \<Rightarrow> int \<Rightarrow> int \<Rightarrow> int \<Rightarrow> int" where
  "scrolled KeyUp h lim p = max 0 (p - 1)"
| "scrolled KeyDown h lim p = min lim (p + 1)"
| "scrolled KeyPgUp h lim p = max 0 (p - h)"
| "scrolled KeyPgDn h lim p = min lim (p + h)"
| "scrolled KeyHome h lim p = 0"
| "scrolled KeyEnd h lim p = lim"
| "scrolled KeyLeft h lim p = p"
| "scrolled KeyRight h lim p = p"

lemma log_step_keeps:
  "contents (log_step k w) = contents w \<and> destY0 (log_step k w) = destY0 w \<and> destY1 (log_step k w) = destY1 w"
  by (cases k) (auto simp: Up_def Down_def PgUp_def PgDn_def Home_def End_def GoToEnd_def Left_def Right_def Let_def)

lemma log_step_scrolled:
  assumes "scroll_ok w"
  shows "posY (log_step k w) = scrolled k (winDim w) (maxPosY w) (posY w)"
proof -
  have w: "winDim w = destY1 w - destY0 w + 1" "0 < winDim w" "winDim w < 128" "destY0 w \<noteq> 0"
    using winDim_laid [of w] assms by (auto simp: scroll_ok_def laid_def)
  have m: "maxPosY w = max 0 (int (length (contents w)) - winDim w)" "maxPosY w < 2 ^ 31"
    using maxPosY_laid [of w] assms by (auto simp: scroll_ok_def)
  have p: "0 \<le> posY w" "posY w \<le> maxPosY w" using assms by (auto simp: scroll_ok_def)
  have u: "ULONG (posY w + 1) = posY w + 1" "ULONG (posY w + winDim w) = posY w + winDim w"
    using p m(2) w by (simp_all add: ULONG_def)
  have n: "winDim (w\<lparr>posY := z\<rparr>) = winDim w" "maxPosY (w\<lparr>posY := z\<rparr>) = maxPosY w" for z
    by (simp_all add: winDim_def maxPosY_def)
  have e: "int (length (contents w)) \<ge> winDim w \<Longrightarrow> ULONG (int (length (contents w)) - winDim w) = maxPosY w"
    using m by (auto simp: ULONG_def)
  show ?thesis
  proof (cases k)
    case KeyEnd
    then show ?thesis using w p e m by (auto simp: End_def GoToEnd_def)
  qed (use p u n w in \<open>auto simp: Up_def Down_def PgUp_def PgDn_def Home_def Left_def Right_def Let_def\<close>)
qed

definition scroll_step :: "log_key \<Rightarrow> byte list list \<times> int \<times> int \<times> int \<Rightarrow> byte list list \<times> int \<times> int \<times> int" where
  "scroll_step k = (\<lambda>(cs, h, m, p). (cs, h, m, scrolled k h m p))"

interpretation scrolling: session "\<lambda>k w. Some (log_step k w)" scroll_step
  "\<lambda>w. (contents w, winDim w, maxPosY w, posY w)" "\<lambda>n. scroll_ok" "\<lambda>k. True"
proof
  fix k n w
  assume w: "scroll_ok w"
  let ?w = "log_step k w"
  have same: "contents ?w = contents w" "winDim ?w = winDim w" "maxPosY ?w = maxPosY w" "laid ?w = laid w"
    using log_step_keeps [of k w] by (simp_all add: winDim_def maxPosY_def laid_def)
  have "0 < winDim w" "0 \<le> maxPosY w"
    using w winDim_laid [of w] maxPosY_laid [of w] by (auto simp: scroll_ok_def)
  then have "scroll_ok ?w"
    using w same log_step_scrolled [OF w, of k] by (cases k) (auto simp: scroll_ok_def)
  then show "\<exists>s'. Some ?w = Some s' \<and> scroll_ok s' \<and>
      (contents s', winDim s', maxPosY s', posY s') = scroll_step k (contents w, winDim w, maxPosY w, posY w)"
    using same log_step_scrolled [OF w, of k] by (simp add: scroll_step_def)
qed

section \<open>Properties\<close>

text \<open>
  C17: Text appended to the log in pieces is a stream: however a text is cut into calls of
  \<open>LogWnd::AddString\<close>, the lines behind the old contents are the lines of the whole text, with
  characters that cannot be printed replaced and escaped newlines restored; a string that is added as
  a line of its own afterwards first removes the blank lines at the end.
\<close>

theorem log_stream:
  assumes "ss \<noteq> []" "t \<noteq> []"
  shows "\<exists>ls. join [0x0A] ls = map printable (concat ss) \<and> (\<forall>l \<in> set ls. 0x0A \<notin> set l) \<and>
    AddStrings_contents ss (True, cs) = Some (False, cs @ map (map unescape) ls) \<and>
    AddString_contents t False (False, cs @ map (map unescape) ls) =
      Some (True, pop_blank (cs @ map (map unescape) ls) @ [t]) \<and>
    (\<exists>k. pop_blank (cs @ map (map unescape) ls) @ replicate k [] = cs @ map (map unescape) ls)"
proof -
  obtain s ss' where ss: "ss = s # ss'" using assms(1) by (cases ss) auto
  let ?ls = "lines_of (map printable (concat ss))"
  obtain ts where ts: "Tokenize (map printable (concat ss)) [0x0A] = Some ts" "join [0x0A] ts = map printable (concat ss)"
    "\<forall>l \<in> set ts. 0x0A \<notin> set l" using tokens_newline by blast
  have "AddStrings_contents ss (True, cs) = Some (False, cs @ map (map unescape) ?ls)"
    using lines_of_nonempty [of "map printable (concat ss)"] append_contents_concat [of s ss' "(True, cs)"]
    by (cases ?ls) (simp_all add: ss append_contents Let_def del: AddStrings_contents.simps)
  moreover have "\<exists>k. pop_blank ls @ replicate k [] = ls" for ls
  proof (induction ls rule: rev_induct)
    case (snoc l ls)
    then obtain k where "pop_blank ls @ replicate k [] = ls" by blast
    then have "pop_blank ls @ replicate (k + 1) [] = ls @ [[]]" by (simp flip: replicate_append_same)
    then show ?case by (intro exI [of _ "if l = [] then k + 1 else 0"]) (simp add: pop_blank_snoc)
  qed simp
  ultimately show ?thesis using ts assms(2) by (auto simp: Tokenize_lines AddString_contents_def intro!: exI [of _ ?ls])
qed

text \<open>
  C18: Adding to the log never fails. To bound the memory it drops lines at the front, one at a time and
  each only while the size measured by then is above the limit; it stops as soon as the size is within
  the limit or the log is empty. Afterwards, when the log fills the window, the window ends with the last
  line; when the log is shorter than the window, the position of the window is left as it was (so that
  the last line may be out of sight, see \<open>log_may_stay_scrolled\<close>).
\<close>

theorem AddString_follows:
  assumes "laid w" "length (contents w) + length s + 1 < 2 ^ 31"
  shows "\<exists>w' nl cs k. AddString_contents s doAppend (newLine w, contents w) = Some (nl, cs) \<and>
    AddString m s doAppend w = Some w' \<and> k \<le> length cs \<and> contents w' = drop k cs \<and>
    (let a = allocSize w + added_size m (contents w) cs in
       allocSize w' = size_after m a cs k \<and>
       (\<forall>i < k. size_after m a cs i > LOG_WINDOW_CONTENTS_MAX_SIZE) \<and>
       (k = length cs \<or> size_after m a cs k \<le> LOG_WINDOW_CONTENTS_MAX_SIZE)) \<and>
    (if int (length (contents w')) \<ge> winDim w then posY w' + winDim w = int (length (contents w')) else posY w' = posY w)"
proof -
  obtain nl cs where c: "AddString_contents s doAppend (newLine w, contents w) = Some (nl, cs)"
  proof (cases doAppend)
    case True
    then show ?thesis using that by (simp add: append_contents Let_def) blast
  next
    case False
    then show ?thesis using that by (simp add: AddString_contents_def Let_def)
  qed
  have "length (lines_of t) \<le> length t + 1" for t
  proof (induction t)
    case (Cons b t)
    then show ?case using lines_of_nonempty [of t] by (cases "lines_of t") auto
  qed simp
  from this [of "map printable s"] have ls: "length (lines_of (map printable s)) \<le> length s + 1" by simp
  have pb: "length (pop_blank ls) \<le> length ls" for ls
    by (induction ls rule: rev_induct) (auto simp: pop_blank_snoc)
  have len: "length cs < 2 ^ 31"
  proof (cases doAppend)
    case True
    then show ?thesis using c ls assms(2) lines_of_nonempty [of "map printable s"]
      by (cases "lines_of (map printable s)") (auto simp: append_contents Let_def split: if_splits)
  next
    case False
    then show ?thesis using c assms(2) pb [of "contents w"] by (cases s) (auto simp: AddString_contents_def Let_def split: if_splits)
  qed
  let ?a = "allocSize w + added_size m (contents w) cs"
  obtain k where k: "k \<le> length cs" "evict m ?a cs = (size_after m ?a cs k, drop k cs)"
    "\<forall>i < k. size_after m ?a cs i > LOG_WINDOW_CONTENTS_MAX_SIZE"
    "k = length cs \<or> size_after m ?a cs k \<le> LOG_WINDOW_CONTENTS_MAX_SIZE" using evict_spec [of cs m ?a] by blast
  let ?w = "w\<lparr>newLine := nl, contents := drop k cs, allocSize := size_after m ?a cs k\<rparr>"
  have a: "AddString m s doAppend w = Some (GoToEnd ?w)"
    using c k(2) by (simp add: AddString_def)
  have d: "winDim ?w = winDim w" "destY0 w \<noteq> 0" "0 < winDim w"
    using assms(1) winDim_laid [of w] by (auto simp: winDim_def laid_def)
  have g: "contents (GoToEnd ?w) = drop k cs" "allocSize (GoToEnd ?w) = size_after m ?a cs k"
    by (simp_all add: GoToEnd_def)
  have "if int (length (drop k cs)) \<ge> winDim w then posY (GoToEnd ?w) + winDim w = int (length (drop k cs)) else posY (GoToEnd ?w) = posY w"
    using len k(1) d by (simp add: GoToEnd_def ULONG_def of_nat_diff)
  then show ?thesis
    using c a g k(1,3,4) unfolding Let_def by (intro exI [of _ "GoToEnd ?w"] exI [of _ nl] exI [of _ cs] exI [of _ k]) simp
qed

text \<open>
  C40: Scrolling the log with any sequence of keys moves the first visible line as the keys say, between
  the first line and the last one that still fills the window, and leaves the contents alone.
\<close>

theorem log_scrolling:
  assumes "scroll_ok w"
  shows "scroll_ok (fold log_step ks w) \<and> contents (fold log_step ks w) = contents w \<and>
    posY (fold log_step ks w) = fold (\<lambda>k. scrolled k (winDim w) (maxPosY w)) ks (posY w)"
proof -
  obtain w' where w': "run_steps (\<lambda>k w. Some (log_step k w)) ks w = Some w'" "scroll_ok w'"
    "(contents w', winDim w', maxPosY w', posY w') = fold scroll_step ks (contents w, winDim w, maxPosY w, posY w)"
    using scrolling.run [of ks w] assms by (auto simp: list_all_iff)
  moreover have "run_steps (\<lambda>k w. Some (log_step k w)) ks w = Some (fold log_step ks w)" for w
    by (induction ks arbitrary: w) auto
  moreover have "fold scroll_step ks (cs, h, m, p) = (cs, h, m, fold (\<lambda>k. scrolled k h m) ks p)" for cs h m p
    by (induction ks arbitrary: p) (auto simp: scroll_step_def)
  ultimately show ?thesis by auto
qed

text \<open>
  Adding a string may leave the window scrolled past the end of the log: blank lines that are removed
  make the log shorter than the window, and \<open>GoToEnd\<close> then does not reset the position.
\<close>

theorem log_may_stay_scrolled:
  "\<exists>m w w'. scroll_ok w \<and> AddString m [0x61] False w = Some w' \<and> posY w' \<ge> int (length (contents w'))"
proof -
  let ?m = "\<lparr>added_size = \<lambda>cs cs'. 0, erased_size = \<lambda>cs. 0\<rparr>"
  let ?w = "\<lparr>contents = [[0x62], [], [], []], destY0 = 1, destY1 = 2, posX = 0, posY = 2,
    newLine = False, allocSize = 0, GoToEnd_Pending = False\<rparr>"
  let ?v = "\<lparr>contents = [[0x62], [], [], [], []], destY0 = 1, destY1 = 3, posX = 0, posY = 2,
    newLine = False, allocSize = 0, GoToEnd_Pending = False\<rparr>"
  have "scroll_ok ?v \<and> AddString ?m [0x61] False ?v = Some (?v\<lparr>contents := [[0x62], [0x61]], newLine := True\<rparr>)"
    by (simp add: scroll_ok_def laid_def maxPosY_def winDim_def ULONG_def AddString_def AddString_contents_def GoToEnd_def
        LOG_WINDOW_CONTENTS_MAX_SIZE_def)
  then show ?thesis by fastforce
qed

section \<open>Witnesses\<close>

theorem log_stream_witness:
  "\<exists>ls. join [0x0A] ls = [0x61, 0x3F, 0x0A, 0x62] \<and> AddStrings_contents [[0x61], [0x01, 0x0A], [0x62]] (True, [[0x7A]]) =
     Some (False, [[0x7A]] @ map (map unescape) ls)"
  using log_stream [of "[[0x61], [0x01, 0x0A], [0x62]]" "[0x63]" "[[0x7A]]"] by (auto simp: printable_def)

definition example_log :: log_window where
  "example_log = \<lparr>contents = [[0x61], [0x62], [0x63]], destY0 = 1, destY1 = 2, posX = 0, posY = 0,
     newLine = True, allocSize = 0, GoToEnd_Pending = False\<rparr>"

text \<open>The limit is exceeded by one byte, and erasing the first line frees 64 bytes.\<close>

theorem AddString_follows_witness:
  "\<exists>w'. AddString \<lparr>added_size = \<lambda>cs cs'. 1048577, erased_size = \<lambda>cs. - 64\<rparr> [0x64] False example_log = Some w' \<and>
    contents w' = [[0x62], [0x63], [0x64]] \<and> allocSize w' = 1048513 \<and> posY w' = 1"
proof -
  let ?m = "\<lparr>added_size = \<lambda>cs cs'. 1048577, erased_size = \<lambda>cs. - 64\<rparr>"
  have "laid example_log" "length (contents example_log) + length [0x64 :: byte] + 1 < 2 ^ 31"
    by (simp_all add: laid_def example_log_def)
  from AddString_follows [OF this, of False ?m, unfolded Let_def] obtain w' nl cs k where
    w': "AddString_contents [0x64] False (newLine example_log, contents example_log) = Some (nl, cs)"
      "AddString ?m [0x64] False example_log = Some w'" "contents w' = drop k cs"
      "allocSize w' = size_after ?m (allocSize example_log + added_size ?m (contents example_log) cs) cs k"
      "\<forall>i < k. size_after ?m (allocSize example_log + added_size ?m (contents example_log) cs) cs i > LOG_WINDOW_CONTENTS_MAX_SIZE"
      "k = length cs \<or> size_after ?m (allocSize example_log + added_size ?m (contents example_log) cs) cs k \<le> LOG_WINDOW_CONTENTS_MAX_SIZE"
      "if int (length (contents w')) \<ge> winDim example_log then posY w' + winDim example_log = int (length (contents w'))
       else posY w' = posY example_log"
    by blast
  have cs: "cs = [[0x61], [0x62], [0x63], [0x64]]" using w'(1) by (simp add: example_log_def AddString_contents_def)
  have size: "size_after ?m (allocSize example_log + added_size ?m (contents example_log) cs) cs i = 1048577 - 64 * int i" for i
    by (simp add: size_after_def example_log_def)
  have "\<not> 1 < k" using w'(5) [unfolded size, rule_format, of 1] by (auto simp: LOG_WINDOW_CONTENTS_MAX_SIZE_def)
  moreover have "k \<noteq> 0" using w'(6) [unfolded size] cs by (auto simp: LOG_WINDOW_CONTENTS_MAX_SIZE_def)
  ultimately have "k = 1" by linarith
  then show ?thesis using w'(2-4,7) size cs by (auto simp: example_log_def winDim_def ULONG_def)
qed

theorem log_scrolling_witness: "posY (fold log_step [KeyEnd, KeyUp, KeyPgDn] example_log) = 1"
proof -
  have "scroll_ok example_log" by (simp add: scroll_ok_def laid_def maxPosY_def winDim_def ULONG_def example_log_def)
  from log_scrolling [OF this, of "[KeyEnd, KeyUp, KeyPgDn]"] show ?thesis
    by (simp add: maxPosY_def winDim_def ULONG_def example_log_def)
qed

end
