(* ===== verification/Highlight.thy ===== *)
theory Highlight
  imports Wnd
begin

text \<open>
  \<open>Wnd::HighlightHexNumber\<close>: the hexadecimal numbers on the screen that contain a pattern, for the
  completion of the input line. The screen is the list of the cells of the back buffer, a character in
  the low byte of each; a write outside the buffer is \<open>None\<close>.
\<close>

section \<open>The model\<close>

definition upper_hex :: "byte \<Rightarrow> byte" where
  "upper_hex c = (if c \<ge> 0x61 \<and> c \<le> 0x66 then c - 0x20 else c)"

text \<open>The end of the number to the right and its start to the left.\<close>

function hex_right :: "byte list \<Rightarrow> nat \<Rightarrow> nat" where
  "hex_right r x2 = (if x2 < length r \<and> IsHex (r ! x2) then hex_right r (x2 + 1) else x2)"
  by pat_completeness auto
termination by (relation "measure (\<lambda>(r, x2). length r - x2)") auto

fun hex_left :: "byte list \<Rightarrow> nat \<Rightarrow> nat" where
  "hex_left r 0 = 0"
| "hex_left r (Suc x3) = (if IsHex (r ! x3) then hex_left r x3 else Suc x3)"

declare hex_right.simps [simp del]

text \<open>
  One row from column \<open>x\<close>, with \<open>pos\<close> characters of the pattern matched before it: the columns of the
  first and the last digit of every match. \<open>hex_left\<close> is the column behind the one where the search to
  the left stops.
\<close>

function row_matches :: "byte list \<Rightarrow> byte list \<Rightarrow> nat \<Rightarrow> nat \<Rightarrow> (nat \<times> nat) list" where
  "row_matches t r x pos =
     (if x < length r then
        (if \<not> IsHex (r ! x) then row_matches t r (x + 1) 0
         else if r ! x \<noteq> t ! pos then row_matches t r (x - pos + 1) 0
         else if pos + 1 = length t then
           (let x2 = hex_right r (x + 1);
                x3 = hex_left r (x + 1 - length t)
            in if x2 \<noteq> x + 1 \<or> x3 \<noteq> x + 1 - length t
               then (x3, x2 - 1) # row_matches t r (x + (x2 - 1 - x) + 1) 0
               else row_matches t r (x + 1) 0)
         else row_matches t r (x + 1) (pos + 1))
      else [])"
  by pat_completeness auto
termination
  by (relation "measures [\<lambda>(t, r, x, pos). length r - (x - pos), \<lambda>(t, r, x, pos). length r - x]") auto

declare row_matches.simps [simp del]

definition screen_row :: "u16 list \<Rightarrow> nat \<Rightarrow> nat \<Rightarrow> byte list" where
  "screen_row buf width y = map ucast (take width (drop (y * width) buf))"

text \<open>The matches of the screen, each with its row; the row of the input line is skipped.\<close>

definition screen_matches :: "byte list \<Rightarrow> ui \<Rightarrow> u16 list \<Rightarrow> (nat \<times> nat \<times> nat) list" where
  "screen_matches t u buf =
     concat (map (\<lambda>y.
       if int y = ULONG (WndHeight u - 3) then []
       else map (\<lambda>(x0, x1). (y, x0, x1)) (row_matches t (screen_row buf (nat (WndWidth u)) y) 0 0)) [0..<nat (WndHeight u)])"

fun color_cells :: "nat \<Rightarrow> nat \<Rightarrow> bool \<Rightarrow> u16 list \<Rightarrow> byte list \<Rightarrow> (u16 list \<times> byte list) option" where
  "color_cells p 0 selected buf retVal = Some (buf, retVal)"
| "color_cells p (Suc n) selected buf retVal =
     (case load buf p of
        None \<Rightarrow> None
      | Some c \<Rightarrow>
          (let c = (c AND 0xFF) OR (if selected then 0xCF00 else 0x4700)
           in color_cells (p + 1) n selected (buf[p := c]) (if selected then retVal @ [ucast (c AND 0xFF)] else retVal)))"

fun color_matches :: "nat \<Rightarrow> (nat \<times> nat \<times> nat) list \<Rightarrow> int \<Rightarrow> int \<Rightarrow> u16 list \<Rightarrow> byte list \<Rightarrow> (u16 list \<times> byte list) option" where
  "color_matches width [] i index buf retVal = Some (buf, retVal)"
| "color_matches width ((y, x0, x1) # ms) i index buf retVal =
     (case color_cells (y * width + x0) (x1 + 1 - x0) (i = index) buf retVal of
        None \<Rightarrow> None
      | Some (buf, retVal) \<Rightarrow> color_matches width ms (i + 1) index buf retVal)"

text \<open>The result, the number of items and the screen.\<close>

definition HighlightHexNumber :: "byte list \<Rightarrow> int \<Rightarrow> ui \<Rightarrow> u16 list \<Rightarrow> (byte list \<times> int \<times> u16 list) option" where
  "HighlightHexNumber pattern index u buf =
     (let t = map upper_hex pattern in
      if length t = 0 \<or> \<not> list_all IsHex t then Some ([], 0, buf)
      else
        (let matches = screen_matches t u buf in
         if length matches = 0 then Some ([], 0, buf)
         else
           (case color_matches (nat (WndWidth u)) matches 0 index buf [] of
              None \<Rightarrow> None
            | Some (buf, retVal) \<Rightarrow> Some ([0x30, 0x78] @ retVal, LONG (int (length matches)), buf))))"

section \<open>Numbers in a row\<close>

lemma hex_right_spec:
  "x \<le> length r \<Longrightarrow> x \<le> hex_right r x \<and> hex_right r x \<le> length r \<and> (\<forall>i. x \<le> i \<and> i < hex_right r x \<longrightarrow> IsHex (r ! i)) \<and>
     (hex_right r x < length r \<longrightarrow> \<not> IsHex (r ! hex_right r x))"
proof (induction r x rule: hex_right.induct)
  case (1 r x)
  show ?case
  proof (cases "x < length r \<and> IsHex (r ! x)")
    case True
    then have "hex_right r x = hex_right r (x + 1)" by (subst hex_right.simps) simp
    moreover have "x \<le> i \<longleftrightarrow> i = x \<or> x + 1 \<le> i" for i by auto
    ultimately show ?thesis using 1 True by (auto simp: Suc_le_eq)
  next
    case False
    then have "hex_right r x = x" by (subst hex_right.simps) auto
    then show ?thesis using 1 False by auto
  qed
qed

lemma hex_left_spec:
  "hex_left r x \<le> x \<and> (\<forall>i. hex_left r x \<le> i \<and> i < x \<longrightarrow> IsHex (r ! i)) \<and>
     (0 < hex_left r x \<longrightarrow> \<not> IsHex (r ! (hex_left r x - 1)))"
  by (induction r x rule: hex_left.induct) (auto simp: less_Suc_eq)

text \<open>A whole number: digits that no digit precedes or follows.\<close>

definition whole_number :: "byte list \<Rightarrow> nat \<Rightarrow> nat \<Rightarrow> bool" where
  "whole_number r a b \<longleftrightarrow>
     a \<le> b \<and> b < length r \<and> (\<forall>i. a \<le> i \<and> i \<le> b \<longrightarrow> IsHex (r ! i)) \<and>
     (0 < a \<longrightarrow> \<not> IsHex (r ! (a - 1))) \<and> (b + 1 < length r \<longrightarrow> \<not> IsHex (r ! (b + 1)))"

lemma whole_number_inside:
  assumes "whole_number r a b" "whole_number r a' b'" "a \<le> p" "p \<le> b" "a' \<le> p" "p \<le> b'"
  shows "a \<le> a' \<and> b' \<le> b"
proof -
  have "a' \<le> a - 1 \<and> a - 1 \<le> b' \<and> 0 < a" if "a' < a" using assms(3,6) that by linarith
  then have "IsHex (r ! (a - 1)) \<and> 0 < a" if "a' < a" using assms(2) that unfolding whole_number_def by blast
  moreover have "IsHex (r ! (b + 1)) \<and> b + 1 < length r" if "b < b'"
    using assms(2,4,5) that by (simp add: whole_number_def)
  ultimately show ?thesis using assms(1) by (force simp: whole_number_def not_less)
qed

lemma whole_number_unique:
  assumes "whole_number r a b" "whole_number r a' b'" "a \<le> p" "p \<le> b" "a' \<le> p" "p \<le> b'"
  shows "a' = a \<and> b' = b"
  using whole_number_inside [OF assms] whole_number_inside [OF assms(2,1,5,6,3,4)] by auto

definition occurs :: "byte list \<Rightarrow> byte list \<Rightarrow> nat \<Rightarrow> bool" where
  "occurs t r p \<longleftrightarrow> p + length t \<le> length r \<and> (\<forall>i < length t. r ! (p + i) = t ! i)"

text \<open>The numbers, longer than the pattern, with an occurrence of it from a column on.\<close>

definition found :: "byte list \<Rightarrow> byte list \<Rightarrow> nat \<Rightarrow> (nat \<times> nat) set" where
  "found t r s =
     {(a, b). whole_number r a b \<and> length t < b + 1 - a \<and> (\<exists>p \<ge> s. a \<le> p \<and> p + length t \<le> b + 1 \<and> occurs t r p)}"

lemma found_skip:
  assumes "s \<le> s'" "\<And>p. s \<le> p \<Longrightarrow> p < s' \<Longrightarrow> \<not> occurs t r p"
  shows "found t r s = found t r s'"
proof -
  have "(\<exists>p \<ge> s. P p \<and> occurs t r p) = (\<exists>p \<ge> s'. P p \<and> occurs t r p)" for P
    using assms by (meson not_less order_trans)
  from this [of "\<lambda>p. a \<le> p \<and> p + length t \<le> b + 1" for a b] show ?thesis by (simp add: found_def conj_assoc)
qed

lemma occurs_whole:
  assumes "occurs t r p" "list_all IsHex t" "0 < length t"
  defines "a \<equiv> hex_left r p" and "b \<equiv> hex_right r (p + length t) - 1"
  shows "whole_number r a b \<and> a \<le> p \<and> p + length t \<le> b + 1"
proof -
  have len: "p + length t \<le> length r" using assms(1) by (simp add: occurs_def)
  have hex: "IsHex (r ! i)" if "p \<le> i" "i < p + length t" for i
    using assms(1,2) that by (auto simp: occurs_def list_all_length dest!: spec [of _ "i - p"])
  note right = hex_right_spec [OF len] and left = hex_left_spec [of r p]
  have "IsHex (r ! i)" if "a \<le> i" "i \<le> b" for i
  proof -
    have "i < hex_right r (p + length t)" using that(2) right assms(3) unfolding b_def by linarith
    moreover consider "i < p" | "p \<le> i" "i < p + length t" | "p + length t \<le> i" by linarith
    ultimately show ?thesis
      using that(1) left right hex by cases (auto simp: a_def)
  qed
  moreover have b1: "hex_right r (p + length t) = b + 1" and a: "a \<le> p" using right left assms(3) unfolding a_def b_def by linarith+
  moreover have "p + length t \<le> b + 1" "b + 1 \<le> length r" "b + 1 < length r \<longrightarrow> \<not> IsHex (r ! (b + 1))"
    using right unfolding b1 by blast+
  moreover have "0 < a \<longrightarrow> \<not> IsHex (r ! (a - 1))" using left unfolding a_def by blast
  moreover have "a \<le> b" using a assms(3) \<open>p + length t \<le> b + 1\<close> by linarith
  ultimately show ?thesis unfolding whole_number_def by simp
qed

lemma found_mono: "s \<le> s' \<Longrightarrow> found t r s' \<subseteq> found t r s"
  unfolding found_def by clarify (metis order_trans)

lemma found_hit:
  assumes "occurs t r s" "list_all IsHex t" "0 < length t"
  defines "a \<equiv> hex_left r s" and "b \<equiv> hex_right r (s + length t) - 1"
  shows "found t r s = (if length t < b + 1 - a then {(a, b)} else {}) \<union> found t r (b + 1)"
proof -
  have w: "whole_number r a b" "a \<le> s" "s + length t \<le> b + 1"
    using occurs_whole [OF assms(1-3)] by (simp_all add: a_def b_def)
  have "found t r s \<subseteq> (if length t < b + 1 - a then {(a, b)} else {}) \<union> found t r (b + 1)"
  proof
    fix z
    assume "z \<in> found t r s"
    then obtain x y p where z: "z = (x, y)" "whole_number r x y" "length t < y + 1 - x" "s \<le> p" "x \<le> p" "p + length t \<le> y + 1" "occurs t r p"
      by (auto simp: found_def)
    show "z \<in> (if length t < b + 1 - a then {(a, b)} else {}) \<union> found t r (b + 1)"
    proof (cases "p \<le> b")
      case True
      then have "x = a \<and> y = b" using whole_number_unique [OF w(1) z(2), of p] z w(2) assms(3) by simp
      then show ?thesis using z by simp
    next
      case False
      then have "b + 1 \<le> p" by simp
      then show ?thesis using z by (auto simp: found_def)
    qed
  qed
  moreover have "found t r (b + 1) \<subseteq> found t r s" using found_mono [of s "b + 1"] w by simp
  moreover have "(a, b) \<in> found t r s" if "length t < b + 1 - a" using that w assms(1) by (auto simp: found_def)
  ultimately show ?thesis by (auto split: if_splits)
qed

lemma found_behind:
  assumes "occurs t r s" "list_all IsHex t" "0 < length t" "(a', b') \<in> found t r (hex_right r (s + length t))"
  shows "hex_right r (s + length t) \<le> a'"
proof (rule ccontr)
  let ?a = "hex_left r s" and ?b = "hex_right r (s + length t) - 1"
  assume *: "\<not> hex_right r (s + length t) \<le> a'"
  have w: "whole_number r ?a ?b" "?a \<le> s" "s + length t \<le> ?b + 1"
    using occurs_whole [OF assms(1-3)] by simp_all
  obtain p where p: "whole_number r a' b'" "hex_right r (s + length t) \<le> p" "a' \<le> p" "p + length t \<le> b' + 1"
    using assms(4) by (auto simp: found_def)
  then have "a' \<le> ?b" "?b \<le> b'" "?a \<le> ?b" "?b < p" "p \<le> b'" using * w assms(3) by linarith+
  then show False using whole_number_unique [OF w(1) p(1), of ?b] by simp
qed

lemma row_matches_found:
  assumes "list_all IsHex t" "pos < length t" "pos \<le> x" "x \<le> length r" "\<And>i. i < pos \<Longrightarrow> r ! (x - pos + i) = t ! i"
  shows "set (row_matches t r x pos) = found t r (x - pos) \<and> sorted_wrt (\<lambda>(a, b) (a', b'). b < a') (row_matches t r x pos)"
  using assms
proof (induction t r x pos rule: row_matches.induct)
  case (1 t r x pos)
  let ?s = "x - pos"
  have ne: "0 < length t" using "1.prems"(2) by linarith
  show ?case
  proof (cases "x < length r")
    case False
    have "\<not> occurs t r p" if "?s \<le> p" for p using that False "1.prems" by (auto simp: occurs_def)
    then have "found t r ?s = {}" by (auto simp: found_def)
    then show ?thesis using False by (simp add: row_matches.simps [of t r x pos])
  next
    case x: True
    show ?thesis
    proof (cases "IsHex (r ! x)")
      case False
      have "\<not> occurs t r p" if "?s \<le> p" "p < x + 1" for p
      proof
        assume o: "occurs t r p"
        have "x - p < length t" using that "1.prems"(2,3) by linarith
        then have "r ! x = t ! (x - p)" using o that by (auto simp: occurs_def dest!: spec [of _ "x - p"])
        then show False using False "1.prems"(1) \<open>x - p < length t\<close> by (simp add: list_all_length)
      qed
      then have "found t r ?s = found t r (x + 1)" by (intro found_skip) auto
      then show ?thesis using "1.IH"(1) [OF x False] ne "1.prems"(1) x False by (simp add: row_matches.simps [of t r x pos])
    next
      case hex: True
      show ?thesis
      proof (cases "r ! x = t ! pos")
        case False
        have "\<not> occurs t r ?s" using False "1.prems"(2,3) by (auto simp: occurs_def dest!: spec [of _ pos])
        then have "found t r ?s = found t r (?s + 1)" by (intro found_skip) (auto simp: less_Suc_eq)
        then show ?thesis using "1.IH"(2) [OF x _ False] hex ne "1.prems"(1,3) x False by (simp add: row_matches.simps [of t r x pos])
      next
        case c: True
        show ?thesis
        proof (cases "pos + 1 = length t")
          case False
          have "r ! (x + 1 - (pos + 1) + i) = t ! i" if "i < pos + 1" for i
            using that "1.prems"(3,5) c by (cases "i = pos") auto
          then show ?thesis using "1.IH"(5) [OF x _ _ False] hex c "1.prems" x False by (simp add: row_matches.simps [of t r x pos])
        next
          case full: True
          have occ: "occurs t r ?s"
            unfolding occurs_def
          proof (intro conjI allI impI)
            show "?s + length t \<le> length r" using full x "1.prems"(3) by simp
            fix i
            assume "i < length t"
            then have "i < pos \<or> i = pos" using full by linarith
            then show "r ! (?s + i) = t ! i" using "1.prems"(3,5) c by auto
          qed
          define x2 where "x2 = hex_right r (x + 1)"
          define x3 where "x3 = hex_left r ?s"
          have s: "?s + length t = x + 1" "?s = x + 1 - length t" using full "1.prems"(3) by linarith+
          have b: "x + 1 \<le> x2" "x2 \<le> length r" "x3 \<le> ?s"
            using hex_right_spec [of "x + 1" r] hex_left_spec [of r ?s] x by (auto simp: x2_def x3_def)
          have f: "found t r ?s = (if length t < x2 - x3 then {(x3, x2 - 1)} else {}) \<union> found t r x2"
            using found_hit [OF occ "1.prems"(1) ne] b s by (simp add: x2_def x3_def)
          have longer: "length t < x2 - x3 \<longleftrightarrow> x2 \<noteq> x + 1 \<or> x3 \<noteq> ?s" using b s by linarith
          show ?thesis
          proof (cases "x2 \<noteq> x + 1 \<or> x3 \<noteq> ?s")
            case True
            have eq: "row_matches t r x pos = (x3, x2 - 1) # row_matches t r x2 0"
              using x hex c full True b unfolding s(2) x2_def x3_def by (simp add: row_matches.simps [of t r x pos] Let_def)
            have ih: "set (row_matches t r x2 0) = found t r x2" "sorted_wrt (\<lambda>(a, b) (a', b'). b < a') (row_matches t r x2 0)"
              using "1.IH"(3) [OF x _ _ full, of x2 x3] hex c True b "1.prems"(1) ne unfolding s(2) x2_def x3_def by simp_all
            have "x2 - 1 < a'" if "(a', b') \<in> found t r x2" for a' b'
              using found_behind [OF occ "1.prems"(1) ne, of a' b'] that b(1) s(1) by (simp add: x2_def)
            then show ?thesis using eq ih f longer True b(1) by auto
          next
            case False
            then show ?thesis
              using "1.IH"(4) [OF x _ _ full, of x2 x3] hex c b "1.prems"(1) ne f longer x full s
              by (simp add: row_matches.simps [of t r x pos] Let_def x2_def x3_def)
          qed
        qed
      qed
    qed
  qed
qed


section \<open>The screen\<close>

definition screen_fits :: "ui \<Rightarrow> u16 list \<Rightarrow> bool" where
  "screen_fits u buf \<longleftrightarrow> 0 < WndWidth u \<and> 3 \<le> WndHeight u \<and> WndHeight u \<le> 128 \<and> WndWidth u \<le> 128 \<and>
     nat (WndWidth u) * nat (WndHeight u) \<le> length buf"

lemma row_in_screen:
  "screen_fits u buf \<Longrightarrow> y < nat (WndHeight u) \<Longrightarrow> y * nat (WndWidth u) + nat (WndWidth u) \<le> length buf"
proof -
  assume a: "screen_fits u buf" "y < nat (WndHeight u)"
  have "y * nat (WndWidth u) + nat (WndWidth u) = (y + 1) * nat (WndWidth u)" by simp
  also have "\<dots> \<le> nat (WndHeight u) * nat (WndWidth u)" using a(2) by (intro mult_le_mono1) simp
  also have "\<dots> \<le> length buf" using a(1) by (simp add: screen_fits_def mult.commute)
  finally show ?thesis .
qed

lemma length_screen_row:
  "screen_fits u buf \<Longrightarrow> y < nat (WndHeight u) \<Longrightarrow> length (screen_row buf (nat (WndWidth u)) y) = nat (WndWidth u)"
  using row_in_screen [of u buf y] by (simp add: screen_row_def)

lemma screen_row_nth:
  assumes "screen_fits u buf" "y < nat (WndHeight u)" "x < nat (WndWidth u)"
  shows "screen_row buf (nat (WndWidth u)) y ! x = ucast (buf ! (y * nat (WndWidth u) + x))"
  using row_in_screen [OF assms(1,2)] assms(3) by (simp add: screen_row_def)

text \<open>Only the colours change.\<close>

definition same_text :: "u16 list \<Rightarrow> u16 list \<Rightarrow> bool" where
  "same_text a b \<longleftrightarrow> map (\<lambda>c. ucast c :: byte) a = map (\<lambda>c. ucast c :: byte) b"

lemma ucast_colored: "ucast ((c AND 0xFF) OR k :: u16) = (ucast c :: byte)" if k: "k \<in> {0xCF00, 0x4700}" for c k :: u16
proof -
  have m: "(0xFF :: u16) = mask 8" by (simp add: mask_eq_exp_minus_1)
  have "\<exists>w. 0xCF00 = push_bit 8 (w :: u16)" by (rule exI [of _ "0xCF"]) simp
  moreover have "\<exists>w. 0x4700 = push_bit 8 (w :: u16)" by (rule exI [of _ "0x47"]) simp
  ultimately obtain w where "k = push_bit 8 w" using k by blast
  then have "i < 8 \<Longrightarrow> \<not> bit k i" for i by (auto simp: bit_simps)
  then show ?thesis unfolding m by (intro bit_word_eqI) (auto simp: bit_simps)
qed


lemma color_cells_spec:
  assumes "p + n \<le> length buf"
  shows "\<exists>buf'. color_cells p n sel buf rv =
      Some (buf', rv @ (if sel then map ucast (take n (drop p buf)) else [])) \<and> same_text buf' buf \<and> length buf' = length buf"
  using assms
proof (induction p n sel buf rv rule: color_cells.induct)
  case (1 p sel buf rv)
  then show ?case by (simp add: same_text_def)
next
  case (2 p n sel buf rv)
  define c where "c = (buf ! p AND 0xFF) OR (if sel then 0xCF00 else 0x4700)"
  define rv' where "rv' = (if sel then rv @ [ucast (c AND 0xFF)] else rv)"
  have p: "p < length buf" using "2.prems" by simp
  have uc: "ucast c = (ucast (buf ! p) :: byte)" unfolding c_def by (rule ucast_colored) simp
  have m: "(0xFF :: u16) = mask 8" by (simp add: mask_eq_exp_minus_1)
  have uc2: "ucast (c AND 0xFF) = (ucast c :: byte)" unfolding m by (intro bit_word_eqI) (auto simp: bit_simps)
  obtain buf' where b: "color_cells (p + 1) n sel (buf[p := c]) rv' =
      Some (buf', rv' @ (if sel then map ucast (take n (drop (p + 1) (buf[p := c]))) else []))"
    "same_text buf' (buf[p := c])" "length buf' = length buf"
    using "2.IH" [of "buf ! p" c] "2.prems" p by (auto simp: load_Some c_def rv'_def)
  have "color_cells p (Suc n) sel buf rv = color_cells (p + 1) n sel (buf[p := c]) rv'"
    using p by (simp add: load_Some c_def rv'_def Let_def)
  moreover have "take (Suc n) (drop p buf) = buf ! p # take n (drop (p + 1) buf)" using p by (simp flip: Cons_nth_drop_Suc)
  moreover have "same_text (buf[p := c]) buf" using uc p by (simp add: same_text_def map_update list_update_same_conv)
  ultimately show ?case using b uc uc2 by (auto simp: same_text_def rv'_def)
qed

definition cells :: "nat \<Rightarrow> u16 list \<Rightarrow> nat \<times> nat \<times> nat \<Rightarrow> byte list" where
  "cells width buf = (\<lambda>(y, x0, x1). map ucast (take (x1 + 1 - x0) (drop (y * width + x0) buf)))"

lemma cells_same_text: "same_text a b \<Longrightarrow> cells width a m = cells width b m"
  by (cases m) (simp add: cells_def same_text_def flip: take_map drop_map)

lemma color_matches_spec:
  assumes "\<forall>(y, x0, x1) \<in> set ms. y * width + x1 < length buf \<and> x0 \<le> x1"
  shows "\<exists>buf'. color_matches width ms i index buf rv =
      Some (buf', rv @ (if i \<le> index \<and> index < i + int (length ms) then cells width buf (ms ! nat (index - i)) else [])) \<and>
    same_text buf' buf \<and> length buf' = length buf"
  using assms
proof (induction width ms i index buf rv rule: color_matches.induct)
  case (1 width i index buf rv)
  then show ?case by (auto simp: same_text_def)
next
  case (2 width y x0 x1 ms i index buf rv)
  obtain b where b: "color_cells (y * width + x0) (x1 + 1 - x0) (i = index) buf rv =
      Some (b, rv @ (if i = index then cells width buf (y, x0, x1) else []))" "same_text b buf" "length b = length buf"
    using color_cells_spec [of "y * width + x0" "x1 + 1 - x0" buf "i = index" rv] "2.prems" by (auto simp: cells_def)
  then obtain b' where b': "color_matches width ms (i + 1) index b (rv @ (if i = index then cells width buf (y, x0, x1) else [])) =
      Some (b', (rv @ (if i = index then cells width buf (y, x0, x1) else [])) @
        (if i + 1 \<le> index \<and> index < i + 1 + int (length ms) then cells width b (ms ! nat (index - (i + 1))) else []))"
    "same_text b' b" "length b' = length b"
    using "2.IH" [OF b(1) refl] "2.prems" by auto
  consider "index = i" | "index < i" | "i < index" by linarith
  then show ?case
  proof cases
    case 3
    then have "nat (index - i) = Suc (nat (index - (i + 1)))" by simp
    then show ?thesis using b b' 3 cells_same_text [OF b(2)] by (auto simp: same_text_def)
  qed (use b b' in \<open>auto simp: same_text_def\<close>)
qed


section \<open>Completion from the screen\<close>

text \<open>The numbers on the screen, outside the input line, that contain a pattern and are longer than it.\<close>

definition screen_numbers :: "byte list \<Rightarrow> ui \<Rightarrow> u16 list \<Rightarrow> (nat \<times> nat \<times> nat) set" where
  "screen_numbers t u buf =
     {(y, a, b). int y < WndHeight u \<and> int y \<noteq> WndHeight u - 3 \<and> (a, b) \<in> found t (screen_row buf (nat (WndWidth u)) y) 0}"

definition reading_order :: "nat \<times> nat \<times> nat \<Rightarrow> nat \<times> nat \<times> nat \<Rightarrow> bool" where
  "reading_order = (\<lambda>(y, a, b) (y', a', b'). y < y' \<or> y = y' \<and> b < a')"

definition digits_at :: "nat \<Rightarrow> u16 list \<Rightarrow> nat \<times> nat \<times> nat \<Rightarrow> byte list" where
  "digits_at width buf = (\<lambda>(y, a, b). take (b + 1 - a) (drop a (screen_row buf width y)))"

lemma screen_matches_spec:
  assumes "screen_fits u buf" "t \<noteq> []" "list_all IsHex t"
  shows "set (screen_matches t u buf) = screen_numbers t u buf \<and> sorted_wrt reading_order (screen_matches t u buf)"
proof -
  let ?r = "\<lambda>y. row_matches t (screen_row buf (nat (WndWidth u)) y) 0 0"
  let ?f = "\<lambda>y. if int y = ULONG (WndHeight u - 3) then [] else map (\<lambda>(x0, x1). (y, x0, x1)) (?r y)"
  have r: "set (?r y) = found t (screen_row buf (nat (WndWidth u)) y) 0" "sorted_wrt (\<lambda>(a, b) (a', b'). b < a') (?r y)" for y
    using row_matches_found [of t 0 0] assms(2,3) by simp_all
  have h: "ULONG (WndHeight u - 3) = WndHeight u - 3" using assms(1) by (simp add: screen_fits_def ULONG_def)
  have f: "set (?f y) = {y} \<times> (if int y = WndHeight u - 3 then {} else found t (screen_row buf (nat (WndWidth u)) y) 0)" for y
    using r(1) [of y] h by (auto simp: image_iff)
  have sf: "sorted_wrt reading_order (?f y)" for y
    using r(2) [of y] by (simp add: sorted_wrt_map reading_order_def case_prod_unfold)
  have "sorted_wrt reading_order (concat (map ?f [0..<n]))" for n
  proof (induction n)
    case (Suc n)
    have "reading_order p q" if "p \<in> set (concat (map ?f [0..<n]))" "q \<in> set (?f n)" for p q
      using that f by (fastforce simp: reading_order_def)
    then show ?case using Suc sf [of n] by (simp add: sorted_wrt_append del: set_concat)
  qed simp
  moreover have "set (concat (map ?f [0..<nat (WndHeight u)])) = screen_numbers t u buf"
  proof -
    have "set (concat (map ?f [0..<nat (WndHeight u)])) = (\<Union>y \<in> {0..<nat (WndHeight u)}. set (?f y))"
      by (simp only: set_concat set_map set_upt image_image)
    also have "\<dots> = screen_numbers t u buf" unfolding f by (auto simp: screen_numbers_def split: if_splits)
    finally show ?thesis .
  qed
  ultimately show ?thesis unfolding screen_matches_def by blast
qed

lemma match_bounds:
  assumes "screen_fits u buf" "(y, a, b) \<in> screen_numbers t u buf"
  shows "y < nat (WndHeight u)" "a \<le> b" "b < nat (WndWidth u)"
proof -
  show y: "y < nat (WndHeight u)" using assms(2) by (auto simp: screen_numbers_def)
  show "a \<le> b" "b < nat (WndWidth u)"
    using assms(2) length_screen_row [OF assms(1) y] by (auto simp: screen_numbers_def found_def whole_number_def)
qed

lemma cells_digits:
  assumes "screen_fits u buf" "m \<in> screen_numbers t u buf"
  shows "cells (nat (WndWidth u)) buf m = digits_at (nat (WndWidth u)) buf m"
proof -
  let ?w = "nat (WndWidth u)"
  obtain y a b where m: "m = (y, a, b)" by (cases m)
  have "drop a (take ?w (drop (y * ?w) buf)) = take (?w - a) (drop (y * ?w + a) buf)" by (simp add: drop_take add.commute)
  moreover have "Suc b - a \<le> ?w - a" using match_bounds(3) [OF assms(1), of y a b t] assms(2) m by simp
  ultimately show ?thesis using m by (simp add: cells_def digits_at_def screen_row_def drop_map take_map min_def)
qed

text \<open>The matches of a pattern, and the completions they stand for.\<close>

definition pattern_matches :: "byte list \<Rightarrow> ui \<Rightarrow> u16 list \<Rightarrow> (nat \<times> nat \<times> nat) list" where
  "pattern_matches pattern u buf =
     (if pattern = [] \<or> \<not> list_all IsHex (map upper_hex pattern) then [] else screen_matches (map upper_hex pattern) u buf)"

lemma pattern_matches_numbers:
  assumes "screen_fits u buf"
  shows "set (pattern_matches pattern u buf) \<subseteq> screen_numbers (map upper_hex pattern) u buf"
  using screen_matches_spec [OF assms, of "map upper_hex pattern"] by (auto simp: pattern_matches_def)

lemma HighlightHexNumber_value:
  fixes pattern :: "byte list"
  assumes "screen_fits u buf"
  defines "ms \<equiv> pattern_matches pattern u buf"
  shows "\<exists>buf'. HighlightHexNumber pattern index u buf =
      Some (if ms = [] then []
            else [0x30, 0x78] @ (if 0 \<le> index \<and> index < int (length ms) then digits_at (nat (WndWidth u)) buf (ms ! nat index) else []),
            LONG (int (length ms)), buf') \<and>
    same_text buf' buf \<and> length buf' = length buf"
proof (cases "ms = []")
  case True
  have "LONG 0 = 0" by (simp add: LONG_def)
  then show ?thesis using True
    by (auto simp: HighlightHexNumber_def ms_def pattern_matches_def same_text_def Let_def split: if_splits)
next
  case False
  let ?w = "nat (WndWidth u)" and ?t = "map upper_hex pattern"
  have t: "?t \<noteq> []" "list_all IsHex ?t" and ms: "ms = screen_matches ?t u buf"
    using False by (auto simp: ms_def pattern_matches_def split: if_splits)
  have set_ms: "set ms \<subseteq> screen_numbers ?t u buf" using pattern_matches_numbers [OF assms(1)] by (simp add: ms_def)
  have "\<forall>(y, x0, x1) \<in> set ms. y * ?w + x1 < length buf \<and> x0 \<le> x1"
    using match_bounds [OF assms(1)] set_ms row_in_screen [OF assms(1)] by fastforce
  from color_matches_spec [OF this, of 0 index "[]"] obtain buf' where b: "color_matches ?w ms 0 index buf [] =
      Some (buf', if 0 \<le> index \<and> index < int (length ms) then cells ?w buf (ms ! nat index) else [])"
    "same_text buf' buf" "length buf' = length buf"
    by auto
  have "cells ?w buf (ms ! nat index) = digits_at ?w buf (ms ! nat index)" if "0 \<le> index" "index < int (length ms)"
  proof -
    have "ms ! nat index \<in> set ms" using that by simp
    then show ?thesis using cells_digits [OF assms(1), of "ms ! nat index" ?t] set_ms by blast
  qed
  then have "HighlightHexNumber pattern index u buf =
      Some ([0x30, 0x78] @ (if 0 \<le> index \<and> index < int (length ms) then digits_at ?w buf (ms ! nat index) else []),
         LONG (int (length ms)), buf')"
    using t b(1) False unfolding HighlightHexNumber_def ms [symmetric] by (simp add: Let_def flip: ms)
  then show ?thesis using False b(2,3) by auto
qed

text \<open>
  C16: Completing a hexadecimal pattern from the screen is exact: \<open>Wnd::HighlightHexNumber\<close> counts
  the whole numbers on the screen, outside the input line, that contain the pattern in upper case and
  are longer than it, in reading order and each once, and returns the number of the given index with
  its prefix. It changes colours only and never writes outside the buffer.
\<close>

theorem HighlightHexNumber_completes:
  fixes pattern :: "byte list"
  assumes "screen_fits u buf"
  defines "t \<equiv> map upper_hex pattern"
  shows "\<exists>res n buf'. HighlightHexNumber pattern index u buf = Some (res, n, buf') \<and> same_text buf' buf \<and>
    (if pattern = [] \<or> \<not> list_all IsHex t then res = [] \<and> n = 0
     else \<exists>ms. set ms = screen_numbers t u buf \<and> sorted_wrt reading_order ms \<and> n = LONG (int (length ms)) \<and>
       res = (if ms = [] then []
              else [0x30, 0x78] @ (if 0 \<le> index \<and> index < int (length ms)
                                   then digits_at (nat (WndWidth u)) buf (ms ! nat index) else [])))"
proof (cases "pattern = [] \<or> \<not> list_all IsHex t")
  case True
  then have "pattern_matches pattern u buf = []" by (auto simp: pattern_matches_def t_def)
  then show ?thesis using HighlightHexNumber_value [OF assms(1), of pattern index] True by (auto simp: LONG_def)
next
  case False
  then have p: "pattern_matches pattern u buf = screen_matches t u buf" "t \<noteq> []" "list_all IsHex t"
    by (auto simp: pattern_matches_def t_def)
  show ?thesis
    using HighlightHexNumber_value [OF assms(1), of pattern index, unfolded p(1)] screen_matches_spec [OF assms(1) p(2,3)] False by auto
qed

lemma same_text_row: "same_text a b \<Longrightarrow> screen_row a w y = screen_row b w y"
  by (simp add: same_text_def screen_row_def flip: take_map drop_map)

lemma same_text_matches:
  "same_text a b \<Longrightarrow> pattern_matches pattern u a = pattern_matches pattern u b \<and> digits_at w a m = digits_at w b m"
proof -
  assume s: "same_text a b"
  have row: "screen_row a = screen_row b" by (intro ext) (rule same_text_row [OF s])
  show ?thesis unfolding pattern_matches_def screen_matches_def digits_at_def row by simp
qed

definition example_screen :: "u16 list" where
  "example_screen = map (\<lambda>c. 0x0700 OR c) [0x20, 0x31, 0x32, 0x33, 0x41, 0x20, 0x33, 0x41] @ replicate 32 0x0720"

definition example_ui :: ui where
  "example_ui = \<lparr>WndWidth = 8, WndHeight = 5, CursorX = 2, CursorY = 2, CursorDisplayX = -1, CursorDisplayY = -1,
     LogCursorX = 0, LogCursorY = 0, CodeCursorX = 0, CodeCursorY = 0, CursorFocus = FocusLog, nrmClr = 7, hrzClr = 2\<rparr>"

theorem HighlightHexNumber_completes_witness:
  "\<exists>res n buf'. HighlightHexNumber [0x33, 0x61] 0 example_ui example_screen = Some (res, n, buf') \<and> same_text buf' example_screen \<and>
     (\<exists>ms. set ms = screen_numbers [0x33, 0x41] example_ui example_screen \<and> n = LONG (int (length ms)))"
proof -
  have f: "screen_fits example_ui example_screen" by (simp add: screen_fits_def example_ui_def example_screen_def)
  have u: "map upper_hex [0x33, 0x61] = [0x33, 0x41]" "list_all IsHex [0x33, 0x41]" by (simp_all add: upper_hex_def IsHex_def)
  from HighlightHexNumber_completes [OF f, of "[0x33, 0x61]" 0] show ?thesis unfolding u(1) using u(2) by auto
qed

end
