(* ===== verification/InputLine.thy ===== *)
theory InputLine
  imports LogWnd Highlight Symbols "HOL-Library.List_Lexorder"
begin

text \<open>
  The input line, \<open>BugChecker/InputLine.cpp\<close>: editing, the history of commands in the log, completion
  with the tab key and the help text. Strings are the lists of their characters and are terminated
  where the code calls \<open>c_str\<close>. The commands are what their virtual functions return. Drawing is left
  out, but for the callback that ends a completion.
\<close>

section \<open>The model\<close>

record cmd =
  GetId :: "byte list"
  GetDesc :: "byte list"
  GetSyntax :: "byte list"

record input_line =
  line_text :: "byte list"
  offset :: int
  historyPos :: int
  helpText :: "byte list"
  tab_text :: "byte list"
  tab_offset :: int
  tab_CursorX :: int
  tab_index :: int
  tab_numOfItems :: int

type_synonym input_state = "ui \<times> input_line"

definition contains_i :: "byte list \<Rightarrow> byte list \<Rightarrow> bool option" where
  "contains_i s t = map_option (\<lambda>r. r \<noteq> None) (stristr (s @ [0]) (t @ [0]))"

text \<open>\<open>ltrim\<close>, \<open>trim\<close> and \<open>substr(0, find_first_of(' '))\<close> of a string.\<close>

definition is_blank :: "byte \<Rightarrow> bool" where
  "is_blank c \<longleftrightarrow> c = 0x20 \<or> c = 0x09"

definition ltrim :: "byte list \<Rightarrow> byte list" where
  "ltrim s = dropWhile is_blank s"

definition trim :: "byte list \<Rightarrow> byte list" where
  "trim s = rev (dropWhile is_blank (rev (ltrim s)))"

definition first_word :: "byte list \<Rightarrow> byte list" where
  "first_word s = takeWhile (\<lambda>c. c \<noteq> 0x20) s"

subsection \<open>Help\<close>

definition is_cmd :: "byte list \<Rightarrow> cmd \<Rightarrow> bool option" where
  "is_cmd w c = (if length w = length (GetId c) then contains_i w (GetId c) else Some False)"

fun help_loop :: "cmd list \<Rightarrow> byte list \<Rightarrow> byte list \<Rightarrow> byte list list \<Rightarrow> (byte list \<times> byte list list) option" where
  "help_loop [] t w hints = Some ([], hints)"
| "help_loop (c # cs) t w hints =
     (case is_cmd w c of
        None \<Rightarrow> None
      | Some True \<Rightarrow> Some (if length t = length w then GetDesc c else GetSyntax c, hints)
      | Some False \<Rightarrow>
          (case contains_i (GetId c) t of
             None \<Rightarrow> None
           | Some b \<Rightarrow> help_loop cs t w (if b then hints @ [GetId c] else hints)))"

definition help_text :: "cmd list \<Rightarrow> byte list \<Rightarrow> byte list option" where
  "help_text cmds s =
     (let t = ltrim s in
      if length t = 0 then Some []
      else
        (case help_loop cmds t (first_word t) [] of
           None \<Rightarrow> None
         | Some (help, hints) \<Rightarrow>
             Some (if length help = 0 \<and> length hints \<noteq> 0 then join [0x2C, 0x20] (sort hints) else help)))"

definition RedrawCallback :: "input_line \<Rightarrow> input_line" where
  "RedrawCallback l = l\<lparr>tab_text := []\<rparr>"

text \<open>Drawing the windows calls \<open>RedrawCallback\<close>.\<close>

definition Finalize :: "cmd list \<Rightarrow> bool \<Rightarrow> input_state \<Rightarrow> input_state option" where
  "Finalize cmds redrawWnds s =
     (case s of (u, l) \<Rightarrow>
        (case help_text cmds (line_text l) of
           None \<Rightarrow> None
         | Some h \<Rightarrow> (let l = l\<lparr>helpText := h\<rparr> in Some (u, if redrawWnds then RedrawCallback l else l))))"

subsection \<open>Editing\<close>

definition line_pos :: "input_state \<Rightarrow> int" where
  "line_pos s = (case s of (u, l) \<Rightarrow> LONG (CursorX u - 2 + offset l))"

definition cursor_to :: "int \<Rightarrow> input_state \<Rightarrow> input_state option" where
  "cursor_to x s = (case s of (u, l) \<Rightarrow> map_option (\<lambda>u. (u, l)) (ChangeCursorX x (-1) u))"

definition cursor_right :: "input_state \<Rightarrow> input_state option" where
  "cursor_right s =
     (case s of (u, l) \<Rightarrow>
        if ULONG (CursorX u) < ULONG (WndWidth u - 2) then cursor_to (CursorX u + 1) s
        else Some (u, l\<lparr>offset := ULONG (offset l + 1)\<rparr>))"

definition cursor_left :: "input_state \<Rightarrow> input_state option" where
  "cursor_left s =
     (case s of (u, l) \<Rightarrow>
        if CursorX u > 2 then cursor_to (CursorX u - 1) s
        else if offset l > 0 then Some (u, l\<lparr>offset := offset l - 1\<rparr>)
        else Some s)"

definition size_of :: "input_state \<Rightarrow> int" where
  "size_of s = int (length (line_text (snd s)))"

definition edit :: "(byte list \<Rightarrow> byte list) \<Rightarrow> input_state \<Rightarrow> input_state" where
  "edit f s = (case s of (u, l) \<Rightarrow> (u, l\<lparr>line_text := f (line_text l)\<rparr>))"

definition insert_str :: "int \<Rightarrow> byte list \<Rightarrow> byte list \<Rightarrow> byte list" where
  "insert_str pos x s = take (nat pos) s @ x @ drop (nat pos) s"

definition erase_str :: "int \<Rightarrow> nat \<Rightarrow> byte list \<Rightarrow> byte list" where
  "erase_str pos n s = take (nat pos) s @ drop (nat pos + n) s"

definition AddChar :: "cmd list \<Rightarrow> byte \<Rightarrow> input_state \<Rightarrow> input_state option" where
  "AddChar cmds c s =
     (let pos = line_pos s in
      if SIZE_T pos > size_of s then Some s
      else Option.bind (cursor_right (edit (insert_str pos [c]) s)) (Finalize cmds True))"

definition BackSpace :: "cmd list \<Rightarrow> input_state \<Rightarrow> input_state option" where
  "BackSpace cmds s =
     (if size_of s = 0 then Some s
      else
        (let pos = LONG (CursorX (fst s) - 2 + offset (snd s) - 1) in
         if pos < 0 then Some s
         else Option.bind (cursor_left (edit (erase_str pos 1) s)) (Finalize cmds True)))"

definition Left :: "cmd list \<Rightarrow> input_state \<Rightarrow> input_state option" where
  "Left cmds s = Option.bind (cursor_left s) (Finalize cmds True)"

definition Right :: "cmd list \<Rightarrow> input_state \<Rightarrow> input_state option" where
  "Right cmds s =
     (let pos = line_pos s in
      if SIZE_T pos \<ge> size_of s then Some s else Option.bind (cursor_right s) (Finalize cmds True))"

definition Del :: "cmd list \<Rightarrow> input_state \<Rightarrow> input_state option" where
  "Del cmds s =
     (let pos = line_pos s in
      if SIZE_T pos \<ge> size_of s then Some s else Finalize cmds True (edit (erase_str pos 1) s))"

definition set_offset :: "int \<Rightarrow> input_state \<Rightarrow> input_state" where
  "set_offset z s = (case s of (u, l) \<Rightarrow> (u, l\<lparr>offset := z\<rparr>))"

definition Home :: "cmd list \<Rightarrow> input_state \<Rightarrow> input_state option" where
  "Home cmds s = Option.bind (cursor_to 2 (set_offset 0 s)) (Finalize cmds True)"

definition End :: "cmd list \<Rightarrow> input_state \<Rightarrow> input_state option" where
  "End cmds s =
     (let x = LONG (size_of s + 2);
          w = ULONG (WndWidth (fst s) - 2);
          (x, z) = (if ULONG x > w then (LONG w, ULONG (size_of s - ULONG (WndWidth (fst s) - 4))) else (x, 0))
      in Option.bind (cursor_to x (set_offset z s)) (Finalize cmds True))"

subsection \<open>History\<close>

definition is_user_cmd :: "byte list \<Rightarrow> bool" where
  "is_user_cmd s \<longleftrightarrow> length s > 2 \<and> s ! 0 = 0x0D \<and> s ! 1 = 0x3A"

text \<open>The last command before and the first command from an index of the log.\<close>

fun prev_cmd :: "byte list list \<Rightarrow> nat \<Rightarrow> nat option" where
  "prev_cmd cs 0 = None"
| "prev_cmd cs (Suc i) = (if is_user_cmd (cs ! i) then Some i else prev_cmd cs i)"

function next_cmd :: "byte list list \<Rightarrow> nat \<Rightarrow> nat option" where
  "next_cmd cs i = (if i < length cs then if is_user_cmd (cs ! i) then Some i else next_cmd cs (i + 1) else None)"
  by pat_completeness auto
termination by (relation "measure (\<lambda>(cs, i). length cs - i)") auto

declare next_cmd.simps [simp del]

definition recall :: "cmd list \<Rightarrow> byte list list \<Rightarrow> nat \<Rightarrow> input_state \<Rightarrow> input_state option" where
  "recall cmds cs i s =
     map_option (\<lambda>(u, l). (u, l\<lparr>historyPos := int i\<rparr>)) (End cmds (edit (\<lambda>_. drop 2 (cs ! i)) s))"

definition Up :: "cmd list \<Rightarrow> byte list list \<Rightarrow> input_state \<Rightarrow> input_state option" where
  "Up cmds cs s =
     (let i = historyPos (snd s);
          i = (if i < 0 \<or> SIZE_T i \<ge> int (length cs) then length cs else nat i)
      in case prev_cmd cs i of None \<Rightarrow> Some s | Some i \<Rightarrow> recall cmds cs i s)"

definition Down :: "cmd list \<Rightarrow> byte list list \<Rightarrow> input_state \<Rightarrow> input_state option" where
  "Down cmds cs s =
     (let i = historyPos (snd s) in
      if i < 0 \<or> SIZE_T i \<ge> int (length cs) then Some s
      else (case next_cmd cs (nat i + 1) of None \<Rightarrow> Some s | Some i \<Rightarrow> recall cmds cs i s))"

subsection \<open>Commands\<close>

fun find_cmd :: "cmd list \<Rightarrow> byte list \<Rightarrow> cmd option option" where
  "find_cmd [] w = Some None"
| "find_cmd (c # cs) w =
     (case is_cmd w c of None \<Rightarrow> None | Some True \<Rightarrow> Some (Some c) | Some False \<Rightarrow> find_cmd cs w)"

definition Unrecognized :: "byte list" where
  "Unrecognized = map (of_char :: char \<Rightarrow> byte) ''Unrecognized command.''"

definition Enter_log :: "measured \<Rightarrow> cmd list \<Rightarrow> byte list \<Rightarrow> log_window \<Rightarrow> (cmd option \<times> log_window) option" where
  "Enter_log m cmds ret1 w =
     (if length ret1 = 0 then Some (None, w)
      else
        (case AddUserCmd m ret1 w of
           None \<Rightarrow> None
         | Some w \<Rightarrow>
             (case find_cmd cmds (first_word ret1) of
                None \<Rightarrow> None
              | Some (Some c) \<Rightarrow> Some (Some c, w)
              | Some None \<Rightarrow> map_option (\<lambda>w. (None, w)) (AddString m Unrecognized False w))))"

text \<open>The text that was entered, the command to execute, and the new states.\<close>

definition Enter ::
  "measured \<Rightarrow> cmd list \<Rightarrow> input_state \<Rightarrow> log_window \<Rightarrow> ((byte list \<times> cmd option) \<times> input_state \<times> log_window) option" where
  "Enter m cmds s w =
     (let ret1 = trim (line_text (snd s)) in
      case Enter_log m cmds ret1 w of
        None \<Rightarrow> None
      | Some (ret2, w) \<Rightarrow>
          (let s = (case s of (u, l) \<Rightarrow> (u, l\<lparr>line_text := [], offset := 0, historyPos := -1\<rparr>))
           in map_option (\<lambda>s. ((ret1, ret2), s, w)) (Option.bind (cursor_to 2 s) (Finalize cmds True))))"

subsection \<open>Completion\<close>

text \<open>
  The first press saves the line, a further one restores it and selects another item; \<open>None\<close> is the
  early return when the first press found no item.
\<close>

definition Tab_begin :: "bool \<Rightarrow> input_state \<Rightarrow> input_state option option" where
  "Tab_begin modifierKeyState s =
     (case s of (u, l) \<Rightarrow>
        if length (tab_text l) = 0 then
          Some (Some (u, l\<lparr>tab_text := line_text l, tab_offset := offset l, tab_CursorX := CursorX u, tab_index := 0, tab_numOfItems := 0\<rparr>))
        else if tab_numOfItems l = 0 then Some None
        else
          (let l = l\<lparr>line_text := tab_text l, offset := tab_offset l\<rparr> in
           case cursor_to (tab_CursorX l) (u, l) of
             None \<Rightarrow> None
           | Some (u, l) \<Rightarrow>
               (let i = LONG (tab_index l + (if modifierKeyState then -1 else 1));
                    i = (if i < 0 then LONG (tab_numOfItems l - 1) else if i \<ge> tab_numOfItems l then 0 else i)
                in Some (Some (u, l\<lparr>tab_index := i\<rparr>)))))"

text \<open>\<open>find_last_of(' ', pos - 1) + 1\<close>.\<close>

definition word_start :: "byte list \<Rightarrow> nat \<Rightarrow> nat" where
  "word_start s pos = pos - length (takeWhile (\<lambda>c. c \<noteq> 0x20) (rev (take pos s)))"

text \<open>The callback for a public symbol; the context is the completion and the number of items.\<close>

definition tab_callback ::
  "byte list \<Rightarrow> int \<Rightarrow> byte list \<times> int \<Rightarrow> byte list \<Rightarrow> u32 \<Rightarrow> u32 \<Rightarrow> ((byte list \<times> int) \<times> bool) option" where
  "tab_callback t index c name address len =
     (case c of (r, n) \<Rightarrow>
        (case strlen name of
           None \<Rightarrow> None
         | Some k \<Rightarrow>
             if 0x20 \<in> set (take k name) then Some ((r, n), True)
             else
               (case stristr name (t @ [0]) of
                  None \<Rightarrow> None
                | Some None \<Rightarrow> Some ((r, n), True)
                | Some (Some _) \<Rightarrow> Some ((if index = n then take k name else r, LONG (n + 1)), True))))"

fun tab_symbols :: "byte list option list \<Rightarrow> byte list \<Rightarrow> int \<Rightarrow> byte list \<times> int \<Rightarrow> (byte list \<times> int) option" where
  "tab_symbols [] t index c = Some c"
| "tab_symbols (f # fs) t index c =
     (case GetHeader f of
        None \<Rightarrow> None
      | Some header \<Rightarrow>
          (case EnumPublics header (tab_callback t index) c of
             None \<Rightarrow> None
           | Some c \<Rightarrow> tab_symbols fs t index c))"

text \<open>The word before the cursor is replaced.\<close>

definition tab_replace :: "nat \<Rightarrow> nat \<Rightarrow> byte list \<Rightarrow> input_state \<Rightarrow> input_state option" where
  "tab_replace p n r s =
     (case s of (u, l) \<Rightarrow>
        let l = l\<lparr>line_text := insert_str (int p) r (erase_str (int p) n (line_text l))\<rparr>;
            x = LONG (CursorX u + int (length r - n));
            w = ULONG (WndWidth u - 2);
            (x, z) = (if ULONG x > w then (LONG w, ULONG (offset l + (ULONG x - w))) else (x, offset l))
        in cursor_to x (u, l\<lparr>offset := z\<rparr>))"

definition Tab_end ::
  "cmd list \<Rightarrow> byte list option list \<Rightarrow> u16 list \<Rightarrow> input_state \<Rightarrow> (input_state \<times> u16 list) option" where
  "Tab_end cmds symF buf s =
     (case s of (u, l) \<Rightarrow>
        let pos = line_pos s; txt = line_text l in
        if length txt = 0 \<or> SIZE_T pos > int (length txt) \<or> pos = 0 \<or> (SIZE_T pos < int (length txt) \<and> txt ! nat pos \<noteq> 0x20)
        then Some (s, buf)
        else
          (let p = word_start txt (nat pos);
               n = nat pos - p;
               t = take n (drop p txt)
           in if length t = 0 then Some (s, buf)
              else
                (case HighlightHexNumber t (tab_index l) u buf of
                   None \<Rightarrow> None
                 | Some (r, items, buf) \<Rightarrow>
                     (case tab_symbols symF t (tab_index l) (r, items) of
                        None \<Rightarrow> None
                      | Some (r, items) \<Rightarrow>
                          (let l = l\<lparr>tab_numOfItems := items\<rparr> in
                           if length r < length t then Some ((u, l), buf)
                           else
                             map_option (\<lambda>s. (s, buf))
                               (Option.bind (tab_replace p n r (u, l)) (Finalize cmds False)))))))"

definition Tab ::
  "cmd list \<Rightarrow> byte list option list \<Rightarrow> bool \<Rightarrow> u16 list \<Rightarrow> input_state \<Rightarrow> (input_state \<times> u16 list) option" where
  "Tab cmds symF modifierKeyState buf s =
     (case Tab_begin modifierKeyState s of
        None \<Rightarrow> None
      | Some None \<Rightarrow> Some (s, buf)
      | Some (Some s) \<Rightarrow> Tab_end cmds symF buf s)"

end
