(* ===== verification/InputLine_Correct.thy ===== *)
theory InputLine_Correct
  imports InputLine Symbols_Correct
begin

text \<open>
  The input line as a line editor: every sequence of keys acts on its text, the position in it and the
  history as on a plain line, whatever the scrolling; completion replaces the word before the cursor;
  commands are found by their names regardless of case.
\<close>

section \<open>Commands and help\<close>

lemma cstr_terminated: "0 \<notin> set s \<Longrightarrow> cstr (s @ [0]) s"
  by (auto simp: cstr_def)

lemma contains_i_spec:
  assumes "0 \<notin> set s" "0 \<notin> set t" "length t < 2 ^ 32"
  shows "contains_i s t = Some (\<exists>i. occurs_at s t i)"
proof -
  obtain r where "stristr (s @ [0]) (t @ [0]) = Some r" "first_occurrence s t r"
    using stristr_spec [OF cstr_terminated cstr_terminated] assms by blast
  then show ?thesis by (cases r) (auto simp: contains_i_def first_occurrence_def)
qed

definition cmds_ok :: "cmd list \<Rightarrow> bool" where
  "cmds_ok cmds \<longleftrightarrow> (\<forall>c \<in> set cmds. 0 \<notin> set (GetId c) \<and> length (GetId c) < 2 ^ 32)"

lemma is_cmd_spec:
  assumes "0 \<notin> set w" "0 \<notin> set (GetId c)" "length (GetId c) < 2 ^ 32"
  shows "is_cmd w c = Some (lower w = lower (GetId c))"
proof (cases "length w = length (GetId c)")
  case True
  have "(\<exists>i. occurs_at w (GetId c) i) \<longleftrightarrow> lower w = lower (GetId c)"
    using True by (auto simp: occurs_at_def intro!: exI [of _ 0])
  then show ?thesis using True contains_i_spec [OF assms] by (simp add: is_cmd_def)
next
  case False
  then have "lower w \<noteq> lower (GetId c)" by (metis length_map lower_def)
  then show ?thesis using False by (simp add: is_cmd_def)
qed

lemma find_cmd_spec:
  assumes "cmds_ok cmds" "0 \<notin> set w"
  shows "find_cmd cmds w = Some (find (\<lambda>c. lower w = lower (GetId c)) cmds)"
  using assms(1)
proof (induction cmds)
  case (Cons c cmds)
  then have "is_cmd w c = Some (lower w = lower (GetId c))" using is_cmd_spec [OF assms(2)] by (simp add: cmds_ok_def)
  then show ?case using Cons by (simp add: cmds_ok_def)
qed simp

text \<open>Help: the text of the command that was typed, or the names that contain what was typed.\<close>

lemma help_loop_spec:
  assumes "cmds_ok cmds" "0 \<notin> set t" "0 \<notin> set w" "length t < 2 ^ 32"
  shows "\<exists>hs. help_loop cmds t w hints =
    Some (case find (\<lambda>c. lower w = lower (GetId c)) cmds of
            None \<Rightarrow> []
          | Some c \<Rightarrow> if length t = length w then GetDesc c else GetSyntax c, hints @ hs) \<and>
    (find (\<lambda>c. lower w = lower (GetId c)) cmds = None \<longrightarrow>
       hs = map GetId (filter (\<lambda>c. \<exists>i. occurs_at (GetId c) t i) cmds))"
  using assms(1)
proof (induction cmds arbitrary: hints)
  case (Cons c cmds)
  have c: "is_cmd w c = Some (lower w = lower (GetId c))" "contains_i (GetId c) t = Some (\<exists>i. occurs_at (GetId c) t i)"
    using is_cmd_spec [OF assms(3)] contains_i_spec [of "GetId c" t] Cons.prems assms(2,4) by (simp_all add: cmds_ok_def)
  show ?case
  proof (cases "lower w = lower (GetId c)")
    case True
    then show ?thesis using c by simp
  next
    case False
    let ?h = "if \<exists>i. occurs_at (GetId c) t i then hints @ [GetId c] else hints"
    have "cmds_ok cmds" using Cons.prems by (simp add: cmds_ok_def)
    from Cons.IH [OF this, of ?h] show ?thesis using c False by (auto split: if_splits)
  qed
qed simp

lemma set_ltrim: "set (ltrim s) \<subseteq> set s" "length (ltrim s) \<le> length s"
  by (auto simp: ltrim_def dest: set_dropWhileD intro: length_dropWhile_le)

lemma set_first_word: "set (first_word s) \<subseteq> set s"
  by (auto simp: first_word_def dest: set_takeWhileD)

lemma help_text_total:
  assumes "cmds_ok cmds" "0 \<notin> set s" "length s < 2 ^ 32"
  shows "\<exists>h. help_text cmds s = Some h"
proof -
  have "0 \<notin> set (ltrim s)" "0 \<notin> set (first_word (ltrim s))" "length (ltrim s) < 2 ^ 32"
    using assms set_ltrim [of s] set_first_word [of "ltrim s"] by auto
  from help_loop_spec [OF assms(1) this, of "[]"] show ?thesis by (auto simp: help_text_def Let_def)
qed

section \<open>The line editor\<close>

datatype input_key = KChar byte | KBackSpace | KLeft | KRight | KDel | KHome | KEnd | KUp | KDown

fun input_step :: "cmd list \<Rightarrow> byte list list \<Rightarrow> input_key \<Rightarrow> input_state \<Rightarrow> input_state option" where
  "input_step cmds cs (KChar c) s = AddChar cmds c s"
| "input_step cmds cs KBackSpace s = BackSpace cmds s"
| "input_step cmds cs KLeft s = Left cmds s"
| "input_step cmds cs KRight s = Right cmds s"
| "input_step cmds cs KDel s = Del cmds s"
| "input_step cmds cs KHome s = Home cmds s"
| "input_step cmds cs KEnd s = End cmds s"
| "input_step cmds cs KUp s = Up cmds cs s"
| "input_step cmds cs KDown s = Down cmds cs s"

text \<open>A plain line: its text, the position in it, and the line of the log that was recalled last.\<close>

type_synonym plain_line = "byte list \<times> nat \<times> int"

definition recalled :: "byte list list \<Rightarrow> nat option \<Rightarrow> plain_line \<Rightarrow> plain_line" where
  "recalled cs r = (\<lambda>(t, p, h). case r of None \<Rightarrow> (t, p, h) | Some i \<Rightarrow> (drop 2 (cs ! i), length (cs ! i) - 2, int i))"

fun line_step :: "byte list list \<Rightarrow> input_key \<Rightarrow> plain_line \<Rightarrow> plain_line" where
  "line_step cs (KChar c) (t, p, h) = (take p t @ c # drop p t, p + 1, h)"
| "line_step cs KBackSpace (t, p, h) = (if p = 0 then (t, p, h) else (take (p - 1) t @ drop p t, p - 1, h))"
| "line_step cs KLeft (t, p, h) = (t, p - 1, h)"
| "line_step cs KRight (t, p, h) = (t, min (p + 1) (length t), h)"
| "line_step cs KDel (t, p, h) = (take p t @ drop (p + 1) t, p, h)"
| "line_step cs KHome (t, p, h) = (t, 0, h)"
| "line_step cs KEnd (t, p, h) = (t, length t, h)"
| "line_step cs KUp (t, p, h) =
     recalled cs (prev_cmd cs (if 0 \<le> h \<and> h < int (length cs) then nat h else length cs)) (t, p, h)"
| "line_step cs KDown (t, p, h) =
     recalled cs (if 0 \<le> h \<and> h < int (length cs) then next_cmd cs (nat h + 1) else None) (t, p, h)"

definition line_of :: "input_state \<Rightarrow> plain_line" where
  "line_of = (\<lambda>(u, l). (line_text l, nat (CursorX u - 2 + offset l), historyPos l))"

definition log_ok :: "nat \<Rightarrow> byte list list \<Rightarrow> bool" where
  "log_ok n cs \<longleftrightarrow> int (length cs) < 2 ^ 30 \<and> (\<forall>l \<in> set cs. 0 \<notin> set l \<and> int (length l + n) < 2 ^ 30)"

definition cursor_ok :: "ui \<Rightarrow> bool" where
  "cursor_ok u \<longleftrightarrow> 5 \<le> WndWidth u \<and> 0 \<le> CursorY u \<and> CursorY u < WndHeight u \<and> WndWidth u * WndHeight u \<le> TextBuffersDim \<and>
     2 \<le> CursorX u \<and> CursorX u \<le> WndWidth u - 2"

definition line_ok :: "cmd list \<Rightarrow> byte list list \<Rightarrow> nat \<Rightarrow> input_state \<Rightarrow> bool" where
  "line_ok cmds cs n = (\<lambda>(u, l).
     cmds_ok cmds \<and> log_ok n cs \<and> cursor_ok u \<and> int (length (line_text l) + n) < 2 ^ 30 \<and> 0 \<notin> set (line_text l) \<and>
     -1 \<le> historyPos l \<and> historyPos l < 2 ^ 30)"

definition input_inv :: "cmd list \<Rightarrow> byte list list \<Rightarrow> nat \<Rightarrow> input_state \<Rightarrow> bool" where
  "input_inv cmds cs n = (\<lambda>(u, l).
     line_ok cmds cs n (u, l) \<and> 0 \<le> offset l \<and> CursorX u - 2 + offset l \<le> int (length (line_text l)))"

definition typed :: "input_key \<Rightarrow> bool" where
  "typed k \<longleftrightarrow> k \<noteq> KChar 0"

lemma cursor_ok_width: "cursor_ok u \<Longrightarrow> WndWidth u \<le> 16384"
proof -
  assume u: "cursor_ok u"
  then have "WndWidth u * 1 \<le> WndWidth u * WndHeight u" by (intro mult_left_mono) (auto simp: cursor_ok_def)
  also have "\<dots> \<le> 16384" using u by (simp add: cursor_ok_def TextBuffersDim_def)
  finally show ?thesis by simp
qed

lemma cursor_to_ok:
  assumes "cursor_ok u" "2 \<le> x" "x \<le> WndWidth u - 2"
  shows "\<exists>u'. cursor_to x (u, l) = Some (u', l) \<and> CursorX u' = x \<and> cursor_ok u' \<and>
    WndWidth u' = WndWidth u \<and> WndHeight u' = WndHeight u \<and> CursorY u' = CursorY u"
proof -
  have "ULONG (CursorY u * WndWidth u + CursorX u) < TextBuffersDim" "ULONG (CursorY u * WndWidth u + x) < TextBuffersDim"
    using assms by (auto simp: cursor_ok_def intro!: front_buffer_ok [where H = "WndHeight u"])
  then show ?thesis using assms by (auto simp: cursor_to_def ChangeCursorX_def front_buffer_write_def Let_def cursor_ok_def)
qed

text \<open>What an operation has to reach before it is finalized.\<close>

definition reaches :: "cmd list \<Rightarrow> byte list list \<Rightarrow> nat \<Rightarrow> plain_line \<Rightarrow> input_state option \<Rightarrow> bool" where
  "reaches cmds cs n a r \<longleftrightarrow> (\<exists>s. r = Some s \<and> input_inv cmds cs n s \<and> line_of s = a)"

lemma reaches_Finalize:
  assumes "reaches cmds cs n a r"
  shows "reaches cmds cs n a (Option.bind r (Finalize cmds b))"
proof -
  obtain u l where s: "r = Some (u, l)" "input_inv cmds cs n (u, l)" "line_of (u, l) = a"
    using assms by (auto simp: reaches_def)
  then obtain h where "help_text cmds (line_text l) = Some h"
    using help_text_total [of cmds "line_text l"] by (auto simp: input_inv_def line_ok_def)
  then show ?thesis using s by (auto simp: reaches_def Finalize_def RedrawCallback_def input_inv_def line_ok_def line_of_def Let_def)
qed


lemma input_facts:
  assumes "input_inv cmds cs n (u, l)"
  shows "cursor_ok u" "small (CursorX u)" "small (WndWidth u - 2)" "small (WndWidth u - 4)" "small (offset l)" "small (offset l + 1)"
    "small (CursorX u - 2 + offset l)" "line_pos (u, l) = CursorX u - 2 + offset l"
    "SIZE_T (CursorX u - 2 + offset l) = CursorX u - 2 + offset l" "small (size_of (u, l) + 2)"
    "line_of (u, l) = (line_text l, nat (CursorX u - 2 + offset l), historyPos l)"
proof -
  have w: "WndWidth u \<le> 16384" using cursor_ok_width assms by (simp add: input_inv_def line_ok_def)
  show s: "cursor_ok u" "small (CursorX u)" "small (WndWidth u - 2)" "small (WndWidth u - 4)" "small (offset l)" "small (offset l + 1)"
    "small (CursorX u - 2 + offset l)" "small (size_of (u, l) + 2)"
    using assms w by (auto simp: input_inv_def line_ok_def cursor_ok_def small_def size_of_def)
  show "line_pos (u, l) = CursorX u - 2 + offset l" "SIZE_T (CursorX u - 2 + offset l) = CursorX u - 2 + offset l"
    using conversions [OF s(7)] by (simp_all add: line_pos_def)
  show "line_of (u, l) = (line_text l, nat (CursorX u - 2 + offset l), historyPos l)" by (simp add: line_of_def)
qed

lemma cursor_right_ok:
  assumes "input_inv cmds cs n (u, l)" "CursorX u - 2 + offset l < int (length (line_text l))"
  shows "reaches cmds cs n (line_text l, nat (CursorX u - 2 + offset l) + 1, historyPos l) (cursor_right (u, l))"
proof -
  note f = input_facts [OF assms(1)]
  show ?thesis
  proof (cases "CursorX u < WndWidth u - 2")
    case True
    then obtain u' where "cursor_to (CursorX u + 1) (u, l) = Some (u', l)" "CursorX u' = CursorX u + 1" "cursor_ok u'"
      using cursor_to_ok [OF f(1), of "CursorX u + 1" l] f(1) by (auto simp: cursor_ok_def)
    then show ?thesis using True assms f
      by (auto simp: cursor_right_def conversions reaches_def input_inv_def line_ok_def line_of_def cursor_ok_def)
  next
    case False
    then show ?thesis using assms f
      by (auto simp: cursor_right_def conversions reaches_def input_inv_def line_ok_def line_of_def cursor_ok_def)
  qed
qed

lemma cursor_left_ok:
  assumes "input_inv cmds cs n (u, l\<lparr>line_text := t\<rparr>)" "0 < CursorX u - 2 + offset l"
    "CursorX u - 3 + offset l \<le> int (length t')" "length t' \<le> length t" "0 \<notin> set t'"
  shows "reaches cmds cs n (t', nat (CursorX u - 2 + offset l) - 1, historyPos l) (cursor_left (u, l\<lparr>line_text := t'\<rparr>))"
proof -
  note f = input_facts [OF assms(1)]
  show ?thesis
  proof (cases "CursorX u > 2")
    case True
    then obtain u' where "cursor_to (CursorX u - 1) (u, l\<lparr>line_text := t'\<rparr>) = Some (u', l\<lparr>line_text := t'\<rparr>)" "CursorX u' = CursorX u - 1" "cursor_ok u'"
      using cursor_to_ok [OF f(1), of "CursorX u - 1" "l\<lparr>line_text := t'\<rparr>"] f(1) by (auto simp: cursor_ok_def)
    then show ?thesis using True assms
      by (auto simp: cursor_left_def reaches_def input_inv_def line_ok_def line_of_def nat_diff_distrib)
  next
    case False
    then show ?thesis using assms
      by (auto simp: cursor_left_def reaches_def input_inv_def line_ok_def line_of_def cursor_ok_def nat_diff_distrib)
  qed
qed


lemma reaches_less: "reaches cmds cs (Suc n) a r \<Longrightarrow> reaches cmds cs n a r"
  by (fastforce simp: reaches_def input_inv_def line_ok_def log_ok_def)

lemma reaches_refl: "input_inv cmds cs (Suc n) s \<Longrightarrow> reaches cmds cs n (line_of s) (Some s)"
  by (rule reaches_less) (simp add: reaches_def)

lemma AddChar_ok:
  assumes "input_inv cmds cs (Suc n) (u, l)" "c \<noteq> 0"
  shows "reaches cmds cs n (line_step cs (KChar c) (line_of (u, l))) (AddChar cmds c (u, l))"
proof -
  note f = input_facts [OF assms(1)]
  let ?p = "CursorX u - 2 + offset l"
  let ?l = "l\<lparr>line_text := insert_str ?p [c] (line_text l)\<rparr>"
  have p: "0 \<le> ?p" "?p \<le> int (length (line_text l))" using assms(1) by (auto simp: input_inv_def line_ok_def cursor_ok_def)
  then have t: "insert_str ?p [c] (line_text l) = take (nat ?p) (line_text l) @ c # drop (nat ?p) (line_text l)"
    "length (insert_str ?p [c] (line_text l)) = length (line_text l) + 1" "0 \<notin> set (insert_str ?p [c] (line_text l))"
    using assms by (auto simp: insert_str_def input_inv_def line_ok_def dest: in_set_takeD in_set_dropD)
  have "input_inv cmds cs n (u, ?l)" using assms(1) t(2,3) by (auto simp: input_inv_def line_ok_def log_ok_def)
  from cursor_right_ok [OF this] have "reaches cmds cs n (line_text ?l, nat ?p + 1, historyPos l) (cursor_right (u, ?l))"
    using p t(2) by simp
  from reaches_Finalize [OF this] show ?thesis
    using f(8,9,11) p t(1) by (simp add: AddChar_def edit_def size_of_def Let_def)
qed

lemma line_BackSpace_ok:
  assumes "input_inv cmds cs (Suc n) (u, l)"
  shows "reaches cmds cs n (line_step cs KBackSpace (line_of (u, l))) (BackSpace cmds (u, l))"
proof -
  note f = input_facts [OF assms]
  let ?p = "CursorX u - 2 + offset l"
  have p: "0 \<le> ?p" "?p \<le> int (length (line_text l))" using assms by (auto simp: input_inv_def line_ok_def cursor_ok_def)
  have q: "LONG (?p - 1) = ?p - 1" using f(7) by (intro LONG_small) (auto simp: small_def)
  show ?thesis
  proof (cases "?p = 0")
    case True
    then show ?thesis using q reaches_refl [OF assms] f(11) by (simp add: BackSpace_def Let_def)
  next
    case False
    let ?t = "take (nat ?p - 1) (line_text l) @ drop (nat ?p) (line_text l)"
    have "nat (?p - 1) = nat ?p - 1" "nat ?p - 1 + 1 = nat ?p" using p False by linarith+
    then have t: "erase_str (?p - 1) 1 (line_text l) = ?t" by (simp only: erase_str_def)
    have "reaches cmds cs (Suc n) (?t, nat ?p - 1, historyPos l) (cursor_left (u, l\<lparr>line_text := ?t\<rparr>))"
      using assms p False
      by (intro cursor_left_ok [where t = "line_text l"]) (auto simp: input_inv_def line_ok_def dest: in_set_takeD in_set_dropD)
    moreover have "line_text l \<noteq> []" "\<not> ?p - 1 < 0" using False p by auto
    ultimately show ?thesis
      using reaches_Finalize [OF reaches_less, of cmds cs n] False p q t f(11) by (simp add: BackSpace_def edit_def size_of_def Let_def)
  qed
qed

lemma line_Left_ok:
  assumes "input_inv cmds cs (Suc n) (u, l)"
  shows "reaches cmds cs n (line_step cs KLeft (line_of (u, l))) (Left cmds (u, l))"
proof (cases "CursorX u - 2 + offset l = 0")
  case True
  then have "cursor_left (u, l) = Some (u, l)" using assms by (auto simp: cursor_left_def input_inv_def line_ok_def cursor_ok_def)
  then show ?thesis
    using reaches_Finalize [OF reaches_refl [OF assms], of True] True input_facts(11) [OF assms] by (simp add: Left_def)
next
  case False
  then have "reaches cmds cs (Suc n) (line_text l, nat (CursorX u - 2 + offset l) - 1, historyPos l) (cursor_left (u, l\<lparr>line_text := line_text l\<rparr>))"
    using assms by (intro cursor_left_ok [where t = "line_text l"]) (auto simp: input_inv_def line_ok_def cursor_ok_def)
  from reaches_Finalize [OF reaches_less [OF this], of True] show ?thesis
    using input_facts(11) [OF assms] by (simp add: Left_def)
qed

lemma line_Right_ok:
  assumes "input_inv cmds cs (Suc n) (u, l)"
  shows "reaches cmds cs n (line_step cs KRight (line_of (u, l))) (Right cmds (u, l))"
proof -
  note f = input_facts [OF assms]
  let ?p = "CursorX u - 2 + offset l"
  have p: "0 \<le> ?p" "?p \<le> int (length (line_text l))" using assms by (auto simp: input_inv_def line_ok_def cursor_ok_def)
  show ?thesis
  proof (cases "?p < int (length (line_text l))")
    case True
    then have "min (nat ?p + 1) (length (line_text l)) = nat ?p + 1" using p by simp
    then show ?thesis
      using reaches_Finalize [OF reaches_less [OF cursor_right_ok [OF assms True]], of True] True f
      by (simp add: Right_def size_of_def)
  next
    case False
    then have "min (nat ?p + 1) (length (line_text l)) = nat ?p" using p by simp
    then show ?thesis using reaches_refl [OF assms] False f by (simp add: Right_def size_of_def)
  qed
qed

lemma line_Del_ok:
  assumes "input_inv cmds cs (Suc n) (u, l)"
  shows "reaches cmds cs n (line_step cs KDel (line_of (u, l))) (Del cmds (u, l))"
proof -
  note f = input_facts [OF assms]
  let ?p = "CursorX u - 2 + offset l"
  have p: "0 \<le> ?p" "?p \<le> int (length (line_text l))" using assms by (auto simp: input_inv_def line_ok_def cursor_ok_def)
  show ?thesis
  proof (cases "?p < int (length (line_text l))")
    case True
    let ?t = "take (nat ?p) (line_text l) @ drop (nat ?p + 1) (line_text l)"
    have "reaches cmds cs n (?t, nat ?p, historyPos l) (Some (u, l\<lparr>line_text := ?t\<rparr>))"
      using assms True p by (auto simp: reaches_def input_inv_def line_ok_def log_ok_def line_of_def dest: in_set_takeD in_set_dropD)
    from reaches_Finalize [OF this, of True] show ?thesis
      using True f by (simp add: Del_def size_of_def edit_def erase_str_def Let_def)
  next
    case False
    then show ?thesis using reaches_refl [OF assms] f p by (simp add: Del_def size_of_def)
  qed
qed

lemma line_Home_ok:
  assumes "input_inv cmds cs (Suc n) (u, l)"
  shows "reaches cmds cs n (line_step cs KHome (line_of (u, l))) (Home cmds (u, l))"
proof -
  note f = input_facts [OF assms]
  obtain u' where "cursor_to 2 (u, l\<lparr>offset := 0\<rparr>) = Some (u', l\<lparr>offset := 0\<rparr>)" "CursorX u' = 2" "cursor_ok u'"
    using cursor_to_ok [OF f(1), of 2 "l\<lparr>offset := 0\<rparr>"] f(1) by (auto simp: cursor_ok_def)
  then have "reaches cmds cs n (line_text l, 0, historyPos l) (cursor_to 2 (u, l\<lparr>offset := 0\<rparr>))"
    using assms by (auto simp: reaches_def input_inv_def line_ok_def log_ok_def line_of_def)
  from reaches_Finalize [OF this, of True] show ?thesis using f(11) by (simp add: Home_def set_offset_def)
qed

lemma End_reaches:
  assumes "line_ok cmds cs n (u, l)"
  shows "reaches cmds cs n (line_text l, length (line_text l), historyPos l) (End cmds (u, l))"
proof -
  have c: "cursor_ok u" using assms by (simp add: line_ok_def)
  then have w: "small (WndWidth u - 2)" "small (WndWidth u - 4)" using cursor_ok_width [OF c] by (auto simp: small_def cursor_ok_def)
  have n: "small (int (length (line_text l)) + 2)" using assms by (auto simp: small_def line_ok_def)
  let ?n = "int (length (line_text l))"
  define x where "x = (if ?n + 2 > WndWidth u - 2 then WndWidth u - 2 else ?n + 2)"
  define z where "z = (if ?n + 2 > WndWidth u - 2 then ?n - (WndWidth u - 4) else 0)"
  have sz: "size_of (u, l) = ?n" by (simp add: size_of_def)
  have sm: "small (?n - (WndWidth u - 4))" if "?n + 2 > WndWidth u - 2"
    using that n c by (auto simp: small_def cursor_ok_def)
  have e: "End cmds (u, l) = Option.bind (cursor_to x (u, l\<lparr>offset := z\<rparr>)) (Finalize cmds True)"
    using w n sm by (simp add: End_def Let_def sz conversions set_offset_def x_def z_def)
  have "2 \<le> x" "x \<le> WndWidth u - 2" "x - 2 + z = ?n" "0 \<le> z" using c by (auto simp: x_def z_def cursor_ok_def)
  moreover obtain u' where "cursor_to x (u, l\<lparr>offset := z\<rparr>) = Some (u', l\<lparr>offset := z\<rparr>)" "CursorX u' = x" "cursor_ok u'"
    using cursor_to_ok [OF c, of x "l\<lparr>offset := z\<rparr>"] calculation by blast
  ultimately have "reaches cmds cs n (line_text l, length (line_text l), historyPos l) (cursor_to x (u, l\<lparr>offset := z\<rparr>))"
    using assms by (auto simp: reaches_def input_inv_def line_ok_def line_of_def)
  from reaches_Finalize [OF this, of True] show ?thesis by (simp add: e)
qed


lemma prev_cmd_bound: "prev_cmd cs i = Some j \<Longrightarrow> j < i \<and> is_user_cmd (cs ! j)"
  by (induction cs i rule: prev_cmd.induct) (auto split: if_splits)

lemma next_cmd_bound: "next_cmd cs i = Some j \<Longrightarrow> i \<le> j \<and> j < length cs \<and> is_user_cmd (cs ! j)"
proof (induction cs i rule: next_cmd.induct)
  case (1 cs i)
  then show ?case by (subst (asm) next_cmd.simps) (auto split: if_splits)
qed

lemma recall_ok:
  assumes "input_inv cmds cs (Suc n) (u, l)" "i < length cs"
  shows "reaches cmds cs n (drop 2 (cs ! i), length (cs ! i) - 2, int i) (recall cmds cs i (u, l))"
proof -
  let ?t = "drop 2 (cs ! i)"
  let ?l = "l\<lparr>line_text := ?t\<rparr>"
  have "cs ! i \<in> set cs" using assms(2) by simp
  then have "0 \<notin> set (cs ! i)" "int (length (cs ! i) + Suc n) < 2 ^ 30"
    using assms(1) unfolding input_inv_def line_ok_def log_ok_def by blast+
  then have "line_ok cmds cs n (u, ?l)"
    using assms(1) by (auto simp: input_inv_def line_ok_def log_ok_def dest: in_set_dropD)
  from End_reaches [OF this] obtain u' l' where e: "End cmds (u, ?l) = Some (u', l')" "input_inv cmds cs n (u', l')"
    "line_of (u', l') = (?t, length ?t, historyPos l)"
    by (auto simp: reaches_def)
  have "int i < 2 ^ 30" using assms by (auto simp: input_inv_def line_ok_def log_ok_def)
  then show ?thesis using e by (auto simp: reaches_def recall_def edit_def input_inv_def line_ok_def line_of_def)
qed

lemma line_Up_ok:
  assumes "input_inv cmds cs (Suc n) (u, l)"
  shows "reaches cmds cs n (line_step cs KUp (line_of (u, l))) (Up cmds cs (u, l))"
proof -
  have h: "-1 \<le> historyPos l" "historyPos l < 2 ^ 30" using assms by (auto simp: input_inv_def line_ok_def)
  then have z: "0 \<le> historyPos l \<Longrightarrow> SIZE_T (historyPos l) = historyPos l" by (intro conversions) (simp add: small_def)
  define i where "i = (if 0 \<le> historyPos l \<and> historyPos l < int (length cs) then nat (historyPos l) else length cs)"
  have up: "Up cmds cs (u, l) = (case prev_cmd cs i of None \<Rightarrow> Some (u, l) | Some i \<Rightarrow> recall cmds cs i (u, l))"
    using z by (auto simp: Up_def Let_def i_def)
  show ?thesis
  proof (cases "prev_cmd cs i")
    case None
    then show ?thesis using up reaches_refl [OF assms] by (auto simp: line_of_def recalled_def i_def)
  next
    case (Some j)
    then have "j < length cs" using prev_cmd_bound [OF Some] by (auto simp: i_def split: if_splits)
    then show ?thesis using up Some recall_ok [OF assms, of j] by (auto simp: line_of_def recalled_def i_def)
  qed
qed

lemma line_Down_ok:
  assumes "input_inv cmds cs (Suc n) (u, l)"
  shows "reaches cmds cs n (line_step cs KDown (line_of (u, l))) (Down cmds cs (u, l))"
proof -
  have h: "-1 \<le> historyPos l" "historyPos l < 2 ^ 30" using assms by (auto simp: input_inv_def line_ok_def)
  then have z: "0 \<le> historyPos l \<Longrightarrow> SIZE_T (historyPos l) = historyPos l" by (intro conversions) (simp add: small_def)
  define r where "r = (if 0 \<le> historyPos l \<and> historyPos l < int (length cs) then next_cmd cs (nat (historyPos l) + 1) else None)"
  have down: "Down cmds cs (u, l) = (case r of None \<Rightarrow> Some (u, l) | Some i \<Rightarrow> recall cmds cs i (u, l))"
    using z by (auto simp: Down_def Let_def r_def)
  show ?thesis
  proof (cases r)
    case None
    then show ?thesis using down reaches_refl [OF assms] by (auto simp: line_of_def recalled_def r_def)
  next
    case (Some j)
    then have "j < length cs" using next_cmd_bound [of cs _ j] by (auto simp: r_def split: if_splits)
    then show ?thesis using down Some recall_ok [OF assms, of j] by (auto simp: line_of_def recalled_def r_def)
  qed
qed

lemma input_step_ok:
  assumes "typed k" "input_inv cmds cs (Suc n) s"
  shows "\<exists>s'. input_step cmds cs k s = Some s' \<and> input_inv cmds cs n s' \<and> line_of s' = line_step cs k (line_of s)"
proof -
  obtain u l where s: "s = (u, l)" by fastforce
  have "reaches cmds cs n (line_step cs k (line_of s)) (input_step cmds cs k s)"
  proof (cases k)
    case (KChar c)
    then show ?thesis using AddChar_ok [of cmds cs n u l c] assms s by (auto simp: typed_def)
  next
    case KEnd
    have "line_ok cmds cs n (u, l)" using assms(2) s by (auto simp: input_inv_def line_ok_def log_ok_def)
    then show ?thesis using End_reaches [of cmds cs n u l] KEnd s by (simp add: line_of_def)
  qed (use assms(2) s line_BackSpace_ok line_Left_ok line_Right_ok line_Del_ok line_Home_ok line_Up_ok line_Down_ok in simp_all)
  then show ?thesis by (auto simp: reaches_def)
qed

interpretation input: session "input_step cmds cs" "line_step cs" line_of "input_inv cmds cs" typed for cmds cs
  by unfold_locales (rule input_step_ok)

section \<open>Completion\<close>

lemma enum_publics_fold:
  assumes "\<And>k c. i \<le> k \<Longrightarrow> k < i + n \<Longrightarrow> \<exists>s. pub_at m pubs k = Some s \<and>
    callback c (drop (names + unat (sym_name s)) m) (sym_address s) (sym_length s) = Some (g (nm k) c, True)"
  shows "enum_publics m pubs names callback i n c = Some (fold (\<lambda>k. g (nm k)) [i..<i + n] c)"
  using assms
proof (induction n arbitrary: i c)
  case (Suc n)
  obtain s where "pub_at m pubs i = Some s"
    "callback c (drop (names + unat (sym_name s)) m) (sym_address s) (sym_length s) = Some (g (nm i) c, True)"
    using Suc.prems [of i c] by auto
  moreover have "enum_publics m pubs names callback (i + 1) n c' = Some (fold (\<lambda>k. g (nm k)) [i + 1..<i + 1 + n] c')" for c'
    using Suc.prems by (intro Suc.IH) simp
  moreover have "[i..<i + Suc n] = i # [i + 1..<i + 1 + n]" by (simp add: upt_conv_Cons)
  ultimately show ?case by simp
qed simp

lemma EnumPublics_file:
  assumes "readable b" "\<And>c p a l nm. cstr p nm \<Longrightarrow> callback c p a l = Some (g nm c, True)"
  shows "EnumPublics (Some (file_bytes b)) callback c = Some (fold g (map fst (publics b)) c)"
proof -
  let ?m = "file_bytes b" and ?n = "length (PublicSymbols b)"
  have ok: "indices_ok b" using assms(1) by (simp add: readable_def)
  have "\<exists>s. pub_at ?m pubs_off k = Some s \<and>
      callback c (drop (names_off b + unat (sym_name s)) ?m) (sym_address s) (sym_length s) =
        Some (g (Names b ! ps_name (PublicSymbols b ! k)) c, True)" if "k < ?n" for k c
  proof -
    have "ps_name (PublicSymbols b ! k) < length (Names b)" using ok that by (simp add: indices_ok_def)
    then show ?thesis using pub_at_file [OF ok that] assms(2) [OF name_at_file [OF assms(1)]] by simp
  qed
  then have e: "enum_publics ?m pubs_off (names_off b) callback 0 ?n c =
      Some (fold (\<lambda>k. g (Names b ! ps_name (PublicSymbols b ! k))) [0..<0 + ?n] c)"
    by (intro enum_publics_fold) simp
  have names: "map fst (publics b) = map (\<lambda>k. Names b ! ps_name (PublicSymbols b ! k)) [0..<?n]"
    by (intro nth_equalityI) (simp_all add: publics_def public_desc_def)
  have f: "fold (\<lambda>k. g (Names b ! ps_name (PublicSymbols b ! k))) [0..<?n] c = fold g (map fst (publics b)) c"
    unfolding names by (simp add: fold_map comp_def)
  obtain p z w where h: "hdr_publicSymbols ?m = Some p" "unat p = pubs_off" "hdr_publicSymbolsSize ?m = Some z" "unat z = 12 * ?n"
    "hdr_names ?m = Some w" "unat w = names_off b"
    using header_fields(1,2,7) [OF assms(1)] by blast
  show ?thesis
  proof (cases "PublicSymbols b = []")
    case True
    then show ?thesis using file_has_publics [OF assms(1)] by (simp add: EnumPublics_def publics_def)
  next
    case False
    then show ?thesis using file_has_publics [OF assms(1)] h e f by (simp add: EnumPublics_def)
  qed
qed

text \<open>A symbol completes a word when it contains it, regardless of case, and has no space.\<close>

definition completes :: "byte list \<Rightarrow> byte list \<Rightarrow> bool" where
  "completes t nm \<longleftrightarrow> 0x20 \<notin> set nm \<and> (\<exists>i. occurs_at nm t i)"

definition count_item :: "byte list \<Rightarrow> int \<Rightarrow> byte list \<Rightarrow> byte list \<times> int \<Rightarrow> byte list \<times> int" where
  "count_item t index nm = (\<lambda>(r, n). if completes t nm then (if index = n then nm else r, LONG (n + 1)) else (r, n))"

lemma tab_callback_item:
  assumes "cstr p nm" "0 \<notin> set t" "length t < 2 ^ 32"
  shows "tab_callback t index c p a l = Some (count_item t index nm c, True)"
proof -
  obtain r where r: "stristr p (t @ [0]) = Some r" "first_occurrence nm t r"
    using stristr_spec [OF assms(1) cstr_terminated [OF assms(2)] assms(3)] by blast
  have "r = None \<longleftrightarrow> \<not> (\<exists>i. occurs_at nm t i)" using r(2) by (cases r) (auto simp: first_occurrence_def)
  then show ?thesis
    using r(1) strlen_cstr [OF assms(1)] take_cstr [OF assms(1)]
    by (cases c; cases r) (auto simp: tab_callback_def count_item_def completes_def)
qed

lemma count_items:
  assumes "0 \<le> n" "n + int (length (filter (completes t) ns)) < 2 ^ 31"
  shows "fold (count_item t index) ns (r, n) =
    (if n \<le> index \<and> index < n + int (length (filter (completes t) ns)) then filter (completes t) ns ! nat (index - n) else r,
     n + int (length (filter (completes t) ns)))"
  using assms
proof (induction ns arbitrary: r n)
  case (Cons nm ns)
  show ?case
  proof (cases "completes t nm")
    case True
    then have n: "LONG (n + 1) = n + 1" using Cons.prems by (intro conversions) (simp add: small_def)
    have "nat (index - n) = Suc (nat (index - (n + 1)))" if "n + 1 \<le> index" using that by simp
    then show ?thesis using True n Cons.IH [of "n + 1"] Cons.prems by (auto simp: count_item_def)
  next
    case False
    then show ?thesis using Cons by (simp add: count_item_def)
  qed
qed auto

definition symbol_names :: "byte list \<Rightarrow> bcs option list \<Rightarrow> byte list list" where
  "symbol_names t fs = filter (completes t) (concat (map (\<lambda>f. case f of None \<Rightarrow> [] | Some b \<Rightarrow> map fst (publics b)) fs))"

definition files_ok :: "bcs option list \<Rightarrow> bool" where
  "files_ok fs \<longleftrightarrow> (\<forall>b. Some b \<in> set fs \<longrightarrow> readable b)"

lemma tab_symbols_fold:
  assumes "files_ok fs" "0 \<notin> set t" "length t < 2 ^ 32"
  shows "tab_symbols (map (map_option file_bytes) fs) t index c =
    Some (fold (count_item t index) (concat (map (\<lambda>f. case f of None \<Rightarrow> [] | Some b \<Rightarrow> map fst (publics b)) fs)) c)"
  using assms(1)
proof (induction fs arbitrary: c)
  case (Cons f fs)
  have fs: "files_ok fs" using Cons.prems by (simp add: files_ok_def)
  show ?case
  proof (cases f)
    case None
    then show ?thesis using Cons.IH [OF fs] by (simp add: GetHeader_def IsValid_def EnumPublics_def has_publics_def IsBcsValid_def)
  next
    case (Some b)
    then have b: "readable b" using Cons.prems by (simp add: files_ok_def)
    then have "GetHeader (Some (file_bytes b)) = Some (Some (file_bytes b))"
      using file_valid [of b] by (simp add: GetHeader_def IsValid_def readable_def)
    then show ?thesis
      using Some Cons.IH [OF fs] EnumPublics_file [OF b tab_callback_item [OF _ assms(2,3)]] by simp
  qed
qed simp


text \<open>What a word before the cursor can be completed to, in the order of the tab key.\<close>

definition tab_items :: "byte list \<Rightarrow> ui \<Rightarrow> u16 list \<Rightarrow> bcs option list \<Rightarrow> byte list list" where
  "tab_items t u buf fs =
     map (\<lambda>m. [0x30, 0x78] @ digits_at (nat (WndWidth u)) buf m) (pattern_matches t u buf) @ symbol_names t fs"

lemma tab_items_same:
  "same_text a b \<Longrightarrow> WndWidth u = WndWidth v \<Longrightarrow> WndHeight u = WndHeight v \<Longrightarrow> tab_items t u a fs = tab_items t v b fs"
proof -
  assume a: "same_text a b" "WndWidth u = WndWidth v" "WndHeight u = WndHeight v"
  have "pattern_matches t u b = pattern_matches t v b" unfolding pattern_matches_def screen_matches_def a(2,3) by simp
  then show ?thesis using same_text_matches [OF a(1)] a(2) by (simp add: tab_items_def)
qed

lemma tab_item_found:
  assumes "screen_fits u buf" "files_ok fs" "0 \<notin> set t" "length t < 2 ^ 32" "int (length (tab_items t u buf fs)) < 2 ^ 31"
    "0 \<le> index" "index < int (length (tab_items t u buf fs))"
  shows "\<exists>r n buf'. HighlightHexNumber t index u buf = Some (r, n, buf') \<and> same_text buf' buf \<and> length buf' = length buf \<and>
    tab_symbols (map (map_option file_bytes) fs) t index (r, n) =
      Some (tab_items t u buf fs ! nat index, int (length (tab_items t u buf fs)))"
proof -
  let ?ms = "pattern_matches t u buf" and ?ns = "symbol_names t fs" and ?w = "nat (WndWidth u)"
  let ?r = "if ?ms = [] then [] else [0x30, 0x78] @ (if 0 \<le> index \<and> index < int (length ?ms) then digits_at ?w buf (?ms ! nat index) else [])"
  obtain buf' where h: "HighlightHexNumber t index u buf = Some (?r, LONG (int (length ?ms)), buf')" "same_text buf' buf" "length buf' = length buf"
    using HighlightHexNumber_value [OF assms(1), of t index] by blast
  have len: "length (tab_items t u buf fs) = length ?ms + length ?ns" by (simp add: tab_items_def)
  then have n: "LONG (int (length ?ms)) = int (length ?ms)" using assms(5) by (intro conversions) (simp add: small_def)
  have "tab_symbols (map (map_option file_bytes) fs) t index (?r, int (length ?ms)) =
      Some (if int (length ?ms) \<le> index \<and> index < int (length ?ms) + int (length ?ns) then ?ns ! nat (index - int (length ?ms)) else ?r,
        int (length ?ms) + int (length ?ns))"
    using tab_symbols_fold [OF assms(2-4)] count_items [of "int (length ?ms)" t _ index ?r] assms(5) len
    by (simp add: symbol_names_def)
  moreover have "(if int (length ?ms) \<le> index \<and> index < int (length ?ms) + int (length ?ns) then ?ns ! nat (index - int (length ?ms)) else ?r) =
      tab_items t u buf fs ! nat index"
    using assms(6,7) len by (auto simp: tab_items_def nth_append nat_diff_distrib)
  ultimately show ?thesis using h n len by simp
qed

lemma tab_replace_ok:
  assumes "line_ok cmds cs n (u, l)" "0 \<le> offset l" "int p = CursorX u - 2 + offset l" "p \<le> length (line_text l)"
    "p0 + k = p" "k \<le> length r" "int (length (line_text l) + length r + n) < 2 ^ 30" "0 \<notin> set r"
  shows "\<exists>u' l'. tab_replace p0 k r (u, l) = Some (u', l') \<and> input_inv cmds cs n (u', l') \<and>
    line_of (u', l') = (take p0 (line_text l) @ r @ drop p (line_text l), p0 + length r, historyPos l) \<and>
    WndWidth u' = WndWidth u \<and> WndHeight u' = WndHeight u \<and> CursorY u' = CursorY u \<and>
    (\<exists>T z. l' = l\<lparr>line_text := T, offset := z\<rparr>)"
proof -
  let ?T = "take p0 (line_text l) @ r @ drop p (line_text l)"
  have c: "cursor_ok u" and w: "WndWidth u \<le> 16384" using assms(1) cursor_ok_width [of u] by (auto simp: line_ok_def)
  have T: "insert_str (int p0) r (erase_str (int p0) k (line_text l)) = ?T"
    using assms(4,5) by (simp add: insert_str_def erase_str_def add.commute)
  define x where "x = CursorX u + int (length r - k)"
  define x' where "x' = (if x > WndWidth u - 2 then WndWidth u - 2 else x)"
  define z where "z = (if x > WndWidth u - 2 then offset l + (x - (WndWidth u - 2)) else offset l)"
  have sm: "small x" "small (WndWidth u - 2)" "small z"
    using c w assms(2,3,4,7) by (auto simp: small_def x_def z_def cursor_ok_def)
  have xz: "x' - 2 + z = int (p0 + length r)" "2 \<le> x'" "x' \<le> WndWidth u - 2" "0 \<le> z"
    using assms(2,3,5,6) c by (auto simp: x'_def z_def x_def cursor_ok_def)
  have e: "tab_replace p0 k r (u, l) = cursor_to x' (u, l\<lparr>line_text := ?T, offset := z\<rparr>)"
    using sm conversions [OF sm(1)] conversions [OF sm(2)] conversions [OF sm(3)]
    by (cases "x > WndWidth u - 2") (simp_all add: tab_replace_def T Let_def x'_def z_def flip: x_def)
  obtain u' where u': "cursor_to x' (u, l\<lparr>line_text := ?T, offset := z\<rparr>) = Some (u', l\<lparr>line_text := ?T, offset := z\<rparr>)"
    "CursorX u' = x'" "cursor_ok u'" "WndWidth u' = WndWidth u \<and> WndHeight u' = WndHeight u \<and> CursorY u' = CursorY u"
    using cursor_to_ok [OF c xz(2,3)] by blast
  have "input_inv cmds cs n (u', l\<lparr>line_text := ?T, offset := z\<rparr>)"
    using assms(1,4,5,7,8) u'(2,3) xz by (auto simp: input_inv_def line_ok_def dest: in_set_takeD in_set_dropD)
  moreover have "line_of (u', l\<lparr>line_text := ?T, offset := z\<rparr>) = (?T, p0 + length r, historyPos l)"
    using xz(1) u'(2) by (simp add: line_of_def)
  ultimately show ?thesis using e u'(1,4) by (intro exI [of _ u'] exI [of _ "l\<lparr>line_text := ?T, offset := z\<rparr>"]) auto
qed


lemma tab_item_facts:
  assumes "screen_fits u buf" "files_ok fs" "it \<in> set (tab_items t u buf fs)"
  shows "length t \<le> length it \<and> 0 \<notin> set it"
proof -
  consider m where "m \<in> set (pattern_matches t u buf)" "it = [0x30, 0x78] @ digits_at (nat (WndWidth u)) buf m"
    | b x where "Some b \<in> set fs" "(it, x) \<in> set (publics b)" "completes t it"
    using assms(3) by (auto simp: tab_items_def symbol_names_def split: option.splits)
  then show ?thesis
  proof cases
    case (1 m)
    obtain y a b where m: "m = (y, a, b)" by (cases m)
    let ?r = "screen_row buf (nat (WndWidth u)) y"
    have n: "(y, a, b) \<in> screen_numbers (map upper_hex t) u buf" using 1(1) m pattern_matches_numbers [OF assms(1)] by blast
    then have w: "whole_number ?r a b" "length t < b + 1 - a" by (auto simp: screen_numbers_def found_def)
    have row: "length ?r = nat (WndWidth u)" using length_screen_row [OF assms(1) match_bounds(1) [OF assms(1) n]] .
    have "b + 1 - a \<le> nat (WndWidth u) - a" using w(1) row by (intro diff_le_mono) (simp add: whole_number_def)
    then have "length (digits_at (nat (WndWidth u)) buf m) = b + 1 - a" using row by (simp add: digits_at_def m min_absorb2)
    moreover have "IsHex c" if "c \<in> set (digits_at (nat (WndWidth u)) buf m)" for c
      using that w(1) by (auto simp: digits_at_def m in_set_conv_nth whole_number_def)
    ultimately show ?thesis using 1(2) w(2) IsHex_nonzero(1) by auto
  next
    case (2 b x)
    then obtain s where s: "s \<in> set (PublicSymbols b)" "it = Names b ! ps_name s" by (auto simp: publics_def public_desc_def)
    then have "it \<in> set (Names b)" "0 \<notin> set it" using 2(1) assms(2) by (auto simp: files_ok_def readable_def indices_ok_def)
    then show ?thesis using 2(3) by (auto simp: completes_def occurs_at_def)
  qed
qed

definition at_word :: "byte list \<Rightarrow> nat \<Rightarrow> nat \<Rightarrow> bool" where
  "at_word T p p0 \<longleftrightarrow> p0 < p \<and> p \<le> length T \<and> p0 = word_start T p \<and> (p = length T \<or> T ! p = 0x20)"

definition word_at :: "byte list \<Rightarrow> nat \<Rightarrow> nat \<Rightarrow> byte list" where
  "word_at T p p0 = take (p - p0) (drop p0 T)"

definition completed :: "byte list \<Rightarrow> nat \<Rightarrow> nat \<Rightarrow> byte list \<Rightarrow> byte list" where
  "completed T p p0 it = take p0 T @ it @ drop p T"

lemma Tab_end_ok:
  assumes "line_ok cmds cs n (u, l)" "0 \<le> offset l" "int p = CursorX u - 2 + offset l" "at_word (line_text l) p p0"
    "screen_fits u buf" "files_ok fs"
  defines "t \<equiv> word_at (line_text l) p p0"
  defines "items \<equiv> tab_items t u buf fs"
  assumes "int (length items) < 2 ^ 31" "0 \<le> tab_index l" "tab_index l < int (length items)"
    "\<forall>it \<in> set items. int (length (line_text l) + length it + n) < 2 ^ 30"
  defines "it \<equiv> items ! nat (tab_index l)"
  shows "\<exists>u' l' buf'. Tab_end cmds (map (map_option file_bytes) fs) buf (u, l) = Some ((u', l'), buf') \<and>
    input_inv cmds cs n (u', l') \<and> line_of (u', l') = (completed (line_text l) p p0 it, p0 + length it, historyPos l) \<and>
    WndWidth u' = WndWidth u \<and> WndHeight u' = WndHeight u \<and> same_text buf' buf \<and> length buf' = length buf \<and>
    tab_text l' = tab_text l \<and> tab_offset l' = tab_offset l \<and> tab_CursorX l' = tab_CursorX l \<and> tab_index l' = tab_index l \<and>
    tab_numOfItems l' = int (length items)"
proof -
  let ?T = "line_text l"
  have w: "p0 < p" "p \<le> length ?T" "p0 = word_start ?T p" "p = length ?T \<or> ?T ! p = 0x20" using assms(4) by (auto simp: at_word_def)
  have T: "length ?T < 2 ^ 30" "0 \<notin> set ?T" using assms(1) by (auto simp: line_ok_def)
  have t: "length t = p - p0" "0 \<notin> set t" "length t < 2 ^ 32"
    using w T by (auto simp: t_def word_at_def dest: in_set_takeD in_set_dropD)
  have sm: "small (int p)" using w(2) T(1) by (simp add: small_def)
  have pos: "line_pos (u, l) = int p" "SIZE_T (int p) = int p"
    using conversions [OF sm] assms(3) by (simp_all add: line_pos_def)
  obtain r k buf' where f: "HighlightHexNumber t (tab_index l) u buf = Some (r, k, buf')" "same_text buf' buf" "length buf' = length buf"
    "tab_symbols (map (map_option file_bytes) fs) t (tab_index l) (r, k) = Some (it, int (length items))"
    using tab_item_found [OF assms(5,6) t(2,3), of "tab_index l"] assms(9,10,11) by (auto simp: items_def it_def)
  have "it \<in> set items" using assms(10,11) by (simp add: it_def)
  then have it: "length t \<le> length it" "0 \<notin> set it" "int (length ?T + length it + n) < 2 ^ 30"
    using tab_item_facts [OF assms(5,6)] assms(12) by (auto simp: items_def)
  let ?l = "l\<lparr>tab_numOfItems := int (length items)\<rparr>"
  have "line_ok cmds cs n (u, ?l)" using assms(1) by (simp add: line_ok_def)
  then obtain u' l' where rp: "tab_replace p0 (p - p0) it (u, ?l) = Some (u', l')" "input_inv cmds cs n (u', l')"
    "line_of (u', l') = (completed ?T p p0 it, p0 + length it, historyPos l)" "WndWidth u' = WndWidth u" "WndHeight u' = WndHeight u"
    "\<exists>T z. l' = ?l\<lparr>line_text := T, offset := z\<rparr>"
    using tab_replace_ok [of cmds cs n u ?l p p0 "p - p0" it] assms(2,3) w it t(1) by (auto simp: completed_def)
  obtain h where h: "help_text cmds (line_text l') = Some h"
    using help_text_total [of cmds "line_text l'"] rp(2) by (auto simp: input_inv_def line_ok_def)
  have "Tab_end cmds (map (map_option file_bytes) fs) buf (u, l) = Some ((u', l'\<lparr>helpText := h\<rparr>), buf')"
  proof -
    have g: "?T \<noteq> []" "p \<noteq> 0" "\<not> length ?T < p" "\<not> (p < length ?T \<and> ?T ! p \<noteq> 0x20)" using w by auto
    have t': "take (p - p0) (drop p0 ?T) = t" "length t \<noteq> 0" "\<not> length it < length t" using t(1) w(1) it(1) by (auto simp: t_def word_at_def)
    have F: "Option.bind (tab_replace p0 (p - p0) it (u, ?l)) (Finalize cmds False) = Some (u', l'\<lparr>helpText := h\<rparr>)"
      using rp(1) h by (simp add: Finalize_def)
    show ?thesis using g t' f(1,4) F w(1,2) by (auto simp: Tab_end_def Let_def pos simp flip: w(3))
  qed
  moreover have "input_inv cmds cs n (u', l'\<lparr>helpText := h\<rparr>)" "line_of (u', l'\<lparr>helpText := h\<rparr>) = line_of (u', l')"
    using rp(2) by (simp_all add: input_inv_def line_ok_def line_of_def)
  ultimately show ?thesis using rp f(2,3) by auto
qed


fun tab_step :: "cmd list \<Rightarrow> bcs option list \<Rightarrow> bool \<Rightarrow> input_state \<times> u16 list \<Rightarrow> (input_state \<times> u16 list) option" where
  "tab_step cmds fs modifier (s, buf) = Tab cmds (map (map_option file_bytes) fs) modifier buf s"

text \<open>
  A line to be completed: its text and cursor, with the word before the cursor, and room for every
  completion on the screen and in the symbol files.
\<close>

definition tab_setting :: "cmd list \<Rightarrow> bcs option list \<Rightarrow> ui \<Rightarrow> u16 list \<Rightarrow> byte list \<Rightarrow> nat \<Rightarrow> nat \<Rightarrow> bool" where
  "tab_setting cmds fs v buf T p p0 \<longleftrightarrow>
     screen_fits v buf \<and> files_ok fs \<and> cmds_ok cmds \<and> at_word T p p0 \<and> 0 \<notin> set T \<and> int (length T) < 2 ^ 30 \<and>
     (let items = tab_items (word_at T p p0) v buf fs in
      items \<noteq> [] \<and> int (length items) < 2 ^ 31 \<and> (\<forall>it \<in> set items. int (length T + length it) < 2 ^ 30))"

definition tab_moves :: "int \<Rightarrow> bool \<Rightarrow> int \<Rightarrow> int" where
  "tab_moves N modifier i = (i + (if modifier then -1 else 1)) mod N"

definition tab_inv :: "cmd list \<Rightarrow> bcs option list \<Rightarrow> ui \<Rightarrow> u16 list \<Rightarrow> byte list \<Rightarrow> nat \<Rightarrow> nat \<Rightarrow> input_state \<times> u16 list \<Rightarrow> bool" where
  "tab_inv cmds fs v buf0 T p p0 = (\<lambda>((u, l), buf).
     tab_setting cmds fs v buf0 T p p0 \<and> input_inv cmds [] 0 (u, l) \<and> WndWidth u = WndWidth v \<and> WndHeight u = WndHeight v \<and>
     same_text buf buf0 \<and> length buf = length buf0 \<and>
     tab_text l = T \<and> 0 \<le> tab_offset l \<and> 2 \<le> tab_CursorX l \<and> tab_CursorX l \<le> WndWidth v - 2 \<and>
     int p = tab_CursorX l - 2 + tab_offset l \<and>
     (let items = tab_items (word_at T p p0) v buf0 fs in
      0 \<le> tab_index l \<and> tab_index l < int (length items) \<and> tab_numOfItems l = int (length items) \<and>
      line_text l = completed T p p0 (items ! nat (tab_index l)) \<and>
      int (p0 + length (items ! nat (tab_index l))) = CursorX u - 2 + offset l))"

text \<open>The second half of the operation, for a restored or saved line.\<close>

lemma Tab_end_inv:
  assumes "tab_setting cmds fs v buf0 T p p0" "same_text buf buf0" "length buf = length buf0"
    "cursor_ok u" "WndWidth u = WndWidth v" "WndHeight u = WndHeight v" "-1 \<le> historyPos l" "historyPos l < 2 ^ 30"
    "line_text l = T" "tab_text l = T" "tab_offset l = offset l" "tab_CursorX l = CursorX u" "0 \<le> offset l"
    "int p = CursorX u - 2 + offset l"
    "0 \<le> tab_index l" "tab_index l < int (length (tab_items (word_at T p p0) v buf0 fs))"
  shows "\<exists>s' buf'. Tab_end cmds (map (map_option file_bytes) fs) buf (u, l) = Some (s', buf') \<and>
    tab_inv cmds fs v buf0 T p p0 (s', buf') \<and> tab_index (snd s') = tab_index l"
proof -
  let ?items = "tab_items (word_at T p p0) v buf0 fs"
  have set: "screen_fits v buf0" "files_ok fs" "cmds_ok cmds" "at_word T p p0" "0 \<notin> set T" "int (length T) < 2 ^ 30"
    "int (length ?items) < 2 ^ 31" "\<forall>it \<in> set ?items. int (length T + length it) < 2 ^ 30"
    using assms(1) by (auto simp: tab_setting_def Let_def)
  have items: "tab_items (word_at T p p0) u buf fs = ?items" using tab_items_same [OF assms(2,5,6)] .
  have fits: "screen_fits u buf" using set(1) assms(3,5,6) by (simp add: screen_fits_def)
  have ok: "line_ok cmds [] 0 (u, l)" using set(3,5,6) assms(4,7-9) by (simp add: line_ok_def log_ok_def)
  have "at_word (line_text l) p p0" using set(4) assms(9) by simp
  from Tab_end_ok [OF ok assms(13,14) this fits set(2)] obtain u' l' buf' where r:
    "Tab_end cmds (map (map_option file_bytes) fs) buf (u, l) = Some ((u', l'), buf')" "input_inv cmds [] 0 (u', l')"
    "line_of (u', l') = (completed T p p0 (?items ! nat (tab_index l)), p0 + length (?items ! nat (tab_index l)), historyPos l)"
    "WndWidth u' = WndWidth u" "WndHeight u' = WndHeight u" "same_text buf' buf" "length buf' = length buf"
    "tab_text l' = tab_text l" "tab_offset l' = tab_offset l" "tab_CursorX l' = tab_CursorX l" "tab_index l' = tab_index l"
    "tab_numOfItems l' = int (length ?items)"
    using set(7,8) assms(9,15,16) items by auto
  moreover have "0 \<le> CursorX u' - 2 + offset l'" using r(2) by (auto simp: input_inv_def line_ok_def cursor_ok_def)
  ultimately have "tab_inv cmds fs v buf0 T p p0 ((u', l'), buf')"
    using assms by (auto simp: tab_inv_def Let_def same_text_def line_of_def cursor_ok_def)
  with r(1,11) show ?thesis by auto
qed

lemma tab_step_ok:
  assumes "tab_inv cmds fs v buf0 T p p0 x"
  defines "N \<equiv> int (length (tab_items (word_at T p p0) v buf0 fs))"
  shows "\<exists>x'. tab_step cmds fs modifier x = Some x' \<and> tab_inv cmds fs v buf0 T p p0 x' \<and>
    tab_index (snd (fst x')) = tab_moves N modifier (tab_index (snd (fst x)))"
proof -
  obtain u l buf where x: "x = ((u, l), buf)" by (metis surj_pair)
  have inv: "tab_setting cmds fs v buf0 T p p0" "input_inv cmds [] 0 (u, l)" "WndWidth u = WndWidth v" "WndHeight u = WndHeight v"
    "same_text buf buf0" "length buf = length buf0" "tab_text l = T" "0 \<le> tab_offset l" "2 \<le> tab_CursorX l"
    "tab_CursorX l \<le> WndWidth v - 2" "int p = tab_CursorX l - 2 + tab_offset l" "0 \<le> tab_index l" "tab_index l < N" "tab_numOfItems l = N"
    using assms(1) by (auto simp: tab_inv_def x Let_def N_def)
  have N: "0 < N" "N < 2 ^ 31" "T \<noteq> []"
    using inv(1) by (auto simp: tab_setting_def Let_def N_def at_word_def)
  let ?l = "l\<lparr>line_text := T, offset := tab_offset l\<rparr>"
  have c: "cursor_ok u" "-1 \<le> historyPos l" "historyPos l < 2 ^ 30" using inv(2) by (auto simp: input_inv_def line_ok_def)
  obtain u' where u': "cursor_to (tab_CursorX l) (u, ?l) = Some (u', ?l)" "CursorX u' = tab_CursorX l" "cursor_ok u'"
    "WndWidth u' = WndWidth u" "WndHeight u' = WndHeight u"
    using cursor_to_ok [OF c(1), of "tab_CursorX l" ?l] inv(3,9,10) by auto
  define i where "i = tab_moves N modifier (tab_index l)"
  have i: "0 \<le> i" "i < N" using N(1) by (simp_all add: i_def tab_moves_def)
  let ?l' = "?l\<lparr>tab_index := i\<rparr>"
  have "LONG (tab_index l + 1) = tab_index l + 1" "LONG (tab_index l - 1) = tab_index l - 1"
    using inv(12,13) N(2) by (auto intro!: LONG_small)
  moreover have "LONG (N - 1) = N - 1" using N by (intro LONG_small) auto
  moreover have "(tab_index l + 1) mod N = (if tab_index l + 1 \<ge> N then 0 else tab_index l + 1)"
    using inv(12,13) by (cases "tab_index l + 1 = N") auto
  moreover have "(tab_index l - 1) mod N = (if tab_index l - 1 < 0 then N - 1 else tab_index l - 1)"
  proof (cases "tab_index l = 0")
    case True
    then show ?thesis using N(1) by (simp add: zmod_minus1)
  qed (use inv(12,13) in auto)
  ultimately have b: "Tab_begin modifier (u, l) = Some (Some (u', ?l'))"
    using inv(7,12,13,14) N u'(1) by (cases modifier) (simp_all add: Tab_begin_def Let_def i_def tab_moves_def)
  obtain s' buf' where e: "Tab_end cmds (map (map_option file_bytes) fs) buf (u', ?l') = Some (s', buf')"
    "tab_inv cmds fs v buf0 T p p0 (s', buf')" "tab_index (snd s') = i"
    using Tab_end_inv [OF inv(1,5,6) u'(3), of ?l'] c(2,3) u' inv i by (auto simp: N_def)
  show ?thesis using b e by (simp add: x Tab_def i_def)
qed

interpretation completion: session "tab_step cmds fs" "tab_moves (int (length (tab_items (word_at T p p0) v buf0 fs)))"
  "\<lambda>x. tab_index (snd (fst x))" "\<lambda>n. tab_inv cmds fs v buf0 T p p0" "\<lambda>k. True" for cmds fs T p p0 v buf0
  by unfold_locales (rule tab_step_ok)


section \<open>Entering commands\<close>

lemma set_trim: "set (trim t) \<subseteq> set t" "length (trim t) \<le> length t"
proof -
  have "set (trim t) \<subseteq> set (ltrim t)" "length (trim t) \<le> length (ltrim t)"
    by (auto simp: trim_def dest: set_dropWhileD intro: order_trans [OF length_dropWhile_le])
  then show "set (trim t) \<subseteq> set t" "length (trim t) \<le> length t" using set_ltrim [of t] by auto
qed

text \<open>Room in the log: no measured step takes more than \<open>B\<close>, and two more fit.\<close>

definition log_room :: "measured \<Rightarrow> int \<Rightarrow> log_window \<Rightarrow> bool" where
  "log_room m B w \<longleftrightarrow> 0 \<le> B \<and> (\<forall>cs cs'. added_size m cs cs' \<le> B) \<and> allocSize w + 2 * B \<le> LOG_WINDOW_CONTENTS_MAX_SIZE"

lemma AddString_room:
  assumes "allocSize w + B \<le> LOG_WINDOW_CONTENTS_MAX_SIZE" "\<forall>cs cs'. added_size m cs cs' \<le> B" "s \<noteq> []"
  shows "\<exists>w'. AddString m s False w = Some w' \<and> contents w' = (if newLine w then contents w else pop_blank (contents w)) @ [s] \<and>
    newLine w' \<and> allocSize w' \<le> allocSize w + B"
proof -
  let ?cs = "(if newLine w then contents w else pop_blank (contents w)) @ [s]"
  let ?a = "allocSize w + added_size m (contents w) ?cs"
  have c: "AddString_contents s False (newLine w, contents w) = Some (True, ?cs)"
    using assms(3) by (simp add: AddString_contents_def)
  have a: "?a \<le> allocSize w + B" "?a \<le> LOG_WINDOW_CONTENTS_MAX_SIZE" using assms(1) assms(2) [rule_format, of "contents w" ?cs] by linarith+
  have e: "evict m ?a ?cs = (?a, ?cs)"
    using evict_suffix [of ?cs m ?a] a(2) by (cases "evict m ?a ?cs") auto
  have "AddString m s False w = Some (GoToEnd (w\<lparr>newLine := True, contents := ?cs, allocSize := ?a\<rparr>))"
    unfolding AddString_def c by (simp add: e)
  then show ?thesis using a(1) by (simp add: GoToEnd_def)
qed

lemma Unrecognized_line: "Unrecognized \<noteq> []" "\<not> is_user_cmd Unrecognized"
  by (simp_all add: Unrecognized_def is_user_cmd_def)

lemma Enter_log_room:
  assumes "log_room m B w" "cmds_ok cmds" "0 \<notin> set t" "t \<noteq> []"
  defines "base \<equiv> (if newLine w then contents w else pop_blank (contents w))"
  defines "cmd \<equiv> find (\<lambda>c. lower (first_word t) = lower (GetId c)) cmds"
  shows "\<exists>w'. Enter_log m cmds t w = Some (cmd, w') \<and>
    contents w' = base @ [[0x0D, 0x3A] @ t] @ (if cmd = None then [Unrecognized] else [])"
proof -
  have B: "\<forall>cs cs'. added_size m cs cs' \<le> B" "allocSize w + B \<le> LOG_WINDOW_CONTENTS_MAX_SIZE"
    using assms(1) by (auto simp: log_room_def)
  obtain w1 where w1: "AddUserCmd m t w = Some w1" "contents w1 = base @ [[0x0D, 0x3A] @ t]" "newLine w1" "allocSize w1 \<le> allocSize w + B"
    using AddString_room [OF B(2,1), of "[0x0D, 0x3A] @ t"] by (auto simp: AddUserCmd_def base_def)
  have f: "find_cmd cmds (first_word t) = Some cmd"
    using find_cmd_spec [OF assms(2), of "first_word t"] set_first_word [of t] assms(3) by (auto simp: cmd_def)
  have "allocSize w1 + B \<le> LOG_WINDOW_CONTENTS_MAX_SIZE" using w1(4) assms(1) by (simp add: log_room_def)
  from AddString_room [OF this B(1) Unrecognized_line(1)] obtain w2 where w2:
    "AddString m Unrecognized False w1 = Some w2" "contents w2 = contents w1 @ [Unrecognized]" using w1(3) by auto
  show ?thesis using w1 w2 f assms(4) by (cases cmd) (simp_all add: Enter_log_def)
qed

lemma prev_cmd_append: "prev_cmd (cs @ ds) i = prev_cmd cs i" if "i \<le> length cs"
  using that by (induction cs i rule: prev_cmd.induct) (auto simp: nth_append)

lemma prev_cmd_last:
  assumes "is_user_cmd l" "list_all (\<lambda>d. \<not> is_user_cmd d) ds"
  shows "prev_cmd (cs @ [l] @ ds) (length cs + 1 + length ds) = Some (length cs)"
  using assms(2)
proof (induction ds rule: rev_induct)
  case Nil
  then show ?case using assms(1) by simp
next
  case (snoc d ds)
  then have "prev_cmd (cs @ [l] @ ds) (length cs + 1 + length ds) = Some (length cs)" by simp
  then show ?case using snoc.prems prev_cmd_append [of "length cs + 1 + length ds" "cs @ [l] @ ds" "[d]"] by (simp add: nth_append)
qed


lemma Enter_reaches:
  assumes "input_inv cmds cs (Suc n) (u, l)" "Enter_log m cmds (trim (line_text l)) w = Some (c, w')" "log_ok n (contents w')"
  shows "\<exists>s'. Enter m cmds (u, l) w = Some ((trim (line_text l), c), s', w') \<and> input_inv cmds (contents w') n s' \<and> line_of s' = ([], 0, -1)"
proof -
  let ?l = "l\<lparr>line_text := [], offset := 0, historyPos := -1\<rparr>"
  have c: "cursor_ok u" "cmds_ok cmds" using assms(1) by (auto simp: input_inv_def line_ok_def)
  obtain u' where u': "cursor_to 2 (u, ?l) = Some (u', ?l)" "CursorX u' = 2" "cursor_ok u'"
    using cursor_to_ok [OF c(1), of 2 ?l] c(1) by (auto simp: cursor_ok_def)
  have n: "int n < 2 ^ 30" using assms(1) by (auto simp: input_inv_def line_ok_def)
  have "reaches cmds (contents w') n ([], 0, -1) (cursor_to 2 (u, ?l))"
    using u' c assms(3) n by (auto simp: reaches_def input_inv_def line_ok_def line_of_def)
  from reaches_Finalize [OF this, of True] obtain s' where
    "Option.bind (cursor_to 2 (u, ?l)) (Finalize cmds True) = Some s'" "input_inv cmds (contents w') n s'" "line_of s' = ([], 0, -1)"
    by (auto simp: reaches_def)
  then show ?thesis using assms(2) by (simp add: Enter_def Let_def)
qed

lemma pop_blank_subset: "set (pop_blank ls) \<subseteq> set ls" "length (pop_blank ls) \<le> length ls"
  by (induction ls rule: rev_induct) (auto simp: pop_blank_snoc)

lemma Enter_log_ok:
  assumes "log_ok (n + 2) (contents w)" "int (length (contents w)) + 2 < 2 ^ 30" "0 \<notin> set t" "int (length t + n + 2) < 2 ^ 30" "int n < 2 ^ 29 + 1"
    "contents w' = (if newLine w then contents w else pop_blank (contents w)) @ [[0x0D, 0x3A] @ t] @ (if b then [Unrecognized] else [])"
  shows "log_ok n (contents w')"
proof -
  have "0 \<notin> set Unrecognized" "length Unrecognized = 21" by (simp_all add: Unrecognized_def)
  moreover have "\<forall>l \<in> set (pop_blank (contents w)). 0 \<notin> set l \<and> int (length l + n) < 2 ^ 30" "length (pop_blank (contents w)) \<le> length (contents w)"
    using assms(1) pop_blank_subset [of "contents w"] by (fastforce simp: log_ok_def)+
  ultimately show ?thesis using assms by (auto simp: log_ok_def)
qed

section \<open>Properties\<close>

text \<open>
  C6: The input line is a line editor. From a line with the cursor in it, every sequence of keys with
  nonzero characters ends without a write outside the screen buffer, and the line then has the text,
  the position and the recalled command that the same keys give on a plain line, whatever scrolling
  they went through. The up and down keys recall the commands that were entered, from the log.
\<close>

theorem input_line_session:
  assumes "input_inv cmds cs (length ks) s" "list_all typed ks"
  shows "\<exists>s'. run_steps (input_step cmds cs) ks s = Some s' \<and> input_inv cmds cs 0 s' \<and> line_of s' = fold (line_step cs) ks (line_of s)"
  using input.run [of ks cmds cs 0 s] assms by simp

text \<open>
  C8: A command that was entered can be recalled: entering a text that is not blank returns it without
  the blanks around it together with the command of that name, or none, empties the line, and, as long
  as there is room in the log, the up key then brings the text back, with the cursor at its end.
\<close>

theorem enter_then_recall:
  assumes "input_inv cmds (contents w) (n + 3) (u, l)" "log_room m B w" "int (length (contents w)) + 2 < 2 ^ 30" "int n < 2 ^ 29"
  defines "t \<equiv> trim (line_text l)"
  assumes "t \<noteq> []"
  shows "\<exists>s' w' s''. Enter m cmds (u, l) w = Some ((t, find (\<lambda>c. lower (first_word t) = lower (GetId c)) cmds), s', w') \<and>
    line_of s' = ([], 0, -1) \<and> Up cmds (contents w') s' = Some s'' \<and> line_text (snd s'') = t \<and>
    line_of s'' = (t, length t, historyPos (snd s''))"
proof -
  let ?c = "find (\<lambda>c. lower (first_word t) = lower (GetId c)) cmds"
  let ?base = "if newLine w then contents w else pop_blank (contents w)"
  have inv: "cmds_ok cmds" "0 \<notin> set (line_text l)" "int (length (line_text l) + (n + 3)) < 2 ^ 30" "log_ok (n + 3) (contents w)"
    using assms(1) by (auto simp: input_inv_def line_ok_def)
  have t: "0 \<notin> set t" "length t \<le> length (line_text l)" using inv(2) set_trim [of "line_text l"] by (auto simp: t_def)
  obtain w' where w': "Enter_log m cmds t w = Some (?c, w')"
    "contents w' = ?base @ [[0x0D, 0x3A] @ t] @ (if ?c = None then [Unrecognized] else [])"
    using Enter_log_room [OF assms(2) inv(1) t(1) assms(6)] by blast
  have ok: "log_ok (n + 1) (contents w')"
  proof (rule Enter_log_ok [OF _ assms(3) t(1) _ _ w'(2)])
    show "log_ok (n + 1 + 2) (contents w)" using inv(4) by (simp add: numeral_3_eq_3)
    show "int (length t + (n + 1) + 2) < 2 ^ 30" using inv(3) t(2) by linarith
    show "int (n + 1) < 2 ^ 29 + 1" using assms(4) by linarith
  qed
  have "input_inv cmds (contents w) (Suc (n + 1)) (u, l)" using assms(1) by (auto simp: input_inv_def line_ok_def log_ok_def)
  from Enter_reaches [OF this w'(1) [unfolded t_def] ok] obtain s' where s':
    "Enter m cmds (u, l) w = Some ((t, ?c), s', w')" "input_inv cmds (contents w') (Suc n) s'" "line_of s' = ([], 0, -1)"
    by (auto simp: t_def)
  have "is_user_cmd ([0x0D, 0x3A] @ t)" using assms(6) by (cases t) (auto simp: is_user_cmd_def)
  then have "prev_cmd (contents w') (length (contents w')) = Some (length ?base)"
    using prev_cmd_last [of "[0x0D, 0x3A] @ t" "if ?c = None then [Unrecognized] else []" ?base] Unrecognized_line(2) w'(2) by simp
  moreover have "contents w' ! length ?base = [0x0D, 0x3A] @ t" using w'(2) by (simp add: nth_append)
  ultimately have "line_step (contents w') KUp (line_of s') = (t, length t, int (length ?base))"
    using s'(3) by (simp add: recalled_def)
  moreover have "reaches cmds (contents w') n (line_step (contents w') KUp (line_of s')) (Up cmds (contents w') s')"
    using line_Up_ok [of cmds "contents w'" n "fst s'" "snd s'"] s'(2) by simp
  ultimately obtain s'' where up: "Up cmds (contents w') s' = Some s''" "line_of s'' = (t, length t, int (length ?base))"
    unfolding reaches_def by metis
  then have "line_text (snd s'') = t" "historyPos (snd s'') = int (length ?base)" by (simp_all add: line_of_def split: prod.splits)
  then show ?thesis using up s'(1,3) by (cases s'') simp
qed

text \<open>
  C7: Completion reaches every item and only items. With the cursor behind a word that has completions
  on the screen or among the public symbols of the symbol files, the first press of the tab key
  replaces the word by the first of them, and every further press by the next one, or the previous one
  with a modifier key, in a circle; the rest of the line stays and the cursor is behind the completion.
\<close>

theorem Tab_cycles:
  assumes "tab_setting cmds fs u buf T p p0" "input_inv cmds [] 0 (u, l)" "tab_text l = []"
    "line_of (u, l) = (T, p, h)"
  defines "items \<equiv> tab_items (word_at T p p0) u buf fs"
  shows "\<exists>s' buf'. run_steps (tab_step cmds fs) (m # ms) ((u, l), buf) = Some (s', buf') \<and>
    (let it = items ! nat (fold (tab_moves (int (length items))) ms 0)
     in line_text (snd s') = completed T p p0 it \<and> CursorX (fst s') - 2 + offset (snd s') = int (p0 + length it))"
proof -
  let ?l = "l\<lparr>tab_text := line_text l, tab_offset := offset l, tab_CursorX := CursorX u, tab_index := 0, tab_numOfItems := 0\<rparr>"
  have inv: "cursor_ok u" "-1 \<le> historyPos l" "historyPos l < 2 ^ 30" "0 \<le> offset l" "line_text l = T" "int p = CursorX u - 2 + offset l"
    using assms(2,4) by (auto simp: input_inv_def line_ok_def line_of_def cursor_ok_def)
  have b: "Tab_begin m (u, l) = Some (Some (u, ?l))" using assms(3) by (simp add: Tab_begin_def)
  have "0 < int (length items)" using assms(1) by (auto simp: tab_setting_def Let_def items_def)
  then obtain s1 buf1 where e: "Tab_end cmds (map (map_option file_bytes) fs) buf (u, ?l) = Some (s1, buf1)"
    "tab_inv cmds fs u buf T p p0 (s1, buf1)" "tab_index (snd s1) = 0"
    using Tab_end_inv [OF assms(1), of buf u ?l] inv by (auto simp: same_text_def items_def)
  obtain x where x: "run_steps (tab_step cmds fs) ms (s1, buf1) = Some x" "tab_inv cmds fs u buf T p p0 x"
    "tab_index (snd (fst x)) = fold (tab_moves (int (length items))) ms 0"
    using completion.run [of ms cmds fs u buf T p p0 "(s1, buf1)"] e(2,3) by (auto simp: list_all_iff items_def)
  have "tab_step cmds fs m ((u, l), buf) = Some (s1, buf1)" using b e(1) by (simp add: Tab_def)
  moreover obtain s' buf' where "x = (s', buf')" by fastforce
  ultimately show ?thesis using x by (auto simp: tab_inv_def Let_def items_def split: prod.splits)
qed


section \<open>Witnesses\<close>

definition example_line :: input_line where
  "example_line = \<lparr>line_text = [], offset = 0, historyPos = -1, helpText = [], tab_text = [], tab_offset = 0, tab_CursorX = 0,
     tab_index = 0, tab_numOfItems = 0\<rparr>"

theorem input_line_session_witness:
  "\<exists>s'. run_steps (input_step [] [[0x0D, 0x3A, 0x72]]) [KChar 0x61, KChar 0x62, KLeft, KDel, KChar 0x63] (example_ui, example_line) = Some s' \<and>
     line_of s' = ([0x61, 0x63], 2, -1)"
proof -
  have "input_inv [] [[0x0D, 0x3A, 0x72]] (length [KChar 0x61, KChar 0x62, KLeft, KDel, KChar 0x63]) (example_ui, example_line)"
    by (simp add: input_inv_def line_ok_def cmds_ok_def log_ok_def cursor_ok_def example_ui_def example_line_def TextBuffersDim_def)
  from input_line_session [OF this] show ?thesis
    by (auto simp: typed_def line_of_def example_line_def example_ui_def)
qed

theorem enter_then_recall_witness:
  "\<exists>s' w' s''. Enter \<lparr>added_size = \<lambda>cs cs'. 1, erased_size = \<lambda>cs. 0\<rparr> [] (example_ui, example_line\<lparr>line_text := [0x20, 0x72]\<rparr>) example_log =
     Some (([0x72], None), s', w') \<and> Up [] (contents w') s' = Some s'' \<and> line_text (snd s'') = [0x72]"
proof -
  let ?l = "example_line\<lparr>line_text := [0x20, 0x72]\<rparr>"
  have "input_inv [] (contents example_log) (0 + 3) (example_ui, ?l)"
    by (simp add: input_inv_def line_ok_def cmds_ok_def log_ok_def cursor_ok_def example_ui_def example_line_def example_log_def TextBuffersDim_def)
  moreover have "log_room \<lparr>added_size = \<lambda>cs cs'. 1, erased_size = \<lambda>cs. 0\<rparr> 1 example_log"
    by (simp add: log_room_def example_log_def LOG_WINDOW_CONTENTS_MAX_SIZE_def)
  moreover have "int (length (contents example_log)) + 2 < 2 ^ 30" "int 0 < 2 ^ 29" by (simp_all add: example_log_def)
  moreover have "trim (line_text ?l) = [0x72]" by (simp add: trim_def ltrim_def is_blank_def)
  ultimately show ?thesis using enter_then_recall [of "[]" example_log 0 example_ui ?l _ 1] by fastforce
qed

definition example_tab_screen :: "u16 list" where
  "example_tab_screen = map (\<lambda>c. 0x0700 OR c) [0x20, 0x31, 0x32, 0x33, 0x41, 0x20, 0x20, 0x20] @ replicate 32 0x0720"

abbreviation "tab_ui \<equiv> example_ui\<lparr>CursorX := 4\<rparr>"

lemma example_items: "tab_items [0x33, 0x61] tab_ui example_tab_screen [] = [[0x30, 0x78, 0x31, 0x32, 0x33, 0x41]]"
proof -
  have "pattern_matches [0x33, 0x61] tab_ui example_tab_screen = [(0, 1, 4)]" by code_simp
  moreover have "digits_at 8 example_tab_screen (0, 1, 4) = [0x31, 0x32, 0x33, 0x41]" by code_simp
  moreover have "nat (WndWidth tab_ui) = 8" by (simp add: example_ui_def)
  ultimately show ?thesis by (simp add: tab_items_def symbol_names_def)
qed

theorem Tab_cycles_witness:
  "\<exists>s' buf'. run_steps (tab_step [] []) [False, True] ((tab_ui, example_line\<lparr>line_text := [0x33, 0x61]\<rparr>), example_tab_screen) =
     Some (s', buf') \<and> line_text (snd s') = [0x30, 0x78, 0x31, 0x32, 0x33, 0x41]"
proof -
  let ?l = "example_line\<lparr>line_text := [0x33, 0x61]\<rparr>"
  have w: "word_at [0x33, 0x61] 2 0 = [0x33, 0x61]" by (simp add: word_at_def)
  have "at_word [0x33, 0x61] 2 0" by (simp add: at_word_def word_start_def)
  moreover have "screen_fits tab_ui example_tab_screen" by (simp add: screen_fits_def example_ui_def example_tab_screen_def)
  ultimately have set: "tab_setting [] [] tab_ui example_tab_screen [0x33, 0x61] 2 0"
    by (simp add: tab_setting_def w example_items files_ok_def cmds_ok_def)
  have "input_inv [] [] 0 (tab_ui, ?l)" "tab_text ?l = []" "line_of (tab_ui, ?l) = ([0x33, 0x61], 2, -1)"
    by (simp_all add: input_inv_def line_ok_def cmds_ok_def log_ok_def cursor_ok_def line_of_def example_ui_def example_line_def TextBuffersDim_def)
  from Tab_cycles [OF set this, of False "[True]"] show ?thesis
    by (auto simp: w example_items tab_moves_def completed_def)
qed

end
