(* ===== verification/Cmd_Table.thy ===== *)
theory Cmd_Table
  imports InputLine_Correct
begin

text \<open>
  The commands of the debugger, as the classes of the \<open>Cmd_\<close> files name and describe them. They register
  themselves when the driver starts, in an order that the language leaves open, so that the list of
  commands is any list with these members.
\<close>

section \<open>The model\<close>

definition cmd_of :: "string \<Rightarrow> string \<Rightarrow> string \<Rightarrow> cmd" where
  "cmd_of i d y =
     \<lparr>GetId = map of_char i, GetDesc = map of_char d, GetSyntax = map of_char y\<rparr>"

definition Cmd_ADDR :: cmd where
  "Cmd_ADDR = cmd_of ''ADDR'' ''Switch to process context (returns control to OS).''
     ''ADDR eprocess''"

definition Cmd_BC :: cmd where
  "Cmd_BC = cmd_of ''BC'' ''Clear one or more breakpoints.''
     ''BC list|*''"

definition Cmd_BD :: cmd where
  "Cmd_BD = cmd_of ''BD'' ''Disable one or more breakpoints.''
     ''BD list|*''"

definition Cmd_BE :: cmd where
  "Cmd_BE = cmd_of ''BE'' ''Enable one or more breakpoints.''
     ''BE list|*''"

definition Cmd_BL :: cmd where
  "Cmd_BL = cmd_of ''BL'' ''List all breakpoints.''
     ''BL (no parameters)''"

definition Cmd_BPX :: cmd where
  "Cmd_BPX = cmd_of ''BPX'' ''Set a breakpoint on execution.''
     ''BPX address [-t|-p|-kt thread|-kp process] [WHEN js-expression]''"

definition Cmd_CLS :: cmd where
  "Cmd_CLS = cmd_of ''CLS'' ''Clear log window.''
     ''CLS (no parameters)''"

definition Cmd_COLOR :: cmd where
  "Cmd_COLOR = cmd_of ''COLOR'' ''Display, set or reset the screen colors''
     ''COLOR [normal bold reverse help line]|[reset]''"

definition Cmd_DB :: cmd where
  "Cmd_DB = cmd_of ''DB'' ''Display memory as 8-bit values.''
     ''DB [address] [-l len-in-bytes]''"

definition Cmd_DW :: cmd where
  "Cmd_DW = cmd_of ''DW'' ''Display memory as 16-bit values.''
     ''DW [address] [-l len-in-bytes]''"

definition Cmd_DD :: cmd where
  "Cmd_DD = cmd_of ''DD'' ''Display memory as 32-bit values.''
     ''DD [address] [-l len-in-bytes]''"

definition Cmd_DQ :: cmd where
  "Cmd_DQ = cmd_of ''DQ'' ''Display memory as 64-bit values.''
     ''DQ [address] [-l len-in-bytes]''"

definition Cmd_EB :: cmd where
  "Cmd_EB = cmd_of ''EB'' ''Edit memory as 8-bit values.''
     ''EB address -v space-separated-values''"

definition Cmd_EW :: cmd where
  "Cmd_EW = cmd_of ''EW'' ''Edit memory as 16-bit values.''
     ''EW address -v space-separated-values''"

definition Cmd_ED :: cmd where
  "Cmd_ED = cmd_of ''ED'' ''Edit memory as 32-bit values.''
     ''ED address -v space-separated-values''"

definition Cmd_EQ :: cmd where
  "Cmd_EQ = cmd_of ''EQ'' ''Edit memory as 64-bit values.''
     ''EQ address -v space-separated-values''"

definition Cmd_KL :: cmd where
  "Cmd_KL = cmd_of ''KL'' ''Set keyboard layout.''
     ''KL EN|IT''"

definition Cmd_WIDTH :: cmd where
  "Cmd_WIDTH = cmd_of ''WIDTH'' ''Display or set current display columns.''
     ''WIDTH [columns-num]''"

definition Cmd_LINES :: cmd where
  "Cmd_LINES = cmd_of ''LINES'' ''Display or set current display rows.''
     ''LINES [rows-num]''"

definition Cmd_MOD :: cmd where
  "Cmd_MOD = cmd_of ''MOD'' ''Display module information.''
     ''MOD [-u|-s] [search-string]''"

definition Cmd_P :: cmd where
  "Cmd_P = cmd_of ''P'' ''Execute one program step.''
     ''P [RET]''"

definition Cmd_PAGEIN :: cmd where
  "Cmd_PAGEIN = cmd_of ''PAGEIN'' ''Force a page of memory to be paged in (returns control to OS).''
     ''PAGEIN address''"

definition Cmd_PROC :: cmd where
  "Cmd_PROC = cmd_of ''PROC'' ''Display process information.''
     ''PROC [search-string]''"

definition Cmd_QuestionMark :: cmd where
  "Cmd_QuestionMark = cmd_of ''?'' ''Evaluate a javascript expression.''
     ''? javascript-expression''"

definition Cmd_R :: cmd where
  "Cmd_R = cmd_of ''R'' ''Change a register value.''
     ''R register-name -v value''"

definition Cmd_STACK :: cmd where
  "Cmd_STACK = cmd_of ''STACK'' ''Scan the stack searching for return addresses.''
     ''STACK [stack-ptr]''"

definition Cmd_T :: cmd where
  "Cmd_T = cmd_of ''T'' ''Trace one instruction.''
     ''T (no parameters)''"

definition Cmd_THREAD :: cmd where
  "Cmd_THREAD = cmd_of ''THREAD'' ''Display thread information.''
     ''THREAD [-kt thread|-kp process]''"

definition Cmd_U :: cmd where
  "Cmd_U = cmd_of ''U'' ''Unassemble instructions.''
     ''U address|DEST''"

definition Cmd_VER :: cmd where
  "Cmd_VER = cmd_of ''VER'' ''Display version information.''
     ''VER (no parameters)''"

definition Cmd_WD :: cmd where
  "Cmd_WD = cmd_of ''WD'' ''Toggle the Disassembler window or set its size.''
     ''WD [window-size]''"

definition Cmd_WS :: cmd where
  "Cmd_WS = cmd_of ''WS'' ''Toggle the Script window or set its size.''
     ''WS [window-size]''"

definition Cmd_WR :: cmd where
  "Cmd_WR = cmd_of ''WR'' ''Toggle the Registers window.''
     ''WR (no parameters)''"

definition Cmd_X :: cmd where
  "Cmd_X = cmd_of ''X'' ''Exit from the BugChecker screen.''
     ''X (no parameters)''"

definition all_cmds :: "cmd list" where
  "all_cmds =
     [Cmd_ADDR, Cmd_BC, Cmd_BD, Cmd_BE, Cmd_BL, Cmd_BPX, Cmd_CLS, Cmd_COLOR, Cmd_DB, Cmd_DW, Cmd_DD, Cmd_DQ,
      Cmd_EB, Cmd_EW, Cmd_ED, Cmd_EQ, Cmd_KL, Cmd_WIDTH, Cmd_LINES, Cmd_MOD, Cmd_P, Cmd_PAGEIN, Cmd_PROC,
      Cmd_QuestionMark, Cmd_R, Cmd_STACK, Cmd_T, Cmd_THREAD, Cmd_U, Cmd_VER, Cmd_WD, Cmd_WS, Cmd_WR, Cmd_X]"

section \<open>Names\<close>

lemma all_cmds_names: "distinct (map (\<lambda>c. lower (GetId c)) all_cmds)"
  by code_simp

lemma all_cmds_ok: "cmds_ok all_cmds"
proof -
  have "list_all (\<lambda>c. list_all (\<lambda>x. x \<noteq> 0) (GetId c) \<and> length (GetId c) \<le> 6) all_cmds" by code_simp
  then show ?thesis by (auto simp: cmds_ok_def list_all_iff)
qed

text \<open>
  Every command of the debugger is found by its name, in upper or lower case and in whatever order
  the commands were registered, and no other text is taken for a command.
\<close>

theorem commands_found:
  assumes "set cmds = set all_cmds" "0 \<notin> set w"
  shows "\<exists>r. find_cmd cmds w = Some r \<and> (\<forall>c. r = Some c \<longleftrightarrow> c \<in> set all_cmds \<and> lower w = lower (GetId c))"
proof -
  let ?r = "find (\<lambda>c. lower w = lower (GetId c)) cmds"
  have "cmds_ok cmds" using all_cmds_ok assms(1) by (simp add: cmds_ok_def)
  then have "find_cmd cmds w = Some ?r" using assms(2) by (rule find_cmd_spec)
  moreover have "?r = Some c \<longleftrightarrow> c \<in> set all_cmds \<and> lower w = lower (GetId c)" for c
  proof
    assume "?r = Some c"
    then show "c \<in> set all_cmds \<and> lower w = lower (GetId c)" unfolding assms(1) [symmetric]
      by (metis (mono_tags, lifting) find_Some_iff nth_mem)
  next
    assume c: "c \<in> set all_cmds \<and> lower w = lower (GetId c)"
    then obtain d where d: "?r = Some d" using assms(1) by (cases ?r) (auto simp: find_None_iff)
    then have "d \<in> set all_cmds \<and> lower w = lower (GetId d)" unfolding assms(1) [symmetric]
      by (metis (mono_tags, lifting) find_Some_iff nth_mem)
    then have "d = c" using c all_cmds_names by (auto simp: distinct_map inj_on_def)
    with d show "?r = Some c" by simp
  qed
  ultimately show ?thesis by blast
qed

theorem commands_found_witness: "find_cmd all_cmds [0x62, 0x70, 0x58] = Some (Some Cmd_BPX)"
proof -
  have "Cmd_BPX \<in> set all_cmds" "lower [0x62, 0x70, 0x58] = lower (GetId Cmd_BPX)"
    by (simp add: all_cmds_def) code_simp
  then show ?thesis using commands_found [of all_cmds "[0x62, 0x70, 0x58]"] by auto
qed

end
