(* ===== verification/Cmd_Args.thy ===== *)
theory Cmd_Args
  imports InputLine CrtFill
begin

text \<open>
  The arguments of the commands (\<open>BugChecker/Cmd.cpp\<close>): splitting at a delimiter, splitting at option
  names, and lists of indexes and of bytes. Strings are lists of bytes. A function that prints a
  message and returns an empty vector yields \<open>Inl\<close> of the message; \<open>None\<close> would be an access outside a
  string, or a loop without an end.
\<close>

section \<open>The model\<close>

abbreviation msg :: "string \<Rightarrow> byte list" where
  "msg s \<equiv> map (of_char :: char \<Rightarrow> byte) s"

subsection \<open>Splitting at a delimiter\<close>

partial_function (option) TokenizeStr_loop :: "byte list \<Rightarrow> byte list \<Rightarrow> byte list list \<Rightarrow> byte list list option" where
  "TokenizeStr_loop s delimiter retVal =
     (case string_find s delimiter of
        None \<Rightarrow> Some (if length s \<noteq> 0 then retVal @ [s] else retVal)
      | Some pos \<Rightarrow>
          TokenizeStr_loop (drop (pos + length delimiter) s) delimiter
            (if length (take pos s) \<noteq> 0 then retVal @ [take pos s] else retVal))"

declare TokenizeStr_loop.simps [code]

definition TokenizeStr :: "byte list \<Rightarrow> byte list \<Rightarrow> byte list list option" where
  "TokenizeStr str delimiter = TokenizeStr_loop (trim str) delimiter []"

subsection \<open>Splitting at options\<close>

text \<open>The first occurrence counts only as a word of its own.\<close>

definition is_word_at :: "byte list \<Rightarrow> nat \<Rightarrow> nat \<Rightarrow> bool" where
  "is_word_at sL f n \<longleftrightarrow> (f = 0 \<or> sL ! (f - 1) = 0x20) \<and> (f + n \<ge> length sL \<or> sL ! (f + n) = 0x20)"

text \<open>The search over the delimiters: the position and the number of the best one so far.\<close>

fun find_delimiter :: "byte list \<Rightarrow> nat \<Rightarrow> byte list list \<Rightarrow> (nat \<times> nat) option \<Rightarrow> (nat \<times> nat) option" where
  "find_delimiter sL i [] ret = ret"
| "find_delimiter sL i (del # ds) ret =
     find_delimiter sL (i + 1) ds
       (case string_find sL del of
          None \<Rightarrow> ret
        | Some f \<Rightarrow>
            if (case ret of None \<Rightarrow> True | Some (r, _) \<Rightarrow> f < r) \<and> is_word_at sL f (length del) then Some (f, i) else ret)"

lemma find_delimiter_index:
  "find_delimiter sL i ds ret = Some (f, j) \<Longrightarrow> ret = Some (f, j) \<or> i \<le> j \<and> j < i + length ds"
  by (induction ds arbitrary: i ret) (fastforce split: option.splits if_splits prod.splits)+

function TokenizeVec_loop :: "byte list \<Rightarrow> byte list list \<Rightarrow> byte list list \<Rightarrow> byte list list \<times> byte list" where
  "TokenizeVec_loop s delimiters retVal =
     (case find_delimiter (ToLower s) 0 delimiters None of
        None \<Rightarrow> (retVal, s)
      | Some (pos, i) \<Rightarrow>
          (let token = trim (take pos s);
               retVal = (if length token \<noteq> 0 then retVal @ [token] else retVal);
               delimiter = delimiters ! i
           in TokenizeVec_loop (drop (pos + length delimiter) s) (take i delimiters @ drop (i + 1) delimiters) (retVal @ [delimiter])))"
  by pat_completeness auto
termination
  by (relation "measure (\<lambda>(s, ds, r). length ds)") (auto dest!: find_delimiter_index)

declare TokenizeVec_loop.simps [simp del]

definition TokenizeVec :: "byte list \<Rightarrow> byte list list \<Rightarrow> byte list list" where
  "TokenizeVec str delimiters =
     (case TokenizeVec_loop (trim str) (map ToLower delimiters) [] of
        (retVal, s) \<Rightarrow> (let s = trim s in if length s \<noteq> 0 then retVal @ [s] else retVal))"

subsection \<open>Lists of numbers\<close>

definition is_dec :: "byte list \<Rightarrow> bool" where
  "is_dec arg \<longleftrightarrow> arg \<noteq> [] \<and> list_all (\<lambda>c. c \<ge> 0x30 \<and> c \<le> 0x39) arg"

definition is_hex_byte :: "byte list \<Rightarrow> bool" where
  "is_hex_byte arg \<longleftrightarrow> arg \<noteq> [] \<and>
     list_all (\<lambda>c. (c \<ge> 0x30 \<and> c \<le> 0x39) \<or> (c \<ge> 0x41 \<and> c \<le> 0x46) \<or> (c \<ge> 0x61 \<and> c \<le> 0x66)) arg"

text \<open>The arguments behind the name of the command, split at blanks.\<close>

definition list_args :: "byte list \<Rightarrow> byte list \<Rightarrow> (byte list + byte list list) option" where
  "list_args cmdId cmd =
     (let argsCmd = TokenizeVec cmd [cmdId] in
      if length argsCmd < 2 then Some (Inl (msg ''Too few arguments.''))
      else if length argsCmd > 2 then Some (Inl (msg ''Too many arguments.''))
      else
        (case TokenizeStr (argsCmd ! 1) [0x20] of
           None \<Rightarrow> None
         | Some argsStr \<Rightarrow> Some (if length argsStr = 0 then Inl (msg ''Syntax error.'') else Inr argsStr)))"

fun decs_loop :: "byte list list \<Rightarrow> int \<Rightarrow> bool \<Rightarrow> int list \<Rightarrow> (byte list + bool \<times> int list) option" where
  "decs_loop [] sz all nums = Some (Inr (all, nums))"
| "decs_loop (arg # args) sz all nums =
     (if arg = [0x2A] then decs_loop args sz True nums
      else if \<not> is_dec arg then Some (Inl (msg ''Invalid argument.''))
      else
        (case BC_strtoui64 (arg @ [0]) False 10 of
           None \<Rightarrow> None
         | Some (v, _) \<Rightarrow>
             (let n = ULONG (uint v) in
              if n \<ge> sz then Some (Inl (msg ''One or more arguments are out of range.''))
              else decs_loop args sz all (nums @ [n]))))"

definition ParseListOfDecsArgs :: "byte list \<Rightarrow> byte list \<Rightarrow> int \<Rightarrow> (byte list + int list) option" where
  "ParseListOfDecsArgs cmdId cmd sz =
     (case list_args cmdId cmd of
        None \<Rightarrow> None
      | Some (Inl e) \<Rightarrow> Some (Inl e)
      | Some (Inr argsStr) \<Rightarrow>
          (case decs_loop argsStr sz False [] of
             None \<Rightarrow> None
           | Some (Inl e) \<Rightarrow> Some (Inl e)
           | Some (Inr (all, nums)) \<Rightarrow>
               Some (if all then
                       (if length nums \<noteq> 0 then Inl (msg ''Specify * or a list of indexes, not both.'') else Inr [0..sz - 1])
                     else Inr nums)))"

fun bytes_loop :: "byte list list \<Rightarrow> byte list \<Rightarrow> (byte list + byte list) option" where
  "bytes_loop [] bs = Some (Inr bs)"
| "bytes_loop (arg # args) bs =
     (if length arg > 2 then Some (Inl (msg ''One or more arguments are out of range.''))
      else if \<not> is_hex_byte arg then Some (Inl (msg ''Invalid argument.''))
      else
        (case BC_strtoui64 (arg @ [0]) False 16 of
           None \<Rightarrow> None
         | Some (v, _) \<Rightarrow> bytes_loop args (bs @ [ucast v])))"

definition ParseListOfBytesArgs :: "byte list \<Rightarrow> byte list \<Rightarrow> (byte list + byte list) option" where
  "ParseListOfBytesArgs cmdId cmd =
     (case list_args cmdId cmd of
        None \<Rightarrow> None
      | Some (Inl e) \<Rightarrow> Some (Inl e)
      | Some (Inr argsStr) \<Rightarrow> bytes_loop argsStr [])"

section \<open>Words\<close>

lemma TokenizeStr_loop_Tokenize:
  assumes "d \<noteq> []" "tokenize_loop s d acc = Some ts"
  shows "\<And>acc'. acc' = filter (\<lambda>t. t \<noteq> []) acc \<Longrightarrow> TokenizeStr_loop s d acc' = Some (filter (\<lambda>t. t \<noteq> []) ts)"
  using assms(2)
proof (induction s arbitrary: acc rule: length_induct)
  case (1 s)
  show ?case
  proof (cases "string_find s d")
    case None
    then show ?thesis using 1(2,3) by (subst TokenizeStr_loop.simps) (auto simp: tokenize_loop.simps [of s])
  next
    case (Some pos)
    then have "pos + length d \<le> length s" using string_find_spec [where s = s and d = d] by simp
    then have "length (drop (pos + length d) s) < length s" using assms(1) by (cases d) auto
    moreover have "tokenize_loop (drop (pos + length d) s) d (acc @ [take pos s]) = Some ts"
      using 1(3) Some by (simp add: tokenize_loop.simps [of s])
    ultimately have "TokenizeStr_loop (drop (pos + length d) s) d (filter (\<lambda>t. t \<noteq> []) (acc @ [take pos s])) = Some (filter (\<lambda>t. t \<noteq> []) ts)"
      using 1(1) by blast
    then show ?thesis using 1(2) Some by (subst TokenizeStr_loop.simps) (auto split: if_splits)
  qed
qed

lemma TokenizeStr_Tokenize:
  assumes "d \<noteq> []"
  shows "TokenizeStr s d = map_option (filter (\<lambda>t. t \<noteq> [])) (Tokenize (trim s) d)"
proof -
  obtain ts where "tokenize_loop (trim s) d [] = Some ts" using tokenize_loop_spec [OF assms, of "trim s" "[]"] by auto
  then show ?thesis using TokenizeStr_loop_Tokenize [OF assms, of "trim s" "[]" ts "[]"] by (simp add: TokenizeStr_def Tokenize_def)
qed


lemma string_find_char: "c \<notin> set t \<Longrightarrow> string_find (t @ c # r) [c] = Some (length t)" "c \<notin> set t \<Longrightarrow> string_find t [c] = None"
  by (induction t) auto

lemma tokenize_join:
  assumes "ts \<noteq> []" "\<And>t. t \<in> set ts \<Longrightarrow> c \<notin> set t"
  shows "tokenize_loop (join [c] ts) [c] acc = Some (acc @ ts)"
  using assms
proof (induction "[c]" ts arbitrary: acc rule: join.induct)
  case (2 t)
  then show ?case by (subst tokenize_loop.simps) (simp add: string_find_char)
next
  case (3 t u ts)
  then show ?case by (subst tokenize_loop.simps) (simp add: string_find_char)
qed simp

lemma join_ends:
  assumes "ts \<noteq> []" "\<And>t. t \<in> set ts \<Longrightarrow> t \<noteq> []"
  shows "join d ts \<noteq> [] \<and> hd (join d ts) = hd (hd ts) \<and> last (join d ts) = last (last ts)"
  using assms by (induction d ts rule: join.induct) auto

lemma trim_solid:
  assumes "s = [] \<or> \<not> is_blank (hd s) \<and> \<not> is_blank (last s)"
  shows "trim s = s"
proof (cases s)
  case (Cons c s')
  then have "ltrim s = s" using assms by (simp add: ltrim_def)
  moreover obtain d t where "rev s = d # t" "last s = d" using Cons by (metis hd_rev list.exhaust_sel list.simps(3) rev_is_Nil_conv)
  then have "dropWhile is_blank (rev s) = rev s" using assms Cons by simp
  ultimately show ?thesis by (simp add: trim_def)
qed (simp add: trim_def ltrim_def)

lemma words_roundtrip:
  assumes "ts \<noteq> []" "\<And>t. t \<in> set ts \<Longrightarrow> t \<noteq> [] \<and> list_all (\<lambda>c. \<not> is_blank c) t"
  shows "TokenizeStr (join [0x20] ts) [0x20] = Some ts"
proof -
  have solid: "\<not> is_blank (hd t) \<and> \<not> is_blank (last t) \<and> 0x20 \<notin> set t" if "t \<in> set ts" for t
    using assms(2) [OF that] by (auto simp: list_all_iff is_blank_def)
  have e: "join [0x20] ts \<noteq> []" "hd (join [0x20] ts) = hd (hd ts)" "last (join [0x20] ts) = last (last ts)"
    using join_ends [of ts "[0x20]"] assms by auto
  have "trim (join [0x20] ts) = join [0x20] ts"
    by (rule trim_solid) (use e solid assms(1) in auto)
  moreover have "Tokenize (join [0x20] ts) [0x20] = Some ts" using tokenize_join [OF assms(1)] solid by (simp add: Tokenize_def)
  moreover have "filter (\<lambda>t. t \<noteq> []) ts = ts" using assms(2) by (simp add: filter_id_conv)
  ultimately show ?thesis by (simp add: TokenizeStr_Tokenize)
qed

section \<open>The arguments of a command\<close>

lemma string_find_prefix: "string_find (d @ s) d = Some 0"
proof (cases "d @ s")
  case (Cons c t)
  then have "take (length d) (c # t) = d" by (metis append_eq_conv_conj)
  then show ?thesis unfolding Cons by simp
qed simp

lemma ToLower_simps [simp]: "ToLower (s @ t) = ToLower s @ ToLower t" "length (ToLower s) = length s" "ToLower (ToLower s) = ToLower s"
proof -
  have "(if (if c \<ge> 0x41 \<and> c \<le> 0x5A then c - 0x41 + 0x61 else c) \<ge> (0x41 :: byte) \<and> (if c \<ge> 0x41 \<and> c \<le> 0x5A then c - 0x41 + 0x61 else c) \<le> 0x5A
      then (if c \<ge> 0x41 \<and> c \<le> 0x5A then c - 0x41 + 0x61 else c) - 0x41 + 0x61 else (if c \<ge> 0x41 \<and> c \<le> 0x5A then c - 0x41 + 0x61 else c)) =
      (if c \<ge> 0x41 \<and> c \<le> 0x5A then c - 0x41 + 0x61 else c)" for c :: byte
    by (auto simp: word_le_nat_alt unat_word_ariths unat_sub_if')
  then show "ToLower (ToLower s) = ToLower s" by (simp add: ToLower_def comp_def)
qed (simp_all add: ToLower_def)

lemma TokenizeVec_command:
  assumes "trim str = w @ r" "ToLower w = ToLower cmdId" "r = [] \<or> hd r = 0x20"
  shows "TokenizeVec str [cmdId] = ToLower cmdId # (if trim r = [] then [] else [trim r])"
proof -
  have len: "length w = length cmdId" using arg_cong [OF assms(2), of length] by simp
  have l: "ToLower (trim str) = ToLower cmdId @ ToLower r" using assms(1,2) by simp
  have "is_word_at (ToLower cmdId @ ToLower r) 0 (length cmdId)"
    using assms(3) by (cases r) (auto simp: is_word_at_def nth_append ToLower_def)
  then have f: "find_delimiter (ToLower (trim str)) 0 [ToLower cmdId] None = Some (0, 0)"
    by (simp add: l string_find_prefix)
  have "TokenizeVec_loop (trim str) [ToLower cmdId] [] = TokenizeVec_loop r [] [ToLower cmdId]"
    unfolding TokenizeVec_loop.simps [of "trim str"] f using assms(1) len by (simp add: trim_def ltrim_def)
  also have "\<dots> = ([ToLower cmdId], r)" by (subst TokenizeVec_loop.simps) simp
  finally show ?thesis by (simp add: TokenizeVec_def Let_def)
qed

lemma list_args_words:
  assumes "trim str = w @ 0x20 # join [0x20] ts" "ToLower w = ToLower cmdId"
    and "ts \<noteq> []" "\<And>t. t \<in> set ts \<Longrightarrow> t \<noteq> [] \<and> list_all (\<lambda>c. \<not> is_blank c) t"
  shows "list_args cmdId str = Some (Inr ts)"
proof -
  let ?r = "join [0x20] ts"
  have solid: "\<not> is_blank (hd t) \<and> \<not> is_blank (last t)" if "t \<in> set ts" for t
    using assms(4) [OF that] by (auto simp: list_all_iff)
  have e: "?r \<noteq> []" "hd ?r = hd (hd ts)" "last ?r = last (last ts)" using join_ends [of ts "[0x20]"] assms(3,4) by auto
  have s: "trim ?r = ?r" by (rule trim_solid) (use e solid assms(3) in auto)
  have b: "is_blank 0x20" by (simp add: is_blank_def)
  have "trim (0x20 # ?r) = trim ?r" using b by (simp add: trim_def ltrim_def)
  then have "TokenizeVec str [cmdId] = [ToLower cmdId, ?r]" using TokenizeVec_command [OF assms(1,2)] s e(1) by simp
  then show ?thesis using words_roundtrip [OF assms(3,4)] assms(3) by (simp add: list_args_def Let_def)
qed


section \<open>Lists of numbers\<close>

lemma dec_digit: "c \<ge> 0x30 \<and> c \<le> 0x39 \<Longrightarrow> digit_of 10 c = Some (unat (c - 48))"
proof -
  assume c: "c \<ge> 0x30 \<and> c \<le> 0x39"
  then have "unat (c - 48) < 10" unfolding word_le_nat_alt by (simp add: unat_sub word_le_nat_alt) linarith
  then show ?thesis using c by (simp add: digit_of_def digval_def)
qed

lemma strtoui64_digits:
  assumes "is_digits base cs ds" "cs \<noteq> []" "base = 10 \<or> base = 16"
  shows "\<exists>e. BC_strtoui64 (cs @ [0]) False base = Some (word_of_nat (min (digits_value base ds 0) (2 ^ 64 - 1)), e)"
proof -
  have "digit_of 10 0 = None" "digit_of 16 0 = None" by code_simp+
  then show ?thesis
    using strtoxq_digits [of base cs ds "[0]" 0 False False False True] assms
    by (auto simp: BC_strtoui64_def sign_bytes_def Let_def)
qed

lemma is_dec_digits: "is_dec arg \<Longrightarrow> \<exists>ds. is_digits 10 arg ds"
  using dec_digit by (intro exI [of _ "map (\<lambda>c. unat (c - 48)) arg"]) (auto simp: is_dec_def is_digits_def list_all_iff)

lemma decs_loop_sound:
  assumes "\<forall>n \<in> set nums. 0 \<le> n \<and> n < sz"
  shows "\<exists>r. decs_loop args sz all nums = Some r \<and> (\<forall>a ns. r = Inr (a, ns) \<longrightarrow> (\<forall>n \<in> set ns. 0 \<le> n \<and> n < sz))"
  using assms
proof (induction args arbitrary: all nums)
  case (Cons arg args)
  show ?case
  proof (cases "arg \<noteq> [0x2A] \<and> is_dec arg")
    case True
    then obtain ds where "is_digits 10 arg ds" "arg \<noteq> []" using is_dec_digits by (auto simp: is_dec_def)
    then obtain v e where v: "BC_strtoui64 (arg @ [0]) False 10 = Some (v, e)" using strtoui64_digits by blast
    have "0 \<le> ULONG (uint v)" by (simp add: ULONG_def)
    then show ?thesis using True v Cons.IH [of "nums @ [ULONG (uint v)]" all] Cons.prems by (auto simp: Let_def)
  qed (use Cons in auto)
qed simp

lemma list_args_total: "\<exists>r. list_args cmdId cmd = Some r"
proof -
  have "\<exists>ts. TokenizeStr s [0x20] = Some ts" for s
    using tokenize_loop_spec [of "[0x20]" "trim s" "[]"] by (auto simp: TokenizeStr_Tokenize Tokenize_def)
  then obtain ts where "TokenizeStr (TokenizeVec cmd [cmdId] ! 1) [0x20] = Some ts" by blast
  then show ?thesis by (simp add: list_args_def Let_def)
qed

text \<open>
  C15: Whatever is typed behind a command that takes indexes, \<open>ParseListOfDecsArgs\<close> ends, without
  reading outside a string, either with an error message or with a list of indexes, and every index of
  the list is below the number of items.
\<close>

theorem index_list_sound:
  "\<exists>r. ParseListOfDecsArgs cmdId cmd sz = Some r \<and> (\<forall>ns. r = Inr ns \<longrightarrow> (\<forall>n \<in> set ns. 0 \<le> n \<and> n < sz))"
proof -
  obtain a where a: "list_args cmdId cmd = Some a" using list_args_total by blast
  show ?thesis
  proof (cases a)
    case (Inr args)
    obtain r where "decs_loop args sz False [] = Some r" "\<And>a ns. r = Inr (a, ns) \<Longrightarrow> \<forall>n \<in> set ns. 0 \<le> n \<and> n < sz"
      using decs_loop_sound [of "[]" sz args False] by auto
    then show ?thesis using a Inr by (cases r) (auto simp: ParseListOfDecsArgs_def)
  qed (use a in \<open>simp add: ParseListOfDecsArgs_def\<close>)
qed

theorem index_list_sound_witness:
  "ParseListOfDecsArgs (msg ''BC'') (msg ''bc 1 0'') 2 = Some (Inr [1, 0]) \<and> list_all (\<lambda>n :: int. 0 \<le> n \<and> n < 2) [1, 0]"
proof -
  have "ParseListOfDecsArgs (msg ''BC'') (msg ''bc 1 0'') 2 = Some (Inr [1, 0])" by code_simp
  then show ?thesis using index_list_sound [of "msg ''BC''" "msg ''bc 1 0''" 2] by auto
qed

function decimal :: "nat \<Rightarrow> byte list" where
  "decimal n = (if n < 10 then [] else decimal (n div 10)) @ [word_of_nat (48 + n mod 10)]"
  by pat_completeness auto
termination by (relation "measure id") auto

declare decimal.simps [simp del]

lemma decimal_char:
  assumes "d < 10" shows "0x30 \<le> (word_of_nat (48 + d) :: byte) \<and> word_of_nat (48 + d) \<le> (0x39 :: byte) \<and> unat (word_of_nat (48 + d) - 48 :: byte) = d"
proof -
  have "\<forall>d\<in>set [0..<10]. 0x30 \<le> (word_of_nat (48 + d) :: byte) \<and> word_of_nat (48 + d) \<le> (0x39 :: byte) \<and> unat (word_of_nat (48 + d) - 48 :: byte) = d"
    by code_simp
  then show ?thesis using assms by simp
qed

lemma decimal_digits: "\<exists>ds. is_digits 10 (decimal n) ds \<and> digits_value 10 ds 0 = n \<and> is_dec (decimal n)"
proof (induction n rule: decimal.induct)
  case (1 n)
  have c: "is_digits 10 [word_of_nat (48 + n mod 10)] [n mod 10]" "is_dec [word_of_nat (48 + n mod 10)]"
    using decimal_char [of "n mod 10"] dec_digit [of "word_of_nat (48 + n mod 10)"] by (simp_all add: is_digits_def is_dec_def)
  show ?case
  proof (cases "n < 10")
    case True
    then show ?thesis using c by (subst (1 2) decimal.simps) (auto intro!: exI [of _ "[n mod 10]"])
  next
    case False
    then obtain ds where ds: "is_digits 10 (decimal (n div 10)) ds" "digits_value 10 ds 0 = n div 10" "is_dec (decimal (n div 10))"
      using 1 by blast
    have "is_digits 10 (decimal n) (ds @ [n mod 10])" "is_dec (decimal n)"
      using False is_digits_append [OF ds(1) c(1)] ds(3) c(2) by (simp_all add: decimal.simps [of n] is_dec_def)
    moreover have "digits_value 10 (ds @ [n mod 10]) 0 = n" using ds(2) by (simp add: digits_value_append)
    ultimately show ?thesis by blast
  qed
qed

lemma decs_loop_decimal:
  assumes "\<forall>n \<in> set ns. int n < sz" "sz \<le> 2 ^ 32"
  shows "decs_loop (map decimal ns) sz all nums = Some (Inr (all, nums @ map int ns))"
  using assms(1)
proof (induction ns arbitrary: nums)
  case (Cons n ns)
  obtain ds where ds: "is_digits 10 (decimal n) ds" "digits_value 10 ds 0 = n" "is_dec (decimal n)" using decimal_digits by blast
  have n: "n < 2 ^ 32" using Cons.prems assms(2) by simp
  obtain e where e: "BC_strtoui64 (decimal n @ [0]) False 10 = Some (word_of_nat n, e)"
    using strtoui64_digits [OF ds(1)] ds(2,3) n by (auto simp: is_dec_def)
  have "uint (word_of_nat n :: u64) = int n" using n by (simp add: unsigned_of_nat take_bit_nat_eq_self)
  moreover have "decimal n \<noteq> [0x2A]" using ds(3) by (auto simp: is_dec_def)
  ultimately show ?case using Cons ds(3) e n by (simp add: Let_def ULONG_def)
qed simp

lemma bytes_loop_step:
  assumes "length h = 2" "is_hex_byte h" "BC_strtoui64 (h @ [0]) False 16 = Some (v, e)"
  shows "bytes_loop (h # args) bs = bytes_loop args (bs @ [ucast v])"
  using assms by simp

lemma hex_byte:
  "is_hex_byte (HexToString (ucast (b :: byte)) 1) \<and> list_all (\<lambda>c. \<not> is_blank c) (HexToString (ucast b) 1)"
proof -
  have "list_all IsHex (hex_digits 2 n)" for n using IsHex_hex_digit by (simp add: numeral_2_eq_2)
  then have "list_all IsHex (HexToString (ucast b) 1)" by (simp add: HexToString_def)
  moreover have "HexToString (ucast b) 1 \<noteq> []" by (simp add: HexToString_def numeral_2_eq_2)
  ultimately show ?thesis unfolding is_hex_byte_def list_all_iff IsHex_def is_blank_def by fastforce
qed

lemma hex_byte_value: "\<exists>e. BC_strtoui64 (HexToString (ucast (b :: byte)) 1 @ [0]) False 16 = Some (ucast b, e) \<and> length (HexToString (ucast b) 1) = 2"
proof -
  define h where "h = HexToString (ucast b) 1"
  obtain ds where ds: "is_digits 16 h ds" "digits_value 16 ds 0 = bytes_value (ucast b) 1" "length h = 2 * 1"
    using HexToString_digits [of 1 "ucast b"] unfolding h_def by blast
  have b: "unat b < 256" using unat_less_length [of b] by simp
  then have v: "bytes_value (ucast b) 1 = unat b" by (simp add: bytes_value_def unsigned_ucast_eq take_bit_nat_eq_self)
  have "h \<noteq> []" using ds(3) by auto
  then obtain e where "BC_strtoui64 (h @ [0]) False 16 = Some (word_of_nat (min (unat b) (2 ^ 64 - 1)), e)"
    using strtoui64_digits [OF ds(1)] unfolding ds(2) v by blast
  moreover have "min (unat b) (2 ^ 64 - 1) = unat b" using b by simp
  ultimately have "BC_strtoui64 (h @ [0]) False 16 = Some (ucast b, e)" by (simp only: of_nat_unat)
  then show ?thesis using ds(3) unfolding h_def by simp
qed

lemma bytes_loop_hex:
  "bytes_loop (map (\<lambda>b. HexToString (ucast b) 1) bs) acc = Some (Inr (acc @ bs))"
proof (induction bs arbitrary: acc)
  case (Cons b bs)
  obtain e where e: "BC_strtoui64 (HexToString (ucast b) 1 @ [0]) False 16 = Some (ucast b, e)" "length (HexToString (ucast b) 1) = 2"
    using hex_byte_value by blast
  have u: "(ucast (ucast b :: u64) :: byte) = b" by (rule bit_word_eqI) (simp add: bit_simps)
  show ?case
    unfolding list.map bytes_loop_step [OF e(2) conjunct1 [OF hex_byte] e(1)] u using Cons [of "acc @ [b]"] by simp
qed simp

text \<open>
  C14: A list that is typed is the list that is parsed: the indexes, written in decimal behind the name
  of the command in upper or lower case, come back from \<open>ParseListOfDecsArgs\<close>, a star stands for all
  indexes, and bytes written as \<open>HexToString\<close> prints them come back from \<open>ParseListOfBytesArgs\<close>.
\<close>

theorem list_arguments_roundtrip:
  assumes "ToLower w = ToLower cmdId" "sz \<le> 2 ^ 32"
    and "ns \<noteq> []" "\<forall>n \<in> set ns. int n < sz" "trim decs = w @ 0x20 # join [0x20] (map decimal ns)"
    and "bs \<noteq> []" "trim hexs = w @ 0x20 # join [0x20] (map (\<lambda>b. HexToString (ucast b) 1) bs)"
    and "trim star = w @ [0x20, 0x2A]"
  shows "ParseListOfDecsArgs cmdId decs sz = Some (Inr (map int ns)) \<and>
    ParseListOfBytesArgs cmdId hexs = Some (Inr bs) \<and> ParseListOfDecsArgs cmdId star sz = Some (Inr [0..sz - 1])"
proof -
  have dec: "decimal n \<noteq> [] \<and> list_all (\<lambda>c. \<not> is_blank c) (decimal n)" for n
    using decimal_digits [of n] by (auto simp: is_dec_def list_all_iff is_blank_def)
  have hex: "HexToString (ucast b) 1 \<noteq> [] \<and> list_all (\<lambda>c. \<not> is_blank c) (HexToString (ucast b) 1)" for b :: byte
    using hex_byte [of b] by (simp add: is_hex_byte_def)
  have "list_args cmdId decs = Some (Inr (map decimal ns))"
    using dec assms(3) by (intro list_args_words [OF assms(5,1)]) auto
  moreover have "list_args cmdId hexs = Some (Inr (map (\<lambda>b. HexToString (ucast b) 1) bs))"
    using hex assms(6) by (intro list_args_words [OF assms(7,1)]) auto
  moreover have "list_args cmdId star = Some (Inr [[0x2A]])"
    using assms(8) by (intro list_args_words [OF _ assms(1)]) (auto simp: is_blank_def)
  ultimately show ?thesis
    using decs_loop_decimal [OF assms(4,2), of False "[]"] bytes_loop_hex [of bs "[]"]
    by (simp add: ParseListOfDecsArgs_def ParseListOfBytesArgs_def)
qed

theorem list_arguments_roundtrip_witness:
  "ParseListOfDecsArgs (msg ''BD'') (msg ''bd 12 3'') 16 = Some (Inr [12, 3]) \<and>
   ParseListOfBytesArgs (msg ''BD'') (msg ''bd 0F A1'') = Some (Inr [0x0F, 0xA1]) \<and>
   ParseListOfDecsArgs (msg ''BD'') (msg ''bd *'') 16 = Some (Inr [0..15])"
proof -
  have "ToLower (msg ''bd'') = ToLower (msg ''BD'')" by code_simp
  moreover have "decimal 12 = msg ''12''" "decimal 3 = msg ''3''" by (simp_all add: decimal.simps)
  moreover have "HexToString 0x0F 1 = msg ''0F''" "HexToString 0xA1 1 = msg ''A1''" by code_simp+
  moreover have "trim (msg ''bd 12 3'') = msg ''bd 12 3''" "trim (msg ''bd 0F A1'') = msg ''bd 0F A1''" "trim (msg ''bd *'') = msg ''bd *''"
    by code_simp+
  ultimately show ?thesis
    using list_arguments_roundtrip [of "msg ''bd''" "msg ''BD''" 16 "[12, 3]" "msg ''bd 12 3''" "[0x0F, 0xA1]" "msg ''bd 0F A1''" "msg ''bd *''"]
    by simp
qed

text \<open>
  The index is truncated to 32 bits before its range is checked; and an option is not seen when its name
  occurs earlier inside another word, since only its first occurrence is looked at.
\<close>

theorem index_wraps: "ParseListOfDecsArgs (msg ''BC'') (msg ''BC 4294967296'') 1 = Some (Inr [0])"
  by code_simp

theorem option_hidden:
  "TokenizeVec (msg ''BPX nt!Whenever WHEN x'') [msg ''BPX'', msg ''-t'', msg ''-p'', msg ''WHEN''] =
     [msg ''bpx'', msg ''nt!Whenever WHEN x'']"
  by code_simp

end
