(* ===== verification/Layout.thy ===== *)
theory Layout
  imports LogWnd
begin

text \<open>
  The layout of the screen in \<open>BugChecker/Wnd.cpp\<close>: the dividing lines between the windows, the
  check of the dimensions, the place of each window, and the commands that show, hide and resize a
  window. A dividing line with a negative row belongs to a hidden window.

  A \<open>DivLine\<close> of the code points to the variable that holds its row. All the pointers of a list point
  to different variables, so an entry of the model carries the variable's name and its value, and the
  values are written back at the end. Rows are integers; only conversions from unsigned values wrap.
\<close>

section \<open>The model\<close>

subsection \<open>State\<close>

datatype div_var = First | RegsDisasm | DisasmCode | CodeLog | Last

record DivLine =
  line_var :: div_var
  py :: int
  canBeMoved :: bool
  height :: int

record rect =
  rectX0 :: int
  rectY0 :: int
  rectX1 :: int
  rectY1 :: int

record layout =
  fbWidth :: int
  fbHeight :: int
  fbStride :: int
  fbMapSize :: int
  RegsDisasmDivLineY :: int
  DisasmCodeDivLineY :: int
  CodeLogDivLineY :: int
  PrevWndWidth :: int
  PrevWndHeight :: int
  PrevLayout :: "int list"
  RegsWindow :: rect
  DisasmWindow :: rect
  CodeWindow :: rect
  LogWindowX0 :: int
  LogWindowX1 :: int

text \<open>The layout, the cursor, and the log window, which keeps its own rows.\<close>

type_synonym screen = "layout \<times> ui \<times> log_window"

subsection \<open>Dimensions\<close>

definition GlyphWidth :: int where
  "GlyphWidth = 9"

definition GlyphHeight :: int where
  "GlyphHeight = 16"

definition VideoRestoreBufferSize :: int where
  "VideoRestoreBufferSize = 4 * 1024 * 1024"

definition CheckWndWidthHeight :: "layout \<Rightarrow> int \<Rightarrow> int \<Rightarrow> bool" where
  "CheckWndWidthHeight r widthChr heightChr =
     (if ULONG (fbWidth r * fbHeight r * 4) > fbMapSize r then False
      else
        (let sizeChr = ULONG (widthChr * heightChr) in
         if sizeChr > TextBuffersDim then False
         else
           (let sizePx = ULONG (sizeChr * GlyphWidth * GlyphHeight) in
            if ULONG (sizePx * 4) > VideoRestoreBufferSize then False
            else if ULONG (widthChr * GlyphWidth) > fbWidth r then False
            else if ULONG (heightChr * GlyphHeight) > fbHeight r then False
            else True)))"

subsection \<open>Dividing lines\<close>

definition getHeight :: "DivLine list \<Rightarrow> int \<Rightarrow> int" where
  "getHeight v y = (let h = y - py (last v) - 1 in if h < 0 then 0 else h)"

definition emplace_visible :: "div_var \<Rightarrow> int \<Rightarrow> bool \<Rightarrow> DivLine list \<Rightarrow> DivLine list" where
  "emplace_visible p y b v =
     (if y \<ge> 0 then v @ [\<lparr>line_var = p, py = y, canBeMoved = b, height = getHeight v y\<rparr>] else v)"

definition GetVisibleDivLines :: "layout \<Rightarrow> ui \<Rightarrow> DivLine list" where
  "GetVisibleDivLines r u =
     (let lst = LONG (WndHeight u - 3);
          v = [\<lparr>line_var = First, py = 0, canBeMoved = False, height = 0\<rparr>];
          v = emplace_visible RegsDisasm (RegsDisasmDivLineY r) False v;
          v = emplace_visible DisasmCode (DisasmCodeDivLineY r) True v;
          v = emplace_visible CodeLog (CodeLogDivLineY r) True v
      in v @ [\<lparr>line_var = Last, py = lst, canBeMoved = False, height = getHeight v lst\<rparr>])"

datatype direction = Downwards | Upwards

fun along :: "direction \<Rightarrow> int \<Rightarrow> int" where
  "along Downwards x = x"
| "along Upwards x = - x"

text \<open>
  A pass over the lines that keeps each movable one at least four rows from the one before it;
  upwards the list is reversed and the rows decrease. The first line of either pass cannot be moved.
\<close>

fun spread :: "direction \<Rightarrow> int \<Rightarrow> DivLine list \<Rightarrow> DivLine list" where
  "spread d prev [] = []"
| "spread d prev (l # v) =
     (let l = (if canBeMoved l \<and> along d (py l - prev) < 4 then l\<lparr>py := prev + along d 4\<rparr> else l)
      in l # spread d (py l) v)"

definition spread_all :: "direction \<Rightarrow> DivLine list \<Rightarrow> DivLine list" where
  "spread_all d v = (case v of [] \<Rightarrow> [] | l # v \<Rightarrow> l # spread d (py l) v)"

definition arrange :: "DivLine list \<Rightarrow> DivLine list" where
  "arrange v = rev (spread_all Upwards (rev (spread_all Downwards v)))"

text \<open>
  The inner loops of \<open>addLine\<close>: among the movable lines from the start of the list on, the first with
  more than four rows to the next one is moved towards it. The result has the number of lines passed.
\<close>

fun slide :: "direction \<Rightarrow> nat \<Rightarrow> DivLine list \<Rightarrow> (nat \<times> DivLine list) option" where
  "slide d offset (l # k # v) =
     (if canBeMoved l then
        (if along d (py k - py l) > 4 then Some (offset, l\<lparr>py := py l + along d 1\<rparr> # k # v)
         else map_option (\<lambda>(i, v). (i, l # v)) (slide d (offset + 1) (k # v)))
      else None)"
| "slide d offset v = None"

text \<open>A potential for the loop: the distances between the lines, weighted by their place.\<close>

fun slack :: "direction \<Rightarrow> nat \<Rightarrow> DivLine list \<Rightarrow> nat" where
  "slack d i (l # k # v) = i * nat (along d (py k - py l)) + slack d (i + 1) (k # v)"
| "slack d i v = 0"

lemma slide_slack:
  assumes "slide d i v = Some (n, v')"
  shows "i \<le> n \<and> v \<noteq> [] \<and> v' \<noteq> [] \<and>
    (n = i \<longrightarrow> py (hd v') = py (hd v) + along d 1 \<and> slack d i v' + i \<le> slack d i v) \<and>
    (n \<noteq> i \<longrightarrow> py (hd v') = py (hd v) \<and> slack d i v' < slack d i v)"
  using assms
proof (induction d i v arbitrary: v' rule: slide.induct)
  case (1 d i l k v)
  show ?case
  proof (cases "along d (py k - py l) > 4")
    case True
    have "nat (along d (py k - (py l + along d 1))) = nat (along d (py k - py l)) - 1"
      by (cases d) (auto simp: algebra_simps)
    moreover obtain m where "nat (along d (py k - py l)) = Suc m" using True by (cases "nat (along d (py k - py l))") auto
    ultimately show ?thesis using 1 True by (auto split: if_splits simp: algebra_simps)
  next
    case False
    then obtain w where w: "slide d (i + 1) (k # v) = Some (n, w)" "v' = l # w"
      using "1.prems" by (auto split: if_splits)
    have c: "canBeMoved l" using "1.prems" by (auto split: if_splits)
    note ih = "1.IH" [OF c False w(1)]
    obtain k' v'' where w': "w = k' # v''" using ih by (cases w) auto
    have "nat (along d (py k + along d 1 - py l)) \<le> nat (along d (py k - py l)) + 1"
      by (cases d) auto
    from mult_le_mono2 [OF this, of i]
    have "i * nat (along d (py k + along d 1 - py l)) \<le> i * nat (along d (py k - py l)) + i" by simp
    then show ?thesis using ih w(2) unfolding w' by (cases "n = i + 1") auto
  qed
qed auto

text \<open>The outer loops of \<open>addLine\<close>: repeat until the line at the start of the list has moved.\<close>

function slide_loop :: "direction \<Rightarrow> DivLine list \<Rightarrow> bool \<times> DivLine list" where
  "slide_loop d v =
     (case slide d 0 v of
        None \<Rightarrow> (False, v)
      | Some (offset, v') \<Rightarrow> if offset \<noteq> 0 then slide_loop d v' else (True, v'))"
  by pat_completeness auto
termination
proof (relation "measure (\<lambda>(d, v). slack d 0 v)", goal_cases)
  case (2 d v p offset v')
  then show ?case using slide_slack [of d 0 v offset v'] by auto
qed simp

declare slide_loop.simps [simp del]

text \<open>\<open>addLine\<close>, on the lines before the index, nearest first, and from the index on.\<close>

definition addLine :: "DivLine list \<times> DivLine list \<Rightarrow> bool \<times> DivLine list \<times> DivLine list" where
  "addLine z =
     (case z of (before, behind) \<Rightarrow>
        case slide_loop Downwards behind of (done, behind) \<Rightarrow>
          if done then (True, before, behind)
          else (case slide_loop Upwards before of (done, before) \<Rightarrow> (done, before, behind)))"

lemma slide_loop_hd:
  "slide_loop d v = (b, v') \<Longrightarrow> v \<noteq> [] \<Longrightarrow> v' \<noteq> [] \<and> py (hd v') = py (hd v) + (if b then along d 1 else 0) \<and> height (hd v') = height (hd v)"
proof (induction d v rule: slide_loop.induct)
  case (1 d v)
  have h: "slide d 0 v = Some (n, w) \<Longrightarrow> height (hd w) = height (hd v)" for n w
    by (cases "(d, 0 :: nat, v)" rule: slide.cases) (auto split: if_splits)
  show ?case
  proof (cases "slide d 0 v")
    case None
    then show ?thesis using 1 by (auto simp: slide_loop.simps [of d v])
  next
    case (Some p)
    obtain n w where p: "p = (n, w)" by (cases p)
    note s = slide_slack [OF Some [unfolded p]] h [OF Some [unfolded p]]
    show ?thesis using 1(1) [OF Some p [symmetric]] s Some p 1(2) by (auto simp: slide_loop.simps [of d v] split: if_splits)
  qed
qed

lemma addLine_gap:
  assumes "addLine (p # ps, c # cs) = (True, before, behind)"
  shows "before \<noteq> [] \<and> behind \<noteq> [] \<and> py (hd behind) - py (hd before) = py c - py p + 1 \<and> height (hd behind) = height c"
  using assms slide_loop_hd [of Downwards "c # cs"] slide_loop_hd [of Upwards "p # ps"]
  by (auto simp: addLine_def split: prod.splits if_splits)

text \<open>The loop that gives the kept line its height back, as far as \<open>addLine\<close> finds room.\<close>

function keep_loop :: "DivLine list \<times> DivLine list \<Rightarrow> DivLine list \<times> DivLine list" where
  "keep_loop z =
     (case z of
        (p # ps, c # cs) \<Rightarrow>
          if py c - py p < height c + 1 then
            (case addLine z of (done, z) \<Rightarrow> if done then keep_loop z else z)
          else z
      | _ \<Rightarrow> z)"
  by pat_completeness auto
termination
  by (relation "measure (\<lambda>(before, behind). nat (height (hd behind) + 1 - (py (hd behind) - py (hd before))))")
    (auto dest!: addLine_gap [OF sym])

declare keep_loop.simps [simp del]

definition keep_height :: "div_var option \<Rightarrow> DivLine list \<Rightarrow> DivLine list" where
  "keep_height keep v =
     (let index = length (takeWhile (\<lambda>l. \<not> (canBeMoved l \<and> Some (line_var l) = keep)) v)
      in if 0 < index \<and> index < length v then
           (case keep_loop (rev (take index v), drop index v) of (before, behind) \<Rightarrow> rev before @ behind)
         else v)"

subsection \<open>The check of the layout\<close>

definition write_back :: "DivLine \<Rightarrow> layout \<Rightarrow> layout" where
  "write_back l r =
     (case line_var l of
        RegsDisasm \<Rightarrow> r\<lparr>RegsDisasmDivLineY := py l\<rparr>
      | DisasmCode \<Rightarrow> r\<lparr>DisasmCodeDivLineY := py l\<rparr>
      | CodeLog \<Rightarrow> r\<lparr>CodeLogDivLineY := py l\<rparr>
      | _ \<Rightarrow> r)"

fun code_cursor_y :: "int \<Rightarrow> DivLine list \<Rightarrow> int" where
  "code_cursor_y prev [] = 0"
| "code_cursor_y prev (l # v) = (if line_var l = CodeLog then prev + 1 else code_cursor_y (py l) v)"

definition layout_changed :: "layout \<Rightarrow> ui \<Rightarrow> DivLine list \<Rightarrow> bool" where
  "layout_changed r u v \<longleftrightarrow> PrevWndWidth r \<noteq> WndWidth u \<or> PrevWndHeight r \<noteq> WndHeight u \<or> PrevLayout r \<noteq> map py v"

definition reset_cursor :: "DivLine list \<Rightarrow> ui \<Rightarrow> ui" where
  "reset_cursor v u =
     u\<lparr>CursorDisplayX := -1, CursorDisplayY := -1, CursorX := 2, CursorY := LONG (WndHeight u - 3),
       LogCursorX := 2, LogCursorY := LONG (WndHeight u - 3),
       CodeCursorX := 2, CodeCursorY := code_cursor_y 0 v\<rparr>"

definition CheckDivLineYs :: "div_var option \<Rightarrow> screen \<Rightarrow> screen" where
  "CheckDivLineYs keep s =
     (case s of (r, u, w) \<Rightarrow>
        (let v = keep_height keep (arrange (GetVisibleDivLines r u));
             r' = fold write_back v r;
             changed = layout_changed r u v;
             u' = (if changed then reset_cursor v u else u);
             w' = (if changed then w\<lparr>GoToEnd_Pending := True\<rparr> else w)
         in (r'\<lparr>PrevWndWidth := WndWidth u, PrevWndHeight := WndHeight u, PrevLayout := map py v\<rparr>, u', w')))"

subsection \<open>The place of each window\<close>

definition resetDest :: "ui \<Rightarrow> rect" where
  "resetDest u = \<lparr>rectX0 = 1, rectY0 = 1, rectX1 = ULONG (WndWidth u - 2), rectY1 = 3\<rparr>"

text \<open>A window above the dividing line \<open>y\<close>, and the row behind it.\<close>

definition place :: "ui \<Rightarrow> int \<Rightarrow> int \<Rightarrow> rect \<times> int" where
  "place u y nextY =
     (if y < 0 then (resetDest u, nextY)
      else (\<lparr>rectX0 = 1, rectY0 = nextY, rectX1 = ULONG (WndWidth u - 2), rectY1 = ULONG (y - 1)\<rparr>, ULONG (y + 1)))"

definition place_windows :: "screen \<Rightarrow> screen" where
  "place_windows s =
     (case s of (r, u, w) \<Rightarrow>
        (let (regs, nextY) = place u (RegsDisasmDivLineY r) 1;
             (disasm, nextY) = place u (DisasmCodeDivLineY r) nextY;
             (code, nextY) = place u (CodeLogDivLineY r) nextY;
             r = r\<lparr>RegsWindow := regs, DisasmWindow := disasm, CodeWindow := code,
                   LogWindowX0 := 1, LogWindowX1 := ULONG (WndWidth u - 2)\<rparr>;
             w = w\<lparr>destY0 := nextY, destY1 := ULONG (WndHeight u - 4)\<rparr>;
             w = (if GoToEnd_Pending w then GoToEnd (w\<lparr>GoToEnd_Pending := False\<rparr>) else w)
         in (r, u, w)))"

section \<open>Arranged layouts\<close>

text \<open>The rows of the visible lines, in the order of the windows, between the borders.\<close>

definition visible :: "int \<Rightarrow> int list" where
  "visible y = (if 0 \<le> y then [y] else [])"

definition fixed_row :: "layout \<Rightarrow> int" where
  "fixed_row r = (if 0 \<le> RegsDisasmDivLineY r then RegsDisasmDivLineY r else 0)"

definition movable_rows :: "layout \<Rightarrow> int list" where
  "movable_rows r = visible (DisasmCodeDivLineY r) @ visible (CodeLogDivLineY r)"

text \<open>Room for the movable windows and the log, each of at least three rows.\<close>

definition room :: "screen \<Rightarrow> bool" where
  "room s = (case s of (r, u, w) \<Rightarrow>
     WndHeight u < 2 ^ 30 \<and> fixed_row r + 4 * (int (length (movable_rows r)) + 1) \<le> WndHeight u - 3)"

fun apart :: "int list \<Rightarrow> bool" where
  "apart (x # y # ys) \<longleftrightarrow> x + 4 \<le> y \<and> apart (y # ys)"
| "apart ys \<longleftrightarrow> True"

definition arranged :: "screen \<Rightarrow> bool" where
  "arranged s = (case s of (r, u, w) \<Rightarrow> apart (fixed_row r # movable_rows r @ [WndHeight u - 3]))"

lemma LONG_height: "room (r, u, w) \<Longrightarrow> LONG (WndHeight u - 3) = WndHeight u - 3"
  by (intro LONG_small) (auto simp: room_def fixed_row_def split: if_splits)

text \<open>The movable lines after a pass, which leaves the others alone.\<close>

fun pull_down :: "int \<Rightarrow> DivLine list \<Rightarrow> DivLine list" where
  "pull_down p [] = []"
| "pull_down p (l # v) = (let y = max (py l) (p + 4) in l\<lparr>py := y\<rparr> # pull_down y v)"

fun pull_up :: "int \<Rightarrow> DivLine list \<Rightarrow> DivLine list" where
  "pull_up p [] = []"
| "pull_up p (l # v) = (let y = min (py l) (p - 4) in l\<lparr>py := y\<rparr> # pull_up y v)"

abbreviation fixed :: "DivLine list \<Rightarrow> bool" where
  "fixed \<equiv> list_all (\<lambda>l. \<not> canBeMoved l)"

lemma spread_fixed: "fixed v \<Longrightarrow> spread d p v = v"
  by (induction v arbitrary: p) auto

lemma spread_lines:
  assumes "list_all canBeMoved ms" "fixed v"
  shows "spread Downwards p (ms @ v) = pull_down p ms @ v" "spread Upwards p (ms @ v) = pull_up p ms @ v"
proof -
  have m: "max y (p + 4) = (if y - p < 4 then p + 4 else y)" "min y (p - 4) = (if p - y < 4 then p - 4 else y)" for y p :: int
    by auto
  show "spread Downwards p (ms @ v) = pull_down p ms @ v" "spread Upwards p (ms @ v) = pull_up p ms @ v"
    using assms by (induction ms arbitrary: p) (auto simp: Let_def m spread_fixed)
qed

lemma pull_movable: "list_all canBeMoved ms \<Longrightarrow> list_all canBeMoved (pull_down p ms)"
  by (induction ms arbitrary: p) (auto simp: Let_def)

lemma arrange_lines:
  assumes fs: "fixed (e @ [f, l])" and ms: "list_all canBeMoved ms"
  shows "arrange (e @ f # ms @ [l]) = e @ f # rev (pull_up (py l) (rev (pull_down (py f) ms))) @ [l]"
proof -
  have "spread d p (e @ f # v) = e @ f # spread d (py f) v" for d p v using fs by (induction e arbitrary: p) auto
  then have d: "spread_all Downwards (e @ f # ms @ [l]) = e @ f # pull_down (py f) ms @ [l]"
    using fs spread_lines(1) [OF ms, of "[l]"] by (cases e) (auto simp: spread_all_def)
  have r: "fixed (f # rev e)" using fs by (simp add: list_all_rev)
  show ?thesis unfolding arrange_def d
    using fs spread_lines(2) [OF _ r, of "rev (pull_down (py f) ms)"] pull_movable [OF ms]
    by (simp add: spread_all_def list_all_rev)
qed

section \<open>Keeping the height of a line\<close>

lemma slide_loop_stop: "\<not> canBeMoved f \<Longrightarrow> slide_loop d (f # v) = (False, f # v)"
  by (cases v) (simp_all add: slide_loop.simps)

lemma slide_loop_one:
  assumes "canBeMoved c" "\<not> canBeMoved l"
  shows "slide_loop d (c # l # v) =
    (if along d (py l - py c) > 4 then (True, c\<lparr>py := py c + along d 1\<rparr> # l # v) else (False, c # l # v))"
  using assms by (cases v) (simp_all add: slide_loop.simps)

lemma slide_loop_two:
  assumes "canBeMoved c" "canBeMoved m" "\<not> canBeMoved l" "py c + 4 \<le> py m" "py m + 4 \<le> py l"
  shows "slide_loop Downwards [c, m, l] =
    (if py c + 8 < py l then (True, [c\<lparr>py := py c + 1\<rparr>, m\<lparr>py := max (py m) (py c + 5)\<rparr>, l]) else (False, [c, m, l]))"
proof (cases "py m - py c > 4")
  case True
  then have "max (py m) (py c + 5) = py m" "py c + 8 < py l" using assms by auto
  then show ?thesis using True assms by (simp add: slide_loop.simps [of _ "c # _"])
next
  case False
  then have m: "py m = py c + 4" using assms by simp
  let ?m = "m\<lparr>py := py m + 1\<rparr>"
  have s: "slide Downwards 0 [c, m, l] = (if py l - py m > 4 then Some (1, [c, ?m, l]) else None)"
    using assms m by simp
  have "slide_loop Downwards [c, ?m, l] = (True, [c\<lparr>py := py c + 1\<rparr>, ?m, l])"
    using assms m by (simp add: slide_loop.simps [of _ "c # _"])
  then show ?thesis unfolding slide_loop.simps [of _ "[c, m, l]"] s using m assms by auto
qed

lemma keep_one:
  assumes "\<not> canBeMoved f" "canBeMoved c" "\<not> canBeMoved l" "py c + 4 \<le> py l"
  shows "keep_loop (f # e, [c, l]) = (f # e, [c\<lparr>py := max (py c) (min (py f + height c + 1) (py l - 4))\<rparr>, l])"
  using assms
proof (induction "nat (height c + 1 - (py c - py f))" arbitrary: c rule: less_induct)
  case less
  show ?case
  proof (cases "py c - py f < height c + 1 \<and> py c + 4 < py l")
    case True
    let ?c = "c\<lparr>py := py c + 1\<rparr>"
    have "addLine (f # e, [c, l]) = (True, f # e, [?c, l])"
      using less True by (simp add: addLine_def slide_loop_one)
    then have "keep_loop (f # e, [c, l]) = keep_loop (f # e, [?c, l])"
      using True by (simp add: keep_loop.simps [of "(_, [c, _])"])
    then show ?thesis using less.hyps [of ?c] less.prems True by simp
  next
    case False
    then have "max (py c) (min (py f + height c + 1) (py l - 4)) = py c" using less.prems by auto
    moreover have "keep_loop (f # e, [c, l]) = (f # e, [c, l])"
      using less.prems False by (auto simp: keep_loop.simps [of "(_, [c, _])"] addLine_def slide_loop_one slide_loop_stop)
    ultimately show ?thesis by simp
  qed
qed

lemma keep_first:
  assumes "\<not> canBeMoved f" "canBeMoved c" "canBeMoved m" "\<not> canBeMoved l" "py c + 4 \<le> py m" "py m + 4 \<le> py l"
  shows "keep_loop (f # e, [c, m, l]) =
    (let y = max (py c) (min (py f + height c + 1) (py l - 8))
     in (f # e, [c\<lparr>py := y\<rparr>, m\<lparr>py := max (py m) (y + 4)\<rparr>, l]))"
  using assms
proof (induction "nat (height c + 1 - (py c - py f))" arbitrary: c m rule: less_induct)
  case less
  show ?case
  proof (cases "py c - py f < height c + 1 \<and> py c + 8 < py l")
    case True
    let ?c = "c\<lparr>py := py c + 1\<rparr>" and ?m = "m\<lparr>py := max (py m) (py c + 5)\<rparr>"
    have "addLine (f # e, [c, m, l]) = (True, f # e, [?c, ?m, l])"
      using less True by (simp add: addLine_def slide_loop_two)
    then have k: "keep_loop (f # e, [c, m, l]) = keep_loop (f # e, [?c, ?m, l])"
      using True by (simp add: keep_loop.simps [of "(_, [c, _, _])"])
    have "keep_loop (f # e, [?c, ?m, l]) =
      (let y = max (py ?c) (min (py f + height ?c + 1) (py l - 8)) in (f # e, [?c\<lparr>py := y\<rparr>, ?m\<lparr>py := max (py ?m) (y + 4)\<rparr>, l]))"
      using less.prems True by (intro less.hyps) auto
    then show ?thesis unfolding k using True by (auto simp: Let_def)
  next
    case False
    then have "max (py c) (min (py f + height c + 1) (py l - 8)) = py c" "max (py m) (py c + 4) = py m"
      using less.prems by auto
    moreover have "keep_loop (f # e, [c, m, l]) = (f # e, [c, m, l])"
      using less.prems False by (auto simp: keep_loop.simps [of "(_, [c, _, _])"] addLine_def slide_loop_two slide_loop_stop)
    ultimately show ?thesis by simp
  qed
qed

lemma keep_second:
  assumes "\<not> canBeMoved f" "canBeMoved m" "canBeMoved c" "\<not> canBeMoved l" "py f + 4 \<le> py m" "py m + 4 \<le> py c" "py c + 4 \<le> py l"
  shows "keep_loop (m # f # e, [c, l]) =
    (let y = max (py c) (min (py m + height c + 1) (py l - 4))
     in (m\<lparr>py := min (py m) (max (py f + 4) (y - height c - 1))\<rparr> # f # e, [c\<lparr>py := y\<rparr>, l]))"
  using assms
proof (induction "nat (height c + 1 - (py c - py m))" arbitrary: c m rule: less_induct)
  case less
  let ?goal = "\<lambda>m c. let y = max (py c) (min (py m + height c + 1) (py l - 4))
     in (m\<lparr>py := min (py m) (max (py f + 4) (y - height c - 1))\<rparr> # f # e, [c\<lparr>py := y\<rparr>, l])"
  consider (down) "py c - py m < height c + 1" "py c + 4 < py l"
    | (up) "py c - py m < height c + 1" "py c + 4 = py l" "py f + 4 < py m"
    | (stuck) "py c - py m < height c + 1" "py c + 4 = py l" "py f + 4 = py m"
    | (enough) "py c - py m \<ge> height c + 1"
    using less.prems by fastforce
  then show ?case
  proof cases
    case down
    let ?c = "c\<lparr>py := py c + 1\<rparr>"
    have "addLine (m # f # e, [c, l]) = (True, m # f # e, [?c, l])"
      using less down by (simp add: addLine_def slide_loop_one)
    then have k: "keep_loop (m # f # e, [c, l]) = keep_loop (m # f # e, [?c, l])"
      using down by (simp add: keep_loop.simps [of "(_, [c, _])"])
    have "keep_loop (m # f # e, [?c, l]) = ?goal m ?c" using less.prems down by (intro less.hyps) auto
    then show ?thesis unfolding k using down by (simp add: Let_def)
  next
    case up
    let ?m = "m\<lparr>py := py m - 1\<rparr>"
    have "addLine (m # f # e, [c, l]) = (True, ?m # f # e, [c, l])"
      using less.prems up by (simp add: addLine_def slide_loop_one)
    then have k: "keep_loop (m # f # e, [c, l]) = keep_loop (?m # f # e, [c, l])"
      using up by (simp add: keep_loop.simps [of "(_, [c, _])"])
    have "keep_loop (?m # f # e, [c, l]) = ?goal ?m c" using less.prems up by (intro less.hyps) auto
    then show ?thesis unfolding k using up by (simp add: Let_def)
  next
    case stuck
    then have "keep_loop (m # f # e, [c, l]) = (m # f # e, [c, l])"
      using less.prems by (simp add: keep_loop.simps [of "(_, [c, _])"] addLine_def slide_loop_one)
    then show ?thesis using stuck less.prems by (simp add: Let_def)
  next
    case enough
    then have "keep_loop (m # f # e, [c, l]) = (m # f # e, [c, l])" by (simp add: keep_loop.simps [of "(_, [c, _])"])
    then show ?thesis using enough less.prems by (simp add: Let_def)
  qed
qed

section \<open>The lines of a layout\<close>

definition head_lines :: "layout \<Rightarrow> DivLine list" where
  "head_lines r = emplace_visible RegsDisasm (RegsDisasmDivLineY r) False
     [\<lparr>line_var = First, py = 0, canBeMoved = False, height = 0\<rparr>]"

lemma head_lines_fixed:
  obtains e f where "head_lines r = e @ [f]" "fixed (e @ [f])" "py f = fixed_row r"
    "\<And>x. x \<in> set (e @ [f]) \<Longrightarrow> line_var x \<noteq> DisasmCode \<and> line_var x \<noteq> CodeLog"
    "\<And>r'. RegsDisasmDivLineY r' = RegsDisasmDivLineY r \<Longrightarrow> fold write_back (e @ [f]) r' = r'"
proof (rule that [of "butlast (head_lines r)" "last (head_lines r)"])
  fix r' :: layout
  assume "RegsDisasmDivLineY r' = RegsDisasmDivLineY r"
  then show "fold write_back (butlast (head_lines r) @ [last (head_lines r)]) r' = r'"
    by (cases r') (simp add: head_lines_def emplace_visible_def write_back_def)
qed (auto simp: head_lines_def emplace_visible_def fixed_row_def split: if_splits)

text \<open>The rows of one movable line between \<open>f\<close> and \<open>l\<close>, and of two.\<close>

definition settle :: "int \<Rightarrow> int \<Rightarrow> int \<Rightarrow> int" where
  "settle f l y = min (max y (f + 4)) (l - 4)"

definition settle_two :: "int \<Rightarrow> int \<Rightarrow> int \<Rightarrow> int \<Rightarrow> int \<times> int" where
  "settle_two f l y z =
     (let y = max y (f + 4); z = min (max z (y + 4)) (l - 4) in (min y (z - 4), z))"

lemma arranged_one:
  assumes "fixed (e @ [f, l])" "canBeMoved m"
  shows "arrange (e @ [f, m, l]) = e @ [f, m\<lparr>py := settle (py f) (py l) (py m)\<rparr>, l]"
  using assms arrange_lines [of e f l "[m]"] by (simp add: settle_def)

lemma arranged_two:
  assumes "fixed (e @ [f, l])" "canBeMoved m" "canBeMoved n"
  shows "arrange (e @ [f, m, n, l]) =
    (case settle_two (py f) (py l) (py m) (py n) of (y, z) \<Rightarrow> e @ [f, m\<lparr>py := y\<rparr>, n\<lparr>py := z\<rparr>, l])"
  using assms arrange_lines [of e f l "[m, n]"] by (simp add: settle_two_def Let_def)

lemma keep_height_none:
  assumes "\<And>x. x \<in> set v \<Longrightarrow> canBeMoved x \<Longrightarrow> Some (line_var x) \<noteq> keep"
  shows "keep_height keep v = v"
proof -
  have "takeWhile (\<lambda>l. \<not> (canBeMoved l \<and> Some (line_var l) = keep)) v = v" using assms by (auto simp: takeWhile_eq_all_conv)
  then have "length (takeWhile (\<lambda>l. \<not> (canBeMoved l \<and> Some (line_var l) = keep)) v) = length v" by (rule arg_cong)
  then show ?thesis unfolding keep_height_def Let_def by (simp only: less_irrefl simp_thms if_False)
qed

lemma keep_height_at:
  assumes "\<And>x. x \<in> set v \<Longrightarrow> canBeMoved x \<Longrightarrow> line_var x \<noteq> k" "v \<noteq> []" "canBeMoved c" "line_var c = k"
  shows "keep_height (Some k) (v @ c # w) = (case keep_loop (rev v, c # w) of (before, behind) \<Rightarrow> rev before @ behind)"
proof -
  have "takeWhile (\<lambda>l. \<not> (canBeMoved l \<and> Some (line_var l) = Some k)) (v @ c # w) = v"
    using assms by (subst takeWhile_append2) auto
  then show ?thesis using assms(2) by (simp add: keep_height_def)
qed

text \<open>A row that grows to a target and a row that shrinks to it, within a bound.\<close>

definition grown :: "int \<Rightarrow> int \<Rightarrow> int \<Rightarrow> int" where
  "grown y target bound = max y (min target bound)"

definition shrunk :: "int \<Rightarrow> int \<Rightarrow> int \<Rightarrow> int" where
  "shrunk y bound target = min y (max bound target)"

definition between :: "int \<Rightarrow> int \<Rightarrow> int" where
  "between f y = max 0 (y - f - 1)"

definition settled :: "div_var option \<Rightarrow> int \<Rightarrow> int \<Rightarrow> int \<Rightarrow> int \<Rightarrow> int \<times> int" where
  "settled keep f l D C =
     (if 0 \<le> D \<and> 0 \<le> C then
        (case settle_two f l D C of (y, z) \<Rightarrow>
           if keep = Some DisasmCode then
             (let y = grown y (f + between f D + 1) (l - 8) in (y, max z (y + 4)))
           else if keep = Some CodeLog then
             (let z = grown z (y + between D C + 1) (l - 4) in (shrunk y (f + 4) (z - between D C - 1), z))
           else (y, z))
      else (if 0 \<le> D then settle f l D else D, if 0 \<le> C then settle f l C else C))"

lemma grown_bounds: "y \<le> grown y t b" "y \<le> b \<Longrightarrow> grown y t b \<le> b"
  by (auto simp: grown_def)

lemma shrunk_bounds: "shrunk y b t \<le> y" "b \<le> y \<Longrightarrow> b \<le> shrunk y b t"
  by (auto simp: shrunk_def)

lemmas keep_first' = keep_first [folded grown_def]
lemmas keep_second' = keep_second [folded grown_def shrunk_def]

lemma settle_apart:
  assumes "f + 8 \<le> l" shows "f + 4 \<le> settle f l y" "settle f l y + 4 \<le> l"
  using assms by (auto simp: settle_def)

lemma settle_two_apart:
  assumes "f + 12 \<le> l" "settle_two f l y z = (y', z')" shows "f + 4 \<le> y'" "y' + 4 \<le> z'" "z' + 4 \<le> l"
  using assms unfolding settle_two_def Let_def by (simp_all only: prod.inject) linarith+

lemma settle_kept:
  assumes "f + 8 \<le> l" shows "max (settle f l y) (min (f + max 0 (y - f - 1) + 1) (l - 4)) = settle f l y"
  using assms unfolding settle_def by linarith

definition shown :: "layout \<Rightarrow> ui \<Rightarrow> div_var option \<Rightarrow> DivLine list" where
  "shown r u keep = keep_height keep (arrange (GetVisibleDivLines r u))"

definition checked :: "div_var option \<Rightarrow> screen \<Rightarrow> int \<times> int" where
  "checked keep s = (case s of (r, u, w) \<Rightarrow>
     settled keep (fixed_row r) (WndHeight u - 3) (DisasmCodeDivLineY r) (CodeLogDivLineY r))"

definition shown_ok :: "layout \<Rightarrow> ui \<Rightarrow> DivLine list \<Rightarrow> int \<Rightarrow> int \<Rightarrow> bool" where
  "shown_ok r u v D C \<longleftrightarrow>
     fold write_back v r = r\<lparr>DisasmCodeDivLineY := D, CodeLogDivLineY := C\<rparr> \<and>
     map py v = map py (head_lines r) @ visible D @ visible C @ [WndHeight u - 3] \<and>
     code_cursor_y 0 v = (if 0 \<le> C then (if 0 \<le> D then D else fixed_row r) + 1 else 0)"

lemma code_cursor_skip:
  "(\<And>x. x \<in> set v \<Longrightarrow> line_var x \<noteq> CodeLog) \<Longrightarrow> v \<noteq> [] \<Longrightarrow> code_cursor_y p (v @ w) = code_cursor_y (py (last v)) w"
  by (induction v arbitrary: p) auto

lemma shown_hidden:
  assumes "room (r, u, w)" "DisasmCodeDivLineY r < 0" "CodeLogDivLineY r < 0"
  shows "shown_ok r u (shown r u keep) (DisasmCodeDivLineY r) (CodeLogDivLineY r)"
proof -
  obtain e f where h: "head_lines r = e @ [f]" "fixed (e @ [f])" "py f = fixed_row r"
    and vars: "\<And>x. x \<in> set (e @ [f]) \<Longrightarrow> line_var x \<noteq> DisasmCode \<and> line_var x \<noteq> CodeLog"
    and wb: "\<And>r'. RegsDisasmDivLineY r' = RegsDisasmDivLineY r \<Longrightarrow> fold write_back (e @ [f]) r' = r'"
    using head_lines_fixed by metis
  obtain l where v: "GetVisibleDivLines r u = e @ f # [] @ [l]" "\<not> canBeMoved l" "py l = WndHeight u - 3" "line_var l = Last"
    using assms(2,3) h(1) LONG_height [OF assms(1)]
    by (auto simp: GetVisibleDivLines_def head_lines_def [symmetric] Let_def emplace_visible_def [of DisasmCode] emplace_visible_def [of CodeLog])
  have a: "arrange (GetVisibleDivLines r u) = (e @ [f]) @ [l]" unfolding v using arrange_lines [of e f l "[]"] h v by simp
  have "shown r u keep = (e @ [f]) @ [l]" unfolding shown_def a
    using h(2) v(2) by (intro keep_height_none) (auto simp: list_all_iff)
  then show ?thesis
    using assms(2,3) wb [of r] vars v h by (simp add: shown_ok_def write_back_def code_cursor_skip [of "e @ [f]", simplified] visible_def)
qed

lemma shown_one_lines:
  assumes fx: "fixed (e @ [f, l])" and m: "canBeMoved m" "height m = max 0 (py m - py f - 1)"
    and vars: "\<And>x. x \<in> set (e @ [f]) \<Longrightarrow> line_var x \<noteq> line_var m" and room: "py f + 8 \<le> py l"
  shows "keep_height keep (arrange (e @ [f, m, l])) = e @ [f, m\<lparr>py := settle (py f) (py l) (py m)\<rparr>, l]"
proof -
  let ?m = "m\<lparr>py := settle (py f) (py l) (py m)\<rparr>"
  have a: "arrange (e @ [f, m, l]) = (e @ [f]) @ ?m # [l]" using arranged_one [of e f l m] fx m(1) by simp
  show ?thesis
  proof (cases "keep = Some (line_var m)")
    case True
    have "keep_loop (rev (e @ [f]), [?m, l]) = (rev (e @ [f]), [?m, l])"
      using keep_one [of f ?m l "rev e"] fx m settle_apart [OF room] settle_kept [OF room] by simp
    then show ?thesis unfolding a True using m(1) vars by (subst keep_height_at) auto
  next
    case False
    then show ?thesis unfolding a using fx by (subst keep_height_none) (auto simp: list_all_iff)
  qed
qed

lemma shown_one:
  assumes room: "room (r, u, w)" and x: "(0 \<le> DisasmCodeDivLineY r) \<noteq> (0 \<le> CodeLogDivLineY r)"
    and DC: "checked keep (r, u, w) = (D, C)"
  shows "shown_ok r u (shown r u keep) D C"
proof -
  obtain e f where h: "head_lines r = e @ [f]" "fixed (e @ [f])" "py f = fixed_row r"
    and vars: "\<And>x. x \<in> set (e @ [f]) \<Longrightarrow> line_var x \<noteq> DisasmCode \<and> line_var x \<noteq> CodeLog"
    and wb: "\<And>r'. RegsDisasmDivLineY r' = RegsDisasmDivLineY r \<Longrightarrow> fold write_back (e @ [f]) r' = r'"
    using head_lines_fixed by metis
  let ?y = "if 0 \<le> DisasmCodeDivLineY r then DisasmCodeDivLineY r else CodeLogDivLineY r"
  define m where "m = \<lparr>line_var = if 0 \<le> DisasmCodeDivLineY r then DisasmCode else CodeLog, py = ?y, canBeMoved = True,
    height = max 0 (?y - py f - 1)\<rparr>"
  obtain l where v: "GetVisibleDivLines r u = e @ [f, m, l]" and l: "\<not> canBeMoved l" "py l = WndHeight u - 3" "line_var l = Last"
    using x h(1) LONG_height [OF room]
    by (auto simp: GetVisibleDivLines_def head_lines_def [symmetric] Let_def emplace_visible_def [of DisasmCode]
        emplace_visible_def [of CodeLog] getHeight_def max_def m_def)
  have m: "canBeMoved m" "height m = max 0 (py m - py f - 1)"
      "line_var m = (if 0 \<le> DisasmCodeDivLineY r then DisasmCode else CodeLog)" "py m = ?y" by (simp_all add: m_def)
  have room': "py f + 8 \<le> py l" using room x h l by (auto simp: room_def movable_rows_def visible_def split: if_splits)
  have s: "shown r u keep = e @ [f] @ [m\<lparr>py := settle (py f) (py l) (py m)\<rparr>, l]"
    unfolding shown_def v using h l m vars room' by (subst shown_one_lines) (auto split: if_splits)
  have "fixed_row r + 8 \<le> WndHeight u - 3" using room' h l by simp
  note a = settle_apart [OF this]
  have f0: "0 \<le> fixed_row r" by (simp add: fixed_row_def)
  have "0 \<le> settle (fixed_row r) (WndHeight u - 3) y" for y using a(1) [of y] f0 by linarith
  note nn = this
  show ?thesis
  proof (cases "0 \<le> DisasmCodeDivLineY r")
    case True
    then have "D = settle (py f) (py l) (py m)" "C = CodeLogDivLineY r" "C < 0"
      using x DC h l m by (auto simp: checked_def settled_def)
    then show ?thesis unfolding s using True x wb [of r] vars h l m nn
      by (simp add: shown_ok_def write_back_def code_cursor_skip [of "e @ [f]", simplified] visible_def)
  next
    case False
    then have "C = settle (py f) (py l) (py m)" "D = DisasmCodeDivLineY r" "D < 0"
      using x DC h l m by (auto simp: checked_def settled_def)
    then show ?thesis unfolding s using False x wb [of r] vars h l m nn
      by (simp add: shown_ok_def write_back_def code_cursor_skip [of "e @ [f]", simplified] visible_def)
  qed
qed

lemma shown_two_lines:
  assumes fx: "fixed (e @ [f, l])" and mn: "canBeMoved m" "canBeMoved n" "height m = between (py f) (py m)" "height n = between (py m) (py n)"
    and var: "line_var m = DisasmCode" "line_var n = CodeLog"
    and vars: "\<And>x. x \<in> set (e @ [f]) \<Longrightarrow> line_var x \<noteq> DisasmCode \<and> line_var x \<noteq> CodeLog" and room: "py f + 12 \<le> py l"
    and nn: "0 \<le> py m" "0 \<le> py n" and DC: "settled keep (py f) (py l) (py m) (py n) = (D, C)"
  shows "keep_height keep (arrange (e @ [f, m, n, l])) = e @ [f, m\<lparr>py := D\<rparr>, n\<lparr>py := C\<rparr>, l]"
proof -
  obtain y z where yz: "settle_two (py f) (py l) (py m) (py n) = (y, z)" by (cases "settle_two (py f) (py l) (py m) (py n)")
  note ap = settle_two_apart [OF room yz]
  let ?m = "m\<lparr>py := y\<rparr>" and ?n = "n\<lparr>py := z\<rparr>"
  have a: "arrange (e @ [f, m, n, l]) = e @ [f, ?m, ?n, l]" using arranged_two [of e f l m n] fx mn yz by simp
  consider (m) "keep = Some DisasmCode" | (n) "keep = Some CodeLog" | (none) "keep \<noteq> Some DisasmCode" "keep \<noteq> Some CodeLog" by blast
  then show ?thesis
  proof cases
    case m
    have "keep_height keep ((e @ [f]) @ ?m # [?n, l]) = (case keep_loop (rev (e @ [f]), [?m, ?n, l]) of (before, behind) \<Rightarrow> rev before @ behind)"
      unfolding m using vars mn(1) var(1) by (intro keep_height_at) auto
    moreover have "D = grown y (py f + height m + 1) (py l - 8) \<and> C = max z (D + 4)"
      using DC [symmetric] nn yz mn(3) by (simp add: settled_def m Let_def)
    ultimately show ?thesis
      unfolding a using keep_first' [of f ?m ?n l "rev e"] fx mn(1,2) ap by (simp add: Let_def)
  next
    case n
    have "keep_height keep ((e @ [f, ?m]) @ ?n # [l]) = (case keep_loop (rev (e @ [f, ?m]), [?n, l]) of (before, behind) \<Rightarrow> rev before @ behind)"
      unfolding n using vars mn(2) var by (intro keep_height_at) auto
    moreover have "C = grown z (y + height n + 1) (py l - 4) \<and> D = shrunk y (py f + 4) (C - height n - 1)"
      using DC [symmetric] nn yz mn(4) by (simp add: settled_def n Let_def)
    ultimately show ?thesis
      unfolding a using keep_second' [of f ?m ?n l "rev e"] fx mn(1,2) ap by (simp add: Let_def)
  next
    case none
    then show ?thesis unfolding a using fx var mn DC nn yz
      by (subst keep_height_none) (auto simp: list_all_iff settled_def)
  qed
qed

lemma settled_two_apart:
  assumes "settled keep f l D C = (D', C')" "0 \<le> D" "0 \<le> C" "f + 12 \<le> l"
  shows "f + 4 \<le> D'" "D' + 4 \<le> C'" "C' + 4 \<le> l"
proof -
  obtain y z where yz: "settle_two f l D C = (y, z)" by (cases "settle_two f l D C")
  note ap = settle_two_apart [OF assms(4) yz]
  consider (m) "D' = grown y (f + between f D + 1) (l - 8)" "C' = max z (D' + 4)"
    | (n) "C' = grown z (y + between D C + 1) (l - 4)" "D' = shrunk y (f + 4) (C' - between D C - 1)"
    | (none) "D' = y" "C' = z"
    using assms(1) [symmetric] assms(2,3) yz
    by (cases "keep = Some DisasmCode"; cases "keep = Some CodeLog") (simp_all add: settled_def Let_def)
  then have "f + 4 \<le> D' \<and> D' + 4 \<le> C' \<and> C' + 4 \<le> l"
  proof cases
    case m
    then have "y \<le> D'" "D' \<le> l - 8" using ap by (simp_all add: grown_bounds)
    then show ?thesis using m(2) ap by simp
  next
    case n
    then have "z \<le> C'" "C' \<le> l - 4" "D' \<le> y" "f + 4 \<le> D'" using ap by (simp_all add: grown_bounds shrunk_bounds)
    then show ?thesis using ap by simp
  next
    case none
    then show ?thesis using ap by simp
  qed
  then show "f + 4 \<le> D'" "D' + 4 \<le> C'" "C' + 4 \<le> l" by auto
qed

lemma shown_two:
  assumes room: "room (r, u, w)" and x: "0 \<le> DisasmCodeDivLineY r" "0 \<le> CodeLogDivLineY r"
    and DC: "checked keep (r, u, w) = (D, C)"
  shows "shown_ok r u (shown r u keep) D C"
proof -
  obtain e f where h: "head_lines r = e @ [f]" "fixed (e @ [f])" "py f = fixed_row r"
    and vars: "\<And>x. x \<in> set (e @ [f]) \<Longrightarrow> line_var x \<noteq> DisasmCode \<and> line_var x \<noteq> CodeLog"
    and wb: "\<And>r'. RegsDisasmDivLineY r' = RegsDisasmDivLineY r \<Longrightarrow> fold write_back (e @ [f]) r' = r'"
    using head_lines_fixed by metis
  define m where "m = \<lparr>line_var = DisasmCode, py = DisasmCodeDivLineY r, canBeMoved = True, height = between (py f) (DisasmCodeDivLineY r)\<rparr>"
  define n where "n = \<lparr>line_var = CodeLog, py = CodeLogDivLineY r, canBeMoved = True, height = between (DisasmCodeDivLineY r) (CodeLogDivLineY r)\<rparr>"
  obtain l where v: "GetVisibleDivLines r u = e @ [f, m, n, l]" and l: "\<not> canBeMoved l" "py l = WndHeight u - 3" "line_var l = Last"
    using x h(1) LONG_height [OF room]
    by (auto simp: GetVisibleDivLines_def head_lines_def [symmetric] Let_def emplace_visible_def [of DisasmCode]
        emplace_visible_def [of CodeLog] getHeight_def between_def max_def m_def n_def)
  have m: "canBeMoved m" "height m = between (py f) (py m)" "line_var m = DisasmCode" "py m = DisasmCodeDivLineY r"
    and n: "canBeMoved n" "height n = between (py m) (py n)" "line_var n = CodeLog" "py n = CodeLogDivLineY r"
    by (simp_all add: m_def n_def)
  have room': "py f + 12 \<le> py l" using room x h l by (auto simp: room_def movable_rows_def visible_def split: if_splits)
  have DC': "settled keep (py f) (py l) (py m) (py n) = (D, C)" using DC h l m n by (simp add: checked_def)
  have s: "shown r u keep = e @ [f] @ [m\<lparr>py := D\<rparr>, n\<lparr>py := C\<rparr>, l]"
    unfolding shown_def v using shown_two_lines [of e f l m n keep D C] h l m n vars room' DC' x by auto
  have f0: "0 \<le> py f" using h(3) by (simp add: fixed_row_def)
  have nn: "0 \<le> D" "0 \<le> C" using settled_two_apart [OF DC'] m n x room' f0 by auto
  show ?thesis unfolding s using x wb [of r] vars h l m n nn
    by (simp add: shown_ok_def write_back_def code_cursor_skip [of "e @ [f]", simplified] visible_def)
qed

lemma shown_spec:
  assumes "room (r, u, w)" "checked keep (r, u, w) = (D, C)"
  shows "shown_ok r u (shown r u keep) D C"
proof -
  consider "DisasmCodeDivLineY r < 0" "CodeLogDivLineY r < 0" | "(0 \<le> DisasmCodeDivLineY r) \<noteq> (0 \<le> CodeLogDivLineY r)"
    | "0 \<le> DisasmCodeDivLineY r" "0 \<le> CodeLogDivLineY r" by linarith
  then show ?thesis
  proof cases
    case 1
    then show ?thesis using shown_hidden [OF assms(1)] assms(2) by (simp add: checked_def settled_def)
  qed (use shown_one shown_two assms in blast)+
qed

section \<open>The check of the layout\<close>

lemma CheckDivLineYs_spec:
  assumes "room (r, u, w)" "checked keep (r, u, w) = (D, C)"
  shows "\<exists>u' w'. CheckDivLineYs keep (r, u, w) =
      (r\<lparr>DisasmCodeDivLineY := D, CodeLogDivLineY := C, PrevWndWidth := WndWidth u, PrevWndHeight := WndHeight u,
         PrevLayout := map py (head_lines r) @ visible D @ visible C @ [WndHeight u - 3]\<rparr>, u', w') \<and>
      WndWidth u' = WndWidth u \<and> WndHeight u' = WndHeight u \<and>
      (PrevWndWidth r = WndWidth u \<longrightarrow> PrevWndHeight r = WndHeight u \<longrightarrow>
       PrevLayout r = map py (head_lines r) @ visible D @ visible C @ [WndHeight u - 3] \<longrightarrow> u' = u \<and> w' = w)"
  using shown_spec [OF assms]
  by (simp add: CheckDivLineYs_def shown_def [symmetric] Let_def shown_ok_def layout_changed_def reset_cursor_def)

lemma settled_arranged:
  assumes "settled keep f l D C = (D', C')" "f + 4 * (int (length (visible D @ visible C)) + 1) \<le> l" "0 \<le> f"
  shows "(0 \<le> D' \<longleftrightarrow> 0 \<le> D) \<and> (0 \<le> C' \<longleftrightarrow> 0 \<le> C) \<and> apart (f # visible D' @ visible C' @ [l])"
proof (cases "0 \<le> D \<and> 0 \<le> C")
  case True
  then have "f + 12 \<le> l" using assms(2) by (simp add: visible_def)
  note a = settled_two_apart [OF assms(1) _ _ this]
  show ?thesis using a True assms(3) by (simp add: visible_def)
next
  case False
  have e: "D' = (if 0 \<le> D then settle f l D else D)" "C' = (if 0 \<le> C then settle f l C else C)"
    using assms(1) False by (auto simp: settled_def)
  show ?thesis
  proof (cases "0 \<le> D \<or> 0 \<le> C")
    case True
    then have "f + 8 \<le> l" using assms(2) by (auto simp: visible_def split: if_splits)
    note a = settle_apart [OF this]
    show ?thesis using a [of D] a [of C] e False True assms(3) by (auto simp: visible_def)
  next
    case False
    then show ?thesis using e assms(2) by (simp add: visible_def)
  qed
qed

lemma settled_stable:
  assumes "apart (f # visible D @ visible C @ [l])"
  shows "settled None f l D C = (D, C)"
  using assms by (auto simp: settled_def visible_def settle_def settle_two_def Let_def split: if_splits)

lemma check_arranged:
  assumes "room (r, u, w)" and "CheckDivLineYs keep (r, u, w) = (r', u', w')"
  shows "arranged (r', u', w') \<and> room (r', u', w') \<and> CheckDivLineYs None (r', u', w') = (r', u', w') \<and>
    RegsDisasmDivLineY r' = RegsDisasmDivLineY r \<and>
    (0 \<le> DisasmCodeDivLineY r' \<longleftrightarrow> 0 \<le> DisasmCodeDivLineY r) \<and> (0 \<le> CodeLogDivLineY r' \<longleftrightarrow> 0 \<le> CodeLogDivLineY r)"
proof -
  obtain D C where DC: "checked keep (r, u, w) = (D, C)" by (cases "checked keep (r, u, w)")
  let ?rows = "map py (head_lines r) @ visible D @ visible C @ [WndHeight u - 3]"
  have c: "r' = r\<lparr>DisasmCodeDivLineY := D, CodeLogDivLineY := C, PrevWndWidth := WndWidth u, PrevWndHeight := WndHeight u, PrevLayout := ?rows\<rparr>"
      "WndWidth u' = WndWidth u" "WndHeight u' = WndHeight u"
    using CheckDivLineYs_spec [OF assms(1) DC] assms(2) by auto
  have a: "(0 \<le> D \<longleftrightarrow> 0 \<le> DisasmCodeDivLineY r) \<and> (0 \<le> C \<longleftrightarrow> 0 \<le> CodeLogDivLineY r) \<and>
      apart (fixed_row r # visible D @ visible C @ [WndHeight u - 3])"
    using DC assms(1) by (intro settled_arranged) (auto simp: checked_def room_def movable_rows_def fixed_row_def)
  have same: "fixed_row r' = fixed_row r" "head_lines r' = head_lines r" by (simp_all add: c fixed_row_def head_lines_def)
  have "length (visible D) = length (visible (DisasmCodeDivLineY r))" "length (visible C) = length (visible (CodeLogDivLineY r))"
    using a by (auto simp: visible_def)
  then have rm: "room (r', u', w')" using assms(1) c same by (simp add: room_def movable_rows_def)
  have ch: "checked None (r', u', w') = (D, C)" using a same settled_stable c by (simp add: checked_def)
  have "CheckDivLineYs None (r', u', w') = (r', u', w')"
    using CheckDivLineYs_spec [OF rm ch] same by (auto simp: c)
  then show ?thesis using a rm same c by (simp add: arranged_def movable_rows_def)
qed

text \<open>
  C9: The check of the layout arranges it: whatever the rows of the dividing lines were, as long as
  there is room for the visible windows, the lines then stand in the order of the windows and leave at
  least three rows to each of the disassembly, script and log windows. The same windows are visible,
  and a second check changes nothing, so it neither moves a line nor resets the cursor.
\<close>

theorem layout_arranged:
  assumes "room (r, u, w)" and "CheckDivLineYs keep (r, u, w) = (r', u', w')"
  shows "arranged (r', u', w') \<and> room (r', u', w') \<and> CheckDivLineYs None (r', u', w') = (r', u', w') \<and>
    RegsDisasmDivLineY r' = RegsDisasmDivLineY r \<and>
    (0 \<le> DisasmCodeDivLineY r' \<longleftrightarrow> 0 \<le> DisasmCodeDivLineY r) \<and> (0 \<le> CodeLogDivLineY r' \<longleftrightarrow> 0 \<le> CodeLogDivLineY r)"
  using assms by (rule check_arranged)

definition example_layout :: screen where
  "example_layout =
     (\<lparr>fbWidth = 800, fbHeight = 600, fbStride = 3200, fbMapSize = 1920000, RegsDisasmDivLineY = 7, DisasmCodeDivLineY = 13,
       CodeLogDivLineY = 40, PrevWndWidth = 0, PrevWndHeight = 0, PrevLayout = [],
       RegsWindow = \<lparr>rectX0 = 0, rectY0 = 0, rectX1 = 0, rectY1 = 0\<rparr>, DisasmWindow = \<lparr>rectX0 = 0, rectY0 = 0, rectX1 = 0, rectY1 = 0\<rparr>,
       CodeWindow = \<lparr>rectX0 = 0, rectY0 = 0, rectX1 = 0, rectY1 = 0\<rparr>, LogWindowX0 = 0, LogWindowX1 = 0\<rparr>,
      \<lparr>WndWidth = 80, WndHeight = 25, CursorX = 2, CursorY = 22, CursorDisplayX = -1, CursorDisplayY = -1, LogCursorX = 2,
       LogCursorY = 22, CodeCursorX = 2, CodeCursorY = 14, CursorFocus = FocusLog, nrmClr = 7, hrzClr = 2\<rparr>,
      example_log)"

theorem layout_arranged_witness:
  "(case CheckDivLineYs None example_layout of (r, u, w) \<Rightarrow>
     arranged (r, u, w) \<and> DisasmCodeDivLineY r = 13 \<and> CodeLogDivLineY r = 18 \<and> CodeCursorY u = 14)"
proof -
  obtain r u w where e: "example_layout = (r, u, w)" by (cases example_layout) auto
  have "room example_layout" by code_simp
  then have rm: "room (r, u, w)" by (simp add: e)
  obtain r' u' w' where c: "CheckDivLineYs None (r, u, w) = (r', u', w')" by (cases "CheckDivLineYs None (r, u, w)") auto
  have "(case CheckDivLineYs None example_layout of (r, u, w) \<Rightarrow>
     DisasmCodeDivLineY r = 13 \<and> CodeLogDivLineY r = 18 \<and> CodeCursorY u = 14)" by code_simp
  then show ?thesis using layout_arranged [OF rm c] by (simp add: e c)
qed

section \<open>Windows\<close>

text \<open>The rows of the visible windows, from the top.\<close>

definition window_rows :: "screen \<Rightarrow> (int \<times> int) list" where
  "window_rows s = (case s of (r, u, w) \<Rightarrow>
     (let rows = \<lambda>y q. if 0 \<le> y then [(rectY0 q, rectY1 q)] else [] in
      rows (RegsDisasmDivLineY r) (RegsWindow r) @ rows (DisasmCodeDivLineY r) (DisasmWindow r) @
      rows (CodeLogDivLineY r) (CodeWindow r) @ [(destY0 w, destY1 w)]))"

text \<open>Windows one below the other, with a row between them, from row \<open>y\<close> to row \<open>b\<close>.\<close>

fun stacked :: "int \<Rightarrow> int \<Rightarrow> (int \<times> int) list \<Rightarrow> bool" where
  "stacked y b [] \<longleftrightarrow> False"
| "stacked y b [(y0, y1)] \<longleftrightarrow> y0 = y \<and> y1 = b \<and> y \<le> b"
| "stacked y b ((y0, y1) # ws) \<longleftrightarrow> y0 = y \<and> y \<le> y1 \<and> stacked (y1 + 2) b ws"

lemma GoToEnd_rows: "destY0 (GoToEnd w) = destY0 w" "destY1 (GoToEnd w) = destY1 w"
  by (simp_all add: GoToEnd_def)

lemma row_bounds:
  assumes "arranged (r, u, w)" "WndHeight u < 2 ^ 31"
  shows "fixed_row r + 7 \<le> WndHeight u"
    "0 \<le> DisasmCodeDivLineY r \<Longrightarrow> fixed_row r + 4 \<le> DisasmCodeDivLineY r \<and> DisasmCodeDivLineY r + 7 \<le> WndHeight u"
    "0 \<le> CodeLogDivLineY r \<Longrightarrow> fixed_row r + 4 \<le> CodeLogDivLineY r \<and> CodeLogDivLineY r + 7 \<le> WndHeight u"
    "0 \<le> DisasmCodeDivLineY r \<Longrightarrow> 0 \<le> CodeLogDivLineY r \<Longrightarrow> DisasmCodeDivLineY r + 4 \<le> CodeLogDivLineY r"
  using assms by (auto simp: arranged_def movable_rows_def visible_def split: if_splits)

text \<open>
  C12: In an arranged layout the windows tile the screen: the visible ones lie one below the other,
  with a dividing line between two of them and nothing else, from the row below the upper border to
  the row above the input line; all have the same columns inside the border. The disassembly, script
  and log windows have at least three rows.
\<close>

theorem windows_tile:
  assumes "arranged (r, u, w)" and "WndHeight u < 2 ^ 31" and "2 \<le> WndWidth u" "WndWidth u < 2 ^ 31"
    and "RegsDisasmDivLineY r < 0 \<or> 2 \<le> RegsDisasmDivLineY r" and "place_windows (r, u, w) = (r', u', w')"
  shows "stacked 1 (WndHeight u - 4) (window_rows (r', u', w')) \<and>
    (\<forall>q \<in> {RegsWindow r', DisasmWindow r', CodeWindow r'}. rectX0 q = 1 \<and> rectX1 q = WndWidth u - 2) \<and>
    (0 \<le> DisasmCodeDivLineY r \<longrightarrow> rectY0 (DisasmWindow r') + 2 \<le> rectY1 (DisasmWindow r')) \<and>
    (0 \<le> CodeLogDivLineY r \<longrightarrow> rectY0 (CodeWindow r') + 2 \<le> rectY1 (CodeWindow r')) \<and>
    destY0 w' + 2 \<le> destY1 w'"
proof -
  note b = row_bounds [OF assms(1,2)]
  have f: "0 \<le> fixed_row r" "RegsDisasmDivLineY r \<le> fixed_row r" "0 \<le> RegsDisasmDivLineY r \<Longrightarrow> RegsDisasmDivLineY r = fixed_row r"
    "RegsDisasmDivLineY r < 0 \<Longrightarrow> fixed_row r = 0" by (auto simp: fixed_row_def)
  have c: "ULONG (WndWidth u - 2) = WndWidth u - 2" "ULONG (WndHeight u - 4) = WndHeight u - 4"
    using assms(2-4) b(1) f by (auto simp: ULONG_def)
  have y: "2 \<le> y \<Longrightarrow> y < WndHeight u \<Longrightarrow> ULONG (y - 1) = y - 1 \<and> ULONG (y + 1) = y + 1" for y
    using assms(2) by (simp add: ULONG_def)
  note d = assms(6) [symmetric] place_windows_def place_def resetDest_def window_rows_def GoToEnd_rows c y
  consider "0 \<le> RegsDisasmDivLineY r" | "RegsDisasmDivLineY r < 0" by linarith
  then show ?thesis
    using b f assms(5) d
    by cases (cases "0 \<le> DisasmCodeDivLineY r"; cases "0 \<le> CodeLogDivLineY r"; simp add: Let_def)+
qed

definition example_arranged :: screen where
  "example_arranged = (case example_layout of (r, u, w) \<Rightarrow> (r\<lparr>CodeLogDivLineY := 18\<rparr>, u, w))"

theorem windows_tile_witness:
  "window_rows (place_windows example_arranged) = [(1, 6), (8, 12), (14, 17), (19, 21)] \<and>
   stacked 1 21 (window_rows (place_windows example_arranged))"
proof -
  obtain r u w where e: "example_arranged = (r, u, w)" by (cases example_arranged) auto
  obtain r' u' w' where p: "place_windows (r, u, w) = (r', u', w')" by (cases "place_windows (r, u, w)") auto
  have a: "arranged example_arranged" by code_simp
  have "(case example_arranged of (r, u, w) \<Rightarrow> WndHeight u = 25 \<and> WndWidth u = 80 \<and> RegsDisasmDivLineY r = 7)" by code_simp
  then have h: "WndHeight u = 25" "WndWidth u = 80" "RegsDisasmDivLineY r = 7" by (simp_all add: e)
  have "stacked 1 (WndHeight u - 4) (window_rows (r', u', w'))"
    using windows_tile [of r u w r' u' w'] a h p by (simp add: e)
  moreover have "window_rows (place_windows example_arranged) = [(1, 6), (8, 12), (14, 17), (19, 21)]" by code_simp
  ultimately show ?thesis by (simp add: e p h)
qed

end
