(* ===== verification/Frame_Buffer.thy ===== *)
theory Frame_Buffer
  imports Layout
begin

text \<open>
  The video memory under the debugger's window: \<open>Wnd::SaveOrRestoreFrameBuffer\<close>, which saves the
  pixels that the window covers and puts them back, and \<open>Wnd::DrawAll_Start\<close>, which prepares the
  screen. Video memory and the restore buffer are blocks of bytes; a pixel has four of them. Telling a
  virtual graphics adapter about the changed pixels is not part of the state.
\<close>

section \<open>The model\<close>

record frame =
  VideoMem :: "byte list"
  VideoRestoreBuffer :: "byte list"
  VideoRestoreBufferState :: bool
  VideoRestoreBufferTimer :: int

text \<open>The loop over the pixels of a line: \<open>*dst++ = *src++\<close> on double words.\<close>

fun copy_pixels :: "nat \<Rightarrow> byte list \<Rightarrow> nat \<Rightarrow> byte list \<Rightarrow> nat \<Rightarrow> byte list option" where
  "copy_pixels 0 src s dst d = Some dst"
| "copy_pixels (Suc n) src s dst d =
     (case read_block src s 4 of
        None \<Rightarrow> None
      | Some px \<Rightarrow>
          (case write_block dst d px of
             None \<Rightarrow> None
           | Some dst \<Rightarrow> copy_pixels n src (s + 4) dst (d + 4)))"

text \<open>
  The loop over \<open>n\<close> lines; \<open>pos\<close> is the position in the restore buffer. The direction is \<open>False\<close> to save
  and \<open>True\<close> to restore.
\<close>

fun copy_lines :: "bool \<Rightarrow> layout \<Rightarrow> nat \<Rightarrow> int \<Rightarrow> nat \<Rightarrow> int \<Rightarrow> nat \<Rightarrow> byte list \<times> byte list \<Rightarrow> (byte list \<times> byte list) option" where
  "copy_lines direction r 0 videoX width videoY pos m = Some m"
| "copy_lines direction r (Suc n) videoX width videoY pos m =
     (case m of (video, buf) \<Rightarrow>
        (let lineStart = nat (ULONG (videoY * fbStride r) + ULONG (videoX * 4)) in
         case (if \<not> direction then map_option (\<lambda>buf. (video, buf)) (copy_pixels width video lineStart buf pos)
               else map_option (\<lambda>video. (video, buf)) (copy_pixels width buf pos video lineStart)) of
           None \<Rightarrow> None
         | Some m \<Rightarrow> copy_lines direction r n videoX width (ULONG (videoY + 1)) (pos + 4 * width) m))"

definition SaveOrRestoreFrameBuffer :: "bool \<Rightarrow> layout \<Rightarrow> ui \<Rightarrow> frame \<Rightarrow> frame option" where
  "SaveOrRestoreFrameBuffer direction r u fr =
     (if \<not> CheckWndWidthHeight r (WndWidth u) (WndHeight u) then Some fr
      else
        (let fr = fr\<lparr>VideoRestoreBufferTimer := 0\<rparr>;
             width = ULONG (WndWidth u * GlyphWidth);
             height = ULONG (WndHeight u * GlyphHeight) in
         if ULONG (width * height * 4) > VideoRestoreBufferSize then Some fr
         else if VideoRestoreBufferState fr \<noteq> direction then Some fr
         else
           (let fr = fr\<lparr>VideoRestoreBufferState := \<not> direction\<rparr>;
                centerX = ULONG (fbWidth r - width) div 2;
                centerY = ULONG (fbHeight r - height) div 2
            in map_option (\<lambda>(video, buf). fr\<lparr>VideoMem := video, VideoRestoreBuffer := buf\<rparr>)
                 (copy_lines direction r (nat height) centerX (nat width) centerY 0 (VideoMem fr, VideoRestoreBuffer fr)))))"

text \<open>\<open>dim\<close> is what the graphics adapter reports, zeros when it cannot be asked.\<close>

definition check_screen_dim :: "int \<times> int \<Rightarrow> layout \<Rightarrow> ui \<Rightarrow> layout \<times> ui" where
  "check_screen_dim dim r u =
     (if fst dim \<noteq> 0 \<and> snd dim \<noteq> 0 \<and> (fst dim \<noteq> fbWidth r \<or> snd dim \<noteq> fbHeight r) then
        (let r = r\<lparr>fbWidth := fst dim, fbHeight := snd dim, fbStride := ULONG (fst dim * 4)\<rparr>
         in (r, if \<not> CheckWndWidthHeight r (WndWidth u) (WndHeight u) then u\<lparr>WndWidth := 80, WndHeight := 25\<rparr> else u))
      else (r, u))"

definition DrawAll_Start :: "int \<times> int \<Rightarrow> screen \<times> frame \<Rightarrow> (screen \<times> frame) option" where
  "DrawAll_Start dim sf =
     (case sf of ((r, u, w), fr) \<Rightarrow>
        (let (r, u) = check_screen_dim dim r u;
             (r, u, w) = CheckDivLineYs None (r, u, w)
         in map_option (\<lambda>fr. (place_windows (r, u, w), fr)) (SaveOrRestoreFrameBuffer False r u fr)))"

text \<open>Esc makes a hidden code window visible before it moves the cursor.\<close>

definition SwitchBetweenLogCode_show :: "int \<times> int \<Rightarrow> screen \<times> frame \<Rightarrow> (screen \<times> frame) option" where
  "SwitchBetweenLogCode_show dim sf =
     (case sf of ((r, u, w), fr) \<Rightarrow>
        case (if CodeLogDivLineY r < 0 then DrawAll_Start dim ((r\<lparr>CodeLogDivLineY := - CodeLogDivLineY r\<rparr>, u, w), fr)
              else Some sf) of
          None \<Rightarrow> None
        | Some ((r, u, w), fr) \<Rightarrow> map_option (\<lambda>u. ((r, u, w), fr)) (SwitchBetweenLogCode u))"

section \<open>Copying\<close>

text \<open>\<open>dst'\<close> is \<open>dst\<close> with \<open>n\<close> bytes from \<open>d\<close> on taken from \<open>src\<close>, from \<open>s\<close> on.\<close>

definition copied :: "nat \<Rightarrow> byte list \<Rightarrow> nat \<Rightarrow> byte list \<Rightarrow> nat \<Rightarrow> byte list \<Rightarrow> bool" where
  "copied n src s dst d dst' \<longleftrightarrow> length dst' = length dst \<and>
     (\<forall>j < length dst. dst' ! j = (if d \<le> j \<and> j < d + n then src ! (s + (j - d)) else dst ! j))"

lemma copy_pixels_copied:
  assumes "s + 4 * n \<le> length src" "d + 4 * n \<le> length dst"
  shows "\<exists>dst'. copy_pixels n src s dst d = Some dst' \<and> copied (4 * n) src s dst d dst'"
  using assms
proof (induction n arbitrary: s dst d)
  case 0
  then show ?case by (auto simp: copied_def)
next
  case (Suc n)
  let ?px = "take 4 (drop s src)"
  let ?dst = "take d dst @ ?px @ drop (d + 4) dst"
  have px: "read_block src s 4 = Some ?px" "length ?px = 4" using Suc.prems by (simp_all add: mem_simps)
  have w: "write_block dst d ?px = Some ?dst" using Suc.prems by (simp add: write_block_def)
  have len: "length ?dst = length dst" using Suc.prems px(2) by simp
  obtain dst' where d: "copy_pixels n src (s + 4) ?dst (d + 4) = Some dst'" "copied (4 * n) src (s + 4) ?dst (d + 4) dst'"
    using Suc.IH [of "s + 4" "d + 4" ?dst] Suc.prems unfolding len by auto
  have first: "?dst ! j = (if d \<le> j \<and> j < d + 4 then src ! (s + (j - d)) else dst ! j)" if "j < length dst" for j
    using that Suc.prems by (auto simp: nth_append)
  have "dst' ! j = (if d \<le> j \<and> j < d + 4 * Suc n then src ! (s + (j - d)) else dst ! j)" if "j < length dst" for j
  proof (cases "d + 4 \<le> j \<and> j < d + 4 + 4 * n")
    case True
    then show ?thesis using d(2) that unfolding copied_def len by simp
  next
    case False
    then show ?thesis using d(2) that first [OF that] unfolding copied_def len by auto
  qed
  then show ?case using d px(1) w len by (simp add: copied_def)
qed


text \<open>
  A rectangle of \<open>n\<close> lines of \<open>w\<close> pixels from line \<open>y\<close> and byte \<open>x\<close> of a line on, in a memory with \<open>S\<close>
  bytes per line.
\<close>

definition in_rect :: "nat \<Rightarrow> nat \<Rightarrow> nat \<Rightarrow> nat \<Rightarrow> nat \<Rightarrow> nat \<Rightarrow> bool" where
  "in_rect S x w y n p \<longleftrightarrow> y \<le> p div S \<and> p div S < y + n \<and> x \<le> p mod S \<and> p mod S < x + 4 * w"

lemma in_line:
  fixes p S :: nat
  assumes "x + m \<le> S"
  shows "y * S + x \<le> p \<and> p < y * S + x + m \<longleftrightarrow> p div S = y \<and> x \<le> p mod S \<and> p mod S < x + m"
proof
  assume "p div S = y \<and> x \<le> p mod S \<and> p mod S < x + m"
  moreover have "p = p div S * S + p mod S" by simp
  ultimately show "y * S + x \<le> p \<and> p < y * S + x + m" by (metis add.assoc add_left_mono add_strict_left_mono)
next
  assume h: "y * S + x \<le> p \<and> p < y * S + x + m"
  then have "p - y * S < S" "p = y * S + (p - y * S)" using assms by linarith+
  then have "p div S = y" "p mod S = p - y * S" by (metis div_mult_self3 add.commute add_cancel_right_right div_less less_zeroE not_gr0 mult_0_right, metis mod_less mod_mult_self3)
  then show "p div S = y \<and> x \<le> p mod S \<and> p mod S < x + m" using h by linarith
qed

lemma rect_cell:
  assumes "in_rect S x w y n p"
  shows "p div S - y < n" "p mod S - x < 4 * w" "(y + (p div S - y)) * S + x + (p mod S - x) = p"
proof -
  have p: "y \<le> p div S" "p div S < n + y" "x \<le> p mod S" "p mod S < 4 * w + x" using assms by (simp_all add: in_rect_def add.commute)
  show "p div S - y < n" "p mod S - x < 4 * w" using p by (simp_all add: less_diff_conv2)
  have "x + (p mod S - x) = p mod S" "y + (p div S - y) = p div S" using p by (simp_all only: le_add_diff_inverse)
  then show "(y + (p div S - y)) * S + x + (p mod S - x) = p" by (metis add.assoc div_mult_mod_eq)
qed

definition fits :: "layout \<Rightarrow> nat \<Rightarrow> nat \<Rightarrow> nat \<Rightarrow> nat \<Rightarrow> nat \<Rightarrow> bool" where
  "fits r L x w y n \<longleftrightarrow> 4 * x + 4 * w \<le> nat (fbStride r) \<and> 0 \<le> fbStride r \<and> (y + n) * nat (fbStride r) \<le> L \<and> (y + n) * nat (fbStride r) < 2 ^ 32 \<and> y + n < 2 ^ 32"

lemma ULONG_nat: "n < 2 ^ 32 \<Longrightarrow> ULONG (int n) = int n"
  by (simp add: ULONG_def)

lemma line_start:
  assumes "fits r L x w y (Suc n)"
  shows "nat (ULONG (int y * fbStride r) + ULONG (int x * 4)) = y * nat (fbStride r) + 4 * x"
    "y * nat (fbStride r) + 4 * x + 4 * w \<le> L" "ULONG (int y + 1) = int (y + 1)" "fits r L x w (y + 1) n"
proof -
  let ?S = "nat (fbStride r)"
  have S: "fbStride r = int ?S" using assms by (simp add: fits_def)
  have le: "y * ?S + ?S \<le> (y + Suc n) * ?S" by (simp add: algebra_simps)
  have b: "4 * x + 4 * w \<le> ?S" "(y + Suc n) * ?S \<le> L" "(y + Suc n) * ?S < 2 ^ 32" "y + Suc n < 2 ^ 32" using assms by (simp_all add: fits_def)
  have lt: "y * ?S < 2 ^ 32" "4 * x < 2 ^ 32" using le b by linarith+
  have "ULONG (int (y * ?S)) = int (y * ?S)" "ULONG (int (4 * x)) = int (4 * x)" by (rule ULONG_nat, rule lt)+
  moreover have "int y * fbStride r = int (y * ?S)" "int x * 4 = int (4 * x)" using S by simp_all
  ultimately have "ULONG (int y * fbStride r) = int (y * ?S)" "ULONG (int x * 4) = int (4 * x)" by (simp_all only:)
  then show "nat (ULONG (int y * fbStride r) + ULONG (int x * 4)) = y * ?S + 4 * x"
    by (simp only: of_nat_add [symmetric] nat_int)
  show "y * ?S + 4 * x + 4 * w \<le> L" using le b by linarith
  show "ULONG (int y + 1) = int (y + 1)" using b(4) by (simp add: ULONG_def)
  show "fits r L x w (y + 1) n" using assms by (simp add: fits_def)
qed

lemma save_lines:
  assumes "fits r (length video) x w y n" "pos + n * (4 * w) \<le> length buf"
  shows "\<exists>buf'. copy_lines False r n (int x) w (int y) pos (video, buf) = Some (video, buf') \<and> length buf' = length buf \<and>
    (\<forall>j < pos. buf' ! j = buf ! j) \<and>
    (\<forall>i < n. \<forall>k < 4 * w. buf' ! (pos + i * (4 * w) + k) = video ! ((y + i) * nat (fbStride r) + 4 * x + k))"
  using assms
proof (induction n arbitrary: y pos buf)
  case (Suc n)
  let ?S = "nat (fbStride r)"
  note l = line_start [OF Suc.prems(1)]
  obtain b1 where b1: "copy_pixels w video (y * ?S + 4 * x) buf pos = Some b1" "copied (4 * w) video (y * ?S + 4 * x) buf pos b1"
    using copy_pixels_copied [of "y * ?S + 4 * x" w video pos buf] l(2) Suc.prems(2) by auto
  have len: "length b1 = length buf" using b1(2) by (simp add: copied_def)
  obtain b2 where b2: "copy_lines False r n (int x) w (int (y + 1)) (pos + 4 * w) (video, b1) = Some (video, b2)" "length b2 = length buf"
      "\<forall>j < pos + 4 * w. b2 ! j = b1 ! j"
      "\<forall>i < n. \<forall>k < 4 * w. b2 ! (pos + 4 * w + i * (4 * w) + k) = video ! ((y + 1 + i) * ?S + 4 * x + k)"
    using Suc.IH [of "y + 1" "pos + 4 * w" b1] l(4) Suc.prems(2) len by (auto simp: algebra_simps)
  have old: "b2 ! j = buf ! j" if "j < pos" for j
    using b2(3) b1(2) that Suc.prems(2) by (auto simp: copied_def)
  have new: "b2 ! (pos + i * (4 * w) + k) = video ! ((y + i) * ?S + 4 * x + k)" if "i < Suc n" "k < 4 * w" for i k
  proof (cases i)
    case 0
    have "b2 ! (pos + k) = b1 ! (pos + k)" using b2(3) that by simp
    then show ?thesis using 0 that b1(2) Suc.prems(2) by (simp add: copied_def)
  next
    case (Suc j)
    then show ?thesis using b2(4) that by (simp add: algebra_simps)
  qed
  show ?case using b1(1) b2(1,2) old new l(1,3) by (simp add: Let_def)
qed simp

lemma restore_lines:
  assumes "fits r (length video) x w y n" "pos + n * (4 * w) \<le> length buf" "0 < w"
  shows "\<exists>video'. copy_lines True r n (int x) w (int y) pos (video, buf) = Some (video', buf) \<and> length video' = length video \<and>
    (\<forall>p < length video. video' ! p =
       (if in_rect (nat (fbStride r)) (4 * x) w y n p
        then buf ! (pos + (p div nat (fbStride r) - y) * (4 * w) + (p mod nat (fbStride r) - 4 * x)) else video ! p))"
  using assms
proof (induction n arbitrary: y pos video)
  case 0
  then show ?case by (auto simp: in_rect_def)
next
  case (Suc n)
  let ?S = "nat (fbStride r)"
  note l = line_start [OF Suc.prems(1)]
  have xw: "4 * x + 4 * w \<le> ?S" using Suc.prems(1) by (simp add: fits_def)
  obtain v1 where v1: "copy_pixels w buf pos video (y * ?S + 4 * x) = Some v1" "copied (4 * w) buf pos video (y * ?S + 4 * x) v1"
    using copy_pixels_copied [of pos w buf "y * ?S + 4 * x" video] l(2) Suc.prems(2) by auto
  have len: "length v1 = length video" using v1(2) by (simp add: copied_def)
  obtain v2 where v2: "copy_lines True r n (int x) w (int (y + 1)) (pos + 4 * w) (v1, buf) = Some (v2, buf)" "length v2 = length video"
      "\<And>p. p < length video \<Longrightarrow> v2 ! p = (if in_rect ?S (4 * x) w (y + 1) n p
         then buf ! (pos + 4 * w + (p div ?S - (y + 1)) * (4 * w) + (p mod ?S - 4 * x)) else v1 ! p)"
    using Suc.IH [of v1 "y + 1" "pos + 4 * w"] l(4) Suc.prems(2,3) len by (auto simp: algebra_simps)
  have "v2 ! p = (if in_rect ?S (4 * x) w y (Suc n) p
      then buf ! (pos + (p div ?S - y) * (4 * w) + (p mod ?S - 4 * x)) else video ! p)" if p: "p < length video" for p
  proof (cases "in_rect ?S (4 * x) w (y + 1) n p")
    case True
    then have "p div ?S - y = Suc (p div ?S - (y + 1))" unfolding in_rect_def by linarith
    then show ?thesis using True v2(3) [OF p] by (simp add: in_rect_def algebra_simps)
  next
    case False
    then have e: "in_rect ?S (4 * x) w y (Suc n) p \<longleftrightarrow> y * ?S + 4 * x \<le> p \<and> p < y * ?S + 4 * x + 4 * w"
      using in_line [OF xw, of y p] by (auto simp: in_rect_def)
    have v: "v2 ! p = v1 ! p" using False v2(3) [OF p] by simp
    show ?thesis
    proof (cases "in_rect ?S (4 * x) w y (Suc n) p")
      case True
      then have d: "p div ?S = y" using e in_line [OF xw, of y p] by simp
      then have "p - (y * ?S + 4 * x) = p mod ?S - 4 * x" by (metis diff_diff_left minus_div_mult_eq_mod)
      then show ?thesis using v True e v1(2) p d by (simp add: copied_def)
    next
      case False
      then show ?thesis using v e v1(2) p by (auto simp: copied_def)
    qed
  qed
  then show ?case using v1(1) v2(1,2) l(1,3) by (simp add: Let_def)
qed


section \<open>Saving and restoring\<close>

text \<open>
  A frame buffer all of whose lines, \<open>fbStride\<close> bytes apart, lie in the memory that is mapped, and a
  window that the \<open>WIDTH\<close> and \<open>LINES\<close> commands admit. The driver maps \<open>fbWidth * fbHeight * 4\<close> bytes:
  the condition then says that the lines have no padding.
\<close>

definition frame_ok :: "layout \<Rightarrow> ui \<Rightarrow> frame \<Rightarrow> bool" where
  "frame_ok r u fr \<longleftrightarrow> 0 \<le> fbWidth r \<and> 0 \<le> fbHeight r \<and> 4 * fbWidth r \<le> fbStride r \<and> fbHeight r < 2 ^ 31 \<and>
     fbHeight r * fbStride r < 2 ^ 32 \<and> fbHeight r * fbStride r \<le> int (length (VideoMem fr)) \<and>
     int (length (VideoRestoreBuffer fr)) = VideoRestoreBufferSize \<and>
     1 \<le> WndWidth u \<and> WndWidth u \<le> 160 \<and> 1 \<le> WndHeight u \<and> WndHeight u \<le> 160"

text \<open>The bytes of the video memory under the window.\<close>

definition under_window :: "layout \<Rightarrow> ui \<Rightarrow> nat \<Rightarrow> bool" where
  "under_window r u p \<longleftrightarrow>
     in_rect (nat (fbStride r)) (4 * nat ((fbWidth r - WndWidth u * 9) div 2)) (nat (WndWidth u * 9))
       (nat ((fbHeight r - WndHeight u * 16) div 2)) (nat (WndHeight u * 16)) p"

lemma frame_dims:
  assumes ok: "frame_ok r u fr" and chk: "CheckWndWidthHeight r (WndWidth u) (WndHeight u)"
  defines "W \<equiv> WndWidth u * 9" and "H \<equiv> WndHeight u * 16"
  shows "ULONG (WndWidth u * GlyphWidth) = W" "ULONG (WndHeight u * GlyphHeight) = H" "0 < W" "0 < H"
    "ULONG (W * H * 4) \<le> VideoRestoreBufferSize" "W * H * 4 \<le> VideoRestoreBufferSize" "W \<le> fbWidth r" "H \<le> fbHeight r"
    "ULONG (fbWidth r - W) = fbWidth r - W" "ULONG (fbHeight r - H) = fbHeight r - H"
proof -
  have wh: "1 \<le> WndWidth u" "WndWidth u \<le> 160" "1 \<le> WndHeight u" "WndHeight u \<le> 160" using ok by (simp_all add: frame_ok_def)
  show W: "ULONG (WndWidth u * GlyphWidth) = W" "ULONG (WndHeight u * GlyphHeight) = H" "0 < W" "0 < H"
    using wh by (simp_all add: ULONG_def GlyphWidth_def GlyphHeight_def W_def H_def)
  have "WndWidth u * WndHeight u \<le> 160 * 160" using wh by (intro mult_mono) auto
  moreover have p: "0 \<le> WndWidth u * WndHeight u" using wh by simp
  ultimately have s: "ULONG (WndWidth u * WndHeight u) = WndWidth u * WndHeight u" by (simp add: ULONG_def)
  have t: "WndWidth u * WndHeight u \<le> TextBuffersDim" using chk s by (auto simp: CheckWndWidthHeight_def Let_def split: if_splits)
  have g: "ULONG (P * GlyphWidth * GlyphHeight) = P * 144 \<and> ULONG (P * 144 * 4) = P * 144 * 4" if "0 \<le> P" "P \<le> TextBuffersDim" for P
    using that by (simp add: ULONG_def TextBuffersDim_def GlyphWidth_def GlyphHeight_def)
  have z: "ULONG (WndWidth u * WndHeight u * GlyphWidth * GlyphHeight) = WndWidth u * WndHeight u * 144"
    "ULONG (WndWidth u * WndHeight u * 144 * 4) = WndWidth u * WndHeight u * 144 * 4"
    using g [OF p t] by blast+
  have e: "W * H * 4 = WndWidth u * WndHeight u * 144 * 4" by (simp add: W_def H_def)
  have "ULONG (W * H * 4) = W * H * 4" unfolding e by (rule z(2))
  moreover have "W * H * 4 \<le> VideoRestoreBufferSize"
    using chk unfolding e CheckWndWidthHeight_def Let_def s z by (simp split: if_splits)
  ultimately show "ULONG (W * H * 4) \<le> VideoRestoreBufferSize" "W * H * 4 \<le> VideoRestoreBufferSize" by simp_all
  show d: "W \<le> fbWidth r" "H \<le> fbHeight r" using chk W by (auto simp: CheckWndWidthHeight_def Let_def split: if_splits)
  have f: "0 \<le> fbWidth r" "4 * fbWidth r \<le> fbStride r" "fbHeight r * fbStride r < 2 ^ 32" "fbHeight r < 2 ^ 31" "0 \<le> fbHeight r"
    using ok by (simp_all add: frame_ok_def)
  have "1 * fbStride r \<le> fbHeight r * fbStride r" using f d W by (intro mult_right_mono) auto
  then have "fbWidth r < 2 ^ 32" using f(1-3) by linarith
  then show "ULONG (fbWidth r - W) = fbWidth r - W" "ULONG (fbHeight r - H) = fbHeight r - H"
    using d W f by (auto simp: ULONG_def)
qed

text \<open>The mapping of the driver is large enough for lines without padding.\<close>

lemma frame_ok_unpadded:
  assumes "fbStride r = 4 * fbWidth r" "0 \<le> fbWidth r" "0 \<le> fbHeight r" "fbHeight r < 2 ^ 31" "fbWidth r * fbHeight r * 4 < 2 ^ 32"
    "fbMapSize r \<le> int (length (VideoMem fr))" "int (length (VideoRestoreBuffer fr)) = VideoRestoreBufferSize"
    "1 \<le> WndWidth u" "WndWidth u \<le> 160" "1 \<le> WndHeight u" "WndHeight u \<le> 160"
    and chk: "CheckWndWidthHeight r (WndWidth u) (WndHeight u)"
  shows "frame_ok r u fr"
proof -
  have "ULONG (fbWidth r * fbHeight r * 4) = fbWidth r * fbHeight r * 4" using assms(2,3,5) by (simp add: ULONG_def)
  then have "fbWidth r * fbHeight r * 4 \<le> fbMapSize r" using chk by (auto simp: CheckWndWidthHeight_def split: if_splits)
  moreover have "fbHeight r * fbStride r = fbWidth r * fbHeight r * 4" using assms(1) by simp
  ultimately have "fbHeight r * fbStride r \<le> int (length (VideoMem fr))" "fbHeight r * fbStride r < 2 ^ 32"
    using assms(5,6) by linarith+
  then show ?thesis unfolding frame_ok_def using assms(1-4,7-11) by simp
qed

lemma frame_fits:
  assumes ok: "frame_ok r u fr" and chk: "CheckWndWidthHeight r (WndWidth u) (WndHeight u)"
  defines "W \<equiv> WndWidth u * 9" and "H \<equiv> WndHeight u * 16"
  shows "fits r (length (VideoMem fr)) (nat ((fbWidth r - W) div 2)) (nat W) (nat ((fbHeight r - H) div 2)) (nat H)"
    "nat H * (4 * nat W) \<le> length (VideoRestoreBuffer fr)"
proof -
  note d = frame_dims [OF ok chk, folded W_def H_def]
  have st: "4 * fbWidth r \<le> fbStride r" "0 \<le> fbWidth r" "fbHeight r < 2 ^ 31" "fbHeight r * fbStride r < 2 ^ 32"
    "int (length (VideoRestoreBuffer fr)) = VideoRestoreBufferSize" "fbHeight r * fbStride r \<le> int (length (VideoMem fr))"
    using ok by (simp_all add: frame_ok_def)
  let ?x = "(fbWidth r - W) div 2" and ?y = "(fbHeight r - H) div 2"
  have xy: "0 \<le> ?x" "?x + W \<le> fbWidth r" "0 \<le> ?y" "?y + H \<le> fbHeight r" using d(3,4,7,8) by auto
  have m: "(?y + H) * fbStride r \<le> fbHeight r * fbStride r" using xy st by (intro mult_right_mono) auto
  have n: "int ((nat ?y + nat H) * nat (fbStride r)) = (?y + H) * fbStride r" using xy d st by (simp add: nat_add_distrib [symmetric])
  have "int ((nat ?y + nat H) * nat (fbStride r)) \<le> int (length (VideoMem fr))" "int ((nat ?y + nat H) * nat (fbStride r)) < int (2 ^ 32)"
    unfolding n using order.trans [OF m st(6)] le_less_trans [OF m st(4)] by simp_all
  then have "(nat ?y + nat H) * nat (fbStride r) \<le> length (VideoMem fr)" "(nat ?y + nat H) * nat (fbStride r) < 2 ^ 32"
    unfolding of_nat_le_iff of_nat_less_iff .
  moreover have "4 * nat ?x + 4 * nat W \<le> nat (fbStride r)" using xy st d by linarith
  moreover have "nat ?y + nat H < 2 ^ 32"
  proof -
    have "?y + H < 2 ^ 32" using xy st(3) by simp
    then show ?thesis using xy d(4) by (simp add: nat_add_distrib [symmetric])
  qed
  ultimately show "fits r (length (VideoMem fr)) (nat ?x) (nat W) (nat ?y) (nat H)" using st by (simp add: fits_def)
  have "int (nat H * (4 * nat W)) = W * H * 4" using d by (simp add: mult.commute)
  then show "nat H * (4 * nat W) \<le> length (VideoRestoreBuffer fr)" using d(6) st(5) by linarith
qed


lemma save_result:
  assumes ok: "frame_ok r u fr" and chk: "CheckWndWidthHeight r (WndWidth u) (WndHeight u)" and "\<not> VideoRestoreBufferState fr"
  shows "\<exists>buf. SaveOrRestoreFrameBuffer False r u fr =
      Some (fr\<lparr>VideoRestoreBufferTimer := 0, VideoRestoreBufferState := True, VideoRestoreBuffer := buf\<rparr>) \<and>
    length buf = length (VideoRestoreBuffer fr) \<and>
    (\<forall>i < nat (WndHeight u * 16). \<forall>k < 4 * nat (WndWidth u * 9). buf ! (i * (4 * nat (WndWidth u * 9)) + k) =
       VideoMem fr ! ((nat ((fbHeight r - WndHeight u * 16) div 2) + i) * nat (fbStride r) +
         4 * nat ((fbWidth r - WndWidth u * 9) div 2) + k))"
proof -
  note d = frame_dims [OF ok chk]
  note f = frame_fits [OF ok chk]
  have c: "int (nat ((fbWidth r - WndWidth u * 9) div 2)) = (fbWidth r - WndWidth u * 9) div 2"
    "int (nat ((fbHeight r - WndHeight u * 16) div 2)) = (fbHeight r - WndHeight u * 16) div 2" using d(7,8) by simp_all
  show ?thesis using save_lines [OF f(1), of 0 "VideoRestoreBuffer fr"] f(2) d chk assms(3)
    unfolding c by (auto simp: SaveOrRestoreFrameBuffer_def Let_def)
qed

lemma restore_result:
  assumes ok: "frame_ok r u fr" and chk: "CheckWndWidthHeight r (WndWidth u) (WndHeight u)" and "VideoRestoreBufferState fr"
  shows "\<exists>video. SaveOrRestoreFrameBuffer True r u fr =
      Some (fr\<lparr>VideoRestoreBufferTimer := 0, VideoRestoreBufferState := False, VideoMem := video\<rparr>) \<and>
    length video = length (VideoMem fr) \<and>
    (\<forall>p < length video. video ! p = (if under_window r u p then
       VideoRestoreBuffer fr ! ((p div nat (fbStride r) - nat ((fbHeight r - WndHeight u * 16) div 2)) * (4 * nat (WndWidth u * 9)) +
         (p mod nat (fbStride r) - 4 * nat ((fbWidth r - WndWidth u * 9) div 2))) else VideoMem fr ! p))"
proof -
  note d = frame_dims [OF ok chk]
  note f = frame_fits [OF ok chk]
  have c: "int (nat ((fbWidth r - WndWidth u * 9) div 2)) = (fbWidth r - WndWidth u * 9) div 2"
    "int (nat ((fbHeight r - WndHeight u * 16) div 2)) = (fbHeight r - WndHeight u * 16) div 2" using d(7,8) by simp_all
  show ?thesis using restore_lines [OF f(1), of 0 "VideoRestoreBuffer fr"] f(2) d chk assms(3)
    unfolding c by (auto simp: SaveOrRestoreFrameBuffer_def Let_def under_window_def)
qed

text \<open>
  C10: The debugger gives the screen back, provided that all lines of the frame buffer, \<open>fbStride\<close>
  bytes apart, lie in the mapped memory (the driver maps \<open>fbWidth * fbHeight * 4\<close> bytes, so that its
  mapping meets this without padding between the lines only; see \<open>frame_ok_unpadded\<close> and
  \<open>padded_lines_leave_mapping\<close>). Then for every window size that was admitted, saving and restoring
  stay inside the video memory and the restore buffer, and after any drawing in between, restoring puts
  back every byte under the window as it was when it was saved, and changes no other byte.
\<close>

theorem frame_buffer_restored:
  assumes "frame_ok r u fr" and "CheckWndWidthHeight r (WndWidth u) (WndHeight u)" and "\<not> VideoRestoreBufferState fr"
    and "length drawn = length (VideoMem fr)"
  shows "\<exists>fr1 fr2. SaveOrRestoreFrameBuffer False r u fr = Some fr1 \<and> VideoMem fr1 = VideoMem fr \<and>
    SaveOrRestoreFrameBuffer True r u (fr1\<lparr>VideoMem := drawn\<rparr>) = Some fr2 \<and> \<not> VideoRestoreBufferState fr2 \<and>
    length (VideoMem fr2) = length drawn \<and>
    (\<forall>p < length drawn. VideoMem fr2 ! p = (if under_window r u p then VideoMem fr ! p else drawn ! p))"
proof -
  let ?S = "nat (fbStride r)" and ?x = "nat ((fbWidth r - WndWidth u * 9) div 2)" and ?y = "nat ((fbHeight r - WndHeight u * 16) div 2)"
  let ?w = "nat (WndWidth u * 9)" and ?h = "nat (WndHeight u * 16)"
  obtain buf where b: "SaveOrRestoreFrameBuffer False r u fr =
      Some (fr\<lparr>VideoRestoreBufferTimer := 0, VideoRestoreBufferState := True, VideoRestoreBuffer := buf\<rparr>)"
    "length buf = length (VideoRestoreBuffer fr)"
    "\<And>i k. i < ?h \<Longrightarrow> k < 4 * ?w \<Longrightarrow> buf ! (i * (4 * ?w) + k) = VideoMem fr ! ((?y + i) * ?S + 4 * ?x + k)"
    using save_result [OF assms(1-3)] by blast
  let ?fr = "fr\<lparr>VideoRestoreBufferTimer := 0, VideoRestoreBufferState := True, VideoRestoreBuffer := buf, VideoMem := drawn\<rparr>"
  have "frame_ok r u ?fr" using assms(1,4) b(2) by (simp add: frame_ok_def)
  then obtain video where v: "SaveOrRestoreFrameBuffer True r u ?fr =
      Some (?fr\<lparr>VideoRestoreBufferTimer := 0, VideoRestoreBufferState := False, VideoMem := video\<rparr>)" "length video = length drawn"
    "\<And>p. p < length video \<Longrightarrow> video ! p = (if under_window r u p then buf ! ((p div ?S - ?y) * (4 * ?w) + (p mod ?S - 4 * ?x)) else drawn ! p)"
    using restore_result [of r u ?fr] assms(2) by auto
  have "video ! p = VideoMem fr ! p" if "p < length drawn" "under_window r u p" for p
  proof -
    have "in_rect ?S (4 * ?x) ?w ?y ?h p" using that(2) by (simp only: under_window_def)
    note c = rect_cell [OF this]
    have "buf ! ((p div ?S - ?y) * (4 * ?w) + (p mod ?S - 4 * ?x)) = VideoMem fr ! p"
      using b(3) [OF c(1,2)] unfolding c(3) .
    then show ?thesis using v(2,3) that by metis
  qed
  then show ?thesis using b(1) v by auto
qed


definition example_frame :: "layout \<times> ui \<times> frame" where
  "example_frame =
     ((fst example_layout)\<lparr>fbWidth := 11, fbHeight := 18, fbStride := 44, fbMapSize := 792\<rparr>,
      (fst (snd example_layout))\<lparr>WndWidth := 1, WndHeight := 1\<rparr>,
      \<lparr>VideoMem = replicate 792 0x11, VideoRestoreBuffer = replicate (4 * 1024 * 1024) 0, VideoRestoreBufferState = False,
       VideoRestoreBufferTimer = 0\<rparr>)"

theorem frame_buffer_restored_witness:
  "case example_frame of (r, u, fr) \<Rightarrow> \<exists>fr1 fr2. SaveOrRestoreFrameBuffer False r u fr = Some fr1 \<and>
     SaveOrRestoreFrameBuffer True r u (fr1\<lparr>VideoMem := replicate 792 0x22\<rparr>) = Some fr2 \<and>
     VideoMem fr2 ! 48 = 0x11 \<and> VideoMem fr2 ! 0 = 0x22"
proof -
  obtain r u fr where e: "example_frame = (r, u, fr)" by (cases example_frame) auto
  have r: "fbWidth r = 11" "fbHeight r = 18" "fbStride r = 44" "fbMapSize r = 792" "WndWidth u = 1" "WndHeight u = 1"
    "VideoMem fr = replicate 792 0x11" "VideoRestoreBuffer fr = replicate (4 * 1024 * 1024) 0" "\<not> VideoRestoreBufferState fr"
    using e by (auto simp: example_frame_def)
  have "frame_ok r u fr" "CheckWndWidthHeight r (WndWidth u) (WndHeight u)"
    by (simp_all add: r frame_ok_def CheckWndWidthHeight_def VideoRestoreBufferSize_def TextBuffersDim_def GlyphWidth_def GlyphHeight_def ULONG_def)
  from frame_buffer_restored [OF this r(9), of "replicate 792 0x22"]
  obtain fr1 fr2 where f: "SaveOrRestoreFrameBuffer False r u fr = Some fr1"
    "SaveOrRestoreFrameBuffer True r u (fr1\<lparr>VideoMem := replicate 792 0x22\<rparr>) = Some fr2"
    "\<And>p. p < 792 \<Longrightarrow> VideoMem fr2 ! p = (if under_window r u p then VideoMem fr ! p else replicate 792 0x22 ! p)"
    by (auto simp: r)
  have "under_window r u 48" "\<not> under_window r u 0" by (simp_all add: under_window_def in_rect_def r)
  then show ?thesis using f(1,2) f(3) [of 48] f(3) [of 0] by (auto simp: e r)
qed

text \<open>
  Lines with padding leave the mapping: the driver maps \<open>fbWidth * fbHeight * 4\<close> bytes, whatever the
  stride of the frame buffer, and the check of the dimensions does not look at the stride either.
\<close>

theorem padded_lines_leave_mapping:
  "case example_frame of (r, u, fr) \<Rightarrow> CheckWndWidthHeight (r\<lparr>fbStride := 4000\<rparr>) (WndWidth u) (WndHeight u) \<and>
     SaveOrRestoreFrameBuffer False (r\<lparr>fbStride := 4000\<rparr>) u fr = None"
proof -
  obtain r u fr where e: "example_frame = (r, u, fr)" by (cases example_frame) auto
  have r: "fbWidth r = 11" "fbHeight r = 18" "fbMapSize r = 792" "WndWidth u = 1" "WndHeight u = 1"
    "VideoMem fr = replicate 792 0x11" "\<not> VideoRestoreBufferState fr"
    using e by (auto simp: example_frame_def)
  let ?r = "r\<lparr>fbStride := 4000\<rparr>"
  have c: "CheckWndWidthHeight ?r (WndWidth u) (WndHeight u)"
    by (simp add: r CheckWndWidthHeight_def VideoRestoreBufferSize_def TextBuffersDim_def GlyphWidth_def GlyphHeight_def ULONG_def)
  have "copy_pixels 9 (replicate 792 0x11) 4004 buf 0 = None" for buf
    by (simp only: numeral_nat copy_pixels.simps) (simp add: read_block_def)
  then have "copy_lines False ?r (Suc n) 1 9 1 0 (replicate 792 0x11, buf) = None" for n buf by (simp add: ULONG_def)
  from this [of 15] have "copy_lines False ?r 16 1 9 1 0 (replicate 792 0x11, buf) = None" for buf by simp
  then show ?thesis using c
    by (simp add: e r SaveOrRestoreFrameBuffer_def ULONG_def GlyphWidth_def GlyphHeight_def VideoRestoreBufferSize_def)
qed

end
