(* ===== verification/Cmd_Windows.thy ===== *)
theory Cmd_Windows
  imports Cmd_Args Frame_Buffer
begin

text \<open>
  The commands that change the windows: \<open>WR\<close>, \<open>WD\<close> and \<open>WS\<close> show and hide a window or set its height
  (\<open>Cmd_WR_WD_WS.cpp\<close>), \<open>WIDTH\<close> and \<open>LINES\<close> set the size of the screen (\<open>Cmd_LINES_WIDTH.cpp\<close>). What a
  command prints goes to the log window.
\<close>

section \<open>The model\<close>

datatype CmdParamsResult = ResNone | ResContinue | ResUnassemble | ResRefreshCodeAndRegsWindows | ResRedrawUi

definition Print :: "measured \<Rightarrow> byte list \<Rightarrow> screen \<Rightarrow> screen option" where
  "Print m psz s = (case s of (r, u, w) \<Rightarrow> map_option (\<lambda>w. (r, u, w)) (AddString m psz False w))"

definition only_print :: "measured \<Rightarrow> byte list \<Rightarrow> screen \<Rightarrow> (screen \<times> CmdParamsResult) option" where
  "only_print m psz s = map_option (\<lambda>s. (s, ResNone)) (Print m psz s)"

text \<open>The digits of an argument, and their value as an unsigned long; \<open>None\<close> for another character.\<close>

definition ulong_arg :: "byte list \<Rightarrow> int option option" where
  "ulong_arg val =
     (if list_all (\<lambda>c. c \<ge> 0x30 \<and> c \<le> 0x39) val
      then map_option (\<lambda>(v, e). Some (ULONG (uint v))) (BC_strtoui64 (val @ [0]) False 10)
      else Some None)"

subsection \<open>Windows\<close>

text \<open>The row of a dividing line, and its assignment through the pointer.\<close>

fun line_row :: "div_var \<Rightarrow> layout \<Rightarrow> int" where
  "line_row RegsDisasm r = RegsDisasmDivLineY r"
| "line_row DisasmCode r = DisasmCodeDivLineY r"
| "line_row CodeLog r = CodeLogDivLineY r"
| "line_row _ r = 0"

fun set_row :: "div_var \<Rightarrow> int \<Rightarrow> layout \<Rightarrow> layout" where
  "set_row RegsDisasm y r = r\<lparr>RegsDisasmDivLineY := y\<rparr>"
| "set_row DisasmCode y r = r\<lparr>DisasmCodeDivLineY := y\<rparr>"
| "set_row CodeLog y r = r\<lparr>CodeLogDivLineY := y\<rparr>"
| "set_row _ y r = r"

definition toggle :: "div_var \<Rightarrow> screen \<Rightarrow> screen" where
  "toggle p s = (case s of (r, u, w) \<Rightarrow> CheckDivLineYs None (set_row p (- line_row p r) r, u, w))"

text \<open>The loop over the visible lines: the row of the line before the one at \<open>p\<close>.\<close>

fun row_before :: "div_var \<Rightarrow> DivLine list \<Rightarrow> int option" where
  "row_before p (k # l # v) = (if line_var l = p then Some (py k) else row_before p (l # v))"
| "row_before p v = None"

definition resize :: "div_var \<Rightarrow> int \<Rightarrow> screen \<Rightarrow> screen \<times> CmdParamsResult" where
  "resize p newValue s =
     (let s = (if line_row p (fst s) < 0 then toggle p s else s)
      in case s of (r, u, w) \<Rightarrow>
           case row_before p (GetVisibleDivLines r u) of
             None \<Rightarrow> (s, ResNone)
           | Some y \<Rightarrow> (CheckDivLineYs (Some p) (set_row p (LONG (y + newValue + 1)) r, u, w), ResRedrawUi))"

definition window_command :: "measured \<Rightarrow> byte list \<Rightarrow> div_var \<Rightarrow> byte list \<Rightarrow> screen \<Rightarrow> (screen \<times> CmdParamsResult) option" where
  "window_command m cmdId p cmd s =
     (let args = TokenizeVec cmd [cmdId] in
      if length args = 1 then Some (toggle p s, ResRedrawUi)
      else if length args \<noteq> 2 then only_print m (msg ''Too many arguments.'') s
      else
        (case ulong_arg (trim (args ! 1)) of
           None \<Rightarrow> None
         | Some None \<Rightarrow> only_print m (msg ''Invalid argument.'') s
         | Some (Some newValue) \<Rightarrow>
             if newValue < 3 then only_print m (msg ''Argument must be greater than or equal to 3.'') s
             else if newValue > 160 then only_print m (msg ''Argument must be less than or equal to 160.'') s
             else Some (resize p newValue s)))"

definition Execute_WD :: "measured \<Rightarrow> byte list \<Rightarrow> screen \<Rightarrow> (screen \<times> CmdParamsResult) option" where
  "Execute_WD m = window_command m (msg ''WD'') DisasmCode"

definition Execute_WS :: "measured \<Rightarrow> byte list \<Rightarrow> screen \<Rightarrow> (screen \<times> CmdParamsResult) option" where
  "Execute_WS m = window_command m (msg ''WS'') CodeLog"

definition Execute_WR :: "measured \<Rightarrow> byte list \<Rightarrow> screen \<Rightarrow> (screen \<times> CmdParamsResult) option" where
  "Execute_WR m cmd s =
     (if length (TokenizeVec cmd [msg ''WR'']) \<noteq> 1 then only_print m (msg ''Too many arguments.'') s
      else Some (toggle RegsDisasm s, ResRedrawUi))"

subsection \<open>The size of the screen\<close>

text \<open>The loop makes the dimension smaller until it fits; it need not end.\<close>

partial_function (option) shrink_loop :: "bool \<Rightarrow> layout \<Rightarrow> int \<Rightarrow> int \<Rightarrow> (int \<times> int) option" where
  "shrink_loop isWidth r widthChr heightChr =
     (if CheckWndWidthHeight r widthChr heightChr then Some (widthChr, heightChr)
      else if isWidth then shrink_loop isWidth r (ULONG (widthChr - 1)) heightChr
      else shrink_loop isWidth r widthChr (ULONG (heightChr - 1)))"

declare shrink_loop.simps [code]

text \<open>The new dimensions; the frame buffer is restored with the old ones.\<close>

definition set_size :: "bool \<Rightarrow> int \<Rightarrow> screen \<times> frame \<Rightarrow> (screen \<times> frame) option" where
  "set_size isWidth newValue sf =
     (case sf of ((r, u, w), fr) \<Rightarrow>
        case shrink_loop isWidth r (if isWidth then newValue else WndWidth u) (if \<not> isWidth then newValue else WndHeight u) of
          None \<Rightarrow> None
        | Some (widthChr, heightChr) \<Rightarrow>
            map_option (\<lambda>fr. (CheckDivLineYs None (r, u\<lparr>WndWidth := widthChr, WndHeight := heightChr\<rparr>, w), fr))
              (SaveOrRestoreFrameBuffer True r u fr))"

definition size_command ::
  "measured \<Rightarrow> (int \<Rightarrow> byte list) \<Rightarrow> bool \<Rightarrow> byte list \<Rightarrow> screen \<times> frame \<Rightarrow> ((screen \<times> frame) \<times> CmdParamsResult) option" where
  "size_command m I64ToString isWidth cmd sf =
     (let args = TokenizeVec cmd [if isWidth then msg ''WIDTH'' else msg ''LINES''];
          out = (\<lambda>psz. map_option (\<lambda>s. ((s, snd sf), ResNone)) (Print m psz (fst sf)));
          u = fst (snd (fst sf)) in
      if length args = 1 then
        out (msg ''Current number of display '' @ (if isWidth then msg ''columns'' else msg ''rows'') @ msg '' is '' @
             I64ToString (if isWidth then WndWidth u else WndHeight u) @ msg ''.'')
      else if length args \<noteq> 2 then out (msg ''Too many arguments.'')
      else
        (case ulong_arg (trim (args ! 1)) of
           None \<Rightarrow> None
         | Some None \<Rightarrow> out (msg ''Invalid argument.'')
         | Some (Some newValue) \<Rightarrow>
             (let minValue = (if isWidth then 80 else 25) in
              if newValue < minValue then out (msg ''Argument must be greater than or equal to '' @ I64ToString minValue @ msg ''.'')
              else if newValue > 160 then out (msg ''Argument must be less than or equal to 160.'')
              else map_option (\<lambda>sf. (sf, ResRedrawUi)) (set_size isWidth newValue sf))))"


section \<open>The height of a window\<close>

definition row_above :: "div_var \<Rightarrow> layout \<Rightarrow> int" where
  "row_above p r = (if p = CodeLog \<and> 0 \<le> DisasmCodeDivLineY r then DisasmCodeDivLineY r else fixed_row r)"

definition window_height :: "div_var \<Rightarrow> screen \<Rightarrow> int" where
  "window_height p s = (case s of (r, u, w) \<Rightarrow> line_row p r - row_above p r - 1)"

text \<open>The rows left when all the other movable windows and the log have three.\<close>

definition max_height :: "screen \<Rightarrow> int" where
  "max_height s = (case s of (r, u, w) \<Rightarrow> WndHeight u - 4 - fixed_row r - 4 * int (length (movable_rows r)))"

definition show_window :: "div_var \<Rightarrow> screen \<Rightarrow> screen" where
  "show_window p s = (case s of (r, u, w) \<Rightarrow> (if line_row p r < 0 then set_row p (- line_row p r) r else r, u, w))"

lemma row_before_visible:
  assumes "p = DisasmCode \<or> p = CodeLog" "0 \<le> line_row p r"
  shows "row_before p (GetVisibleDivLines r u) = Some (row_above p r)"
  using assms
  by (auto simp: GetVisibleDivLines_def emplace_visible_def Let_def row_above_def fixed_row_def)

lemma settle_first: "3 \<le> n \<Longrightarrow> settle f l (f + n + 1) = min (f + n + 1) (l - 4)"
  unfolding settle_def by linarith

lemma settled_first:
  assumes "3 \<le> n" "0 \<le> f" "0 \<le> C" "f + 12 \<le> l"
  shows "fst (settled (Some DisasmCode) f l (f + n + 1) C) = min (f + n + 1) (l - 8)"
proof -
  let ?D = "f + n + 1"
  define z where "z = min (max C (?D + 4)) (l - 4)"
  have m: "max ?D (f + 4) = ?D" using assms(1) by simp
  have s: "settle_two f l ?D C = (min ?D (z - 4), z)" by (simp only: settle_two_def Let_def m z_def)
  have "min ?D (z - 4) \<le> min ?D (l - 8)" unfolding z_def by simp
  moreover have "between f ?D = n" using assms(1) by (simp add: between_def)
  ultimately show ?thesis using s assms by (simp add: settled_def Let_def grown_def max_absorb2)
qed

lemma settled_second:
  assumes "3 \<le> n" "f + 4 \<le> D" "D + 8 \<le> l" "0 \<le> f" "settled (Some CodeLog) f l D (D + n + 1) = (D', C')"
  shows "C' - D' = min (n + 1) (l - 8 - f)"
proof -
  let ?C = "D + n + 1"
  have m: "max D (f + 4) = D" "max ?C (D + 4) = ?C" using assms by simp_all
  have b: "between D ?C = n" using assms by (simp add: between_def)
  consider (fits) "?C \<le> l - 4" | (full) "?C > l - 4" by linarith
  then show ?thesis
  proof cases
    case fits
    then have s: "settle_two f l D ?C = (D, ?C)" using assms by (simp add: settle_two_def Let_def m)
    have "(D', C') = (D, ?C)"
      using assms(5) [symmetric] s b fits assms(1-4) by (simp add: settled_def Let_def grown_def shrunk_def)
    then show ?thesis using fits assms(2) by simp
  next
    case full
    then have s: "settle_two f l D ?C = (D, l - 4)" using assms by (simp add: settle_two_def Let_def m)
    have "C' = l - 4" "D' = min D (max (f + 4) (l - 5 - n))"
      using assms(5) [symmetric] s b full assms(1-4) by (simp_all add: settled_def Let_def grown_def shrunk_def)
    moreover have "max (f + 4) (l - 5 - n) \<le> D" using full assms by simp
    ultimately show ?thesis by (simp add: min_def max_def)
  qed
qed


lemma resized_rows:
  assumes p: "p = DisasmCode \<or> p = CodeLog" and v: "0 \<le> line_row p r" and n: "3 \<le> n" and f: "0 \<le> f"
    and room: "0 \<le> DisasmCodeDivLineY r \<Longrightarrow> 0 \<le> CodeLogDivLineY r \<Longrightarrow>
      f + 12 \<le> l \<and> f + 4 \<le> DisasmCodeDivLineY r \<and> DisasmCodeDivLineY r + 8 \<le> l"
    and y: "y = (if p = CodeLog \<and> 0 \<le> DisasmCodeDivLineY r then DisasmCodeDivLineY r else f)"
    and set: "settled (Some p) f l (DisasmCodeDivLineY (set_row p (y + n + 1) r)) (CodeLogDivLineY (set_row p (y + n + 1) r)) = (D, C)"
  shows "(if p = DisasmCode then D - f else C - (if 0 \<le> DisasmCodeDivLineY r then D else f)) =
    min (n + 1) (l - f - 4 * int (length (movable_rows r)))"
proof (cases "0 \<le> DisasmCodeDivLineY r \<and> 0 \<le> CodeLogDivLineY r")
  case True
  then have m: "length (movable_rows r) = 2" by (simp add: movable_rows_def visible_def)
  note b = room [OF conjunct1 [OF True] conjunct2 [OF True]]
  show ?thesis
  proof (cases "p = DisasmCode")
    case p: True
    then have "D = min (f + n + 1) (l - 8)"
      using settled_first [OF n f, of "CodeLogDivLineY r" l] b set True y by simp
    then show ?thesis using p m by simp
  next
    case False
    then have "C - D = min (n + 1) (l - 8 - f)"
      using settled_second [OF n _ _ f, of "DisasmCodeDivLineY r" l D C] b set p True y by simp
    then show ?thesis using False m True by (simp add: algebra_simps)
  qed
next
  case False
  then have m: "length (movable_rows r) = 1" "y = f" using p v y by (auto simp: movable_rows_def visible_def)
  have "(if p = DisasmCode then D else C) = settle f l (f + n + 1)"
    using set p False v m(2) f n by (auto simp: settled_def)
  then show ?thesis using settle_first [OF n] m(1) p False v by (auto split: if_splits)
qed

lemma resize_visible:
  assumes p: "p = DisasmCode \<or> p = CodeLog" and s: "room (r, u, w)" "arranged (r, u, w)" "0 \<le> line_row p r" and n: "3 \<le> n" "n \<le> 160"
  shows "\<exists>s'. resize p n (r, u, w) = (s', ResRedrawUi) \<and> arranged s' \<and> window_height p s' = min n (max_height s')"
proof -
  let ?r = "set_row p (row_above p r + n + 1) r"
  have h: "WndHeight u < 2 ^ 30" "0 \<le> fixed_row r" using s(1) by (auto simp: room_def fixed_row_def)
  have "WndHeight u < 2 ^ 31" using h(1) by simp
  note b = row_bounds [OF s(2) this]
  have y: "0 \<le> row_above p r" "row_above p r \<le> WndHeight u" using b h p s(3) by (auto simp: row_above_def)
  then have l: "LONG (row_above p r + n + 1) = row_above p r + n + 1" using n h(1) by (intro LONG_small) auto
  have r: "fixed_row ?r = fixed_row r" "length (movable_rows ?r) = length (movable_rows r)"
    "0 \<le> DisasmCodeDivLineY ?r \<longleftrightarrow> 0 \<le> DisasmCodeDivLineY r" "0 \<le> CodeLogDivLineY ?r \<longleftrightarrow> 0 \<le> CodeLogDivLineY r"
    using p s(3) y n by (auto simp: fixed_row_def movable_rows_def visible_def)
  have rm: "room (?r, u, w)" using s(1) r by (simp add: room_def)
  obtain r' u' w' where c: "CheckDivLineYs (Some p) (?r, u, w) = (r', u', w')" by (cases "CheckDivLineYs (Some p) (?r, u, w)") auto
  have e: "resize p n (r, u, w) = ((r', u', w'), ResRedrawUi)"
    using row_before_visible [OF p s(3)] s(3) c l by (simp add: resize_def)
  obtain D C where DC: "checked (Some p) (?r, u, w) = (D, C)" by (cases "checked (Some p) (?r, u, w)")
  have r': "DisasmCodeDivLineY r' = D" "CodeLogDivLineY r' = C" "RegsDisasmDivLineY r' = RegsDisasmDivLineY r" "WndHeight u' = WndHeight u"
    using CheckDivLineYs_spec [OF rm DC] c p by auto
  note a = check_arranged [OF rm c]
  have f: "fixed_row r' = fixed_row r" "length (movable_rows r') = length (movable_rows r)"
    using a r'(3) r(3,4) by (auto simp: fixed_row_def movable_rows_def visible_def)
  have bb: "fixed_row r + 12 \<le> WndHeight u - 3 \<and> fixed_row r + 4 \<le> DisasmCodeDivLineY r \<and> DisasmCodeDivLineY r + 8 \<le> WndHeight u - 3"
    if "0 \<le> DisasmCodeDivLineY r" "0 \<le> CodeLogDivLineY r" using b(2-4) that by simp
  have "settled (Some p) (fixed_row r) (WndHeight u - 3) (DisasmCodeDivLineY ?r) (CodeLogDivLineY ?r) = (D, C)"
    using DC r(1) by (simp add: checked_def)
  note rows = resized_rows [OF p s(3) n(1) h(2) bb row_above_def this]
  have "line_row p r' - row_above p r' = min (n + 1) (WndHeight u - 3 - fixed_row r - 4 * int (length (movable_rows r)))"
    using rows p r' f a r(3) by (auto simp: row_above_def)
  then have "window_height p (r', u', w') = min n (max_height (r', u', w'))"
    using f r'(4) by (simp add: window_height_def max_height_def)
  then show ?thesis using e a by blast
qed

lemma resize_shown:
  assumes p: "p = DisasmCode \<or> p = CodeLog" and "room (show_window p s)" "line_row p (fst s) < 0 \<or> arranged s" "3 \<le> n" "n \<le> 160"
  shows "\<exists>s'. resize p n s = (s', ResRedrawUi) \<and> arranged s' \<and> window_height p s' = min n (max_height s')"
proof (cases "line_row p (fst s) < 0")
  case True
  obtain r u w where s: "s = (r, u, w)" by (cases s) auto
  let ?r = "set_row p (- line_row p r) r"
  have rm: "room (?r, u, w)" using assms(2) True by (simp add: s show_window_def)
  obtain r' u' w' where c: "CheckDivLineYs None (?r, u, w) = (r', u', w')" by (cases "CheckDivLineYs None (?r, u, w)") auto
  note a = check_arranged [OF rm c]
  have v: "0 \<le> line_row p r'" using a p True by (auto simp: s)
  have "resize p n s = resize p n (r', u', w')" using True v c by (simp add: resize_def toggle_def s)
  then show ?thesis using resize_visible [OF p _ _ v assms(4,5), of u' w'] a by simp
next
  case False
  obtain r u w where s: "s = (r, u, w)" by (cases s) auto
  show ?thesis using resize_visible [OF p _ _ _ assms(4,5), of r u w] assms(2,3) False by (simp add: s show_window_def)
qed

lemma ulong_arg_decimal: "n < 2 ^ 32 \<Longrightarrow> ulong_arg (decimal n) = Some (Some (int n))"
proof -
  assume n: "n < 2 ^ 32"
  obtain ds where ds: "is_digits 10 (decimal n) ds" "digits_value 10 ds 0 = n" "is_dec (decimal n)" using decimal_digits by blast
  obtain e where e: "BC_strtoui64 (decimal n @ [0]) False 10 = Some (word_of_nat n, e)"
    using strtoui64_digits [OF ds(1)] ds(2,3) n by (auto simp: is_dec_def)
  have "uint (word_of_nat n :: u64) = int n" using n by (simp add: unsigned_of_nat take_bit_nat_eq_self)
  then show ?thesis using e ds(3) n by (simp add: ulong_arg_def is_dec_def ULONG_def)
qed

text \<open>
  C11: \<open>WD n\<close> and \<open>WS n\<close> give the window \<open>n\<close> rows, or as many as there are when the other windows keep
  three each: with \<open>n\<close> from 3 to 160, the window, shown first if it was hidden, has exactly the smaller
  of the two heights, and the layout stays arranged.
\<close>

theorem window_resized:
  assumes "p = DisasmCode \<or> p = CodeLog" and "room (show_window p s)" "line_row p (fst s) < 0 \<or> arranged s"
    and "ToLower name = ToLower cmdId" "trim cmd = name @ 0x20 # decimal n" "3 \<le> n" "n \<le> 160"
  shows "\<exists>s'. window_command m cmdId p cmd s = Some (s', ResRedrawUi) \<and> arranged s' \<and>
    window_height p s' = min (int n) (max_height s')"
proof -
  have solid: "trim (decimal n) = decimal n"
  proof (rule trim_solid)
    have "list_all (\<lambda>c. \<not> is_blank c) (decimal n)" "decimal n \<noteq> []"
      using decimal_digits [of n] by (auto simp: is_dec_def list_all_iff is_blank_def)
    then show "decimal n = [] \<or> \<not> is_blank (hd (decimal n)) \<and> \<not> is_blank (last (decimal n))" by (simp add: list_all_iff)
  qed
  have ne: "decimal n \<noteq> []" by (subst decimal.simps) simp
  have "trim (0x20 # decimal n) = decimal n" using solid by (simp add: trim_def ltrim_def is_blank_def)
  then have args: "TokenizeVec cmd [cmdId] = [ToLower cmdId, decimal n]"
    using TokenizeVec_command [OF assms(5,4)] ne by simp
  obtain s' where "resize p (int n) s = (s', ResRedrawUi)" "arranged s'" "window_height p s' = min (int n) (max_height s')"
    using resize_shown [OF assms(1-3), of "int n"] assms(6,7) by auto
  then show ?thesis using args solid ulong_arg_decimal [of n] assms(6,7) by (simp add: window_command_def Let_def)
qed


definition no_sizes :: measured where
  "no_sizes = \<lparr>added_size = \<lambda>cs cs'. 0, erased_size = \<lambda>cs. 0\<rparr>"

theorem window_resized_witness:
  "\<exists>s'. Execute_WD no_sizes (msg ''wd 30'') example_arranged = Some (s', ResRedrawUi) \<and> window_height DisasmCode s' = 6"
proof -
  have a: "room (show_window DisasmCode example_arranged)" "arranged example_arranged" by code_simp+
  have t: "ToLower (msg ''wd'') = ToLower (msg ''WD'')" "trim (msg ''wd 30'') = msg ''wd'' @ 0x20 # decimal 30"
    by code_simp (simp add: trim_def ltrim_def is_blank_def decimal.simps)
  obtain s' where s: "window_command no_sizes (msg ''WD'') DisasmCode (msg ''wd 30'') example_arranged = Some (s', ResRedrawUi)"
    "window_height DisasmCode s' = min 30 (max_height s')"
    using window_resized [of DisasmCode example_arranged "msg ''wd''" "msg ''WD''" "msg ''wd 30''" 30 no_sizes] a t by auto
  have "map_option (\<lambda>(s, x). max_height s) (Execute_WD no_sizes (msg ''wd 30'') example_arranged) = Some 6" by code_simp
  then show ?thesis using s by (auto simp: Execute_WD_def)
qed

section \<open>The size of the screen\<close>

lemma CheckWndWidthHeight_small:
  assumes "0 \<le> W" "W \<le> 160" "0 \<le> H" "H \<le> 160"
  shows "CheckWndWidthHeight r W H \<longleftrightarrow> ULONG (fbWidth r * fbHeight r * 4) \<le> fbMapSize r \<and>
    W * H \<le> TextBuffersDim \<and> W * H * 576 \<le> VideoRestoreBufferSize \<and> W * 9 \<le> fbWidth r \<and> H * 16 \<le> fbHeight r"
proof -
  have "W * H \<le> 160 * 160" using assms by (intro mult_mono) auto
  moreover have "0 \<le> W * H" using assms by simp
  moreover have "ULONG P = P \<and> ULONG (P * GlyphWidth * GlyphHeight) = P * 144 \<and> ULONG (P * 144 * 4) = P * 576"
    if "0 \<le> P" "P \<le> 160 * 160" for P
    using that by (simp add: ULONG_def GlyphWidth_def GlyphHeight_def)
  ultimately have p: "ULONG (W * H) = W * H" "ULONG (W * H * GlyphWidth * GlyphHeight) = W * H * 144" "ULONG (W * H * 144 * 4) = W * H * 576"
    by blast+
  have g: "ULONG (W * GlyphWidth) = W * 9" "ULONG (H * GlyphHeight) = H * 16"
    using assms by (simp_all add: ULONG_def GlyphWidth_def GlyphHeight_def)
  show ?thesis unfolding CheckWndWidthHeight_def Let_def p g by auto
qed

lemma CheckWndWidthHeight_mono:
  assumes "CheckWndWidthHeight r W H" "0 \<le> W'" "W' \<le> W" "0 \<le> H'" "H' \<le> H" "W \<le> 160" "H \<le> 160"
  shows "CheckWndWidthHeight r W' H'"
proof -
  have "W' * H' \<le> W * H" using assms by (intro mult_mono) auto
  then show ?thesis using assms CheckWndWidthHeight_small [of W H r] CheckWndWidthHeight_small [of W' H' r] by simp
qed

text \<open>The largest value from \<open>a\<close> down to \<open>b\<close> with a property.\<close>

definition largest_upto :: "(int \<Rightarrow> bool) \<Rightarrow> int \<Rightarrow> int \<Rightarrow> bool" where
  "largest_upto P a x \<longleftrightarrow> x \<le> a \<and> P x \<and> (\<forall>y. x < y \<and> y \<le> a \<longrightarrow> \<not> P y)"

lemma largest_step: "\<not> P a \<Longrightarrow> largest_upto P (a - 1) x \<Longrightarrow> largest_upto P a x"
  by (auto simp: largest_upto_def) (metis order_less_le zle_diff1_eq)

text \<open>The dimension that the command sets, and the other one.\<close>

definition admits :: "bool \<Rightarrow> layout \<Rightarrow> int \<Rightarrow> int \<Rightarrow> bool" where
  "admits isWidth r y x \<longleftrightarrow> (if isWidth then CheckWndWidthHeight r x y else CheckWndWidthHeight r y x)"

lemma shrink_finds:
  assumes "b \<le> a" "admits isWidth r y b" "0 \<le> b" "a \<le> 160"
  shows "\<exists>x. shrink_loop isWidth r (if isWidth then a else y) (if isWidth then y else a) =
      Some (if isWidth then x else y, if isWidth then y else x) \<and> b \<le> x \<and> largest_upto (admits isWidth r y) a x"
  using assms
proof (induction a rule: int_ge_induct)
  case base
  then show ?case by (subst shrink_loop.simps) (auto simp: largest_upto_def admits_def intro!: exI [of _ b])
next
  case (step a)
  show ?case
  proof (cases "admits isWidth r y (a + 1)")
    case True
    then show ?thesis using step.hyps by (subst shrink_loop.simps) (auto simp: largest_upto_def admits_def intro!: exI [of _ "a + 1"])
  next
    case False
    then obtain x where x: "shrink_loop isWidth r (if isWidth then a else y) (if isWidth then y else a) =
        Some (if isWidth then x else y, if isWidth then y else x)" "b \<le> x" "largest_upto (admits isWidth r y) a x"
      using step by auto
    have "ULONG a = a" using step by (simp add: ULONG_def)
    moreover have "largest_upto (admits isWidth r y) (a + 1) x" using largest_step [of _ "a + 1" x] False x(3) by simp
    ultimately show ?thesis using False x(1,2) by (subst shrink_loop.simps) (auto simp: admits_def)
  qed
qed

text \<open>
  C13: \<open>WIDTH\<close> and \<open>LINES\<close> find the largest size that fits: when the present size is admitted and the
  value asked for is at most 160, the loop ends with the largest value up to it that the check admits,
  and not less than the present one unless less was asked for. When the frame buffer is larger than
  its mapping, no size is admitted, and the loop does not end.
\<close>

theorem screen_size_found:
  "(CheckWndWidthHeight r W H \<and> 0 \<le> W \<and> W \<le> 160 \<and> 0 \<le> H \<and> H \<le> 160 \<and> 0 \<le> n \<and> n \<le> 160 \<longrightarrow>
     (\<exists>x. shrink_loop True r n H = Some (x, H) \<and> min n W \<le> x \<and> largest_upto (\<lambda>x. CheckWndWidthHeight r x H) n x) \<and>
     (\<exists>x. shrink_loop False r W n = Some (W, x) \<and> min n H \<le> x \<and> largest_upto (\<lambda>x. CheckWndWidthHeight r W x) n x)) \<and>
   (ULONG (fbWidth r * fbHeight r * 4) > fbMapSize r \<longrightarrow> shrink_loop b r W H = None)"
proof (intro conjI impI)
  assume "ULONG (fbWidth r * fbHeight r * 4) > fbMapSize r"
  then have no: "\<not> CheckWndWidthHeight r x y" for x y by (simp add: CheckWndWidthHeight_def)
  have "CheckWndWidthHeight r (fst q) (snd q)" if "shrink_loop b r W H = Some q" for q
    by (rule shrink_loop.raw_induct [where P = "\<lambda>b r W H q. CheckWndWidthHeight r (fst q) (snd q)", OF _ that])
      (auto split: if_splits)
  then show "shrink_loop b r W H = None" using no by (cases "shrink_loop b r W H") auto
next
  assume a: "CheckWndWidthHeight r W H \<and> 0 \<le> W \<and> W \<le> 160 \<and> 0 \<le> H \<and> H \<le> 160 \<and> 0 \<le> n \<and> n \<le> 160"
  have "admits True r H (min n W)" "admits False r W (min n H)"
    using a by (auto simp: admits_def intro: CheckWndWidthHeight_mono)
  moreover have "admits True r H = (\<lambda>x. CheckWndWidthHeight r x H)" "admits False r W = (\<lambda>x. CheckWndWidthHeight r W x)"
    by (auto simp: admits_def)
  ultimately show "\<exists>x. shrink_loop True r n H = Some (x, H) \<and> min n W \<le> x \<and> largest_upto (\<lambda>x. CheckWndWidthHeight r x H) n x"
    "\<exists>x. shrink_loop False r W n = Some (W, x) \<and> min n H \<le> x \<and> largest_upto (\<lambda>x. CheckWndWidthHeight r W x) n x"
    using a shrink_finds [of "min n W" n True r H] shrink_finds [of "min n H" n False r W] by simp_all
qed

theorem screen_size_found_witness:
  "shrink_loop True (fst example_layout) 100 25 = Some (88, 25) \<and>
   shrink_loop True ((fst example_layout)\<lparr>fbMapSize := 1000\<rparr>) 100 25 = None"
proof -
  have "CheckWndWidthHeight (fst example_layout) 80 25" by code_simp
  then obtain x where x: "shrink_loop True (fst example_layout) 100 25 = Some (x, 25)"
    "largest_upto (\<lambda>x. CheckWndWidthHeight (fst example_layout) x 25) 100 x"
    using screen_size_found [of "fst example_layout" 80 25 100] by auto
  have "shrink_loop True (fst example_layout) 100 25 = Some (88, 25)" by code_simp
  moreover have "fbMapSize ((fst example_layout)\<lparr>fbMapSize := 1000\<rparr>) < ULONG (fbWidth ((fst example_layout)\<lparr>fbMapSize := 1000\<rparr>) *
      fbHeight ((fst example_layout)\<lparr>fbMapSize := 1000\<rparr>) * 4)" by code_simp
  ultimately show ?thesis using x screen_size_found [of "(fst example_layout)\<lparr>fbMapSize := 1000\<rparr>" 100 25 0 True] by simp
qed

end
