(* ===== verification/Spec2Isabelle.thy ===== *)
theory Spec2Isabelle
  imports Cutils Dyn_Buf Utf8 Exchange Rqsort Rqsort_Correct Char_Range Linked_List Unicode_Lookup_Correct
    Bitmap_Test Allocator_Correct CrtFill X86Step Ps2Keyb CodeWnd_Correct Symbols_Correct
    LogWnd Highlight InputLine_Correct Cmd_Table Cmd_Windows
begin

text \<open>
  \<^bold>\<open>A verification development of BugChecker\<close>

  BugChecker is a kernel debugger that runs inside the machine it debugs. Its driver
  (\<open>src/BugChecker\<close>) brings its own memory allocator, because the pool of the kernel cannot be used
  while the processors are frozen, its own keyboard driver and text windows, a symbol reader, a
  calculator of step destinations and an embedded JavaScript engine (\<open>src/BugChecker/QuickJS\<close>), whose
  support libraries carry buffers, sorting, character ranges and Unicode tables. The development
  models these parts as functions on explicit states and proves what the callers rely on.

  \<^bold>\<open>Conventions.\<close> Memory is a list of bytes per block; a load or store outside a block, and running
  off a table, is the value \<open>None\<close>, so that a theorem that ends in \<open>Some\<close> or \<open>Inr\<close> also says that no
  access leaves its block. Fixed-width integers are words where the code depends on their width, and
  natural numbers or integers elsewhere; each theory says which. Errors of the program are values:
  return codes as in the C code, \<open>alloc_error\<close> for the fatal errors of the allocator. The allocation
  functions that the code receives as pointers are parameters, described by locales.

  \<^bold>\<open>Theories, in the order of their dependencies.\<close>

  \<^item> \<^bold>\<open>Prelude\<close>: the word types, reading and writing in blocks, and list lemmas.

  \<^item> \<^bold>\<open>Cutils\<close> (\<open>QuickJS/cutils.c\<close>, \<open>cutils.h\<close>): integer helpers, unaligned accessors, byte swaps and
  C strings. Copying truncates and terminates, prefix and suffix tests are exact, \<open>ctz32\<close> is shown to
  be mirrored.

  \<^item> \<^bold>\<open>Dyn_Buf\<close> (\<open>cutils.c\<close>): the growing buffer over any reallocation function (locale for its
  contract). A sequence of appends refines concatenation, errors are sticky and change nothing.

  \<^item> \<^bold>\<open>Utf8\<close> (\<open>cutils.c\<close>): the coder and decoder, a round trip and its converse.

  \<^item> \<^bold>\<open>Exchange\<close>, \<^bold>\<open>Rqsort\<close>, \<^bold>\<open>Rqsort_Correct\<close> (\<open>cutils.c\<close>): the exchange routines selected by
  alignment and size, heap sort, and the quicksort with its explicit stack of fifty segments. The
  model runs on an element list; \<open>Exchange\<close> shows that the byte routines exchange elements. It
  terminates without overrunning the stack, permutes, and sorts for every total preorder.

  \<^item> \<^bold>\<open>Char_Range\<close> (\<open>QuickJS/libunicode.c\<close>): sets of code points as sorted end points. Union,
  intersection, difference and inversion compute the set operations in canonical form.

  \<^item> \<^bold>\<open>Linked_List\<close> (\<open>QuickJS/list.h\<close>): circular lists over a heap of cells, refining sequences.

  \<^item> \<^bold>\<open>Unicode_Tables\<close>, \<^bold>\<open>Unicode_Lookup\<close>, \<^bold>\<open>Unicode_Lookup_Correct\<close> (\<open>libunicode.c\<close>,
  \<open>libunicode-table.h\<close>): case conversion and classification over the shipped tables, every value
  included; the sparse index agrees with a scan of the whole table.

  \<^item> \<^bold>\<open>Bitmap\<close>, \<^bold>\<open>Bitmap_Correct\<close>, \<^bold>\<open>Bitmap_Test\<close>, \<^bold>\<open>Allocator\<close>, \<^bold>\<open>Allocator_Correct\<close>
  (\<open>Allocator.cpp\<close>): the bitmap with its search by 64-bit buckets, the arena, the pool map and the
  operators \<open>new\<close> and \<open>delete\<close>. Sessions of any length keep the live regions
  disjoint and leak nothing; the pool is only assumed to give at least the memory asked for, and an
  allocation that ends with the last block is refused when the bitmap has no byte to spare.

  \<^item> \<^bold>\<open>Utils\<close>, \<^bold>\<open>CrtFill\<close> (\<open>Utils.cpp\<close>, \<open>CrtFill.cpp\<close>): string search, tokens, structured files,
  hexadecimal output and the number parser with its exact overflow check.

  \<^item> \<^bold>\<open>X86Step\<close> (\<open>X86Step.cpp\<close>): where a step goes, against the jump conditions of the processor.

  \<^item> \<^bold>\<open>Ps2Keyb\<close> (\<open>Ps2Keyb.cpp\<close>): scancode tables and modifier keys.

  \<^item> \<^bold>\<open>Wnd\<close>, \<^bold>\<open>CodeWnd\<close>, \<^bold>\<open>CodeWnd_Correct\<close> (\<open>Wnd.cpp\<close>, \<open>CodeWnd.cpp\<close>): lines with colour tags, the
  cursor, and the script editor. Every sequence of keys acts on the document as on a plain editor of
  lines, scrolling keeps the cursor on the screen, and syntax colouring never changes the text.

  \<^item> \<^bold>\<open>Symbols\<close>, \<^bold>\<open>Bcs_File\<close>, \<^bold>\<open>Symbols_Correct\<close> (\<open>Symbols.cpp\<close>, \<open>SymbolFile.cpp\<close>, \<open>pdb/cpp/bcs.cpp\<close>):
  the symbol file as bytes, written by the converter and read by the debugger. What was added is found
  again: public symbols by address and by name, types and their members by name. The sorting function
  of the C++ library is a parameter with its contract as a hypothesis.

  \<^item> \<^bold>\<open>Session\<close>: runs of an operation over a sequence of keys, and a locale for operations that
  simulate an abstract step while an invariant holds; the log and the input line interpret it.

  \<^item> \<^bold>\<open>LogWnd\<close> (\<open>LogWnd.cpp\<close>): the lines of the log. Text is added as a stream whatever its pieces,
  only old lines are dropped, and scrolling stays in range.

  \<^item> \<^bold>\<open>Highlight\<close> (\<open>Wnd.cpp\<close>): the search for hexadecimal numbers on the screen, exact and in
  reading order.

  \<^item> \<^bold>\<open>InputLine\<close>, \<^bold>\<open>InputLine_Correct\<close> (\<open>InputLine.cpp\<close>): the command line with its scroll offset,
  history and completion. It refines a plain line editor, commands come back from the log, and the tab
  key goes round the completions of the screen and the symbol files.

  \<^item> \<^bold>\<open>Cmd_Table\<close> (the \<open>Cmd_\<close> files): the names and help texts of the commands; each is found by its
  name only.

  \<^item> \<^bold>\<open>Layout\<close>, \<^bold>\<open>Frame_Buffer\<close> (\<open>Wnd.cpp\<close>): the dividing lines and the places of the windows, and the
  pixels under the debugger's window. The check of the layout arranges any rows and is idempotent, the
  windows tile the screen, and the screen is given back as it was when the mapping covers the lines of
  the frame buffer.

  \<^item> \<^bold>\<open>Cmd_Args\<close>, \<^bold>\<open>Cmd_Windows\<close> (\<open>Cmd.cpp\<close>, \<open>Cmd_WR_WD_WS.cpp\<close>, \<open>Cmd_LINES_WIDTH.cpp\<close>): splitting
  command lines into arguments, lists of numbers, and the commands that resize windows and screen.

  \<^bold>\<open>Bounds and fuel.\<close> Loops are structural or have a proved measure. The quicksort takes the size of
  its stack from the source, and the proof shows that it is never exceeded. No result rests on fuel
  that might run out.

  \<^bold>\<open>Not modelled.\<close> The JavaScript engine, the regular expression engine and the big float library,
  the exchange of debugger packets, the commands that read target memory through coroutines, pixel
  output, the tables of kernel structure offsets, the driver's system calls, the Windows programs
  that install the debugger and load symbols, and the vendored libraries.
\<close>

end
